(* ===== verification/Lsm_Prelude.thy ===== *)
theory Lsm_Prelude
  imports Main "HOL-Library.Word" "HOL-Library.List_Lexorder"
begin

text \<open>
  Shared types and lemmas of the development: the machine integers of the crate, byte strings
  and their lexicographic order, the error type of \<^verbatim>\<open>src/src/error.rs\<close> with its \<open>Result\<close>,
  comparison outcomes and the contract of a comparison closure, bounds-checked slices, and the
  fixed-width little-endian integer codec that every on-disk structure uses.
\<close>

unbundle bit_operations_syntax

section \<open>Machine types\<close>

type_synonym byte = "8 word"
type_synonym bytes = "8 word list"
type_synonym u16 = "16 word"
type_synonym u32 = "32 word"
type_synonym u64 = "64 word"

text \<open>
  Facts about the byte codecs are collected in \<open>codec\<close>, the length facts of encoders in
  \<open>codec_len\<close>: component proofs add the collection to the simplifier instead of listing them.
\<close>

named_theorems codec "round-trip and decoding rules of the byte codecs"
named_theorems codec_len "lengths of encoded values"

section \<open>Errors and results\<close>

text \<open>
  \<open>MulanError\<close>. The messages are kept as plain strings (interpolated values are dropped).
  \<open>Panicked\<close> is not a variant of the Rust enum: it stands for an unwinding panic (an index out
  of range, an arithmetic overflow under overflow checks, a failed \<open>assert!\<close>), so that code which
  may panic still has a value.
\<close>

datatype mulan_error =
    NotFound
  | InvalidArgument string
  | Corrupted string
  | Io string
  | NotSupported string
  | Panicked string

type_synonym 'a res = "mulan_error + 'a"

text \<open>The question-mark operator of Rust: pass an error on, or continue with the value.\<close>

definition bind_res :: "'a res \<Rightarrow> ('a \<Rightarrow> 'b res) \<Rightarrow> 'b res" where
  "bind_res r f = (case r of Inl e \<Rightarrow> Inl e | Inr x \<Rightarrow> f x)"

lemma bind_res_simps [simp]:
  "bind_res (Inl e) f = Inl e"
  "bind_res (Inr x) f = f x"
  by (simp_all add: bind_res_def)

lemma bind_res_eq_Inr: "bind_res r f = Inr y \<longleftrightarrow> (\<exists>x. r = Inr x \<and> f x = Inr y)"
  by (cases r) auto

lemma bind_res_eq_Inl: "bind_res r f = Inl e \<longleftrightarrow> r = Inl e \<or> (\<exists>x. r = Inr x \<and> f x = Inl e)"
  by (cases r) auto

lemma bind_res_cong [fundef_cong]:
  "r = r' \<Longrightarrow> (\<And>x. r' = Inr x \<Longrightarrow> f x = f' x) \<Longrightarrow> bind_res r f = bind_res r' f'"
  by (cases r') auto

text \<open>
  The same for operations that change a state: the state is returned also when the operation fails, as
  the code leaves it.
\<close>

definition then_do :: "'a res \<times> 's \<Rightarrow> ('a \<Rightarrow> 's \<Rightarrow> 'b res \<times> 's) \<Rightarrow> 'b res \<times> 's" where
  "then_do r f = (case r of (Inl e, s) \<Rightarrow> (Inl e, s) | (Inr x, s) \<Rightarrow> f x s)"

lemma then_do_simps [simp]:
  "then_do (Inl e, s) f = (Inl e, s)"
  "then_do (Inr x, s) f = f x s"
  by (simp_all add: then_do_def)

lemma then_do_eq_Inr: "then_do r f = (Inr y, s') \<longleftrightarrow> (\<exists>x s. r = (Inr x, s) \<and> f x s = (Inr y, s'))"
  by (cases r; cases "fst r") auto

lemma then_do_cong [fundef_cong]:
  "r = r' \<Longrightarrow> (\<And>x s. r' = (Inr x, s) \<Longrightarrow> f x s = f' x s) \<Longrightarrow> then_do r f = then_do r' f'"
  by (cases r'; cases "fst r'") auto

text \<open>Rust's \<open>ok_or\<close>, \<open>.ok()\<close> and \<open>get(a..b)\<close>.\<close>

definition ok_or :: "'a option \<Rightarrow> mulan_error \<Rightarrow> 'a res" where
  "ok_or x e = (case x of None \<Rightarrow> Inl e | Some y \<Rightarrow> Inr y)"

definition ok_opt :: "'a res \<Rightarrow> 'a option" where
  "ok_opt r = (case r of Inl e \<Rightarrow> None | Inr y \<Rightarrow> Some y)"

lemma ok_or_simps [simp]: "ok_or None e = Inl e" "ok_or (Some y) e = Inr y"
  by (simp_all add: ok_or_def)

lemma ok_opt_simps [simp]: "ok_opt (Inl e) = None" "ok_opt (Inr y) = Some y"
  by (simp_all add: ok_opt_def)

text \<open>\<open>slice.get(a..)\<close> and \<open>slice.get(a..b)\<close>: \<open>None\<close> when the range leaves the slice.\<close>

definition get_from :: "'a list \<Rightarrow> nat \<Rightarrow> 'a list option" where
  "get_from xs a = (if a \<le> length xs then Some (drop a xs) else None)"

definition get_range :: "'a list \<Rightarrow> nat \<Rightarrow> nat \<Rightarrow> 'a list option" where
  "get_range xs a b = (if a \<le> b \<and> b \<le> length xs then Some (take (b - a) (drop a xs)) else None)"

text \<open>The panicking forms \<open>&s[a..]\<close>, \<open>&s[a..b]\<close>.\<close>

definition slice_from :: "'a list \<Rightarrow> nat \<Rightarrow> 'a list res" where
  "slice_from xs a = ok_or (get_from xs a) (Panicked ''slice index out of range'')"

definition slice_range :: "'a list \<Rightarrow> nat \<Rightarrow> nat \<Rightarrow> 'a list res" where
  "slice_range xs a b = ok_or (get_range xs a b) (Panicked ''slice index out of range'')"

text \<open>\<open>usize\<close> arithmetic with overflow checks (the profile tests run in).\<close>

definition usize_max :: nat where
  "usize_max = 18446744073709551615"

definition usize_add :: "nat \<Rightarrow> nat \<Rightarrow> nat res" where
  "usize_add a b = (if a + b \<le> usize_max then Inr (a + b) else Inl (Panicked ''attempt to add with overflow''))"

definition checked_add :: "nat \<Rightarrow> nat \<Rightarrow> nat option" where
  "checked_add a b = (if a + b \<le> usize_max then Some (a + b) else None)"

text \<open>\<open>u64\<close> increments, and indexing, under the same checks.\<close>

definition u64_succ :: "u64 \<Rightarrow> u64 res" where
  "u64_succ s = (if s = - 1 then Inl (Panicked ''attempt to add with overflow'') else Inr (s + 1))"

definition index_res :: "'a option \<Rightarrow> 'a res" where
  "index_res x = ok_or x (Panicked ''index out of bounds'')"

lemma index_res_Some [simp]: "index_res (Some x) = Inr x"
  by (simp add: index_res_def)

lemma u64_succ_less:
  assumes "u64_succ s = Inr t"
  shows "t = s + 1 \<and> s < t"
proof -
  have "s \<noteq> - 1" and t: "t = s + 1" using assms by (auto simp: u64_succ_def split: if_splits)
  then have "s + 1 \<noteq> 0" by (simp add: eq_neg_iff_add_eq_0)
  then have "unat (s + 1) = Suc (unat s)" by (metis Suc_eq_plus1 add.commute unatSuc)
  then show ?thesis by (simp add: t word_less_nat_alt)
qed

lemma get_from_append [simp]: "get_from (xs @ ys) (length xs) = Some ys"
  by (simp add: get_from_def)

lemma get_range_append [simp]: "get_range (xs @ ys @ zs) (length xs) (length xs + length ys) = Some ys"
  by (simp add: get_range_def)

lemma get_range_Some_length: "get_range xs a b = Some ys \<Longrightarrow> a \<le> b \<and> b \<le> length xs \<and> length ys = b - a"
  by (auto simp: get_range_def split: if_splits)

lemma get_range_middle:
  "length xs = a \<Longrightarrow> b = a + length ys \<Longrightarrow> get_range (xs @ ys @ zs) a b = Some ys"
  by (simp add: get_range_def)

section \<open>Comparison outcomes\<close>

text \<open>\<open>std::cmp::Ordering\<close>, \<open>Ord::cmp\<close> of a linear order, and \<open>Ordering::reverse\<close>.\<close>

datatype ordering = Less | Equal | Greater

definition cmp :: "'a::linorder \<Rightarrow> 'a \<Rightarrow> ordering" where
  "cmp x y = (if x < y then Less else if x = y then Equal else Greater)"

fun reverse_ord :: "ordering \<Rightarrow> ordering" where
  "reverse_ord Less = Greater"
| "reverse_ord Equal = Equal"
| "reverse_ord Greater = Less"

lemma cmp_simps [simp]:
  "cmp x y = Less \<longleftrightarrow> x < y"
  "cmp x y = Equal \<longleftrightarrow> x = y"
  "cmp x y = Greater \<longleftrightarrow> y < x"
  by (auto simp: cmp_def)

lemma reverse_ord_simps [simp]:
  "reverse_ord c = Less \<longleftrightarrow> c = Greater"
  "reverse_ord c = Equal \<longleftrightarrow> c = Equal"
  "reverse_ord c = Greater \<longleftrightarrow> c = Less"
  by (cases c; simp)+

text \<open>
  The contract of the comparison closures the block and table code takes
  (\<open>&dyn Fn(&[u8], &[u8]) -> Ordering\<close>): a total preorder. Lookup correctness is proved once
  from it and used for both closures of the program.
\<close>

locale key_comparator =
  fixes kcmp :: "bytes \<Rightarrow> bytes \<Rightarrow> ordering"
  assumes kcmp_refl: "kcmp x x = Equal"
    and kcmp_swap: "kcmp y x = reverse_ord (kcmp x y)"
    and kcmp_trans: "kcmp x y \<noteq> Greater \<Longrightarrow> kcmp y z \<noteq> Greater \<Longrightarrow> kcmp x z \<noteq> Greater"
begin

lemma greater_less: "kcmp x y = Greater \<longleftrightarrow> kcmp y x = Less"
  using kcmp_swap [of x y] by auto

lemma equal_sym: "kcmp x y = Equal \<longleftrightarrow> kcmp y x = Equal"
  using kcmp_swap [of x y] by auto

lemma not_less_iff: "kcmp x y \<noteq> Less \<longleftrightarrow> kcmp y x \<noteq> Greater"
  using greater_less [of y x] by simp

lemma less_trans_le:
  assumes "kcmp x y = Less" and "kcmp y z \<noteq> Greater"
  shows "kcmp x z = Less"
proof (rule ccontr)
  assume "kcmp x z \<noteq> Less"
  then have "kcmp z x \<noteq> Greater" by (simp only: not_less_iff not_False_eq_True)
  with assms(2) have "kcmp y x \<noteq> Greater" by (rule kcmp_trans)
  with assms(1) show False by (metis greater_less)
qed

lemma le_trans_less:
  assumes "kcmp x y \<noteq> Greater" and "kcmp y z = Less"
  shows "kcmp x z = Less"
proof (rule ccontr)
  assume "kcmp x z \<noteq> Less"
  then have "kcmp z x \<noteq> Greater" by (simp only: not_less_iff not_False_eq_True)
  then have "kcmp z y \<noteq> Greater" using assms(1) by (rule kcmp_trans)
  with assms(2) show False by (metis greater_less)
qed

lemma greater_mono: "kcmp t y = Greater \<Longrightarrow> kcmp x y \<noteq> Greater \<Longrightarrow> kcmp t x = Greater"
  using le_trans_less [of x y t] by (metis greater_less)

lemma greater_mono_le: "kcmp t y \<noteq> Less \<Longrightarrow> kcmp x y = Less \<Longrightarrow> kcmp t x = Greater"
  using less_trans_le [of x y t] by (metis greater_less not_less_iff)

lemma greater_equal_mono: "kcmp t y \<noteq> Greater \<Longrightarrow> kcmp y x \<noteq> Greater \<Longrightarrow> kcmp t x \<noteq> Greater"
  by (rule kcmp_trans)

end

text \<open>Byte strings under their lexicographic order (\<open>|a, b| a.cmp(b)\<close>).\<close>

definition byte_cmp :: "bytes \<Rightarrow> bytes \<Rightarrow> ordering" where
  "byte_cmp a b = cmp a b"

interpretation byte_order: key_comparator byte_cmp
proof
  fix x y z :: bytes
  show "byte_cmp x x = Equal" by (simp add: byte_cmp_def)
  show "byte_cmp y x = reverse_ord (byte_cmp x y)"
    by (cases "byte_cmp x y") (auto simp: byte_cmp_def cmp_def split: if_splits)
  show "byte_cmp x y \<noteq> Greater \<Longrightarrow> byte_cmp y z \<noteq> Greater \<Longrightarrow> byte_cmp x z \<noteq> Greater"
    by (auto simp: byte_cmp_def not_less intro: order_trans)
qed

section \<open>Little-endian integers\<close>

text \<open>\<open>to_le_bytes\<close> of an \<open>n\<close>-byte integer and \<open>from_le_bytes\<close>.\<close>

primrec to_le :: "nat \<Rightarrow> 'a::len word \<Rightarrow> bytes" where
  "to_le 0 w = []"
| "to_le (Suc n) w = ucast w # to_le n (drop_bit 8 w)"

primrec from_le :: "bytes \<Rightarrow> 'a::len word" where
  "from_le [] = 0"
| "from_le (b # bs) = ucast b OR push_bit 8 (from_le bs)"

lemma length_to_le [simp, codec_len]: "length (to_le n w) = n"
  by (induction n arbitrary: w) auto

lemma from_le_to_le_take: "from_le (to_le n w) = take_bit (8 * n) w"
proof (induction n arbitrary: w)
  case 0
  show ?case by simp
next
  case (Suc n)
  show ?case
    by (rule bit_word_eqI) (auto simp: Suc bit_simps)
qed

lemma from_le_to_le [simp, codec]: "LENGTH('a) \<le> 8 * n \<Longrightarrow> from_le (to_le n (w :: 'a::len word)) = w"
  by (simp add: from_le_to_le_take take_bit_word_eq_self)

lemma to_le_inject: "LENGTH('a) \<le> 8 * n \<Longrightarrow> to_le n (v :: 'a::len word) = to_le n w \<longleftrightarrow> v = w"
  by (metis from_le_to_le)

section \<open>Lists\<close>

lemma list_prefix_splitD:
  "xs @ ys = us @ vs \<Longrightarrow> length xs = length us \<Longrightarrow> xs = us \<and> ys = vs"
  by simp

lemma dropWhile_sorted_all:
  "sorted (map f xs) \<Longrightarrow> x \<in> set (dropWhile (\<lambda>x. f x < k) xs) \<Longrightarrow> k \<le> (f x :: 'b::linorder)"
  by (induction xs) (auto split: if_splits)

end
