(* ===== verification/Varint.thy ===== *)
theory Varint
  imports Lsm_Prelude
begin

text \<open>
  \<^verbatim>\<open>src/src/varint.rs\<close>: the variable-length integers that every structure of the store uses for
  its lengths and offsets. Seven payload bits per byte, least significant group first; the top
  bit of a byte says that another byte follows.
\<close>

section \<open>Encoding and decoding\<close>

definition MORE_BIT :: byte where "MORE_BIT = 0x80"
definition PAYLOAD_MASK :: byte where "PAYLOAD_MASK = 0x7f"
definition MAX_VARINT32_LEN :: nat where "MAX_VARINT32_LEN = 5"
definition MAX_VARINT64_LEN :: nat where "MAX_VARINT64_LEN = 10"

text \<open>The \<open>while value >= 0x80\<close> loop of both encoders, for any width of \<open>value\<close>.\<close>

lemma unat_drop_7: "unat (drop_bit 7 (v :: 'a::len word)) = unat v div 128"
  by (subst unat_drop_bit_eq) (simp add: drop_bit_eq_div)

function encode_loop :: "bytes \<Rightarrow> 'a::len word \<Rightarrow> bytes" where
  "encode_loop buf v =
     (if 128 \<le> unat v then encode_loop (buf @ [ucast v OR MORE_BIT]) (drop_bit 7 v)
      else buf @ [ucast v])"
  by pat_completeness auto
termination
  by (relation "measure (\<lambda>(buf, v). unat v)")
     (simp_all add: unat_drop_7)

declare encode_loop.simps [simp del]

text \<open>Both encoders append to \<open>buf\<close> and return the number of bytes written.\<close>

definition encode_varint32 :: "bytes \<Rightarrow> u32 \<Rightarrow> bytes \<times> nat" where
  "encode_varint32 buf v =
     (let start = length buf; buf' = encode_loop buf v in (buf', length buf' - start))"

definition encode_varint64 :: "bytes \<Rightarrow> u64 \<Rightarrow> bytes \<times> nat" where
  "encode_varint64 buf v =
     (let start = length buf; buf' = encode_loop buf v in (buf', length buf' - start))"

text \<open>
  The \<open>for (i, &byte) in buf.iter().enumerate().take(max_len)\<close> loop: \<open>n\<close> counts down the
  bytes \<open>take\<close> still admits.
\<close>

fun decode_loop :: "nat \<Rightarrow> nat \<Rightarrow> nat \<Rightarrow> u64 \<Rightarrow> bytes \<Rightarrow> (u64 \<times> nat) res" where
  "decode_loop (Suc n) i shift result (byte # bs) =
     (let result' = result OR push_bit shift (ucast (byte AND PAYLOAD_MASK)) in
      if byte AND MORE_BIT = 0 then Inr (result', i + 1)
      else decode_loop n (i + 1) (shift + 7) result' bs)"
| "decode_loop _ _ _ _ _ = Inl (Corrupted ''varint too long or unterminated'')"

definition decode_varint :: "bytes \<Rightarrow> nat \<Rightarrow> (u64 \<times> nat) res" where
  "decode_varint buf max_len = decode_loop max_len 0 0 0 buf"

definition decode_varint32 :: "bytes \<Rightarrow> (u32 \<times> nat) res" where
  "decode_varint32 buf = bind_res (decode_varint buf MAX_VARINT32_LEN) (\<lambda>(v, n). Inr (ucast v, n))"

definition decode_varint64 :: "bytes \<Rightarrow> (u64 \<times> nat) res" where
  "decode_varint64 buf = decode_varint buf MAX_VARINT64_LEN"

section \<open>The bytes an encoder writes\<close>

definition varint_bytes :: "'a::len word \<Rightarrow> bytes" where
  "varint_bytes v = encode_loop [] v"

lemma encode_loop_prefix: "encode_loop (xs @ buf) v = xs @ encode_loop buf v"
proof (induction buf v rule: encode_loop.induct)
  case (1 buf v)
  show ?case
  proof (cases "128 \<le> unat v")
    case True
    with 1 show ?thesis
      by (subst (1 2) encode_loop.simps) (simp only: if_True append_assoc)
  next
    case False
    then show ?thesis
      by (subst (1 2) encode_loop.simps) (simp only: if_False append_assoc)
  qed
qed

lemma encode_loop_append: "encode_loop buf v = buf @ varint_bytes v"
  using encode_loop_prefix [of buf "[]" v] by (simp add: varint_bytes_def)

lemma varint_bytes_rec:
  "varint_bytes v = (if 128 \<le> unat v then (ucast v OR MORE_BIT) # varint_bytes (drop_bit 7 v)
                     else [ucast v])"
  by (subst varint_bytes_def, subst encode_loop.simps) (simp add: encode_loop_append)

lemma fst_encode_varint32 [simp]: "fst (encode_varint32 buf v) = buf @ varint_bytes v"
  by (simp add: encode_varint32_def encode_loop_append Let_def)

lemma fst_encode_varint64 [simp]: "fst (encode_varint64 buf v) = buf @ varint_bytes v"
  by (simp add: encode_varint64_def encode_loop_append Let_def)

lemma snd_encode_varint32 [simp]: "snd (encode_varint32 buf v) = length (varint_bytes v)"
  by (simp add: encode_varint32_def encode_loop_append Let_def)

lemma snd_encode_varint64 [simp]: "snd (encode_varint64 buf v) = length (varint_bytes v)"
  by (simp add: encode_varint64_def encode_loop_append Let_def)

lemma varint_bytes_nonempty [simp]: "varint_bytes v \<noteq> []"
  by (subst varint_bytes_rec) simp

lemma length_varint_pos [simp]: "0 < length (varint_bytes v)"
  by simp

text \<open>The encoding is minimal: \<open>k\<close> bytes exactly when the value has \<open>7 * k\<close> bits.\<close>

lemma length_varint_bytes_le:
  "unat v < 2 ^ (7 * k) \<Longrightarrow> 0 < k \<Longrightarrow> length (varint_bytes v) \<le> k"
proof (induction k arbitrary: v)
  case 0
  then show ?case by simp
next
  case (Suc k)
  show ?case
  proof (cases "128 \<le> unat v")
    case True
    have "unat (drop_bit 7 v) < 2 ^ (7 * k)"
      using Suc.prems(1) by (simp add: unat_drop_7 less_mult_imp_div_less power_add mult.commute)
    moreover from True have "0 < k"
      using Suc.prems(1) by (cases k) auto
    ultimately show ?thesis
      using Suc.IH True by (subst varint_bytes_rec) simp
  next
    case False
    then show ?thesis by (subst varint_bytes_rec) simp
  qed
qed

lemma length_varint32_bytes [codec_len]: "length (varint_bytes (v :: u32)) \<le> 5"
proof -
  have "unat v < 2 ^ 32" using unsigned_less [of v] by simp
  then show ?thesis by (intro length_varint_bytes_le) simp_all
qed

lemma length_varint64_bytes [codec_len]: "length (varint_bytes (v :: u64)) \<le> 10"
proof -
  have "unat v < 2 ^ 64" using unsigned_less [of v] by simp
  then show ?thesis by (intro length_varint_bytes_le) simp_all
qed

text \<open>A 32-bit value and its zero extension have the same encoding.\<close>

lemma varint_bytes_ucast: "varint_bytes (ucast (v :: u32) :: u64) = varint_bytes v"
proof (induction v rule: measure_induct_rule [where f = unat])
  case (less v)
  have u: "unat (ucast v :: u64) = unat v"
    by (simp add: unsigned_ucast_eq take_bit_nat_eq_self less_le_trans [OF unsigned_less])
  have d: "drop_bit 7 (ucast v :: u64) = ucast (drop_bit 7 v)"
    by (rule bit_word_eqI) (auto simp: bit_simps dest: bit_imp_le_length)
  have c: "(ucast (ucast v :: u64) :: byte) = ucast v"
    by (rule bit_word_eqI) (auto simp: bit_simps)
  show ?case
  proof (cases "128 \<le> unat v")
    case True
    then have "unat (drop_bit 7 v) < unat v" by (simp add: unat_drop_7)
    with less True show ?thesis
      by (subst (1 2) varint_bytes_rec) (simp add: u d c)
  next
    case False
    then show ?thesis
      by (subst (1 2) varint_bytes_rec) (simp add: u c)
  qed
qed

section \<open>Round trip\<close>

lemma PAYLOAD_MASK_mask: "PAYLOAD_MASK = mask 7"
  by (simp add: PAYLOAD_MASK_def mask_eq_exp_minus_1)

lemma MORE_BIT_exp: "MORE_BIT = push_bit 7 1"
  by (simp add: MORE_BIT_def)

lemma bit_MORE_BIT [simp]: "bit MORE_BIT n \<longleftrightarrow> n = 7"
  unfolding MORE_BIT_exp bit_push_bit_iff by (auto simp: bit_1_iff)

lemma bit_PAYLOAD_MASK [simp]: "bit PAYLOAD_MASK n \<longleftrightarrow> n < 7"
  by (auto simp: PAYLOAD_MASK_mask bit_simps)

lemma more_byte: "(ucast (v :: u64) OR MORE_BIT) AND MORE_BIT \<noteq> (0 :: byte)"
proof -
  have "bit ((ucast v OR MORE_BIT) AND MORE_BIT :: byte) 7"
    by (simp add: bit_simps)
  then show ?thesis by (metis bit_0_eq bot_apply bot_bool_def)
qed

lemma take_bit_7_small: "\<not> 128 \<le> unat (v :: u64) \<Longrightarrow> take_bit 7 v = v"
  by (simp add: word_unat_eq_iff unsigned_take_bit_eq take_bit_nat_eq_self)

lemma small_bit: "\<not> 128 \<le> unat (v :: u64) \<Longrightarrow> bit v n \<Longrightarrow> n < 7"
  by (metis bit_take_bit_iff take_bit_7_small)

lemma last_byte_more:
  assumes "\<not> 128 \<le> unat (v :: u64)"
  shows "(ucast v :: byte) AND MORE_BIT = 0"
  using small_bit [OF assms]
  by (intro bit_word_eqI) (auto simp: bit_simps)

lemma last_byte_value:
  assumes "\<not> 128 \<le> unat (v :: u64)"
  shows "ucast ((ucast v :: byte) AND PAYLOAD_MASK) = v"
  using small_bit [OF assms]
  by (intro bit_word_eqI) (auto simp: bit_simps intro: less_trans [of _ 7 8])

lemma low_group_or_rest:
  "push_bit s (ucast ((ucast v OR MORE_BIT :: byte) AND PAYLOAD_MASK)) OR push_bit (s + 7) (drop_bit 7 v)
     = push_bit s (v :: u64)"
proof (rule bit_word_eqI)
  fix n
  have "7 + (n - (s + 7)) = n - s" if "s + 7 \<le> n" using that by simp
  then show "bit (push_bit s (ucast ((ucast v OR MORE_BIT :: byte) AND PAYLOAD_MASK)) OR
      push_bit (s + 7) (drop_bit 7 v)) n = bit (push_bit s v) n"
    by (cases "n - s < 7") (auto simp: bit_simps)
qed

lemma decode_loop_varint:
  assumes "length (varint_bytes v) \<le> n"
  shows "decode_loop n i s acc (varint_bytes v @ rest)
     = Inr (acc OR push_bit s v, i + length (varint_bytes v))"
  using assms
proof (induction n arbitrary: i s acc v)
  case 0
  then show ?case by simp
next
  case (Suc n)
  show ?case
  proof (cases "128 \<le> unat v")
    case True
    then have "length (varint_bytes (drop_bit 7 v)) \<le> n"
      using Suc.prems by (simp add: varint_bytes_rec [of v])
    with True show ?thesis
      by (simp add: varint_bytes_rec [of v] Let_def more_byte [simplified] Suc.IH or.assoc low_group_or_rest)
  next
    case False
    then show ?thesis
      by (simp add: varint_bytes_rec [of v] last_byte_more last_byte_value)
  qed
qed

lemma decode_varint64_bytes [codec]:
  "decode_varint64 (varint_bytes v @ rest) = Inr (v, length (varint_bytes v))"
  by (simp add: decode_varint64_def decode_varint_def MAX_VARINT64_LEN_def decode_loop_varint
      length_varint64_bytes)

lemma ucast_up_down: "ucast (ucast (v :: u32) :: u64) = v"
  by (rule bit_word_eqI) (auto simp: bit_simps)

lemma decode_varint32_bytes [codec]:
  "decode_varint32 (varint_bytes v @ rest) = Inr (v, length (varint_bytes v))"
proof -
  have "decode_varint (varint_bytes v @ rest) 5 = Inr (ucast v, length (varint_bytes v))"
    using decode_loop_varint [of "ucast v :: u64" 5 0 0 0 rest]
    by (simp add: decode_varint_def varint_bytes_ucast length_varint32_bytes)
  then show ?thesis
    by (simp add: decode_varint32_def MAX_VARINT32_LEN_def ucast_up_down)
qed

section \<open>Properties\<close>

text \<open>C29: Decoding the bytes an encoder appended gives back the value and the number of bytes the encoder
  reported, whatever follows them; the bytes before stay untouched; at most 5 (32-bit) and 10
  (64-bit) bytes are written.\<close>

theorem varint_roundtrip:
  fixes v :: u32 and w :: u64
  shows "take (length buf) (fst (encode_varint32 buf v)) = buf
    \<and> decode_varint32 (drop (length buf) (fst (encode_varint32 buf v)) @ rest) = Inr (v, snd (encode_varint32 buf v))
    \<and> snd (encode_varint32 buf v) \<le> MAX_VARINT32_LEN
    \<and> take (length buf) (fst (encode_varint64 buf w)) = buf
    \<and> decode_varint64 (drop (length buf) (fst (encode_varint64 buf w)) @ rest) = Inr (w, snd (encode_varint64 buf w))
    \<and> snd (encode_varint64 buf w) \<le> MAX_VARINT64_LEN"
  by (simp add: decode_varint32_bytes decode_varint64_bytes length_varint32_bytes length_varint64_bytes
      MAX_VARINT32_LEN_def MAX_VARINT64_LEN_def)

end
