(* ===== verification/Internal_Key.thy ===== *)
theory Internal_Key
  imports Lsm_Prelude
begin

text \<open>
  \<^verbatim>\<open>src/src/internal_key.rs\<close>: the internal key (user key, sequence number, operation), its
  total order (user key ascending, sequence number descending, operation ascending), its byte
  encoding with the nine-byte footer, and the comparison of encoded keys that the tables use.
\<close>

section \<open>Data\<close>

definition MAX_SEQUENCE :: u64 where "MAX_SEQUENCE = 18446744073709551614"
definition IK_FOOTER_LEN :: nat where "IK_FOOTER_LEN = 9"
definition SEQ_LEN :: nat where "SEQ_LEN = 8"
definition TYPE_LEN :: nat where "TYPE_LEN = 1"

datatype value_type = Put | Delete

text \<open>\<open>vtype as u8\<close> and \<open>ValueType::from_u8\<close>.\<close>

fun vtype_as_u8 :: "value_type \<Rightarrow> byte" where
  "vtype_as_u8 Put = 0"
| "vtype_as_u8 Delete = 1"

definition vtype_from_u8 :: "byte \<Rightarrow> value_type option" where
  "vtype_from_u8 v = (if v = 0 then Some Put else if v = 1 then Some Delete else None)"

lemma vtype_from_as [simp, codec]: "vtype_from_u8 (vtype_as_u8 t) = Some t"
  by (cases t) (auto simp: vtype_from_u8_def)

lemma vtype_as_u8_inject [simp]: "vtype_as_u8 s = vtype_as_u8 t \<longleftrightarrow> s = t"
  by (metis option.inject vtype_from_as)

datatype internal_key = InternalKey (user_key: bytes) (seq: u64) (vtype: value_type)

text \<open>\<open>impl Default for InternalKey\<close>: the placeholder key of the skip-list head.\<close>

definition internal_key_default :: internal_key where
  "internal_key_default = InternalKey [] 0 Put"

section \<open>The order\<close>

text \<open>\<open>impl Ord for InternalKey\<close>.\<close>

definition internal_key_ord :: "internal_key \<Rightarrow> internal_key \<Rightarrow> ordering" where
  "internal_key_ord a b =
     (case cmp (user_key a) (user_key b) of
        Equal \<Rightarrow>
          (case reverse_ord (cmp (seq a) (seq b)) of
             Equal \<Rightarrow> cmp (vtype_as_u8 (vtype a)) (vtype_as_u8 (vtype b))
           | c \<Rightarrow> c)
      | c \<Rightarrow> c)"

lemma internal_key_ord_Less:
  "internal_key_ord a b = Less \<longleftrightarrow> user_key a < user_key b \<or> user_key a = user_key b \<and>
     (seq b < seq a \<or> seq a = seq b \<and> vtype_as_u8 (vtype a) < vtype_as_u8 (vtype b))"
  by (auto simp: internal_key_ord_def cmp_def)

lemma internal_key_ord_Equal: "internal_key_ord a b = Equal \<longleftrightarrow> a = b"
  by (cases a; cases b) (auto simp: internal_key_ord_def cmp_def)

lemma internal_key_ord_Greater: "internal_key_ord a b = Greater \<longleftrightarrow> internal_key_ord b a = Less"
  by (auto simp: internal_key_ord_def cmp_def)

text \<open>The order of the crate is the order of the type: the library's sorting vocabulary applies.\<close>

instantiation internal_key :: linorder
begin

definition less_internal_key :: "internal_key \<Rightarrow> internal_key \<Rightarrow> bool" where
  "less_internal_key a b \<longleftrightarrow> internal_key_ord a b = Less"

definition less_eq_internal_key :: "internal_key \<Rightarrow> internal_key \<Rightarrow> bool" where
  "less_eq_internal_key a b \<longleftrightarrow> internal_key_ord a b \<noteq> Greater"

instance
proof
  fix x y z :: internal_key
  show "x < y \<longleftrightarrow> x \<le> y \<and> \<not> y \<le> x"
    by (metis internal_key_ord_Greater less_eq_internal_key_def less_internal_key_def ordering.distinct(3))
  show "x \<le> x"
    by (simp add: less_eq_internal_key_def internal_key_ord_Greater internal_key_ord_Less)
  show "x \<le> y \<Longrightarrow> y \<le> z \<Longrightarrow> x \<le> z"
    by (auto simp: less_eq_internal_key_def internal_key_ord_Greater internal_key_ord_Less not_less)
  show "x \<le> y \<Longrightarrow> y \<le> x \<Longrightarrow> x = y"
    by (cases x; cases y)
       (auto simp: less_eq_internal_key_def internal_key_ord_Greater internal_key_ord_Less not_less
        intro: antisym)
  show "x \<le> y \<or> y \<le> x"
    by (auto simp: less_eq_internal_key_def internal_key_ord_Greater internal_key_ord_Less)
qed

end

lemma internal_key_less_iff:
  "a < b \<longleftrightarrow> user_key a < user_key b \<or> user_key a = user_key b \<and>
     (seq b < seq a \<or> seq a = seq b \<and> vtype_as_u8 (vtype a) < vtype_as_u8 (vtype b))"
  by (simp add: less_internal_key_def internal_key_ord_Less)

lemma internal_key_cmp_ord: "cmp a b = internal_key_ord (a :: internal_key) b"
  by (metis cmp_def internal_key_ord_Equal less_internal_key_def ordering.exhaust)

section \<open>Bytes\<close>

text \<open>\<open>InternalKey::encode\<close>: user key, sequence number little-endian, operation.\<close>

definition ik_encode :: "internal_key \<Rightarrow> bytes" where
  "ik_encode k = user_key k @ to_le 8 (seq k) @ [vtype_as_u8 (vtype k)]"

definition ik_decode :: "bytes \<Rightarrow> internal_key res" where
  "ik_decode bs =
     (if length bs < IK_FOOTER_LEN then Inl (Corrupted ''internal key too short'')
      else
        let uk = take (length bs - IK_FOOTER_LEN) bs;
            seq_bytes = take SEQ_LEN (drop (length bs - IK_FOOTER_LEN) bs);
            vtype_byte = bs ! (length bs - TYPE_LEN)
        in bind_res (ok_or (vtype_from_u8 vtype_byte) (Corrupted ''unknown value type byte''))
             (\<lambda>t. Inr (InternalKey uk (from_le seq_bytes) t)))"

definition user_key_of_internal_key :: "bytes \<Rightarrow> bytes" where
  "user_key_of_internal_key bs =
     (if length bs < IK_FOOTER_LEN then bs else take (length bs - IK_FOOTER_LEN) bs)"

definition seq_of_internal_key :: "bytes \<Rightarrow> u64 option" where
  "seq_of_internal_key bs =
     (if length bs < IK_FOOTER_LEN then None
      else Some (from_le (take SEQ_LEN (drop (length bs - IK_FOOTER_LEN) bs))))"

definition vtype_of_internal_key :: "bytes \<Rightarrow> value_type option" where
  "vtype_of_internal_key bs =
     (if length bs < IK_FOOTER_LEN then None else vtype_from_u8 (bs ! (length bs - TYPE_LEN)))"

text \<open>The comparison closure of the tables: the operation byte takes no part.\<close>

definition internal_key_cmp :: "bytes \<Rightarrow> bytes \<Rightarrow> ordering" where
  "internal_key_cmp a b =
     (let a_uk = user_key_of_internal_key a; b_uk = user_key_of_internal_key b in
      if a_uk \<noteq> b_uk then cmp a_uk b_uk
      else
        let a_seq = (case seq_of_internal_key a of None \<Rightarrow> 0 | Some s \<Rightarrow> s);
            b_seq = (case seq_of_internal_key b of None \<Rightarrow> 0 | Some s \<Rightarrow> s)
        in reverse_ord (cmp a_seq b_seq))"

definition lookup_key :: "bytes \<Rightarrow> u64 \<Rightarrow> bytes" where
  "lookup_key uk s = ik_encode (InternalKey uk s Put)"

section \<open>Encoded keys are read back\<close>

lemma length_ik_encode [simp, codec_len]: "length (ik_encode k) = length (user_key k) + 9"
  by (simp add: ik_encode_def)

lemma nth_last_ik_encode: "ik_encode k ! (8 + length (user_key k)) = vtype_as_u8 (vtype k)"
  by (simp add: ik_encode_def nth_append)

lemma seq_bytes_ik_encode: "take 8 (drop (length (user_key k)) (ik_encode k)) = to_le 8 (seq k)"
  by (simp add: ik_encode_def)

lemma user_key_bytes_ik_encode: "take (length (user_key k)) (ik_encode k) = user_key k"
  by (simp add: ik_encode_def)

lemmas ik_consts = IK_FOOTER_LEN_def SEQ_LEN_def TYPE_LEN_def

lemmas ik_encode_parts = nth_last_ik_encode seq_bytes_ik_encode user_key_bytes_ik_encode

lemma ik_decode_encode [simp, codec]: "ik_decode (ik_encode k) = Inr k"
  by (simp add: ik_decode_def Let_def ik_consts ik_encode_parts)

lemma user_key_of_encode [simp, codec]: "user_key_of_internal_key (ik_encode k) = user_key k"
  by (simp add: user_key_of_internal_key_def ik_consts ik_encode_parts)

lemma seq_of_encode [simp, codec]: "seq_of_internal_key (ik_encode k) = Some (seq k)"
  by (simp add: seq_of_internal_key_def ik_consts ik_encode_parts)

lemma vtype_of_encode [simp, codec]: "vtype_of_internal_key (ik_encode k) = Some (vtype k)"
  by (simp add: vtype_of_internal_key_def ik_consts ik_encode_parts)

lemma ik_encode_inject [simp]: "ik_encode a = ik_encode b \<longleftrightarrow> a = b"
  by (metis ik_decode_encode sum.inject(2))

lemma internal_key_cmp_encode:
  "internal_key_cmp (ik_encode a) (ik_encode b) =
     (if user_key a \<noteq> user_key b then cmp (user_key a) (user_key b)
      else reverse_ord (cmp (seq a) (seq b)))"
  by (simp add: internal_key_cmp_def)

text \<open>
  The closure orders all byte strings by the pair (user key, descending sequence number), so it
  meets the contract of the block lookups.
\<close>

interpretation internal_order: key_comparator internal_key_cmp
proof
  fix x y z :: bytes
  define sq where "sq b = (case seq_of_internal_key b of None \<Rightarrow> 0 | Some s \<Rightarrow> s)" for b
  have eq: "internal_key_cmp a b =
      (if user_key_of_internal_key a \<noteq> user_key_of_internal_key b
       then cmp (user_key_of_internal_key a) (user_key_of_internal_key b)
       else reverse_ord (cmp (sq a) (sq b)))" for a b
    by (simp add: internal_key_cmp_def sq_def Let_def)
  show "internal_key_cmp x x = Equal"
    by (simp add: eq)
  show "internal_key_cmp y x = reverse_ord (internal_key_cmp x y)"
    by (auto simp: eq cmp_def)
  show "internal_key_cmp x y \<noteq> Greater \<Longrightarrow> internal_key_cmp y z \<noteq> Greater \<Longrightarrow> internal_key_cmp x z \<noteq> Greater"
    by (auto simp: eq not_less split: if_splits)
qed

lemma internal_key_cmp_less:
  "seq a \<noteq> seq b \<or> user_key a \<noteq> user_key b \<Longrightarrow>
   internal_key_cmp (ik_encode a) (ik_encode b) = Less \<longleftrightarrow> a < b"
  by (auto simp: internal_key_cmp_encode internal_key_less_iff)

lemma internal_key_cmp_Less_imp_less:
  "internal_key_cmp (ik_encode a) (ik_encode b) = Less \<Longrightarrow> a < b"
  by (auto simp: internal_key_cmp_encode internal_key_less_iff split: if_splits)

lemma lookup_key_le:
  "internal_key_cmp (lookup_key uk snapshot) (ik_encode k) \<noteq> Greater \<longleftrightarrow>
     uk < user_key k \<or> uk = user_key k \<and> seq k \<le> snapshot"
  by (auto simp: lookup_key_def internal_key_cmp_encode)

section \<open>The order of encoded keys\<close>

text \<open>The comparison of encoded keys is the order of the decoded keys, except that keys which differ only
  in the operation compare equal.\<close>

lemma encoded_order_agrees:
  "internal_key_cmp (ik_encode a) (ik_encode b) =
     (if user_key a = user_key b \<and> seq a = seq b then Equal else internal_key_ord a b)"
  by (auto simp: internal_key_cmp_encode internal_key_ord_def split: ordering.split)

end
