(* ===== verification/Bloom.thy ===== *)
theory Bloom
  imports Lsm_Prelude
begin

text \<open>
  \<^verbatim>\<open>src/src/bloom.rs\<close>: the Bloom filter of a table. The bit array is a byte list addressed
  bit by bit; the hash positions are 32-bit words with wrapping arithmetic, as in the code.
\<close>

section \<open>The filter\<close>

record bloom_filter =
  bits :: bytes
  num_hashes :: byte

text \<open>
  \<open>(bits_per_key as f64 * LN_2).round().max(1.0) as u8\<close>, then \<open>min(30)\<close>. The double \<open>LN_2\<close> is
  the dyadic rational \<open>6243314768165359 / 2 ^ 53\<close>, and \<open>round\<close> goes half away from zero. For the
  arguments whose result is below the cap of 30 (\<open>bits_per_key \<le> 42\<close>) the product is far
  from a rounding tie, so the exact rational and the double product round alike.
\<close>

definition bloom_k :: "nat \<Rightarrow> nat" where
  "bloom_k bits_per_key =
     min 30 (min 255 (max 1 ((2 * bits_per_key * 6243314768165359 + 2 ^ 53) div 2 ^ 54)))"

definition bloom_new :: "nat \<Rightarrow> bloom_filter" where
  "bloom_new bits_per_key = \<lparr>bits = [], num_hashes = of_nat (bloom_k bits_per_key)\<rparr>"

definition div_ceil :: "nat \<Rightarrow> nat \<Rightarrow> nat" where
  "div_ceil a b = (a + b - 1) div b"

definition ensure_capacity :: "bloom_filter \<Rightarrow> nat \<Rightarrow> nat \<Rightarrow> bloom_filter" where
  "ensure_capacity f num_keys bits_per_key =
     (let total_bits = max (num_keys * bits_per_key) 64; total_bytes = div_ceil total_bits 8
      in f\<lparr>bits := replicate total_bytes 0\<rparr>)"

text \<open>\<open>bloom_hash\<close>: shift-and-multiply mixing on 32-bit words.\<close>

definition bloom_hash :: "bytes \<Rightarrow> u32" where
  "bloom_hash data =
     fold (\<lambda>b h. (h * 0x00019360) XOR ucast b) data (of_nat (length data)) * 0x9E3779B1"

definition double_hash :: "bytes \<Rightarrow> u32 \<times> u32" where
  "double_hash key = (let h = bloom_hash key; delta = max (drop_bit 17 h) 1 in (h, delta))"

text \<open>\<open>(self.bits.len() * 8) as u32\<close>: the length in bits, truncated to 32 bits.\<close>

definition nbits_of :: "bytes \<Rightarrow> u32" where
  "nbits_of bs = of_nat (length bs * 8)"

definition set_bit_at :: "bytes \<Rightarrow> nat \<Rightarrow> bytes" where
  "set_bit_at bs p = bs[p div 8 := (bs ! (p div 8)) OR push_bit (p mod 8) 1]"

definition bit_clear_at :: "bytes \<Rightarrow> nat \<Rightarrow> bool" where
  "bit_clear_at bs p \<longleftrightarrow> (bs ! (p div 8)) AND push_bit (p mod 8) 1 = 0"

text \<open>The loops \<open>for _ in 0..self.k\<close> of \<open>insert\<close> and \<open>may_contain\<close>.\<close>

primrec insert_loop :: "nat \<Rightarrow> u32 \<Rightarrow> u32 \<Rightarrow> u32 \<Rightarrow> bytes \<Rightarrow> bytes" where
  "insert_loop 0 nbits h delta bs = bs"
| "insert_loop (Suc n) nbits h delta bs =
     insert_loop n nbits (h + delta) delta (set_bit_at bs (unat (h mod nbits)))"

primrec contain_loop :: "nat \<Rightarrow> u32 \<Rightarrow> u32 \<Rightarrow> u32 \<Rightarrow> bytes \<Rightarrow> bool" where
  "contain_loop 0 nbits h delta bs = True"
| "contain_loop (Suc n) nbits h delta bs =
     (if bit_clear_at bs (unat (h mod nbits)) then False
      else contain_loop n nbits (h + delta) delta bs)"

definition bloom_insert :: "bloom_filter \<Rightarrow> bytes \<Rightarrow> bloom_filter" where
  "bloom_insert f key =
     (let nbits = nbits_of (bits f) in
      if nbits = 0 then f
      else let (h, delta) = double_hash key
           in f\<lparr>bits := insert_loop (unat (num_hashes f)) nbits h delta (bits f)\<rparr>)"

definition may_contain :: "bloom_filter \<Rightarrow> bytes \<Rightarrow> bool" where
  "may_contain f key =
     (let nbits = nbits_of (bits f) in
      if nbits = 0 then False
      else let (h, delta) = double_hash key
           in contain_loop (unat (num_hashes f)) nbits h delta (bits f))"

definition from_keys :: "bytes list \<Rightarrow> nat \<Rightarrow> bloom_filter" where
  "from_keys keys bits_per_key =
     (let total_bits = max (length keys * bits_per_key) 64;
          total_bytes = div_ceil total_bits 8;
          bf = (bloom_new bits_per_key)\<lparr>bits := replicate total_bytes 0\<rparr>
      in fold (\<lambda>key bf. bloom_insert bf key) keys bf)"

definition bloom_finish :: "bloom_filter \<Rightarrow> bytes" where
  "bloom_finish f = bits f @ [num_hashes f]"

definition bloom_from_bytes :: "bytes \<Rightarrow> bloom_filter option" where
  "bloom_from_bytes data =
     (if data = [] then None
      else Some \<lparr>bits = take (length data - 1) data, num_hashes = data ! (length data - 1)\<rparr>)"

section \<open>Bits that are set stay set\<close>

lemma length_set_bit_at [simp]: "length (set_bit_at bs p) = length bs"
  by (simp add: set_bit_at_def)

lemma length_insert_loop [simp]: "length (insert_loop n nb h d bs) = length bs"
  by (induction n arbitrary: h bs) auto

lemma bit_clear_at_bit: "bit_clear_at bs p \<longleftrightarrow> \<not> bit (bs ! (p div 8)) (p mod 8)"
  by (simp add: bit_clear_at_def push_bit_of_1 and_exp_eq_0_iff_not_bit)

lemma unat_nbits_of: "unat (nbits_of bs) = length bs * 8 mod 2 ^ 32"
  by (simp add: nbits_of_def unat_of_nat del: of_nat_mult)

lemma set_bit_at_self: "p div 8 < length bs \<Longrightarrow> \<not> bit_clear_at (set_bit_at bs p) p"
  by (simp add: bit_clear_at_bit) (simp add: set_bit_at_def bit_simps)

lemma set_bit_at_keeps: "\<not> bit_clear_at bs q \<Longrightarrow> \<not> bit_clear_at (set_bit_at bs p) q"
  by (cases "p div 8 < length bs")
     (auto simp: bit_clear_at_bit set_bit_at_def nth_list_update bit_simps list_update_beyond)

lemma insert_loop_keeps: "\<not> bit_clear_at bs q \<Longrightarrow> \<not> bit_clear_at (insert_loop n nb h d bs) q"
  by (induction n arbitrary: h bs) (auto simp: set_bit_at_keeps)

lemma contain_loop_mono:
  assumes "\<And>q. \<not> bit_clear_at bs q \<Longrightarrow> \<not> bit_clear_at bs' q"
  shows "contain_loop n nb h d bs \<Longrightarrow> contain_loop n nb h d bs'"
  by (induction n arbitrary: h) (use assms in \<open>auto split: if_splits\<close>)

text \<open>A position taken modulo the (possibly truncated) bit length lies inside the array.\<close>

lemma position_in_range:
  assumes "nbits_of bs \<noteq> 0"
  shows "unat (h mod nbits_of bs) div 8 < length bs"
proof -
  have "unat (h mod nbits_of bs) < unat (nbits_of bs)"
    using assms by (simp add: unat_mod_distrib unat_gt_0)
  also have "\<dots> \<le> length bs * 8"
    by (simp add: unat_nbits_of)
  finally show ?thesis by (simp add: less_mult_imp_div_less)
qed

lemma contain_after_insert_loop:
  assumes "nb = nbits_of bs" and "nb \<noteq> 0"
  shows "contain_loop n nb h d (insert_loop n nb h d bs)"
  using assms
proof (induction n arbitrary: h bs)
  case 0
  show ?case by simp
next
  case (Suc n)
  let ?p = "unat (h mod nb)"
  have "\<not> bit_clear_at (set_bit_at bs ?p) ?p"
    using Suc.prems position_in_range by (intro set_bit_at_self) auto
  moreover have "contain_loop n nb (h + d) d (insert_loop n nb (h + d) d (set_bit_at bs ?p))"
    using Suc.prems by (intro Suc.IH) (auto simp: nbits_of_def)
  ultimately show ?case
    by (auto dest: insert_loop_keeps)
qed

section \<open>Filter operations\<close>

lemma bloom_insert_frame [simp]:
  "num_hashes (bloom_insert f key) = num_hashes f"
  "length (bits (bloom_insert f key)) = length (bits f)"
  "nbits_of (bits (bloom_insert f key)) = nbits_of (bits f)"
  by (simp_all add: bloom_insert_def nbits_of_def Let_def split: prod.splits)

lemma may_contain_inserted:
  "nbits_of (bits f) \<noteq> 0 \<Longrightarrow> may_contain (bloom_insert f key) key"
  by (cases "double_hash key")
     (simp add: may_contain_def Let_def, simp add: bloom_insert_def Let_def contain_after_insert_loop)

lemma may_contain_insert_other:
  assumes "may_contain f key"
  shows "may_contain (bloom_insert f key') key"
proof -
  obtain h d where hd: "double_hash key = (h, d)" by (cases "double_hash key")
  obtain h' d' where hd': "double_hash key' = (h', d')" by (cases "double_hash key'")
  from assms have nb: "nbits_of (bits f) \<noteq> 0"
    and c: "contain_loop (unat (num_hashes f)) (nbits_of (bits f)) h d (bits f)"
    by (auto simp: may_contain_def hd Let_def split: if_splits)
  have "contain_loop (unat (num_hashes f)) (nbits_of (bits f)) h d (bits (bloom_insert f key'))"
    using c by (rule contain_loop_mono [rotated])
      (simp add: bloom_insert_def Let_def hd' nb insert_loop_keeps)
  then show ?thesis
    using nb by (simp add: may_contain_def hd Let_def)
qed

lemma may_contain_fold:
  assumes "nbits_of (bits f) \<noteq> 0" and "key \<in> set keys \<or> may_contain f key"
  shows "may_contain (fold (\<lambda>key bf. bloom_insert bf key) keys f) key"
  using assms
proof (induction keys arbitrary: f)
  case Nil
  then show ?case by simp
next
  case (Cons a keys)
  have "key \<in> set keys \<or> may_contain (bloom_insert f a) key"
    using Cons.prems may_contain_inserted may_contain_insert_other by auto
  then show ?case
    using Cons.IH [of "bloom_insert f a"] Cons.prems(1) by simp
qed

lemma bloom_from_bytes_finish [simp, codec]: "bloom_from_bytes (bloom_finish f) = Some f"
  by (simp add: bloom_from_bytes_def bloom_finish_def)

lemma bloom_k_bounds: "1 \<le> bloom_k b" "bloom_k b \<le> 30"
  by (simp_all add: bloom_k_def)

lemma nbits_of_replicate:
  "0 < n \<Longrightarrow> n < 2 ^ 29 \<Longrightarrow> nbits_of (replicate n 0) \<noteq> 0"
  by (simp add: word_unat_eq_iff unat_nbits_of)

section \<open>Properties\<close>

text \<open>C28: A filter built from a set of keys, written out and parsed back, reports every one of these keys as
  possibly present, as long as its bit array is below 512 MiB.\<close>

theorem bloom_no_false_negative:
  assumes "key \<in> set keys" and "div_ceil (max (length keys * bits_per_key) 64) 8 < 2 ^ 29"
  shows "\<exists>f. bloom_from_bytes (bloom_finish (from_keys keys bits_per_key)) = Some f \<and> may_contain f key"
proof -
  let ?n = "div_ceil (max (length keys * bits_per_key) 64) 8"
  have "0 < ?n" by (simp add: div_ceil_def)
  then have "may_contain (from_keys keys bits_per_key) key"
    unfolding from_keys_def Let_def
    by (intro may_contain_fold) (use assms in \<open>simp_all add: nbits_of_replicate\<close>)
  then show ?thesis by simp
qed

theorem bloom_no_false_negative_witness:
  "\<exists>f. bloom_from_bytes (bloom_finish (from_keys [[1], [2, 3]] 10)) = Some f \<and> may_contain f [2, 3]"
  by (rule bloom_no_false_negative) (simp_all add: div_ceil_def)

end
