(* ===== verification/Skip_List.thy ===== *)
theory Skip_List
  imports Lsm_Prelude
begin

text \<open>
  \<^verbatim>\<open>src/src/skiplist.rs\<close>: the arena skip list under the memtable. Nodes live in one vector and
  refer to each other by index; \<open>NIL\<close> is the missing successor. The walks along a level may run
  forever or index out of range on a malformed arena, so they are partial: \<open>None\<close> means that the
  code does not return a value. The invariant says that every level is a sublist of one sorted
  order; under it every operation returns, and the list behaves as a sorted association list
  into which a new entry goes before the entries with an equal key.
\<close>

section \<open>Arena and nodes\<close>

definition MAX_HEIGHT :: nat where "MAX_HEIGHT = 12"
definition BRANCHING :: nat where "BRANCHING = 4"
definition NIL :: nat where "NIL = 18446744073709551615"
definition HEAD :: nat where "HEAD = 0"

record ('k, 'v) node =
  node_key :: 'k
  node_value :: 'v
  next_links :: "nat list"

record ('k, 'v) skiplist =
  nodes :: "('k, 'v) node list"
  max_height :: nat

definition node_new :: "'k \<Rightarrow> 'v \<Rightarrow> nat \<Rightarrow> ('k, 'v) node" where
  "node_new k v height = \<lparr>node_key = k, node_value = v, next_links = replicate height NIL\<rparr>"

text \<open>\<open>SkipList::new\<close>; the default key and value fill the head, which no comparison reads.\<close>

definition skiplist_new :: "'k \<Rightarrow> 'v \<Rightarrow> ('k, 'v) skiplist" where
  "skiplist_new dk dv = \<lparr>nodes = [node_new dk dv MAX_HEIGHT], max_height = 1\<rparr>"

text \<open>Indexing a vector: \<open>None\<close> is the panic of an index out of range.\<close>

definition nth_opt :: "'a list \<Rightarrow> nat \<Rightarrow> 'a option" where
  "nth_opt xs i = (if i < length xs then Some (xs ! i) else None)"

lemma nth_opt_Some [simp]: "i < length xs \<Longrightarrow> nth_opt xs i = Some (xs ! i)"
  by (simp add: nth_opt_def)

definition next_at :: "('k, 'v) skiplist \<Rightarrow> nat \<Rightarrow> nat \<Rightarrow> nat option" where
  "next_at sl i level = Option.bind (nth_opt (nodes sl) i) (\<lambda>nd. nth_opt (next_links nd) level)"

section \<open>Searching\<close>

text \<open>The inner \<open>while\<close> of \<open>find_prev\<close>, \<open>get\<close> and \<open>lower_bound\<close>.\<close>

partial_function (option) walk ::
  "('k::linorder, 'v) skiplist \<Rightarrow> 'k \<Rightarrow> nat \<Rightarrow> nat \<Rightarrow> nat option" where
  "walk sl k level cur =
     (case next_at sl cur level of
        None \<Rightarrow> None
      | Some n \<Rightarrow>
          if n = NIL then Some cur
          else (case nth_opt (nodes sl) n of
                  None \<Rightarrow> None
                | Some nd \<Rightarrow> if node_key nd < k then walk sl k level n else Some cur))"

text \<open>\<open>for level in (0..self.max_height).rev()\<close>, recording the predecessors.\<close>

primrec find_prev_loop ::
  "('k::linorder, 'v) skiplist \<Rightarrow> 'k \<Rightarrow> nat \<Rightarrow> nat \<Rightarrow> nat list \<Rightarrow> nat list option" where
  "find_prev_loop sl k 0 cur prev = Some prev"
| "find_prev_loop sl k (Suc level) cur prev =
     (case walk sl k level cur of
        None \<Rightarrow> None
      | Some c \<Rightarrow>
          if level < length prev then find_prev_loop sl k level c (prev[level := c]) else None)"

definition find_prev :: "('k::linorder, 'v) skiplist \<Rightarrow> 'k \<Rightarrow> nat list option" where
  "find_prev sl k = find_prev_loop sl k (max_height sl) HEAD (replicate MAX_HEIGHT 0)"

text \<open>The same descent without the array, as in \<open>get\<close> and \<open>lower_bound\<close>.\<close>

primrec seek_loop :: "('k::linorder, 'v) skiplist \<Rightarrow> 'k \<Rightarrow> nat \<Rightarrow> nat \<Rightarrow> nat option" where
  "seek_loop sl k 0 cur = Some cur"
| "seek_loop sl k (Suc level) cur =
     (case walk sl k level cur of None \<Rightarrow> None | Some c \<Rightarrow> seek_loop sl k level c)"

definition sl_get :: "('k::linorder, 'v) skiplist \<Rightarrow> 'k \<Rightarrow> 'v option option" where
  "sl_get sl k =
     Option.bind (seek_loop sl k (max_height sl) HEAD) (\<lambda>cur.
     Option.bind (next_at sl cur 0) (\<lambda>n.
       if n = NIL then Some None
       else Option.bind (nth_opt (nodes sl) n) (\<lambda>nd.
              Some (if node_key nd = k then Some (node_value nd) else None))))"

definition sl_lower_bound :: "('k::linorder, 'v) skiplist \<Rightarrow> 'k \<Rightarrow> ('k \<times> 'v) option option" where
  "sl_lower_bound sl k =
     Option.bind (seek_loop sl k (max_height sl) HEAD) (\<lambda>cur.
     Option.bind (next_at sl cur 0) (\<lambda>n.
       if n = NIL then Some None
       else Option.bind (nth_opt (nodes sl) n) (\<lambda>nd. Some (Some (node_key nd, node_value nd)))))"

text \<open>\<open>iter\<close> run to its end: the items in the order of the bottom level.\<close>

partial_function (option) iter_from :: "('k, 'v) skiplist \<Rightarrow> nat \<Rightarrow> ('k \<times> 'v) list option" where
  "iter_from sl cur =
     (if cur = NIL then Some []
      else Option.bind (nth_opt (nodes sl) cur) (\<lambda>nd.
           Option.bind (nth_opt (next_links nd) 0) (\<lambda>n.
           Option.bind (iter_from sl n) (\<lambda>rest. Some ((node_key nd, node_value nd) # rest)))))"

definition sl_iter :: "('k, 'v) skiplist \<Rightarrow> ('k \<times> 'v) list option" where
  "sl_iter sl = Option.bind (next_at sl HEAD 0) (iter_from sl)"

section \<open>Inserting\<close>

text \<open>
  \<open>random_height\<close>: \<open>draws i\<close> is the result of the \<open>i\<close>-th call of \<open>random_range(0..BRANCHING)\<close>.
\<close>

function random_height_loop :: "(nat \<Rightarrow> nat) \<Rightarrow> nat \<Rightarrow> nat \<Rightarrow> nat" where
  "random_height_loop draws i height =
     (if height < MAX_HEIGHT \<and> draws i = 0 then random_height_loop draws (i + 1) (height + 1)
      else height)"
  by pat_completeness auto
termination
  by (relation "measure (\<lambda>(draws, i, height). MAX_HEIGHT - height)") auto

declare random_height_loop.simps [simp del]

definition random_height :: "(nat \<Rightarrow> nat) \<Rightarrow> nat" where
  "random_height draws = random_height_loop draws 0 1"

text \<open>The splicing loop of \<open>insert\<close> over the levels of the new node.\<close>

primrec splice ::
  "nat list \<Rightarrow> nat list \<Rightarrow> nat \<Rightarrow> ('k, 'v) node list \<Rightarrow> nat list \<Rightarrow>
   (('k, 'v) node list \<times> nat list) option" where
  "splice [] prev new_index ns new_next = Some (ns, new_next)"
| "splice (level # levels) prev new_index ns new_next =
     Option.bind (nth_opt prev level) (\<lambda>p.
     Option.bind (nth_opt ns p) (\<lambda>prev_node.
     Option.bind (nth_opt (next_links prev_node) level) (\<lambda>old.
       splice levels prev new_index
         (ns[p := prev_node\<lparr>next_links := (next_links prev_node)[level := new_index]\<rparr>])
         (new_next[level := old]))))"

definition sl_insert ::
  "(nat \<Rightarrow> nat) \<Rightarrow> 'k::linorder \<Rightarrow> 'v \<Rightarrow> ('k, 'v) skiplist \<Rightarrow> ('k, 'v) skiplist option" where
  "sl_insert draws k v sl =
     (let height = random_height draws in
      Option.bind (find_prev sl k) (\<lambda>prev.
        let mh = (if max_height sl < height then height else max_height sl);
            new_index = length (nodes sl);
            new_node = node_new k v height
        in Option.bind (splice [0..<height] prev new_index (nodes sl) (next_links new_node))
             (\<lambda>(ns, new_next).
               Some \<lparr>nodes = ns @ [new_node\<lparr>next_links := new_next\<rparr>], max_height = mh\<rparr>)))"

lemma random_height_loop_bounds:
  "1 \<le> height \<Longrightarrow> height \<le> MAX_HEIGHT \<Longrightarrow>
   1 \<le> random_height_loop draws i height \<and> random_height_loop draws i height \<le> MAX_HEIGHT"
proof (induction draws i height rule: random_height_loop.induct)
  case (1 draws i height)
  then show ?case
    by (subst (1 2) random_height_loop.simps) auto
qed

lemma random_height_bounds: "1 \<le> random_height draws" "random_height draws \<le> MAX_HEIGHT"
  using random_height_loop_bounds [of 1 draws 0] by (simp_all add: random_height_def MAX_HEIGHT_def)

section \<open>The invariant\<close>

text \<open>A level is the list of node indices its links run through, ending in \<open>NIL\<close>.\<close>

fun linked :: "(nat \<Rightarrow> nat) \<Rightarrow> nat list \<Rightarrow> bool" where
  "linked f [] \<longleftrightarrow> True"
| "linked f [x] \<longleftrightarrow> f x = NIL"
| "linked f (x # y # zs) \<longleftrightarrow> f x = y \<and> linked f (y # zs)"

abbreviation height_of :: "('k, 'v) skiplist \<Rightarrow> nat \<Rightarrow> nat" where
  "height_of sl i \<equiv> length (next_links (nodes sl ! i))"

abbreviation key_of :: "('k, 'v) skiplist \<Rightarrow> nat \<Rightarrow> 'k" where
  "key_of sl i \<equiv> node_key (nodes sl ! i)"

abbreviation link :: "('k, 'v) skiplist \<Rightarrow> nat \<Rightarrow> nat \<Rightarrow> nat" where
  "link sl level i \<equiv> next_links (nodes sl ! i) ! level"

definition on_level :: "('k, 'v) skiplist \<Rightarrow> nat \<Rightarrow> nat list \<Rightarrow> nat list" where
  "on_level sl level ids = filter (\<lambda>i. level < height_of sl i) ids"

definition sl_inv :: "('k::linorder, 'v) skiplist \<Rightarrow> nat list \<Rightarrow> bool" where
  "sl_inv sl ids \<longleftrightarrow>
     length (nodes sl) \<le> NIL \<and> height_of sl HEAD = MAX_HEIGHT \<and>
     distinct ids \<and> set ids = {1..<length (nodes sl)} \<and> nodes sl \<noteq> [] \<and>
     (\<forall>i \<in> set ids. 1 \<le> height_of sl i \<and> height_of sl i \<le> max_height sl) \<and>
     1 \<le> max_height sl \<and> max_height sl \<le> MAX_HEIGHT \<and>
     sorted (map (key_of sl) ids) \<and>
     (\<forall>level < MAX_HEIGHT. linked (link sl level) (HEAD # on_level sl level ids))"

text \<open>The skip list represents the association list read off the sorted order.\<close>

definition items_of :: "('k, 'v) skiplist \<Rightarrow> nat list \<Rightarrow> ('k \<times> 'v) list" where
  "items_of sl ids = map (\<lambda>i. (node_key (nodes sl ! i), node_value (nodes sl ! i))) ids"

definition sl_rep :: "('k::linorder, 'v) skiplist \<Rightarrow> ('k \<times> 'v) list \<Rightarrow> bool" where
  "sl_rep sl xs \<longleftrightarrow> (\<exists>ids. sl_inv sl ids \<and> xs = items_of sl ids)"

lemma linked_middle: "linked f (us @ x # y # zs) \<Longrightarrow> f x = y"
  by (induction us rule: linked.induct [of _ f]) (auto simp: neq_Nil_conv)

lemma linked_last: "linked f (us @ [x]) \<Longrightarrow> f x = NIL"
  by (induction us) (auto simp: neq_Nil_conv Cons_eq_append_conv elim: linked.elims)

lemma linked_next: "linked f (us @ x # vs) \<Longrightarrow> f x = (case vs of [] \<Rightarrow> NIL | y # _ \<Rightarrow> y)"
  using linked_last [of f us x] linked_middle [of f us x] by (cases vs) auto

lemma linked_tl: "linked f (x # xs) \<Longrightarrow> linked f xs"
  by (cases xs) auto

lemma linked_cong: "(\<And>i. i \<in> set xs \<Longrightarrow> f i = g i) \<Longrightarrow> linked f xs \<longleftrightarrow> linked g xs"
  by (induction f xs rule: linked.induct) auto

lemma linked_insert:
  assumes "linked f (xs @ p # ys)" and "distinct (xs @ p # ys)"
    and "\<And>i. i \<in> set (xs @ p # ys) \<Longrightarrow> i \<noteq> p \<Longrightarrow> f' i = f i"
    and "f' p = n" and "f' n = f p"
  shows "linked f' (xs @ p # n # ys)"
  using assms
proof (induction xs)
  case Nil
  then have "linked f' ys = linked f ys"
    by (intro linked_cong) auto
  with Nil show ?case
    by (cases ys) auto
next
  case (Cons x xs)
  then have "linked f' (xs @ p # n # ys)"
    by (intro Cons.IH) (auto dest: linked_tl)
  moreover have "f' x = f x"
    using Cons.prems(2,3) by auto
  ultimately show ?case
    using Cons.prems(1) by (cases xs) auto
qed

section \<open>The walks return the predecessor\<close>

text \<open>
  For a key the sorted order splits in two: \<open>before\<close>, the nodes with a smaller key, and \<open>after\<close>.
\<close>

definition before :: "('k::linorder, 'v) skiplist \<Rightarrow> 'k \<Rightarrow> nat list \<Rightarrow> nat list" where
  "before sl k ids = takeWhile (\<lambda>i. key_of sl i < k) ids"

definition after :: "('k::linorder, 'v) skiplist \<Rightarrow> 'k \<Rightarrow> nat list \<Rightarrow> nat list" where
  "after sl k ids = dropWhile (\<lambda>i. key_of sl i < k) ids"

definition pred_on :: "('k::linorder, 'v) skiplist \<Rightarrow> 'k \<Rightarrow> nat list \<Rightarrow> nat \<Rightarrow> nat" where
  "pred_on sl k ids level = last (HEAD # on_level sl level (before sl k ids))"

lemma before_after [simp]: "before sl k ids @ after sl k ids = ids"
  by (simp add: before_def after_def)

lemma before_less: "i \<in> set (before sl k ids) \<Longrightarrow> key_of sl i < k"
  by (auto simp: before_def dest: set_takeWhileD)

lemma after_ge: "sorted (map (key_of sl) ids) \<Longrightarrow> i \<in> set (after sl k ids) \<Longrightarrow> k \<le> key_of sl i"
  unfolding after_def by (rule dropWhile_sorted_all)

lemma on_level_append [simp]: "on_level sl l (xs @ ys) = on_level sl l xs @ on_level sl l ys"
  by (simp add: on_level_def)

lemma set_on_level: "i \<in> set (on_level sl l xs) \<longleftrightarrow> i \<in> set xs \<and> l < height_of sl i"
  by (auto simp: on_level_def)

lemma set_before_subset: "i \<in> set (before sl k ids) \<Longrightarrow> i \<in> set ids"
  by (auto simp: before_def dest: set_takeWhileD)

lemma set_after_subset: "i \<in> set (after sl k ids) \<Longrightarrow> i \<in> set ids"
  by (auto simp: after_def dest: set_dropWhileD)

lemma sl_inv_index:
  assumes "sl_inv sl ids" and "i \<in> set (HEAD # ids)"
  shows "i < length (nodes sl)" "i \<noteq> NIL"
proof -
  show "i < length (nodes sl)"
    using assms by (auto simp: sl_inv_def HEAD_def)
  then show "i \<noteq> NIL"
    using assms(1) by (simp add: sl_inv_def)
qed

lemma next_at_level:
  assumes "sl_inv sl ids" and "i \<in> set (HEAD # on_level sl l ids)" and "l < MAX_HEIGHT"
  shows "next_at sl i l = Some (link sl l i)"
proof -
  have "i < length (nodes sl)"
    using assms(1,2) sl_inv_index(1) [OF assms(1), of i] by (auto simp: set_on_level)
  moreover have "l < height_of sl i"
    using assms by (auto simp: sl_inv_def set_on_level)
  ultimately show ?thesis by (simp add: next_at_def)
qed

lemma distinct_parts:
  assumes "sl_inv sl ids"
  shows "distinct (before sl k ids)" "distinct (after sl k ids)"
    "set (before sl k ids) \<inter> set (after sl k ids) = {}"
proof -
  have "distinct (before sl k ids @ after sl k ids)"
    using assms by (simp add: sl_inv_def)
  then show "distinct (before sl k ids)" "distinct (after sl k ids)"
    "set (before sl k ids) \<inter> set (after sl k ids) = {}"
    by (simp_all only: distinct_append)
qed

lemma level_chain: "sl_inv sl ids \<Longrightarrow> l < MAX_HEIGHT \<Longrightarrow> linked (link sl l) (HEAD # on_level sl l ids)"
  by (simp only: sl_inv_def)

lemma walk_to_pred:
  assumes inv: "sl_inv sl ids" and l: "l < MAX_HEIGHT"
    and split: "HEAD # on_level sl l (before sl k ids) = us @ cur # vs"
  shows "walk sl k l cur = Some (pred_on sl k ids l)"
  using split
proof (induction vs arbitrary: us cur)
  case Nil
  let ?B = "on_level sl l (after sl k ids)"
  have chain: "linked (link sl l) (us @ cur # ?B)"
  proof -
    have "linked (link sl l) (HEAD # on_level sl l (before sl k ids @ after sl k ids))"
      using inv l by (simp add: sl_inv_def)
    then have "linked (link sl l) ((HEAD # on_level sl l (before sl k ids)) @ ?B)"
      by (simp only: on_level_append append_Cons)
    then show ?thesis by (simp only: Nil append_assoc append_Cons append_Nil)
  qed
  have "cur \<in> set (HEAD # on_level sl l (before sl k ids))"
    by (simp only: Nil) simp
  then have "next_at sl cur l = Some (link sl l cur)"
    by (intro next_at_level [OF inv _ l]) (auto simp: set_on_level dest: set_before_subset)
  moreover have "link sl l cur = NIL \<or> link sl l cur \<noteq> NIL \<and>
      link sl l cur < length (nodes sl) \<and> \<not> key_of sl (link sl l cur) < k"
  proof (cases ?B)
    case Nil
    then show ?thesis using chain linked_last [of "link sl l" us cur] by simp
  next
    case (Cons b bs)
    then have b: "b \<in> set (after sl k ids)"
      by (metis list.set_intros(1) set_on_level)
    then have "b \<in> set (HEAD # ids)" by (simp add: set_after_subset)
    moreover have "k \<le> key_of sl b"
      using inv b by (intro after_ge) (simp_all add: sl_inv_def)
    moreover have "link sl l cur = b"
      using chain Cons linked_middle [of "link sl l" us cur b bs] by simp
    ultimately show ?thesis
      using sl_inv_index [OF inv, of b] by (simp add: not_less)
  qed
  moreover have "pred_on sl k ids l = cur"
    by (simp only: pred_on_def Nil last_snoc)
  ultimately show ?case
    by (subst walk.simps) auto
next
  case (Cons v vs)
  have chain: "linked (link sl l) (us @ cur # v # vs @ on_level sl l (after sl k ids))"
  proof -
    have "linked (link sl l) (HEAD # on_level sl l (before sl k ids @ after sl k ids))"
      using inv l by (simp add: sl_inv_def)
    then have "linked (link sl l) ((HEAD # on_level sl l (before sl k ids)) @ on_level sl l (after sl k ids))"
      by (simp only: on_level_append append_Cons)
    then show ?thesis by (simp only: Cons.prems append_assoc append_Cons append_Nil)
  qed
  have v: "v \<in> set (on_level sl l (before sl k ids))"
    using Cons.prems by (cases us) auto
  then have "v \<in> set (HEAD # ids)" by (auto simp: set_on_level dest: set_before_subset)
  note iv = sl_inv_index [OF inv this]
  have "cur \<in> set (HEAD # on_level sl l (before sl k ids))"
    by (simp only: Cons.prems) simp
  then have nx: "next_at sl cur l = Some (link sl l cur)"
    by (intro next_at_level [OF inv _ l]) (auto simp: set_on_level dest: set_before_subset)
  have "link sl l cur = v"
    using linked_middle [OF chain] .
  moreover have "key_of sl v < k"
    using v by (auto simp: set_on_level dest: before_less)
  moreover have "walk sl k l v = Some (pred_on sl k ids l)"
    using Cons.prems by (intro Cons.IH [of "us @ [cur]"]) simp
  ultimately show ?case
    using nx iv by (subst walk.simps) simp
qed

text \<open>The predecessor of a level is a node of the levels below it.\<close>

lemma pred_on_member: "pred_on sl k ids l \<in> set (HEAD # on_level sl l (before sl k ids))"
  unfolding pred_on_def by (rule last_in_set) simp

lemma on_level_lower: "m \<le> l \<Longrightarrow> i \<in> set (on_level sl l xs) \<Longrightarrow> i \<in> set (on_level sl m xs)"
  by (auto simp: set_on_level)

lemma walk_from_member:
  assumes inv: "sl_inv sl ids" and l: "l < MAX_HEIGHT"
    and cur: "cur \<in> set (HEAD # on_level sl l (before sl k ids))"
  shows "walk sl k l cur = Some (pred_on sl k ids l)"
proof -
  from cur obtain us vs where "HEAD # on_level sl l (before sl k ids) = us @ cur # vs"
    by (metis split_list)
  with inv l show ?thesis by (rule walk_to_pred)
qed

definition reaches :: "('k::linorder, 'v) skiplist \<Rightarrow> 'k \<Rightarrow> nat list \<Rightarrow> nat \<Rightarrow> nat \<Rightarrow> bool" where
  "reaches sl k ids level cur \<longleftrightarrow>
     (case level of 0 \<Rightarrow> True
      | Suc l \<Rightarrow> cur \<in> set (HEAD # on_level sl l (before sl k ids)))"

lemma reaches_HEAD [simp]: "reaches sl k ids level HEAD"
  by (simp add: reaches_def split: nat.splits)

lemma reaches_pred: "reaches sl k ids l (pred_on sl k ids l)"
  using pred_on_member [of sl k ids l]
  by (auto simp: reaches_def set_on_level split: nat.splits)

lemma seek_loop_pred:
  assumes inv: "sl_inv sl ids"
  shows "Suc l \<le> MAX_HEIGHT \<Longrightarrow> reaches sl k ids (Suc l) cur \<Longrightarrow>
     seek_loop sl k (Suc l) cur = Some (pred_on sl k ids 0)"
proof (induction l arbitrary: cur)
  case 0
  then show ?case using walk_from_member [OF inv] by (simp add: reaches_def)
next
  case (Suc l)
  have "walk sl k (Suc l) cur = Some (pred_on sl k ids (Suc l))"
    using Suc.prems by (intro walk_from_member [OF inv]) (simp_all add: reaches_def)
  with Suc.IH [of "pred_on sl k ids (Suc l)"] Suc.prems show ?case
    by (simp add: reaches_pred)
qed

lemma find_prev_loop_pred:
  assumes inv: "sl_inv sl ids"
  shows "level \<le> MAX_HEIGHT \<Longrightarrow> length prev = MAX_HEIGHT \<Longrightarrow> reaches sl k ids level cur \<Longrightarrow>
     \<exists>prev'. find_prev_loop sl k level cur prev = Some prev' \<and> length prev' = MAX_HEIGHT \<and>
       (\<forall>l < MAX_HEIGHT. prev' ! l = (if l < level then pred_on sl k ids l else prev ! l))"
proof (induction level arbitrary: cur prev)
  case 0
  then show ?case by simp
next
  case (Suc level)
  let ?c = "pred_on sl k ids level"
  have w: "walk sl k level cur = Some ?c"
    using Suc.prems by (intro walk_from_member [OF inv]) (simp_all add: reaches_def)
  obtain prev' where prev': "find_prev_loop sl k level ?c (prev[level := ?c]) = Some prev'"
    "length prev' = MAX_HEIGHT"
    "\<forall>l < MAX_HEIGHT. prev' ! l = (if l < level then pred_on sl k ids l else prev[level := ?c] ! l)"
    using Suc.IH [of "prev[level := ?c]" ?c] Suc.prems by (auto simp: reaches_pred)
  have "prev' ! l = (if l < Suc level then pred_on sl k ids l else prev ! l)" if "l < MAX_HEIGHT" for l
    using prev'(3) that Suc.prems by (cases "l = level") auto
  with w prev' Suc.prems show ?case by auto
qed

lemma pred_above_max:
  assumes "sl_inv sl ids" and "max_height sl \<le> l"
  shows "pred_on sl k ids l = HEAD"
proof -
  have "\<not> l < height_of sl i" if "i \<in> set (before sl k ids)" for i
  proof -
    have "height_of sl i \<le> max_height sl"
      using assms(1) set_before_subset [OF that] by (simp only: sl_inv_def)
    with assms(2) show ?thesis by simp
  qed
  then have "on_level sl l (before sl k ids) = []"
    by (simp add: on_level_def)
  then show ?thesis by (simp add: pred_on_def)
qed

lemma find_prev_correct:
  assumes inv: "sl_inv sl ids"
  shows "\<exists>prev. find_prev sl k = Some prev \<and> length prev = MAX_HEIGHT \<and>
    (\<forall>l < MAX_HEIGHT. prev ! l = pred_on sl k ids l)"
proof -
  have "max_height sl \<le> MAX_HEIGHT" using inv by (simp add: sl_inv_def)
  then obtain prev where prev: "find_prev sl k = Some prev" "length prev = MAX_HEIGHT"
    "\<forall>l < MAX_HEIGHT. prev ! l = (if l < max_height sl then pred_on sl k ids l else 0)"
    using find_prev_loop_pred [OF inv, of "max_height sl" "replicate MAX_HEIGHT 0" k HEAD]
    by (auto simp: find_prev_def)
  have "prev ! l = pred_on sl k ids l" if "l < MAX_HEIGHT" for l
    using prev(3) that pred_above_max [OF inv, of l k] by (auto simp: HEAD_def not_less)
  with prev show ?thesis by blast
qed

lemma seek_correct:
  assumes inv: "sl_inv sl ids"
  shows "seek_loop sl k (max_height sl) HEAD = Some (pred_on sl k ids 0)"
proof -
  obtain l where "max_height sl = Suc l" "Suc l \<le> MAX_HEIGHT"
    using inv by (cases "max_height sl") (auto simp: sl_inv_def)
  then show ?thesis using seek_loop_pred [OF inv, of l k HEAD] by simp
qed

text \<open>On the bottom level the node after the predecessor is the first one not below the key.\<close>

lemma on_level_0:
  assumes "sl_inv sl ids" and "set xs \<subseteq> set ids"
  shows "on_level sl 0 xs = xs"
proof -
  have "0 < height_of sl i" if "i \<in> set xs" for i
    using assms that by (auto simp: sl_inv_def Suc_le_eq)
  then show ?thesis by (simp add: on_level_def)
qed

lemma bottom_successor:
  assumes inv: "sl_inv sl ids"
  shows "next_at sl (pred_on sl k ids 0) 0 =
    Some (case after sl k ids of [] \<Rightarrow> NIL | b # _ \<Rightarrow> b)"
proof -
  let ?p = "pred_on sl k ids 0"
  have m: "0 < MAX_HEIGHT" by (simp add: MAX_HEIGHT_def)
  have A: "on_level sl 0 (before sl k ids) = before sl k ids"
    by (rule on_level_0 [OF inv]) (auto dest: set_before_subset)
  have "HEAD # before sl k ids = butlast (HEAD # before sl k ids) @ [?p]"
    unfolding pred_on_def A by (rule append_butlast_last_id [symmetric]) simp
  then have "HEAD # ids = butlast (HEAD # before sl k ids) @ ?p # after sl k ids"
    by (metis append_Cons append_assoc append_Nil before_after)
  moreover have "linked (link sl 0) (HEAD # ids)"
    using inv m on_level_0 [OF inv subset_refl] unfolding sl_inv_def by metis
  ultimately have chain: "linked (link sl 0) (butlast (HEAD # before sl k ids) @ ?p # after sl k ids)"
    by simp
  have "link sl 0 ?p = (case after sl k ids of [] \<Rightarrow> NIL | b # _ \<Rightarrow> b)"
    using chain by (rule linked_next)
  moreover have "next_at sl ?p 0 = Some (link sl 0 ?p)"
    using pred_on_member [of sl k ids 0]
    by (intro next_at_level [OF inv _ m]) (auto simp: set_on_level dest: set_before_subset)
  ultimately show ?thesis by simp
qed

section \<open>Refinement of a sorted association list\<close>

lemma items_of_append [simp]: "items_of sl (xs @ ys) = items_of sl xs @ items_of sl ys"
  by (simp add: items_of_def)

lemma items_of_Cons: "items_of sl (i # is) = (node_key (nodes sl ! i), node_value (nodes sl ! i)) # items_of sl is"
  by (simp add: items_of_def)

lemma find_items:
  "sorted (map (key_of sl) ids) \<Longrightarrow>
   List.find (\<lambda>(k', _). k \<le> k') (items_of sl ids) =
     (case after sl k ids of [] \<Rightarrow> None | b # _ \<Rightarrow> Some (node_key (nodes sl ! b), node_value (nodes sl ! b)))"
  by (induction ids) (auto simp: items_of_def after_def)

lemma sl_lower_bound_inv:
  assumes inv: "sl_inv sl ids"
  shows "sl_lower_bound sl k = Some (List.find (\<lambda>(k', _). k \<le> k') (items_of sl ids))"
proof (cases "after sl k ids")
  case Nil
  then show ?thesis
    using inv find_items [of sl ids k]
    by (simp add: sl_lower_bound_def seek_correct [OF inv] bottom_successor [OF inv] sl_inv_def)
next
  case (Cons b bs)
  then have "b \<in> set (HEAD # ids)"
    using set_after_subset [of b sl k ids] by simp
  with sl_inv_index [OF inv this] Cons show ?thesis
    using inv find_items [of sl ids k]
    by (simp add: sl_lower_bound_def seek_correct [OF inv] bottom_successor [OF inv] sl_inv_def)
qed

lemma sl_get_lower_bound:
  "sl_get sl k = map_option (\<lambda>r. case r of None \<Rightarrow> None
     | Some (k', v) \<Rightarrow> if k' = k then Some v else None) (sl_lower_bound sl k)"
  by (simp add: sl_get_def sl_lower_bound_def map_option_bind o_def if_distrib cong: if_cong)

lemma iter_from_suffix:
  assumes inv: "sl_inv sl ids" and split: "ids = us @ vs"
  shows "iter_from sl (case vs of [] \<Rightarrow> NIL | v # _ \<Rightarrow> v) = Some (items_of sl vs)"
  using split
proof (induction vs arbitrary: us)
  case Nil
  show ?case by (subst iter_from.simps) (simp add: items_of_def)
next
  case (Cons v vs)
  have m: "0 < MAX_HEIGHT" by (simp add: MAX_HEIGHT_def)
  have "v \<in> set (HEAD # ids)" using Cons.prems by simp
  note v = sl_inv_index [OF inv this]
  have lvl: "on_level sl 0 ids = ids" by (rule on_level_0 [OF inv subset_refl])
  have "linked (link sl 0) (HEAD # ids)"
    using inv m lvl unfolding sl_inv_def by metis
  then have "linked (link sl 0) ((HEAD # us) @ v # vs)" by (simp add: Cons.prems)
  then have "link sl 0 v = (case vs of [] \<Rightarrow> NIL | v # _ \<Rightarrow> v)"
    by (rule linked_next)
  moreover have "0 < height_of sl v"
    using lvl Cons.prems set_on_level [of v sl 0 ids] by simp
  moreover have "iter_from sl (case vs of [] \<Rightarrow> NIL | v # _ \<Rightarrow> v) = Some (items_of sl vs)"
    using Cons.prems by (intro Cons.IH [of "us @ [v]"]) simp
  ultimately show ?case
    using v by (subst iter_from.simps) (simp add: items_of_def)
qed

lemma sl_iter_inv:
  assumes inv: "sl_inv sl ids"
  shows "sl_iter sl = Some (items_of sl ids)"
proof -
  have m: "0 < MAX_HEIGHT" by (simp add: MAX_HEIGHT_def)
  have lvl: "on_level sl 0 ids = ids" by (rule on_level_0 [OF inv subset_refl])
  have "linked (link sl 0) ([] @ HEAD # ids)"
    using inv m lvl unfolding sl_inv_def by (metis append_Nil)
  then have "link sl 0 HEAD = (case ids of [] \<Rightarrow> NIL | v # _ \<Rightarrow> v)"
    by (rule linked_next)
  moreover have "next_at sl HEAD 0 = Some (link sl 0 HEAD)"
    by (rule next_at_level [OF inv _ m]) simp
  ultimately show ?thesis
    using iter_from_suffix [OF inv, of "[]" ids] by (simp add: sl_iter_def)
qed

section \<open>Insertion\<close>

lemma splice_result:
  assumes "distinct ls"
    and "\<And>l. l \<in> set ls \<Longrightarrow> l < length prev \<and> prev ! l < length ns \<and>
           l < length (next_links (ns ! (prev ! l))) \<and> l < length nn"
  shows "\<exists>ns' nn'. splice ls prev n ns nn = Some (ns', nn') \<and> length ns' = length ns \<and>
    length nn' = length nn \<and>
    (\<forall>i < length ns. node_key (ns' ! i) = node_key (ns ! i) \<and> node_value (ns' ! i) = node_value (ns ! i) \<and>
       length (next_links (ns' ! i)) = length (next_links (ns ! i)) \<and>
       (\<forall>l. next_links (ns' ! i) ! l = (if l \<in> set ls \<and> prev ! l = i then n else next_links (ns ! i) ! l))) \<and>
    (\<forall>l. nn' ! l = (if l \<in> set ls then next_links (ns ! (prev ! l)) ! l else nn ! l))"
  using assms
proof (induction ls arbitrary: ns nn)
  case Nil
  then show ?case by simp
next
  case (Cons l ls)
  let ?p = "prev ! l"
  define ns1 where "ns1 = ns[?p := (ns ! ?p)\<lparr>next_links := (next_links (ns ! ?p))[l := n]\<rparr>]"
  define nn1 where "nn1 = nn[l := next_links (ns ! ?p) ! l]"
  have l: "l < length prev" "?p < length ns" "l < length (next_links (ns ! ?p))" "l < length nn"
    using Cons.prems(2) [of l] by auto
  have len: "length ns1 = length ns" "length nn1 = length nn"
    "length (next_links (ns1 ! i)) = length (next_links (ns ! i))" for i
    using l by (auto simp: ns1_def nn1_def nth_list_update)
  have kv: "node_key (ns1 ! i) = node_key (ns ! i)" "node_value (ns1 ! i) = node_value (ns ! i)" for i
    using l by (auto simp: ns1_def nth_list_update)
  have lk: "next_links (ns1 ! i) ! m = (if i = ?p \<and> m = l then n else next_links (ns ! i) ! m)" for i m
    using l by (auto simp: ns1_def nth_list_update)
  have step: "splice (l # ls) prev n ns nn = splice ls prev n ns1 nn1"
    using l by (simp add: ns1_def nn1_def)
  obtain ns' nn' where r: "splice ls prev n ns1 nn1 = Some (ns', nn')" "length ns' = length ns"
    "length nn' = length nn"
    "\<And>i. i < length ns \<Longrightarrow> node_key (ns' ! i) = node_key (ns ! i) \<and> node_value (ns' ! i) = node_value (ns ! i) \<and>
       length (next_links (ns' ! i)) = length (next_links (ns ! i)) \<and>
       (\<forall>m. next_links (ns' ! i) ! m = (if m \<in> set ls \<and> prev ! m = i then n else next_links (ns1 ! i) ! m))"
    "\<And>m. nn' ! m = (if m \<in> set ls then next_links (ns1 ! (prev ! m)) ! m else nn1 ! m)"
    using Cons.IH [of ns1 nn1] Cons.prems by (auto simp: len kv)
  have "nn' ! m = (if m \<in> set (l # ls) then next_links (ns ! (prev ! m)) ! m else nn ! m)" for m
    using r(5) [of m] lk Cons.prems(1) l by (cases "m = l") (auto simp: nn1_def)
  moreover have "next_links (ns' ! i) ! m =
      (if m \<in> set (l # ls) \<and> prev ! m = i then n else next_links (ns ! i) ! m)" if "i < length ns" for i m
    using r(4) [OF that] lk Cons.prems(1) by (cases "m = l") auto
  ultimately show ?case
    using r(1,2,3,4) step by auto
qed

text \<open>
  The state after splicing a node of height \<open>h\<close> for key \<open>k\<close>: on the levels below \<open>h\<close> the new
  index follows the predecessor, everything else is as before.
\<close>

lemma insert_level:
  assumes inv: "sl_inv sl ids" and l: "l < MAX_HEIGHT" and n: "n = length (nodes sl)"
    and len: "\<And>i. i < n \<Longrightarrow> height_of sl' i = height_of sl i"
    and hn: "height_of sl' n = h"
    and old: "\<And>i. i < n \<Longrightarrow> link sl' l i = (if l < h \<and> i = pred_on sl k ids l then n else link sl l i)"
    and new: "l < h \<Longrightarrow> link sl' l n = link sl l (pred_on sl k ids l)"
  shows "linked (link sl' l) (HEAD # on_level sl' l (before sl k ids @ n # after sl k ids))"
proof -
  let ?A = "on_level sl l (before sl k ids)" and ?B = "on_level sl l (after sl k ids)"
  let ?p = "pred_on sl k ids l"
  have idx: "i < n" if "i \<in> set (HEAD # ids)" for i
    using sl_inv_index(1) [OF inv that] by (simp add: n)
  have bidx: "i < n" if "i \<in> set (before sl k ids)" for i
    using idx set_before_subset [OF that] by simp
  have aidx: "i < n" if "i \<in> set (after sl k ids)" for i
    using idx set_after_subset [OF that] by simp
  have A: "on_level sl' l (before sl k ids) = ?A"
    unfolding on_level_def by (rule filter_cong [OF refl]) (simp add: len bidx)
  have B: "on_level sl' l (after sl k ids) = ?B"
    unfolding on_level_def by (rule filter_cong [OF refl]) (simp add: len aidx)
  have chain: "linked (link sl l) (HEAD # ?A @ ?B)"
    using level_chain [OF inv l] on_level_append [of sl l "before sl k ids" "after sl k ids"]
    by (simp only: before_after)
  have cidx: "i < n" if "i \<in> set (HEAD # ?A @ ?B)" for i
    using that idx [of HEAD] bidx aidx by (auto simp: set_on_level)
  show ?thesis
  proof (cases "l < h")
    case True
    have p: "HEAD # ?A = butlast (HEAD # ?A) @ [?p]"
      unfolding pred_on_def by (rule append_butlast_last_id [symmetric]) simp
    then have eq: "HEAD # ?A @ ?B = butlast (HEAD # ?A) @ ?p # ?B"
      by (metis append_Cons append_assoc append_Nil)
    have "distinct (HEAD # ?A @ ?B)"
      using distinct_parts [OF inv, of k] inv set_before_subset [of HEAD sl k ids]
        set_after_subset [of HEAD sl k ids]
      by (auto simp: on_level_def sl_inv_def HEAD_def)
    moreover have "link sl' l ?p = n"
      using True cidx [of ?p] pred_on_member [of sl k ids l] by (auto simp: old)
    ultimately have "linked (link sl' l) (butlast (HEAD # ?A) @ ?p # n # ?B)"
      using chain cidx True
      by (intro linked_insert [where f = "link sl l"]) (auto simp: eq old new simp del: butlast.simps)
    then have "linked (link sl' l) (HEAD # ?A @ n # ?B)"
      using p by (metis append_Cons append_assoc append_Nil)
    then show ?thesis
      using True by (simp add: A B) (simp add: on_level_def hn B [unfolded on_level_def])
  next
    case False
    have "linked (link sl' l) (HEAD # ?A @ ?B)"
      using chain False cidx by (subst linked_cong [where g = "link sl l"]) (auto simp: old)
    then show ?thesis
      using False by (simp add: A B) (simp add: on_level_def hn B [unfolded on_level_def])
  qed
qed

lemma sl_inv_inserted:
  assumes inv: "sl_inv sl ids" and n: "n = length (nodes sl)" and room: "n < NIL"
    and h: "1 \<le> h" "h \<le> MAX_HEIGHT"
    and len': "length (nodes sl') = Suc n" and mh: "max_height sl' = max (max_height sl) h"
    and old: "\<And>i. i < n \<Longrightarrow> key_of sl' i = key_of sl i" "\<And>i. i < n \<Longrightarrow> height_of sl' i = height_of sl i"
    and lnk: "\<And>l i. l < MAX_HEIGHT \<Longrightarrow> i < n \<Longrightarrow>
        link sl' l i = (if l < h \<and> i = pred_on sl k ids l then n else link sl l i)"
    and new: "key_of sl' n = k" "height_of sl' n = h"
      "\<And>l. l < h \<Longrightarrow> link sl' l n = link sl l (pred_on sl k ids l)"
  shows "sl_inv sl' (before sl k ids @ n # after sl k ids)"
  unfolding sl_inv_def
proof (intro conjI allI impI)
  let ?A = "before sl k ids" and ?B = "after sl k ids"
  have idx: "i < n" if "i \<in> set (HEAD # ids)" for i
    using sl_inv_index(1) [OF inv that] by (simp add: n)
  have bidx: "i < n" if "i \<in> set ?A" for i using idx set_before_subset [OF that] by simp
  have aidx: "i < n" if "i \<in> set ?B" for i using idx set_after_subset [OF that] by simp
  have n_pos: "0 < n" using inv by (simp add: sl_inv_def n)
  show "length (nodes sl') \<le> NIL" using room len' by simp
  show "height_of sl' HEAD = MAX_HEIGHT"
    using inv idx [of HEAD] old(2) [of HEAD] by (simp add: sl_inv_def)
  have "n \<notin> set ?A" "n \<notin> set ?B" using bidx aidx by blast+
  then show "distinct (?A @ n # ?B)" using distinct_parts [OF inv, of k] by simp
  have "set ?A \<union> set ?B = set ids" by (metis before_after set_append)
  then have "set (?A @ n # ?B) = insert n (set ids)" by auto
  also have "\<dots> = insert n {1..<n}" using inv by (simp add: sl_inv_def n)
  also have "\<dots> = {1..<length (nodes sl')}" using n_pos len' by auto
  finally show "set (?A @ n # ?B) = {1..<length (nodes sl')}" .
  show "nodes sl' \<noteq> []" using len' by auto
  show "\<forall>i \<in> set (?A @ n # ?B). 1 \<le> height_of sl' i \<and> height_of sl' i \<le> max_height sl'"
  proof
    fix i assume "i \<in> set (?A @ n # ?B)"
    then have "i = n \<or> i \<in> set ids \<and> i < n"
      using idx set_before_subset set_after_subset by (metis Un_iff insert_iff list.simps(15) set_append)
    moreover have "1 \<le> height_of sl i \<and> height_of sl i \<le> max_height sl" if "i \<in> set ids"
      using inv that by (simp only: sl_inv_def)
    ultimately show "1 \<le> height_of sl' i \<and> height_of sl' i \<le> max_height sl'"
      using new(2) h(1) old(2) [of i] mh by auto
  qed
  show "1 \<le> max_height sl'" "max_height sl' \<le> MAX_HEIGHT"
    using inv h mh by (auto simp: sl_inv_def)
  have srt: "sorted (map (key_of sl) ids)" using inv by (simp add: sl_inv_def)
  then have "sorted (map (key_of sl) ?A @ map (key_of sl) ?B)"
    by (simp only: before_after flip: map_append)
  then have "sorted (map (key_of sl) ?A @ k # map (key_of sl) ?B)"
    using before_less [of _ sl k ids] after_ge [OF srt]
    by (auto simp: sorted_append less_imp_le)
  moreover have "map (key_of sl') ?A = map (key_of sl) ?A" "map (key_of sl') ?B = map (key_of sl) ?B"
    using bidx aidx old(1) by auto
  ultimately show "sorted (map (key_of sl') (?A @ n # ?B))"
    by (simp only: map_append list.map new(1))
next
  fix l assume "l < MAX_HEIGHT"
  then show "linked (link sl' l) (HEAD # on_level sl' l (before sl k ids @ n # after sl k ids))"
    using old new lnk by (intro insert_level [OF inv _ n]) auto
qed

lemma pred_on_index:
  assumes inv: "sl_inv sl ids" and l: "l < MAX_HEIGHT"
  shows "pred_on sl k ids l < length (nodes sl)" "l < height_of sl (pred_on sl k ids l)"
proof -
  have p: "pred_on sl k ids l \<in> set (HEAD # on_level sl l (before sl k ids))"
    by (rule pred_on_member)
  then have "pred_on sl k ids l \<in> set (HEAD # ids)"
    by (auto simp: set_on_level dest: set_before_subset)
  then show "pred_on sl k ids l < length (nodes sl)" by (rule sl_inv_index(1) [OF inv])
  show "l < height_of sl (pred_on sl k ids l)"
    using p inv l by (auto simp: set_on_level sl_inv_def)
qed

lemma sl_insert_inv:
  assumes inv: "sl_inv sl ids" and room: "length (nodes sl) < NIL"
  shows "\<exists>sl'. sl_insert draws k v sl = Some sl' \<and>
    sl_inv sl' (before sl k ids @ length (nodes sl) # after sl k ids) \<and>
    items_of sl' (before sl k ids @ length (nodes sl) # after sl k ids) =
      items_of sl (before sl k ids) @ (k, v) # items_of sl (after sl k ids)"
proof -
  define n where "n = length (nodes sl)"
  define h where "h = random_height draws"
  have h: "1 \<le> h" "h \<le> MAX_HEIGHT" using random_height_bounds by (simp_all add: h_def)
  obtain prev where prev: "find_prev sl k = Some prev" "length prev = MAX_HEIGHT"
    "\<And>l. l < MAX_HEIGHT \<Longrightarrow> prev ! l = pred_on sl k ids l"
    using find_prev_correct [OF inv, of k] by auto
  have pidx: "prev ! l < n \<and> l < height_of sl (prev ! l)" if "l < h" for l
    using pred_on_index [OF inv, of l k] prev(3) [of l] that h by (simp add: n_def)
  obtain ns nn where r: "splice [0..<h] prev n (nodes sl) (replicate h NIL) = Some (ns, nn)"
    "length ns = n" "length nn = h"
    "\<And>i. i < n \<Longrightarrow> node_key (ns ! i) = key_of sl i \<and> node_value (ns ! i) = node_value (nodes sl ! i) \<and>
       length (next_links (ns ! i)) = height_of sl i \<and>
       (\<forall>l. next_links (ns ! i) ! l = (if l \<in> set [0..<h] \<and> prev ! l = i then n else link sl l i))"
    "\<And>l. nn ! l = (if l \<in> set [0..<h] then link sl l (prev ! l) else replicate h NIL ! l)"
    using splice_result [of "[0..<h]" prev "nodes sl" "replicate h NIL" n] pidx h prev(2)
    by (auto simp: n_def)
  define sl' where "sl' = \<lparr>nodes = ns @ [\<lparr>node_key = k, node_value = v, next_links = nn\<rparr>],
     max_height = (if max_height sl < h then h else max_height sl)\<rparr>"
  have ins: "sl_insert draws k v sl = Some sl'"
    using r(1) by (simp add: sl_insert_def prev(1) Let_def node_new_def sl'_def flip: h_def n_def)
  have old: "nodes sl' ! i = ns ! i" if "i < n" for i
    using that r(2) by (simp add: sl'_def nth_append)
  have new: "key_of sl' n = k" "node_value (nodes sl' ! n) = v" "next_links (nodes sl' ! n) = nn"
    using r(2) by (simp_all add: sl'_def nth_append)
  have sizes: "length (nodes sl') = Suc n" "max_height sl' = max (max_height sl) h" "n < NIL"
    using r(2) room by (simp_all add: sl'_def n_def)
  have lnk: "link sl' l i = (if l < h \<and> i = pred_on sl k ids l then n else link sl l i)"
    if "l < MAX_HEIGHT" "i < n" for l i
    using r(4) [OF that(2)] prev(3) [OF that(1)] old [OF that(2)] by auto
  have "link sl' l n = link sl l (pred_on sl k ids l)" if "l < h" for l
    using r(5) [of l] prev(3) [of l] new(3) that h by simp
  then have "sl_inv sl' (before sl k ids @ n # after sl k ids)"
    using r(3,4) lnk by (intro sl_inv_inserted [OF inv n_def _ h]) (simp_all add: sizes old new)
  moreover have "items_of sl' xs = items_of sl xs" if "set xs \<subseteq> set ids" for xs
  proof -
    have "i < n" if "i \<in> set xs" for i
      using sl_inv_index(1) [OF inv, of i] \<open>set xs \<subseteq> set ids\<close> that by (auto simp: n_def)
    with r(4) old show ?thesis by (simp add: items_of_def)
  qed
  then have "items_of sl' (before sl k ids @ n # after sl k ids) =
      items_of sl (before sl k ids) @ (k, v) # items_of sl (after sl k ids)"
    using new(1,2) set_before_subset [of _ sl k ids] set_after_subset [of _ sl k ids]
    by (simp add: subset_iff items_of_Cons)
  ultimately show ?thesis using ins by (auto simp: n_def)
qed

lemma insort_items:
  "insort_key fst (k, v) (items_of sl ids) =
     items_of sl (before sl k ids) @ (k, v) # items_of sl (after sl k ids)"
  by (induction ids) (auto simp: items_of_def before_def after_def)

lemma sorted_items: "sl_inv sl ids \<Longrightarrow> sorted (map fst (items_of sl ids))"
  by (simp add: sl_inv_def items_of_def o_def)

lemma length_items: "sl_inv sl ids \<Longrightarrow> length (nodes sl) = Suc (length (items_of sl ids))"
proof -
  assume inv: "sl_inv sl ids"
  have "length ids = card {1..<length (nodes sl)}"
    using inv distinct_card [of ids] by (simp add: sl_inv_def)
  moreover have "0 < length (nodes sl)" using inv by (simp add: sl_inv_def)
  ultimately show ?thesis by (simp add: items_of_def)
qed

lemma sl_rep_new: "sl_rep (skiplist_new dk dv) []"
  by (auto simp: sl_rep_def sl_inv_def skiplist_new_def node_new_def items_of_def on_level_def
      HEAD_def MAX_HEIGHT_def NIL_def)

lemma sl_rep_insert:
  assumes "sl_rep sl xs" and "length xs < NIL - 1"
  shows "\<exists>sl'. sl_insert draws k v sl = Some sl' \<and> sl_rep sl' (insort_key fst (k, v) xs)"
proof -
  from assms(1) obtain ids where ids: "sl_inv sl ids" "xs = items_of sl ids"
    by (auto simp: sl_rep_def)
  have "length (nodes sl) < NIL" using length_items [OF ids(1)] assms(2) ids(2) by simp
  from sl_insert_inv [OF ids(1) this, of draws k v] obtain sl' where
    "sl_insert draws k v sl = Some sl'"
    "sl_inv sl' (before sl k ids @ length (nodes sl) # after sl k ids)"
    "items_of sl' (before sl k ids @ length (nodes sl) # after sl k ids) =
       insort_key fst (k, v) (items_of sl ids)"
    by (auto simp only: insort_items)
  then show ?thesis
    unfolding sl_rep_def ids(2) by metis
qed

lemma sl_rep_iter: "sl_rep sl xs \<Longrightarrow> sl_iter sl = Some xs"
  by (auto simp: sl_rep_def sl_iter_inv)

lemma sl_rep_lower_bound:
  "sl_rep sl xs \<Longrightarrow> sl_lower_bound sl k = Some (List.find (\<lambda>(k', _). k \<le> k') xs)"
  by (auto simp: sl_rep_def sl_lower_bound_inv)

lemma sl_rep_sorted: "sl_rep sl xs \<Longrightarrow> sorted (map fst xs)"
  by (auto simp: sl_rep_def sorted_items)

section \<open>The interface the memtable uses\<close>

text \<open>
  What the memtable needs from its index: an ordered multimap into which insertion puts an entry
  before the entries with an equal key, with ordered iteration and lower-bound search.
\<close>

locale ordered_index =
  fixes empty :: "'s"
    and insert :: "(nat \<Rightarrow> nat) \<Rightarrow> 'k::linorder \<Rightarrow> 'v \<Rightarrow> 's \<Rightarrow> 's option"
    and lower_bound :: "'s \<Rightarrow> 'k \<Rightarrow> ('k \<times> 'v) option option"
    and iter :: "'s \<Rightarrow> ('k \<times> 'v) list option"
    and rep :: "'s \<Rightarrow> ('k \<times> 'v) list \<Rightarrow> bool"
    and capacity :: nat
  assumes rep_empty: "rep empty []"
    and rep_insert: "rep s xs \<Longrightarrow> length xs < capacity \<Longrightarrow>
        \<exists>s'. insert draws k v s = Some s' \<and> rep s' (insort_key fst (k, v) xs)"
    and rep_lower_bound: "rep s xs \<Longrightarrow> lower_bound s k = Some (List.find (\<lambda>(k', _). k \<le> k') xs)"
    and rep_iter: "rep s xs \<Longrightarrow> iter s = Some xs"
    and rep_sorted: "rep s xs \<Longrightarrow> sorted (map fst xs)"
begin

text \<open>The represented list is determined by the state.\<close>

lemma rep_unique: "rep s xs \<Longrightarrow> rep s ys \<Longrightarrow> xs = ys"
  using rep_iter [of s xs] rep_iter [of s ys] by simp

lemma lower_bound_none:
  "rep s xs \<Longrightarrow> lower_bound s k = Some None \<longleftrightarrow> (\<forall>e \<in> set xs. fst e < k)"
  by (auto simp: rep_lower_bound find_None_iff not_le)

text \<open>Insertion never loses or changes the other entries.\<close>

lemma insert_set:
  assumes "rep s xs" and "length xs < capacity"
  shows "\<exists>s' xs'. insert draws k v s = Some s' \<and> rep s' xs' \<and> set xs' = {(k, v)} \<union> set xs \<and>
    length xs' = Suc (length xs)"
proof -
  obtain s' where "insert draws k v s = Some s'" "rep s' (insort_key fst (k, v) xs)"
    using rep_insert [OF assms, of draws k v] by blast
  then show ?thesis
    by (intro exI [of _ s'] exI [of _ "insort_key fst (k, v) xs"]) (simp add: set_insort_key)
qed

end

interpretation sl: ordered_index "skiplist_new dk dv" sl_insert sl_lower_bound sl_iter sl_rep "NIL - 1"
  by unfold_locales
     (auto simp: sl_rep_new sl_rep_lower_bound sl_rep_iter intro: sl_rep_insert sl_rep_sorted)

section \<open>Properties\<close>

text \<open>A client that inserts entries one by one, with the height draws of each insertion.\<close>

definition insert_all ::
    "(nat \<Rightarrow> nat \<Rightarrow> nat) \<Rightarrow> ('k::linorder \<times> 'v) list \<Rightarrow> ('k, 'v) skiplist \<Rightarrow> ('k, 'v) skiplist option" where
  "insert_all draws kvs sl =
     foldl (\<lambda>s (i, k, v). Option.bind s (sl_insert (draws i) k v)) (Some sl) (enumerate 0 kvs)"

lemma insert_all_rep:
  "length kvs \<le> NIL - 1 \<Longrightarrow> \<exists>sl. insert_all draws kvs (skiplist_new dk dv) = Some sl \<and>
     sl_rep sl (sort_key fst (rev kvs))"
proof (induction kvs rule: rev_induct)
  case Nil
  then show ?case by (simp add: insert_all_def sl_rep_new)
next
  case (snoc kv kvs)
  then obtain sl where sl: "insert_all draws kvs (skiplist_new dk dv) = Some sl"
    "sl_rep sl (sort_key fst (rev kvs))" by auto
  then obtain sl' where "sl_insert (draws (length kvs)) (fst kv) (snd kv) sl = Some sl'"
    "sl_rep sl' (sort_key fst (rev (kvs @ [kv])))"
    using sl_rep_insert [OF sl(2), of "draws (length kvs)" "fst kv" "snd kv"] snoc.prems by auto
  then show ?case
    using sl by (cases kv) (simp add: insert_all_def enumerate_append_eq)
qed

text \<open>C25: Inserting entries one by one into an empty skip list always succeeds, whatever heights the random
  draws give; iterating then yields exactly the inserted entries, stably sorted by key with the
  newest of equal keys first, and a lower-bound search yields the first of them whose key is not
  smaller.\<close>

theorem skiplist_refines_sorted_list:
  assumes "length kvs \<le> NIL - 1"
  shows "\<exists>sl. insert_all draws kvs (skiplist_new dk dv) = Some sl \<and>
     sl_iter sl = Some (sort_key fst (rev kvs)) \<and>
     sl_lower_bound sl k = Some (List.find (\<lambda>(k', _). k \<le> k') (sort_key fst (rev kvs)))"
  using insert_all_rep [OF assms, of draws dk dv] sl_rep_iter sl_rep_lower_bound by blast

theorem skiplist_refines_sorted_list_witness:
  "\<exists>sl. insert_all (\<lambda>i n. if n < i then 0 else 1) [(5, ''a''), (2, ''b''), (5, ''c'')] (skiplist_new 0 []) = Some sl \<and>
     sl_iter sl = Some [(2 :: nat, ''b''), (5, ''c''), (5, ''a'')] \<and> sl_lower_bound sl 3 = Some (Some (5, ''c''))"
  using skiplist_refines_sorted_list [of "[(5 :: nat, ''a''), (2, ''b''), (5, ''c'')]" "\<lambda>i n. if n < i then 0 else 1" 0 "[]" 3]
  by (simp add: NIL_def)

text \<open>An exact lookup in a skip list that holds given entries returns a value of the key, the newest one, and
  nothing when the key is absent.\<close>

lemma skiplist_get:
  assumes "sl_rep sl xs"
  shows "sl_get sl k = Some (map_of xs k)"
proof -
  have "sorted (map fst xs) \<Longrightarrow>
      (case List.find (\<lambda>(k', _). k \<le> k') xs of None \<Rightarrow> None | Some (k', v) \<Rightarrow> if k' = k then Some v else None) =
      map_of xs k"
    by (induction xs) (force intro!: map_of_eq_None_iff [THEN iffD2, symmetric])+
  then show ?thesis
    using sl_rep_sorted [OF assms] by (simp add: sl_get_lower_bound sl_rep_lower_bound [OF assms])
qed

end
