(* ===== verification/Wal.thy ===== *)
theory Wal
  imports Varint Internal_Key
begin

text \<open>
  \<^verbatim>\<open>src/src/wal.rs\<close>: the write-ahead log, which is also the record format of the manifest. A log
  is a run of 32 KB blocks; a record is cut into FULL or FIRST/MIDDLE/LAST pieces, each with a
  seven-byte header (crc, length, type), and a block tail too short for a header is zero-filled.

  The checksum comes from the external crate \<^verbatim>\<open>crc\<close> and is a parameter \<open>crc\<close> of the model; nothing
  is assumed of it. A file is its byte list. Writes and syncs of the operating system are taken
  to succeed; a crash is a truncation of the file.
\<close>

section \<open>Records\<close>

definition BLOCK_SIZE :: nat where "BLOCK_SIZE = 32768"
definition HEADER_SIZE :: nat where "HEADER_SIZE = 7"
definition DATA_MAX :: nat where "DATA_MAX = BLOCK_SIZE - HEADER_SIZE"

datatype record_type = Full | First | Middle | Last

fun rtype_as_u8 :: "record_type \<Rightarrow> byte" where
  "rtype_as_u8 Full = 1"
| "rtype_as_u8 First = 2"
| "rtype_as_u8 Middle = 3"
| "rtype_as_u8 Last = 4"

definition rtype_from_u8 :: "byte \<Rightarrow> record_type option" where
  "rtype_from_u8 v =
     (if v = 1 then Some Full else if v = 2 then Some First
      else if v = 3 then Some Middle else if v = 4 then Some Last else None)"

record record_header =
  checksum :: u32
  rec_length :: u16
  rtype :: record_type

text \<open>\<open>decode_header\<close>; the argument is the seven header bytes.\<close>

definition decode_header :: "bytes \<Rightarrow> record_header res" where
  "decode_header buf =
     bind_res (ok_or (rtype_from_u8 (buf ! 6)) (Corrupted ''unknown record type''))
       (\<lambda>t. Inr \<lparr>checksum = from_le (take 4 buf), rec_length = from_le (take 2 (drop 4 buf)), rtype = t\<rparr>)"

definition verify_checksum :: "(bytes \<Rightarrow> u32) \<Rightarrow> record_type \<Rightarrow> bytes \<Rightarrow> u32 \<Rightarrow> bool" where
  "verify_checksum crc t data expected \<longleftrightarrow> crc (rtype_as_u8 t # data) = expected"

definition encode_piece :: "(bytes \<Rightarrow> u32) \<Rightarrow> bytes \<Rightarrow> record_type \<Rightarrow> bytes \<Rightarrow> bytes" where
  "encode_piece crc buf t data =
     buf @ to_le 4 (crc (rtype_as_u8 t # data)) @ to_le 2 (of_nat (length data) :: u16) @
     [rtype_as_u8 t] @ data"

definition encode_full :: "(bytes \<Rightarrow> u32) \<Rightarrow> bytes \<Rightarrow> bytes \<Rightarrow> bytes" where
  "encode_full crc buf data =
     buf @ to_le 4 (crc (rtype_as_u8 Full # data)) @ to_le 2 (of_nat (length data) :: u16) @
     [rtype_as_u8 Full] @ data"

section \<open>Writing\<close>

record wal_writer =
  wal_file :: bytes
  block_offset :: nat

text \<open>\<open>WalWriter::create\<close> on a file that holds \<open>bs\<close> (the empty list for a new file).\<close>

definition wal_create :: "bytes \<Rightarrow> wal_writer" where
  "wal_create bs = \<lparr>wal_file = bs, block_offset = length bs mod BLOCK_SIZE\<rparr>"

definition block_offset_safe :: "nat \<Rightarrow> nat" where
  "block_offset_safe off = (if BLOCK_SIZE < off then BLOCK_SIZE else off)"

text \<open>The zero fill at the start of a loop iteration of \<open>add_record\<close>.\<close>

definition fill_trailer :: "wal_writer \<Rightarrow> wal_writer" where
  "fill_trailer w =
     (let leftover = BLOCK_SIZE - block_offset_safe (block_offset w) in
      if leftover < HEADER_SIZE
      then \<lparr>wal_file = (if 0 < leftover then wal_file w @ replicate leftover 0 else wal_file w),
            block_offset = 0\<rparr>
      else w)"

definition piece_type :: "bool \<Rightarrow> bool \<Rightarrow> record_type" where
  "piece_type is_first is_last =
     (if is_first then (if is_last then Full else First) else (if is_last then Last else Middle))"

lemma block_offset_fill_trailer:
  "block_offset (fill_trailer w) =
     (if BLOCK_SIZE - HEADER_SIZE < block_offset w then 0 else block_offset w)"
  by (auto simp: fill_trailer_def block_offset_safe_def BLOCK_SIZE_def HEADER_SIZE_def Let_def)

text \<open>An empty piece fills its block, so the next iteration makes progress.\<close>

lemma add_record_decreases:
  assumes "drop (min (length remaining) (BLOCK_SIZE - HEADER_SIZE - block_offset (fill_trailer w))) remaining \<noteq> []"
    and "block_offset w' = block_offset (fill_trailer w) + HEADER_SIZE +
      min (length remaining) (BLOCK_SIZE - HEADER_SIZE - block_offset (fill_trailer w))"
  shows "2 * length (drop (min (length remaining) (BLOCK_SIZE - HEADER_SIZE - block_offset (fill_trailer w))) remaining)
      + (if BLOCK_SIZE - HEADER_SIZE \<le> block_offset (fill_trailer w') then 1 else 0)
    < 2 * length remaining + (if BLOCK_SIZE - HEADER_SIZE \<le> block_offset (fill_trailer w) then 1 else (0::nat))"
  using assms
  by (auto simp: block_offset_fill_trailer BLOCK_SIZE_def HEADER_SIZE_def split: if_splits)

text \<open>The \<open>loop\<close> of \<open>add_record\<close>.\<close>

function add_record_loop :: "(bytes \<Rightarrow> u32) \<Rightarrow> wal_writer \<Rightarrow> bool \<Rightarrow> bytes \<Rightarrow> wal_writer" where
  "add_record_loop crc w first remaining =
     (let w = fill_trailer w;
          avail = BLOCK_SIZE - HEADER_SIZE - block_offset w;
          piece_len = min (length remaining) avail;
          piece = take piece_len remaining;
          is_last = (piece_len = length remaining);
          w' = \<lparr>wal_file = wal_file w @ encode_piece crc [] (piece_type first is_last) piece,
                block_offset = block_offset w + HEADER_SIZE + piece_len\<rparr>;
          remaining' = drop piece_len remaining
      in if remaining' = [] then w' else add_record_loop crc w' False remaining')"
  by pat_completeness auto
termination
proof (relation "measure (\<lambda>(crc, w, first, remaining).
    2 * length remaining + (if BLOCK_SIZE - HEADER_SIZE \<le> block_offset (fill_trailer w) then 1 else 0))",
    goal_cases)
  case 1
  show ?case by simp
next
  case 2
  then show ?case
    by (hypsubst, unfold in_measure prod.case)
       (rule add_record_decreases, assumption, simp only: wal_writer.select_convs)
qed

declare add_record_loop.simps [simp del]

definition add_record :: "(bytes \<Rightarrow> u32) \<Rightarrow> wal_writer \<Rightarrow> bytes \<Rightarrow> wal_writer" where
  "add_record crc w data = add_record_loop crc w True data"

section \<open>Reading\<close>

text \<open>The state machine that reassembles pieces: the fragment under construction and the records.\<close>

fun assemble :: "bytes option \<Rightarrow> record_type \<Rightarrow> bytes \<Rightarrow> bytes list \<Rightarrow> bytes option \<times> bytes list" where
  "assemble None Full data records = (None, records @ [data])"
| "assemble None First data records = (Some data, records)"
| "assemble None Middle data records = (None, records)"
| "assemble None Last data records = (None, records)"
| "assemble (Some frag) Middle data records = (Some (frag @ data), records)"
| "assemble (Some frag) Last data records = (None, records @ [frag @ data])"
| "assemble (Some frag) Full data records = (None, records @ [data])"
| "assemble (Some frag) First data records = (Some data, records)"

text \<open>The \<open>while\<close> loop of \<open>read_records\<close>; \<open>break\<close> returns the records so far.\<close>

function read_loop :: "(bytes \<Rightarrow> u32) \<Rightarrow> bytes \<Rightarrow> nat \<Rightarrow> bytes option \<Rightarrow> bytes list \<Rightarrow> bytes list" where
  "read_loop crc bs pos fragment records =
     (if pos + HEADER_SIZE \<le> length bs then
        let block_start = (pos div BLOCK_SIZE) * BLOCK_SIZE;
            block_remaining = BLOCK_SIZE - (pos - block_start)
        in if block_remaining < HEADER_SIZE
           then read_loop crc bs (block_start + BLOCK_SIZE) fragment records
           else
             let header_bytes = take HEADER_SIZE (drop pos bs) in
             if header_bytes ! 6 = 0
             then read_loop crc bs (block_start + BLOCK_SIZE) fragment records
             else
               (case decode_header header_bytes of
                  Inl e \<Rightarrow> records
                | Inr header \<Rightarrow>
                    let data_start = pos + HEADER_SIZE;
                        data_end = data_start + unat (rec_length header)
                    in if length bs < data_end then records
                       else
                         let data = take (unat (rec_length header)) (drop data_start bs) in
                         if \<not> verify_checksum crc (rtype header) data (checksum header) then records
                         else
                           let (fragment', records') = assemble fragment (rtype header) data records
                           in read_loop crc bs data_end fragment' records')
      else records)"
  by pat_completeness auto
termination
proof (relation "measure (\<lambda>(crc, bs, pos, fragment, records). length bs - pos)", goal_cases)
  case 1
  show ?case by simp
next
  case (2 crc bs pos)
  then have "pos < pos div BLOCK_SIZE * BLOCK_SIZE + BLOCK_SIZE"
    by (metis BLOCK_SIZE_def add.commute dividend_less_times_div mult.commute zero_less_numeral)
  with 2 show ?case by (simp add: HEADER_SIZE_def)
next
  case (3 crc bs pos)
  then have "pos < pos div BLOCK_SIZE * BLOCK_SIZE + BLOCK_SIZE"
    by (metis BLOCK_SIZE_def add.commute dividend_less_times_div mult.commute zero_less_numeral)
  with 3 show ?case by (simp add: HEADER_SIZE_def)
next
  case (4 crc bs pos)
  then show ?case by (simp add: HEADER_SIZE_def)
qed

declare read_loop.simps [simp del]

definition read_records :: "(bytes \<Rightarrow> u32) \<Rightarrow> bytes \<Rightarrow> bytes list" where
  "read_records crc bs = read_loop crc bs 0 None []"

section \<open>Log entries\<close>

record wal_entry =
  we_vtype :: value_type
  we_seq :: u64
  we_key :: bytes
  we_value :: bytes

definition encode_entry :: "value_type \<Rightarrow> u64 \<Rightarrow> bytes \<Rightarrow> bytes \<Rightarrow> bytes" where
  "encode_entry t s key val =
     (let buf = [vtype_as_u8 t] @ to_le 8 s;
          buf = fst (encode_varint32 buf (of_nat (length key)));
          buf = buf @ key;
          buf = fst (encode_varint32 buf (of_nat (length val)))
      in buf @ val)"

definition decode_entry :: "bytes \<Rightarrow> wal_entry res" where
  "decode_entry data =
     (if length data < 9 then Inl (Corrupted ''entry too short'')
      else
        bind_res (ok_or (vtype_from_u8 (data ! 0)) (Corrupted ''unknown value type'')) (\<lambda>t.
        let s = from_le (take 8 (drop 1 data)) in
        bind_res (decode_varint32 (drop 9 data)) (\<lambda>(key_len, consumed_kl).
        let key_end = 9 + consumed_kl + unat key_len in
        if length data < key_end then Inl (Corrupted ''entry key out of bounds'')
        else
          let key = take (key_end - (9 + consumed_kl)) (drop (9 + consumed_kl) data) in
          bind_res (decode_varint32 (drop key_end data)) (\<lambda>(val_len, consumed_vl).
          let val_start = key_end + consumed_vl; val_end = val_start + unat val_len in
          if length data < val_end then Inl (Corrupted ''entry value out of bounds'')
          else Inr \<lparr>we_vtype = t, we_seq = s, we_key = key,
                    we_value = take (val_end - val_start) (drop val_start data)\<rparr>))))"


section \<open>One piece\<close>

lemma rtype_from_as [simp]: "rtype_from_u8 (rtype_as_u8 t) = Some t"
  by (cases t) (auto simp: rtype_from_u8_def)

lemma rtype_as_u8_nonzero [simp]: "rtype_as_u8 t \<noteq> 0"
  by (cases t) auto

definition piece_header :: "(bytes \<Rightarrow> u32) \<Rightarrow> record_type \<Rightarrow> bytes \<Rightarrow> bytes" where
  "piece_header crc t data =
     to_le 4 (crc (rtype_as_u8 t # data)) @ to_le 2 (of_nat (length data) :: u16) @ [rtype_as_u8 t]"

lemma encode_piece_header: "encode_piece crc buf t data = buf @ piece_header crc t data @ data"
  by (simp add: encode_piece_def piece_header_def)

lemma length_piece_header [simp]: "length (piece_header crc t data) = 7"
  by (simp add: piece_header_def)

lemma length_encode_piece [simp]: "length (encode_piece crc [] t data) = 7 + length data"
  by (simp add: encode_piece_header)

lemma piece_header_type: "piece_header crc t data ! 6 = rtype_as_u8 t"
  by (simp add: piece_header_def nth_append)

lemma decode_piece_header:
  "decode_header (piece_header crc t data) =
     Inr \<lparr>checksum = crc (rtype_as_u8 t # data), rec_length = of_nat (length data), rtype = t\<rparr>"
  by (simp add: decode_header_def piece_header_type) (simp add: piece_header_def)

lemma unat_piece_length: "length data \<le> DATA_MAX \<Longrightarrow> unat (of_nat (length data) :: u16) = length data"
  by (simp add: unat_of_nat DATA_MAX_def BLOCK_SIZE_def HEADER_SIZE_def)

text \<open>The position arithmetic of the reader: what is left of the block at \<open>pos\<close>.\<close>

lemma block_remaining: "pos - pos div BLOCK_SIZE * BLOCK_SIZE = pos mod BLOCK_SIZE"
  by (simp add: minus_div_mult_eq_mod)

text \<open>A complete piece that starts where a header fits is consumed by the state machine.\<close>

lemma read_piece:
  assumes bs: "bs = f @ encode_piece crc [] t data @ rest" and pos: "pos = length f"
    and len: "length data \<le> DATA_MAX" and fits: "pos mod BLOCK_SIZE + HEADER_SIZE \<le> BLOCK_SIZE"
  shows "read_loop crc bs pos fragment records =
    (let (fragment', records') = assemble fragment t data records
     in read_loop crc bs (pos + HEADER_SIZE + length data) fragment' records')"
proof -
  have bs': "bs = f @ piece_header crc t data @ data @ rest"
    by (simp add: bs encode_piece_header)
  have hdr: "take HEADER_SIZE (drop pos bs) = piece_header crc t data"
    by (simp add: bs' pos HEADER_SIZE_def)
  have dat: "take (length data) (drop (pos + HEADER_SIZE) bs) = data"
    by (simp add: bs' pos HEADER_SIZE_def)
  have c1: "pos + HEADER_SIZE \<le> length bs" "\<not> length bs < pos + HEADER_SIZE + length data"
    by (simp_all add: bs' pos HEADER_SIZE_def)
  have c2: "\<not> BLOCK_SIZE - pos mod BLOCK_SIZE < HEADER_SIZE"
    using fits by simp
  show ?thesis
    by (subst read_loop.simps)
       (simp add: c1 c2 hdr dat block_remaining piece_header_type decode_piece_header
          unat_piece_length [OF len] verify_checksum_def Let_def)
qed

text \<open>A piece cut short by a crash ends the scan: nothing of it is returned.\<close>

lemma read_torn_piece:
  assumes bs: "bs = take n (f @ encode_piece crc [] t data)" and pos: "pos = length f"
    and n: "length f \<le> n" "n < length f + HEADER_SIZE + length data"
    and len: "length data \<le> DATA_MAX" and fits: "pos mod BLOCK_SIZE + HEADER_SIZE \<le> BLOCK_SIZE"
  shows "read_loop crc bs pos fragment records = records"
proof (cases "n < length f + HEADER_SIZE")
  case True
  have "length bs = n" using n by (simp add: bs HEADER_SIZE_def)
  with True show ?thesis
    by (subst read_loop.simps) (simp add: pos)
next
  case False
  have lbs: "length bs = n" using n by (simp add: bs HEADER_SIZE_def)
  have hdr: "take HEADER_SIZE (drop pos bs) = piece_header crc t data"
    using n False by (simp add: bs pos encode_piece_header HEADER_SIZE_def min_def)
  have c1: "pos + HEADER_SIZE \<le> length bs" "length bs < pos + HEADER_SIZE + length data"
    using n False by (simp_all add: lbs pos)
  have c2: "\<not> BLOCK_SIZE - pos mod BLOCK_SIZE < HEADER_SIZE"
    using fits by simp
  show ?thesis
    by (subst read_loop.simps)
       (simp add: c1 c2 hdr block_remaining piece_header_type decode_piece_header
          unat_piece_length [OF len] Let_def)
qed

text \<open>Where no header fits, the reader moves to the next block, or stops, like from there.\<close>

lemma read_trailer:
  assumes "BLOCK_SIZE < pos mod BLOCK_SIZE + HEADER_SIZE"
  shows "read_loop crc bs pos fragment records =
    read_loop crc bs (pos + (BLOCK_SIZE - pos mod BLOCK_SIZE)) fragment records"
proof -
  have m: "pos mod BLOCK_SIZE < BLOCK_SIZE" by (simp add: BLOCK_SIZE_def)
  have skip: "pos div BLOCK_SIZE * BLOCK_SIZE + BLOCK_SIZE = pos + (BLOCK_SIZE - pos mod BLOCK_SIZE)"
    using m div_mult_mod_eq [of pos BLOCK_SIZE] by linarith
  show ?thesis
  proof (cases "pos + HEADER_SIZE \<le> length bs")
    case True
    moreover have "BLOCK_SIZE - pos mod BLOCK_SIZE < HEADER_SIZE" using assms m by linarith
    ultimately show ?thesis
      by (subst read_loop.simps) (simp only: block_remaining skip Let_def if_True)
  next
    case False
    then show ?thesis
      by (subst (1 2) read_loop.simps) simp
  qed
qed

section \<open>Whole records\<close>

text \<open>The writer's offset is the file length within its block; a full block counts as offset 0.\<close>

definition wal_ok :: "wal_writer \<Rightarrow> bool" where
  "wal_ok w \<longleftrightarrow> block_offset w \<le> BLOCK_SIZE \<and>
     length (wal_file w) mod BLOCK_SIZE = block_offset w mod BLOCK_SIZE"

lemma wal_ok_create [simp]: "wal_ok (wal_create bs)"
  by (simp add: wal_ok_def wal_create_def BLOCK_SIZE_def less_imp_le)

definition trailer_of :: "wal_writer \<Rightarrow> bytes" where
  "trailer_of w = (if BLOCK_SIZE - HEADER_SIZE < block_offset w
     then replicate (BLOCK_SIZE - block_offset w) 0 else [])"

lemma fill_trailer_file: "wal_ok w \<Longrightarrow> wal_file (fill_trailer w) = wal_file w @ trailer_of w"
  by (auto simp: fill_trailer_def trailer_of_def block_offset_safe_def wal_ok_def Let_def
      BLOCK_SIZE_def HEADER_SIZE_def)

lemma fill_trailer_fits:
  assumes "wal_ok w"
  shows "block_offset (fill_trailer w) = length (wal_file (fill_trailer w)) mod BLOCK_SIZE"
    and "block_offset (fill_trailer w) + HEADER_SIZE \<le> BLOCK_SIZE"
proof -
  show "block_offset (fill_trailer w) + HEADER_SIZE \<le> BLOCK_SIZE"
    using assms by (simp add: block_offset_fill_trailer BLOCK_SIZE_def HEADER_SIZE_def)
  have "(length (wal_file w) + (BLOCK_SIZE - block_offset w)) mod BLOCK_SIZE = 0"
  proof -
    have "(length (wal_file w) + (BLOCK_SIZE - block_offset w)) mod BLOCK_SIZE =
        (block_offset w + (BLOCK_SIZE - block_offset w)) mod BLOCK_SIZE"
      using assms by (intro mod_add_cong) (simp_all add: wal_ok_def)
    with assms show ?thesis by (simp add: wal_ok_def)
  qed
  then show "block_offset (fill_trailer w) = length (wal_file (fill_trailer w)) mod BLOCK_SIZE"
    using assms
    by (auto simp: fill_trailer_file block_offset_fill_trailer trailer_of_def wal_ok_def
        BLOCK_SIZE_def HEADER_SIZE_def)
qed


text \<open>One iteration of the writer: the piece it emits and the state after it.\<close>

definition next_piece_len :: "wal_writer \<Rightarrow> bytes \<Rightarrow> nat" where
  "next_piece_len w remaining =
     min (length remaining) (BLOCK_SIZE - HEADER_SIZE - block_offset (fill_trailer w))"

definition next_type :: "wal_writer \<Rightarrow> bool \<Rightarrow> bytes \<Rightarrow> record_type" where
  "next_type w is_first remaining = piece_type is_first (next_piece_len w remaining = length remaining)"

definition after_piece :: "(bytes \<Rightarrow> u32) \<Rightarrow> wal_writer \<Rightarrow> bool \<Rightarrow> bytes \<Rightarrow> wal_writer" where
  "after_piece crc w is_first remaining =
     \<lparr>wal_file = wal_file (fill_trailer w) @
        encode_piece crc [] (next_type w is_first remaining) (take (next_piece_len w remaining) remaining),
      block_offset = block_offset (fill_trailer w) + HEADER_SIZE + next_piece_len w remaining\<rparr>"

lemma add_record_loop_step:
  "add_record_loop crc w is_first remaining =
     (if drop (next_piece_len w remaining) remaining = [] then after_piece crc w is_first remaining
      else add_record_loop crc (after_piece crc w is_first remaining) False
             (drop (next_piece_len w remaining) remaining))"
  by (subst add_record_loop.simps)
     (simp only: Let_def after_piece_def next_type_def next_piece_len_def)

lemma add_record_loop_induct [case_names step]:
  assumes "\<And>w is_first remaining.
    (drop (next_piece_len w remaining) remaining \<noteq> [] \<Longrightarrow>
       P (after_piece crc w is_first remaining) False (drop (next_piece_len w remaining) remaining)) \<Longrightarrow>
    P w is_first remaining"
  shows "P w is_first remaining"
proof -
  have "crc' = crc \<Longrightarrow> P w is_first remaining" for crc'
  proof (induction crc' w is_first remaining rule: add_record_loop.induct)
    case (1 crc' w is_first remaining)
    have "P (after_piece crc w is_first remaining) False (drop (next_piece_len w remaining) remaining)"
      if "drop (next_piece_len w remaining) remaining \<noteq> []"
      using "1.IH" [OF refl refl refl refl refl refl refl _ "1.prems"] that
      unfolding after_piece_def next_type_def next_piece_len_def "1.prems" by blast
    then show ?case by (rule assms)
  qed
  then show ?thesis by blast
qed

lemma next_piece_len_le: "wal_ok w \<Longrightarrow> next_piece_len w remaining \<le> DATA_MAX"
  by (simp add: next_piece_len_def DATA_MAX_def)

lemma wal_ok_after_piece: "wal_ok w \<Longrightarrow> wal_ok (after_piece crc w is_first remaining)"
proof -
  assume w: "wal_ok w"
  have le: "next_piece_len w remaining \<le> length remaining"
    and fit: "block_offset (fill_trailer w) + HEADER_SIZE + next_piece_len w remaining \<le> BLOCK_SIZE"
    using fill_trailer_fits(2) [OF w] by (simp_all add: next_piece_len_def)
  have "(length (wal_file (fill_trailer w)) + (7 + next_piece_len w remaining)) mod BLOCK_SIZE
      = (block_offset (fill_trailer w) + (7 + next_piece_len w remaining)) mod BLOCK_SIZE"
    by (intro mod_add_cong) (simp_all add: fill_trailer_fits(1) [OF w])
  with fit le show ?thesis
    by (simp add: wal_ok_def after_piece_def HEADER_SIZE_def add.assoc)
qed

text \<open>The file only grows.\<close>

lemma after_piece_extends:
  "wal_ok w \<Longrightarrow> wal_file (after_piece crc w is_first remaining) = wal_file w @ trailer_of w @
     encode_piece crc [] (next_type w is_first remaining) (take (next_piece_len w remaining) remaining)"
  by (simp add: after_piece_def fill_trailer_file)


lemma read_skip_trailer:
  assumes "wal_ok w"
  shows "read_loop crc bs (length (wal_file w)) fragment records =
    read_loop crc bs (length (wal_file (fill_trailer w))) fragment records"
proof (cases "BLOCK_SIZE - HEADER_SIZE < block_offset w \<and> block_offset w < BLOCK_SIZE")
  case True
  then have "length (wal_file w) mod BLOCK_SIZE = block_offset w"
    using assms by (simp add: wal_ok_def)
  moreover have "BLOCK_SIZE < block_offset w + HEADER_SIZE" using True by linarith
  ultimately show ?thesis using True
    using read_trailer [of "length (wal_file w)" crc bs fragment records] assms
    by (simp add: fill_trailer_file trailer_of_def)
next
  case False
  then have "trailer_of w = []"
    using assms by (auto simp: trailer_of_def wal_ok_def)
  then show ?thesis using assms by (simp add: fill_trailer_file)
qed

lemma read_iteration:
  assumes w: "wal_ok w" and bs: "bs = wal_file (after_piece crc w is_first remaining) @ rest"
  shows "read_loop crc bs (length (wal_file w)) fragment records =
    (let (fragment', records') = assemble fragment (next_type w is_first remaining)
           (take (next_piece_len w remaining) remaining) records
     in read_loop crc bs (length (wal_file (after_piece crc w is_first remaining))) fragment' records')"
proof -
  let ?f = "wal_file (fill_trailer w)" and ?piece = "take (next_piece_len w remaining) remaining"
  have "bs = ?f @ encode_piece crc [] (next_type w is_first remaining) ?piece @ rest"
    by (simp add: bs after_piece_def)
  moreover have "length ?piece \<le> DATA_MAX"
    using next_piece_len_le [OF w, of remaining] by simp
  moreover have "length ?f mod BLOCK_SIZE + HEADER_SIZE \<le> BLOCK_SIZE"
    using fill_trailer_fits [OF w] by simp
  ultimately show ?thesis
    using read_skip_trailer [OF w] by (simp add: read_piece after_piece_def HEADER_SIZE_def add.assoc)
qed

lemma add_record_loop_ok: "wal_ok w \<Longrightarrow> wal_ok (add_record_loop crc w is_first remaining)"
proof (induction w is_first remaining rule: add_record_loop_induct [where crc = crc])
  case (step w is_first remaining)
  then show ?case
    by (subst add_record_loop_step) (simp add: wal_ok_after_piece del: drop_eq_Nil)
qed

lemma add_record_loop_extends:
  "wal_ok w \<Longrightarrow> \<exists>e. wal_file (add_record_loop crc w is_first remaining) =
     wal_file (after_piece crc w is_first remaining) @ e"
proof (induction w is_first remaining rule: add_record_loop_induct [where crc = crc])
  case (step w is_first remaining)
  show ?case
  proof (cases "drop (next_piece_len w remaining) remaining = []")
    case True
    then show ?thesis by (subst add_record_loop_step) (simp del: drop_eq_Nil)
  next
    case False
    let ?w = "after_piece crc w is_first remaining"
    obtain e where "wal_file (add_record_loop crc ?w False (drop (next_piece_len w remaining) remaining)) =
        wal_file (after_piece crc ?w False (drop (next_piece_len w remaining) remaining)) @ e"
      using step.IH [OF False wal_ok_after_piece [OF step.prems]] by blast
    with False show ?thesis
      by (subst add_record_loop_step)
         (simp add: after_piece_extends [OF wal_ok_after_piece [OF step.prems]] del: drop_eq_Nil)
  qed
qed

text \<open>
  What the pieces of the record written so far have left in the reader: nothing that matters
  before the first piece, the bytes \<open>acc\<close> afterwards.
\<close>

definition carried :: "bool \<Rightarrow> bytes option \<Rightarrow> bytes \<Rightarrow> bool" where
  "carried is_first fragment acc \<longleftrightarrow> (if is_first then acc = [] else fragment = Some acc)"

lemma assemble_last:
  "carried is_first fragment acc \<Longrightarrow>
   assemble fragment (piece_type is_first True) data records = (None, records @ [acc @ data])"
  by (cases fragment; cases is_first) (auto simp: carried_def piece_type_def)

lemma assemble_not_last:
  "carried is_first fragment acc \<Longrightarrow>
   assemble fragment (piece_type is_first False) data records = (Some (acc @ data), records)"
  by (cases fragment; cases is_first) (auto simp: carried_def piece_type_def)

lemma next_is_last: "next_piece_len w remaining = length remaining \<longleftrightarrow> drop (next_piece_len w remaining) remaining = []"
  by (auto simp: next_piece_len_def)

lemma read_written_record:
  assumes "wal_ok w" and "carried is_first fragment acc"
  shows "read_loop crc (wal_file (add_record_loop crc w is_first remaining) @ rest)
      (length (wal_file w)) fragment records =
    read_loop crc (wal_file (add_record_loop crc w is_first remaining) @ rest)
      (length (wal_file (add_record_loop crc w is_first remaining))) None (records @ [acc @ remaining])"
  using assms
proof (induction w is_first remaining arbitrary: fragment acc rule: add_record_loop_induct [where crc = crc])
  case (step w is_first remaining)
  let ?n = "next_piece_len w remaining" and ?w = "after_piece crc w is_first remaining"
  let ?w' = "add_record_loop crc w is_first remaining"
  obtain e where e: "wal_file ?w' = wal_file ?w @ e"
    using add_record_loop_extends [OF step.prems(1)] by blast
  note iter = read_iteration [OF step.prems(1), of "wal_file ?w' @ rest" crc is_first remaining "e @ rest"
      fragment records]
  show ?case
  proof (cases "drop ?n remaining = []")
    case True
    then have "?w' = ?w" by (subst add_record_loop_step) (simp del: drop_eq_Nil)
    moreover have "next_type w is_first remaining = piece_type is_first True"
      using True by (simp add: next_type_def next_is_last)
    moreover have "take ?n remaining = remaining" using True by simp
    ultimately show ?thesis
      using iter e by (simp add: assemble_last [OF step.prems(2)])
  next
    case False
    then have w': "?w' = add_record_loop crc ?w False (drop ?n remaining)"
      by (subst add_record_loop_step) (simp del: drop_eq_Nil)
    have "next_type w is_first remaining = piece_type is_first False"
      using False by (simp add: next_type_def next_is_last)
    with iter e have "read_loop crc (wal_file ?w' @ rest) (length (wal_file w)) fragment records =
        read_loop crc (wal_file ?w' @ rest) (length (wal_file ?w)) (Some (acc @ take ?n remaining)) records"
      by (simp add: assemble_not_last [OF step.prems(2)])
    also have "\<dots> = read_loop crc (wal_file ?w' @ rest) (length (wal_file ?w')) None
        (records @ [(acc @ take ?n remaining) @ drop ?n remaining])"
      unfolding w' by (rule step.IH [OF False wal_ok_after_piece [OF step.prems(1)]]) (simp add: carried_def)
    finally show ?thesis by simp
  qed
qed

text \<open>A crash inside a record: the scan returns exactly the records before it.\<close>

lemma read_torn_record:
  assumes "wal_ok w" and "length (wal_file w) \<le> n"
    and "n < length (wal_file (add_record_loop crc w is_first remaining))"
    and "carried is_first fragment acc"
  shows "read_loop crc (take n (wal_file (add_record_loop crc w is_first remaining)))
      (length (wal_file w)) fragment records = records"
  using assms
proof (induction w is_first remaining arbitrary: fragment acc rule: add_record_loop_induct [where crc = crc])
  case (step w is_first remaining)
  let ?n = "next_piece_len w remaining" and ?w = "after_piece crc w is_first remaining"
  let ?w' = "add_record_loop crc w is_first remaining" and ?f = "wal_file (fill_trailer w)"
  note ok = step.prems(1)
  obtain e where e: "wal_file ?w' = wal_file ?w @ e"
    using add_record_loop_extends [OF ok] by blast
  consider "n < length ?f" | "length ?f \<le> n" "n < length (wal_file ?w)" | "length (wal_file ?w) \<le> n"
    by linarith
  then show ?case
  proof cases
    case 1
    have "length (trailer_of w) < HEADER_SIZE"
      by (auto simp: trailer_of_def HEADER_SIZE_def BLOCK_SIZE_def)
    with 1 have "\<not> length (wal_file w) + HEADER_SIZE \<le> length (take n (wal_file ?w'))"
      using fill_trailer_file [OF ok] by simp
    then show ?thesis by (subst read_loop.simps) (simp only: if_False)
  next
    case 2
    have "take n (wal_file ?w') = take n (?f @ encode_piece crc [] (next_type w is_first remaining) (take ?n remaining))"
      using 2 by (simp add: e) (simp add: after_piece_def)
    moreover have "n < length ?f + HEADER_SIZE + length (take ?n remaining)"
      using 2 by (simp add: after_piece_def HEADER_SIZE_def)
    moreover have "length (take ?n remaining) \<le> DATA_MAX"
      using next_piece_len_le [OF ok, of remaining] by simp
    moreover have "length ?f mod BLOCK_SIZE + HEADER_SIZE \<le> BLOCK_SIZE"
      using fill_trailer_fits [OF ok] by simp
    ultimately show ?thesis
      using read_torn_piece 2(1) by (simp only: read_skip_trailer [OF ok])
  next
    case 3
    then have nl: "drop ?n remaining \<noteq> []"
      using step.prems(3) add_record_loop_step [of crc w is_first remaining] by auto
    then have w': "?w' = add_record_loop crc ?w False (drop ?n remaining)"
      by (subst add_record_loop_step) (simp del: drop_eq_Nil)
    have bs: "take n (wal_file ?w') = wal_file ?w @ take (n - length (wal_file ?w)) e"
      using 3 by (simp add: e)
    have "next_type w is_first remaining = piece_type is_first False"
      using nl by (simp add: next_type_def next_is_last)
    then have "read_loop crc (take n (wal_file ?w')) (length (wal_file w)) fragment records =
        read_loop crc (take n (wal_file ?w')) (length (wal_file ?w)) (Some (acc @ take ?n remaining)) records"
      using read_iteration [OF ok bs, of fragment records] by (simp add: assemble_not_last [OF step.prems(4)])
    also have "\<dots> = records"
      using step.prems(3) 3 unfolding w'
      by (intro step.IH [OF nl wal_ok_after_piece [OF ok]]) (simp_all add: carried_def w')
    finally show ?thesis .
  qed
qed


section \<open>The log as a sequence of records\<close>

text \<open>
  A file holds the records \<open>rs\<close> when the reader, whatever follows, arrives at its end in the idle
  state with exactly \<open>rs\<close>.
\<close>

definition holds_records :: "(bytes \<Rightarrow> u32) \<Rightarrow> bytes \<Rightarrow> bytes list \<Rightarrow> bool" where
  "holds_records crc f rs \<longleftrightarrow>
     (\<forall>rest. read_loop crc (f @ rest) 0 None [] = read_loop crc (f @ rest) (length f) None rs)"

text \<open>Opening a log for appending and adding one record.\<close>

definition log_append :: "(bytes \<Rightarrow> u32) \<Rightarrow> bytes \<Rightarrow> bytes \<Rightarrow> bytes" where
  "log_append crc f data = wal_file (add_record crc (wal_create f) data)"

lemma fill_trailer_reopen: "wal_ok w \<Longrightarrow> fill_trailer (wal_create (wal_file w)) = fill_trailer w"
  by (cases w)
     (auto simp: fill_trailer_def wal_create_def wal_ok_def block_offset_safe_def Let_def
       BLOCK_SIZE_def HEADER_SIZE_def le_less)

text \<open>A writer kept open writes the same bytes as one that reopens the file.\<close>

lemma add_record_reopen: "wal_ok w \<Longrightarrow> add_record crc (wal_create (wal_file w)) data = add_record crc w data"
  unfolding add_record_def by (subst (1 2) add_record_loop.simps) (simp only: fill_trailer_reopen)

lemma wal_ok_add_record: "wal_ok w \<Longrightarrow> wal_ok (add_record crc w data)"
  by (simp add: add_record_def add_record_loop_ok)

lemma add_record_file: "wal_ok w \<Longrightarrow> wal_file (add_record crc w data) = log_append crc (wal_file w) data"
  by (simp add: log_append_def add_record_reopen)

lemma wal_file_create [simp]: "wal_file (wal_create f) = f"
  by (simp add: wal_create_def)

lemma log_append_extends: "\<exists>e. log_append crc f data = f @ e \<and> 0 < length e"
proof -
  obtain e where "log_append crc f data = wal_file (after_piece crc (wal_create f) True data) @ e"
    using add_record_loop_extends [of "wal_create f" crc True data] by (auto simp: log_append_def add_record_def)
  then show ?thesis
    by (simp add: after_piece_extends encode_piece_header piece_header_def)
qed

lemma holds_records_nil: "holds_records crc [] []"
  by (simp add: holds_records_def)

lemma holds_records_append:
  assumes "holds_records crc f rs"
  shows "holds_records crc (log_append crc f data) (rs @ [data])"
proof -
  obtain e where e: "log_append crc f data = f @ e" using log_append_extends by blast
  show ?thesis
    unfolding holds_records_def
  proof
    fix rest
    have "read_loop crc (log_append crc f data @ rest) 0 None [] =
        read_loop crc (log_append crc f data @ rest) (length f) None rs"
      using assms by (simp add: holds_records_def e)
    also have "\<dots> = read_loop crc (log_append crc f data @ rest) (length (log_append crc f data)) None (rs @ [data])"
      using read_written_record [of "wal_create f" True None "[]" crc data rest rs]
      by (simp add: carried_def log_append_def add_record_def)
    finally show "read_loop crc (log_append crc f data @ rest) 0 None [] =
        read_loop crc (log_append crc f data @ rest) (length (log_append crc f data)) None (rs @ [data])" .
  qed
qed

lemma read_loop_end: "read_loop crc f (length f) fragment records = records"
  by (subst read_loop.simps) (simp add: HEADER_SIZE_def)

lemma holds_records_read: "holds_records crc f rs \<Longrightarrow> read_records crc f = rs"
  unfolding holds_records_def read_records_def using read_loop_end by (metis append_Nil2)

lemma holds_records_torn:
  assumes "holds_records crc f rs" and "length f \<le> n" and "n < length (log_append crc f data)"
  shows "read_records crc (take n (log_append crc f data)) = rs"
proof -
  obtain e where e: "log_append crc f data = f @ e" using log_append_extends by blast
  have "read_records crc (take n (log_append crc f data)) =
      read_loop crc (take n (log_append crc f data)) (length f) None rs"
    using assms by (simp add: e read_records_def holds_records_def)
  also have "\<dots> = rs"
    using read_torn_record [of "wal_create f" n crc True data None "[]" rs] assms
    by (simp add: log_append_def add_record_def carried_def)
  finally show ?thesis .
qed

text \<open>
  The contract the manifest and the database rely on: appending adds one record, reading returns
  the records, and a truncation anywhere inside the last append returns the records before it.
\<close>

locale record_log =
  fixes append :: "bytes \<Rightarrow> bytes \<Rightarrow> bytes"
    and read :: "bytes \<Rightarrow> bytes list"
    and holds :: "bytes \<Rightarrow> bytes list \<Rightarrow> bool"
  assumes holds_nil: "holds [] []"
    and holds_append: "holds f rs \<Longrightarrow> holds (append f d) (rs @ [d])"
    and read_holds: "holds f rs \<Longrightarrow> read f = rs"
    and append_extends: "\<exists>e. append f d = f @ e \<and> 0 < length e"
    and read_torn: "holds f rs \<Longrightarrow> length f \<le> n \<Longrightarrow> n < length (append f d) \<Longrightarrow>
        read (take n (append f d)) = rs"
begin

lemma holds_fold: "holds f rs \<Longrightarrow> holds (foldl append f ds) (rs @ ds)"
proof (induction ds arbitrary: f rs)
  case Nil
  then show ?case by simp
next
  case (Cons d ds)
  from Cons.IH [OF holds_append [OF Cons.prems, of d]] show ?case by simp
qed

lemma read_fold: "read (foldl append [] ds) = ds"
  using holds_fold [OF holds_nil] read_holds by fastforce

lemma fold_length_mono: "length (foldl append f (take i ds)) \<le> length (foldl append f ds)"
proof (induction ds rule: rev_induct)
  case (snoc d ds)
  obtain e where "append (foldl append f ds) d = foldl append f ds @ e" using append_extends by blast
  then show ?case using snoc by (cases "i \<le> length ds") auto
qed simp

text \<open>
  A crash leaves a prefix of the file. If it keeps all of \<open>f\<close>, reading returns the records of \<open>f\<close>
  and then those of the later ones that are whole in the prefix.
\<close>

lemma read_crash_kept:
  assumes "holds f rs" and "length f \<le> n"
  shows "\<exists>m \<le> length ds. read (take n (foldl append f ds)) = rs @ take m ds \<and>
    (\<forall>i \<le> length ds. length (foldl append f (take i ds)) \<le> n \<longleftrightarrow> i \<le> m)"
proof (induction ds rule: rev_induct)
  case Nil
  show ?case using assms by (simp add: read_holds)
next
  case (snoc d ds)
  let ?f = "foldl append f ds"
  have fold: "holds ?f (rs @ ds)" by (rule holds_fold [OF assms(1)])
  obtain e where e: "append ?f d = ?f @ e" using append_extends by blast
  have le: "i \<le> length ds \<Longrightarrow> length (foldl append f (take i (ds @ [d]))) \<le> length ?f" for i
    using fold_length_mono [of f i ds] by simp
  consider "n < length ?f" | "length ?f \<le> n" "n < length (append ?f d)" | "length (append ?f d) \<le> n"
    by linarith
  then show ?case
  proof cases
    case 1
    then have "take n (foldl append f (ds @ [d])) = take n ?f" by (simp add: e)
    moreover obtain m where m: "m \<le> length ds" "read (take n ?f) = rs @ take m ds"
      "\<forall>i \<le> length ds. length (foldl append f (take i ds)) \<le> n \<longleftrightarrow> i \<le> m"
      using snoc by blast
    moreover have "\<not> length (append ?f d) \<le> n" using 1 by (simp add: e)
    ultimately show ?thesis by (intro exI [of _ m]) (auto simp: le_Suc_eq)
  next
    case 2
    then have "read (take n (foldl append f (ds @ [d]))) = rs @ ds"
      using read_torn [OF fold] by simp
    moreover have "i \<le> length ds \<Longrightarrow> length (foldl append f (take i (ds @ [d]))) \<le> n" for i
      using le 2(1) order_trans by blast
    ultimately show ?thesis using 2(2) by (intro exI [of _ "length ds"]) (auto simp: le_Suc_eq)
  next
    case 3
    then have "read (take n (foldl append f (ds @ [d]))) = rs @ ds @ [d]"
      using read_holds [OF holds_append [OF fold, of d]] by simp
    moreover have "length (foldl append f (take i (ds @ [d]))) \<le> n" for i
      using fold_length_mono [of f i "ds @ [d]"] 3 by simp
    ultimately show ?thesis by (intro exI [of _ "length (ds @ [d])"]) simp
  qed
qed

lemma read_crash:
  assumes "holds f rs" and "length f \<le> n"
  shows "\<exists>m \<le> length ds. read (take n (foldl append f ds)) = rs @ take m ds"
  using read_crash_kept [OF assms] by blast

end

interpretation wal: record_log "log_append crc" "read_records crc" "holds_records crc"
  by unfold_locales
     (simp_all add: holds_records_nil holds_records_append holds_records_read log_append_extends holds_records_torn
      del: length_greater_0_conv)


section \<open>Writing after a torn record\<close>

text \<open>
  A log whose tail was torn by a crash and that is then appended to: the reader stops at the torn
  piece when the bytes now behind its header fail the checksum, and returns nothing written later.
\<close>

lemma read_after_torn:
  assumes f: "holds_records crc f rs"
    and fits: "length f mod BLOCK_SIZE + HEADER_SIZE + length d \<le> BLOCK_SIZE"
    and n: "length f + HEADER_SIZE \<le> n" "n < length f + HEADER_SIZE + length d"
    and bs: "bs = take n (f @ encode_piece crc [] Full d) @ tail"
    and bad: "crc (rtype_as_u8 Full # take (length d) (drop (length f + HEADER_SIZE) bs)) \<noteq> crc (rtype_as_u8 Full # d)"
  shows "read_records crc bs = rs"
proof -
  have len: "length d \<le> DATA_MAX" using fits by (simp add: DATA_MAX_def)
  have pre: "bs = f @ piece_header crc Full d @ take (n - length f - HEADER_SIZE) d @ tail"
    using n by (simp add: bs encode_piece_header HEADER_SIZE_def)
  have hdr: "take HEADER_SIZE (drop (length f) bs) = piece_header crc Full d"
    by (simp add: pre HEADER_SIZE_def)
  have c1: "length f + HEADER_SIZE \<le> length bs" by (simp add: pre HEADER_SIZE_def)
  have c2: "\<not> BLOCK_SIZE - length f mod BLOCK_SIZE < HEADER_SIZE" using fits by simp
  have "read_records crc bs = read_loop crc bs (length f) None rs"
    using f by (simp add: read_records_def holds_records_def pre)
  also have "\<dots> = rs"
    using bad
    by (subst read_loop.simps)
       (simp add: c1 c2 hdr block_remaining piece_header_type decode_piece_header
          unat_piece_length [OF len] verify_checksum_def Let_def)
  finally show ?thesis .
qed

section \<open>Entries are read back\<close>

lemma unat_of_nat_u32: "n < 4294967296 \<Longrightarrow> unat (of_nat n :: u32) = n"
  by (simp add: unat_of_nat)

lemma decode_encode_entry [codec]:
  assumes "length key < 2 ^ 32" and "length val < 2 ^ 32"
  shows "decode_entry (encode_entry t s key val) =
    Inr \<lparr>we_vtype = t, we_seq = s, we_key = key, we_value = val\<rparr>"
proof -
  let ?kl = "varint_bytes (of_nat (length key) :: u32)" and ?vl = "varint_bytes (of_nat (length val) :: u32)"
  have e: "encode_entry t s key val = (vtype_as_u8 t # to_le 8 s) @ ?kl @ key @ ?vl @ val"
    by (simp add: encode_entry_def Let_def)
  have d9: "drop 9 (encode_entry t s key val) = ?kl @ key @ ?vl @ val"
    by (simp add: e)
  have skip: "drop (length xs + n) (xs @ ys) = drop n ys" for xs ys :: bytes and n
    by simp
  have dk: "drop (9 + length ?kl) (encode_entry t s key val) = key @ ?vl @ val"
    using skip [of "(vtype_as_u8 t # to_le 8 s) @ ?kl" 0 "key @ ?vl @ val"] by (simp only: e) simp
  have dke: "drop (9 + length ?kl + length key) (encode_entry t s key val) = ?vl @ val"
    using skip [of "(vtype_as_u8 t # to_le 8 s) @ ?kl @ key" 0 "?vl @ val"] by (simp only: e) (simp add: add.assoc)
  have dv: "drop (9 + length ?kl + length key + length ?vl) (encode_entry t s key val) = val"
    using skip [of "(vtype_as_u8 t # to_le 8 s) @ ?kl @ key @ ?vl" 0 val] by (simp only: e) (simp add: add.assoc)
  have hd: "encode_entry t s key val ! 0 = vtype_as_u8 t" "take 8 (drop (Suc 0) (encode_entry t s key val)) = to_le 8 s"
    by (simp_all add: e)
  have len: "length (encode_entry t s key val) = 9 + length ?kl + length key + length ?vl + length val"
    by (simp add: e)
  show ?thesis
    using assms
    by (simp add: decode_entry_def len hd d9 dk dke dv decode_varint32_bytes unat_of_nat_u32 Let_def
        decode_varint32_bytes [of _ "[]", simplified])
qed

lemma decode_entry_short: "length data < 9 \<Longrightarrow> decode_entry data = Inl (Corrupted ''entry too short'')"
  by (simp add: decode_entry_def)

section \<open>Properties\<close>

text \<open>A log written from empty by one open writer.\<close>

definition wal_of :: "(bytes \<Rightarrow> u32) \<Rightarrow> bytes list \<Rightarrow> wal_writer" where
  "wal_of crc ds = foldl (add_record crc) (wal_create []) ds"

lemma wal_of_ok: "wal_ok (wal_of crc ds) \<and> wal_file (wal_of crc ds) = foldl (log_append crc) [] ds"
proof (induction ds rule: rev_induct)
  case Nil
  show ?case by (simp add: wal_of_def)
next
  case (snoc d ds)
  then show ?case
    using wal_ok_add_record [of "wal_of crc ds" crc d] add_record_file [of "wal_of crc ds" crc d]
    by (simp add: wal_of_def)
qed

text \<open>C24: The reader returns exactly the records that were written, in order, whatever their number and sizes,
  however they straddle the blocks, and whatever the checksum function is.\<close>

theorem wal_roundtrip: "read_records crc (wal_file (wal_of crc ds)) = ds"
  using wal.read_fold [where crc = crc and ds = ds] wal_of_ok by simp

text \<open>C23: After a crash that keeps a prefix of the log at least as long as the part that was durable, the reader
  returns all the durable records and then a prefix of the later ones: nothing invented, nothing
  reordered, no durable record lost.\<close>

theorem wal_crash_prefix:
  assumes "length (wal_file (wal_of crc durable)) \<le> n"
  shows "\<exists>m \<le> length later.
    read_records crc (take n (wal_file (wal_of crc (durable @ later)))) = durable @ take m later"
  using wal.read_crash [where crc = crc and ds = later, OF wal.holds_fold [where crc = crc and ds = durable, OF wal.holds_nil], of n] assms wal_of_ok
  by simp

theorem wal_crash_prefix_witness:
  "\<exists>m \<le> length [[4 :: byte]]. read_records (\<lambda>_. 0)
     (take 10 (wal_file (wal_of (\<lambda>_. 0) ([[1]] @ [[4]])))) = [[1]] @ take m [[4]]"
proof (rule wal_crash_prefix)
  show "length (wal_file (wal_of (\<lambda>_. 0) [[1]])) \<le> 10"
    by (simp add: wal_of_def add_record_def add_record_loop.simps fill_trailer_def wal_create_def block_offset_safe_def
        encode_piece_def piece_type_def BLOCK_SIZE_def HEADER_SIZE_def Let_def)
qed

text \<open>A record appended behind a torn record is lost: when the log ends in a record whose data was cut off by a
  crash and writing goes on at the end of the file, the reader stops at the torn piece (its checksum
  now covers bytes of the later records) and returns nothing that was written after the crash.\<close>

lemma wal_append_after_torn_lost:
  assumes "length (wal_file (wal_of crc ds)) mod BLOCK_SIZE + HEADER_SIZE + length d \<le> BLOCK_SIZE"
    and "length (wal_file (wal_of crc ds)) + HEADER_SIZE \<le> n"
    and "n < length (wal_file (wal_of crc ds)) + HEADER_SIZE + length d"
    and "torn = take n (wal_file (wal_of crc ds) @ encode_piece crc [] Full d)"
    and "f = foldl (log_append crc) torn later"
    and "crc (rtype_as_u8 Full # take (length d) (drop (length (wal_file (wal_of crc ds)) + HEADER_SIZE) f))
          \<noteq> crc (rtype_as_u8 Full # d)"
  shows "read_records crc f = ds"
proof -
  have "\<exists>e. foldl (log_append crc) t later = t @ e" for t
  proof (induction later arbitrary: t)
    case (Cons x xs)
    obtain e where "log_append crc t x = t @ e" using log_append_extends [of crc t x] by blast
    moreover obtain e' where "foldl (log_append crc) (t @ e) xs = (t @ e) @ e'" using Cons by blast
    ultimately show ?case by simp
  qed simp
  then obtain e where "f = torn @ e" using assms(5) by blast
  moreover have "holds_records crc (wal_file (wal_of crc ds)) ds"
    using wal.holds_fold [where crc = crc and ds = ds, OF wal.holds_nil] wal_of_ok by simp
  ultimately show ?thesis
    using read_after_torn [where crc = crc and rs = ds, OF _ assms(1-3)] assms(4,6) by blast
qed

text \<open>A record that fits into what is left of the block is written as one piece.\<close>

lemma log_append_fits:
  assumes "length f mod BLOCK_SIZE + HEADER_SIZE + length d \<le> BLOCK_SIZE"
  shows "log_append crc f d = f @ encode_piece crc [] Full d"
proof -
  define m where m: "m = length f mod BLOCK_SIZE"
  then have fits: "m + HEADER_SIZE + length d \<le> BLOCK_SIZE" using assms by simp
  have "fill_trailer \<lparr>wal_file = f, block_offset = m\<rparr> = \<lparr>wal_file = f, block_offset = m\<rparr>"
    using fits by (auto simp: fill_trailer_def block_offset_safe_def Let_def HEADER_SIZE_def BLOCK_SIZE_def)
  moreover have "length d \<le> BLOCK_SIZE - (HEADER_SIZE + m)" using fits by simp
  ultimately show ?thesis
    by (simp add: log_append_def add_record_def wal_create_def m [symmetric], subst add_record_loop.simps)
       (simp add: Let_def piece_type_def)
qed

lemma log_append_small:
  assumes "length f + HEADER_SIZE + length d \<le> BLOCK_SIZE"
  shows "log_append crc f d = f @ encode_piece crc [] Full d"
  using assms by (intro log_append_fits) (simp add: HEADER_SIZE_def)

lemma to_le_numeral: "to_le (numeral k) w = ucast w # to_le (pred_numeral k) (drop_bit 8 w)"
  by (simp add: numeral_eq_Suc)

lemma wal_append_after_torn_sample:
  "read_records (\<lambda>bs. of_nat (sum_list (map unat bs)))
     (foldl (log_append (\<lambda>bs. of_nat (sum_list (map unat bs))))
       (take 7 (encode_piece (\<lambda>bs. of_nat (sum_list (map unat bs))) [] Full [1])) [[5]]) = []"
proof (rule wal_append_after_torn_lost [where ds = "[]" and d = "[1]" and n = 7 and later = "[[5]]", OF _ _ _ _ refl])
qed (simp_all add: wal_of_def log_append_small encode_piece_def BLOCK_SIZE_def HEADER_SIZE_def to_le_numeral
      wal_create_def)

end
