(* ===== verification/Block.thy ===== *)
theory Block
  imports Varint Internal_Key
begin

text \<open>
  \<^verbatim>\<open>src/src/sstable/block.rs\<close>: the block format of the tables. A builder appends entries with
  prefix compression and a restart point every sixteen entries; a block view finds entries by
  binary search over the restart points and a linear scan, and iterates over all of them. The
  lookups are generic in the comparison closure; their correctness is proved under the contract
  \<open>key_comparator\<close>.
\<close>

section \<open>The builder\<close>

definition RESTART_INTERVAL :: nat where "RESTART_INTERVAL = 16"

record block_builder =
  bb_buf :: bytes
  bb_restarts :: "u32 list"
  bb_last_key :: bytes
  bb_count_since_restart :: nat
  bb_finished :: bool

definition block_builder_new :: block_builder where
  "block_builder_new =
     \<lparr>bb_buf = [], bb_restarts = [0], bb_last_key = [], bb_count_since_restart = 0, bb_finished = False\<rparr>"

text \<open>\<open>common_prefix_len\<close>: the index loop, \<open>i\<close> running up to the shorter length.\<close>

function common_prefix_loop :: "bytes \<Rightarrow> bytes \<Rightarrow> nat \<Rightarrow> nat \<Rightarrow> nat" where
  "common_prefix_loop a b len i =
     (if i < len \<and> a ! i = b ! i then common_prefix_loop a b len (i + 1) else i)"
  by pat_completeness auto
termination by (relation "measure (\<lambda>(a, b, len, i). len - i)") auto

declare common_prefix_loop.simps [simp del]

definition common_prefix_len :: "bytes \<Rightarrow> bytes \<Rightarrow> nat" where
  "common_prefix_len a b = common_prefix_loop a b (min (length a) (length b)) 0"

definition block_add :: "block_builder \<Rightarrow> bytes \<Rightarrow> bytes \<Rightarrow> block_builder res" where
  "block_add b key v =
     (if bb_finished b then Inl (Corrupted ''BlockBuilder already finished'')
      else
        let (shared, b) =
              (if bb_count_since_restart b < RESTART_INTERVAL
               then (common_prefix_len (bb_last_key b) key, b)
               else (0, b\<lparr>bb_restarts := bb_restarts b @ [of_nat (length (bb_buf b))],
                          bb_count_since_restart := 0\<rparr>));
            non_shared = length key - shared;
            buf = fst (encode_varint32 (bb_buf b) (of_nat shared));
            buf = fst (encode_varint32 buf (of_nat non_shared));
            buf = fst (encode_varint32 buf (of_nat (length v)));
            buf = buf @ drop shared key;
            buf = buf @ v
        in Inr (b\<lparr>bb_buf := buf, bb_last_key := key,
                  bb_count_since_restart := bb_count_since_restart b + 1\<rparr>))"

definition block_finish :: "block_builder \<Rightarrow> bytes" where
  "block_finish b =
     (let buf = foldl (\<lambda>buf r. buf @ to_le 4 r) (bb_buf b) (bb_restarts b)
      in buf @ to_le 4 (of_nat (length (bb_restarts b)) :: u32))"

definition block_size_estimate :: "block_builder \<Rightarrow> nat" where
  "block_size_estimate b = length (bb_buf b) + 4 * length (bb_restarts b) + 4"

definition block_is_empty :: "block_builder \<Rightarrow> bool" where
  "block_is_empty b \<longleftrightarrow> bb_buf b = []"

section \<open>The view\<close>

record block =
  bk_data :: bytes
  bk_restarts_offset :: nat
  bk_num_restarts :: nat

definition block_new :: "bytes \<Rightarrow> block res" where
  "block_new data =
     (if length data < 4 then Inl (Corrupted ''block too short for num_restarts'')
      else
        let num_restarts = unat (from_le (drop (length data - 4) data) :: u32);
            restarts_bytes = num_restarts * 4
        in if length data < 4 + restarts_bytes then Inl (Corrupted ''block too short for restarts'')
           else Inr \<lparr>bk_data = data, bk_restarts_offset = length data - 4 - restarts_bytes,
                     bk_num_restarts = num_restarts\<rparr>)"

text \<open>\<open>restart_offset\<close>: the slice expression panics when it leaves the data.\<close>

definition restart_offset :: "block \<Rightarrow> nat \<Rightarrow> nat res" where
  "restart_offset b i =
     (let start = bk_restarts_offset b + i * 4
      in bind_res (slice_range (bk_data b) start (start + 4))
           (\<lambda>bs. Inr (unat (from_le bs :: u32))))"

text \<open>\<open>entry_at\<close>: key delta, value and the offset of the following entry.\<close>

definition entry_at :: "block \<Rightarrow> nat \<Rightarrow> (bytes \<times> bytes \<times> nat) res" where
  "entry_at b offset =
     bind_res (ok_or (get_from (bk_data b) offset) (Corrupted ''entry_at: offset out of bounds'')) (\<lambda>bs.
     bind_res (decode_varint32 bs) (\<lambda>(_, n1).
     bind_res (ok_or (get_from (bk_data b) (offset + n1))
       (Corrupted ''entry_at: non_shared varint out of bounds'')) (\<lambda>bs.
     bind_res (decode_varint32 bs) (\<lambda>(non_shared, n2).
     bind_res (ok_or (get_from (bk_data b) (offset + n1 + n2))
       (Corrupted ''entry_at: value_len varint out of bounds'')) (\<lambda>bs.
     bind_res (decode_varint32 bs) (\<lambda>(value_len, n3).
     let header_len = n1 + n2 + n3 in
     bind_res (ok_or (checked_add offset header_len)
       (Corrupted ''entry_at: header_len overflow'')) (\<lambda>key_delta_start.
     bind_res (ok_or (checked_add key_delta_start (unat non_shared))
       (Corrupted ''entry_at: non_shared overflow'')) (\<lambda>key_delta_end.
     bind_res (ok_or (checked_add key_delta_end (unat value_len))
       (Corrupted ''entry_at: value_len overflow'')) (\<lambda>value_end.
     bind_res (ok_or (get_range (bk_data b) key_delta_start key_delta_end)
       (Corrupted ''entry_at: key_delta out of bounds'')) (\<lambda>key_delta.
     bind_res (ok_or (get_range (bk_data b) key_delta_end value_end)
       (Corrupted ''entry_at: value out of bounds'')) (\<lambda>v.
     Inr (key_delta, v, value_end))))))))))))"

text \<open>The inner option is the Rust result; the outer sum carries a panic of \<open>restart_offset\<close>.\<close>

definition restarting_key_at :: "block \<Rightarrow> nat \<Rightarrow> bytes option res" where
  "restarting_key_at b i =
     bind_res (restart_offset b i) (\<lambda>offset. Inr (map_option fst (ok_opt (entry_at b offset))))"

definition value_at_restart :: "block \<Rightarrow> nat \<Rightarrow> bytes option res" where
  "value_at_restart b i =
     bind_res (restart_offset b i) (\<lambda>offset. Inr (map_option (fst \<circ> snd) (ok_opt (entry_at b offset))))"

record parsed_entry =
  pe_key :: bytes
  pe_value :: bytes
  pe_next_offset :: nat

definition parse_entry :: "block \<Rightarrow> nat \<Rightarrow> bytes \<Rightarrow> parsed_entry option" where
  "parse_entry b offset last_key =
     Option.bind (get_from (bk_data b) offset) (\<lambda>bs.
     Option.bind (ok_opt (decode_varint32 bs)) (\<lambda>(shared, n1).
     Option.bind (get_from (bk_data b) (offset + n1)) (\<lambda>bs.
     Option.bind (ok_opt (decode_varint32 bs)) (\<lambda>(non_shared, n2).
     Option.bind (get_from (bk_data b) (offset + n1 + n2)) (\<lambda>bs.
     Option.bind (ok_opt (decode_varint32 bs)) (\<lambda>(value_len, n3).
     let header_len = n1 + n2 + n3 in
     Option.bind (checked_add offset header_len) (\<lambda>key_delta_start.
     Option.bind (checked_add key_delta_start (unat non_shared)) (\<lambda>key_delta_end.
     let value_start = key_delta_end in
     Option.bind (checked_add value_start (unat value_len)) (\<lambda>value_end.
     if bk_restarts_offset b < value_end then None else
     Option.bind (get_range (bk_data b) key_delta_start key_delta_end) (\<lambda>key_delta.
     if length last_key < unat shared then None else
     Option.bind (get_range (bk_data b) value_start value_end) (\<lambda>v.
     Some \<lparr>pe_key = take (unat shared) last_key @ key_delta, pe_value = v,
           pe_next_offset = value_end\<rparr>)))))))))))"

definition is_past_entries :: "block \<Rightarrow> nat \<Rightarrow> bool" where
  "is_past_entries b offset \<longleftrightarrow> bk_restarts_offset b \<le> offset"

lemma decode_loop_progress: "decode_loop m i s r bs = Inr (v, n) \<Longrightarrow> i < n"
  by (induction m i s r bs rule: decode_loop.induct) (auto simp: Let_def split: if_splits)

lemma decode_varint32_progress: "decode_varint32 bs = Inr (v, n) \<Longrightarrow> 0 < n"
  by (auto simp: decode_varint32_def decode_varint_def bind_res_eq_Inr dest: decode_loop_progress)

lemma ok_opt_eq_Some: "ok_opt r = Some y \<longleftrightarrow> r = Inr y"
  by (cases r) auto

lemma parse_entry_progress:
  assumes "parse_entry b offset last_key = Some e"
  shows "offset < pe_next_offset e \<and> pe_next_offset e \<le> bk_restarts_offset b"
  using assms
  by (auto simp: parse_entry_def checked_add_def Let_def ok_opt_eq_Some bind_eq_Some_conv
      split: if_splits dest!: decode_varint32_progress)

text \<open>\<open>BlockIter\<close>: its state is the offset and the last key; collecting it is \<open>block_iter\<close>.\<close>

definition block_iter_next :: "block \<Rightarrow> nat \<times> bytes \<Rightarrow> (bytes \<times> bytes) option \<times> nat \<times> bytes" where
  "block_iter_next b it =
     (case it of (offset, last_key) \<Rightarrow>
        if is_past_entries b offset then (None, it)
        else case parse_entry b offset last_key of
          None \<Rightarrow> (None, it)
        | Some e \<Rightarrow> (Some (pe_key e, pe_value e), pe_next_offset e, pe_key e))"

function block_iter_loop :: "block \<Rightarrow> nat \<times> bytes \<Rightarrow> (bytes \<times> bytes) list" where
  "block_iter_loop b it =
     (case block_iter_next b it of
        (None, _) \<Rightarrow> []
      | (Some kv, it') \<Rightarrow> kv # block_iter_loop b it')"
  by pat_completeness auto
termination
  by (relation "measure (\<lambda>(b, offset, _). bk_restarts_offset b - offset)")
     (auto simp: block_iter_next_def is_past_entries_def split: if_splits option.splits
       dest!: parse_entry_progress)

declare block_iter_loop.simps [simp del]

definition block_iter :: "block \<Rightarrow> (bytes \<times> bytes) list" where
  "block_iter b = block_iter_loop b (0, [])"

section \<open>Lookups\<close>

text \<open>
  \<open>get\<close>: the binary search over the restart points either leaves with a result (\<open>Inl\<close>: an exact
  hit, or the \<open>None\<close> of an unreadable restart entry) or yields \<open>lo\<close> (\<open>Inr\<close>).
\<close>

function get_search :: "block \<Rightarrow> (bytes \<Rightarrow> bytes \<Rightarrow> ordering) \<Rightarrow> bytes \<Rightarrow> nat \<Rightarrow> nat \<Rightarrow> (bytes option + nat) res" where
  "get_search b kcmp target lo hi =
     (if lo < hi then
        let mid = (lo + hi) div 2 in
        bind_res (restarting_key_at b mid) (\<lambda>rk.
          case rk of
            None \<Rightarrow> Inr (Inl None)
          | Some restart_key \<Rightarrow>
              (case kcmp target restart_key of
                 Less \<Rightarrow> get_search b kcmp target lo mid
               | Equal \<Rightarrow> bind_res (value_at_restart b mid) (\<lambda>v. Inr (Inl v))
               | Greater \<Rightarrow> get_search b kcmp target (mid + 1) hi))
      else Inr (Inr lo))"
  by pat_completeness auto
termination by (relation "measure (\<lambda>(b, kcmp, target, lo, hi). hi - lo)") auto

declare get_search.simps [simp del]

function get_scan :: "block \<Rightarrow> (bytes \<Rightarrow> bytes \<Rightarrow> ordering) \<Rightarrow> bytes \<Rightarrow> nat \<Rightarrow> bytes \<Rightarrow> bytes option" where
  "get_scan b kcmp target offset last_key =
     (case parse_entry b offset last_key of
        None \<Rightarrow> None
      | Some e \<Rightarrow>
          (case kcmp target (pe_key e) of
             Less \<Rightarrow> None
           | Equal \<Rightarrow> Some (pe_value e)
           | Greater \<Rightarrow>
               if is_past_entries b (pe_next_offset e) then None
               else get_scan b kcmp target (pe_next_offset e) (pe_key e)))"
  by pat_completeness auto
termination
  by (relation "measure (\<lambda>(b, kcmp, target, offset, _). bk_restarts_offset b - offset)")
     (auto dest!: parse_entry_progress)

declare get_scan.simps [simp del]

definition block_get :: "block \<Rightarrow> (bytes \<Rightarrow> bytes \<Rightarrow> ordering) \<Rightarrow> bytes \<Rightarrow> bytes option res" where
  "block_get b kcmp target =
     bind_res (get_search b kcmp target 0 (bk_num_restarts b)) (\<lambda>r.
       case r of
         Inl found \<Rightarrow> Inr found
       | Inr lo \<Rightarrow>
           if lo = 0 then Inr None
           else
             let start_restart = lo - 1 in
             bind_res (restart_offset b start_restart) (\<lambda>offset.
             bind_res (restarting_key_at b start_restart) (\<lambda>rk.
               case rk of
                 None \<Rightarrow> Inr None
               | Some last_key \<Rightarrow> Inr (get_scan b kcmp target offset last_key))))"

text \<open>The search and the scan that \<open>lower_bound\<close> and \<open>lower_bound_kv\<close> both contain.\<close>

function lb_search :: "block \<Rightarrow> (bytes \<Rightarrow> bytes \<Rightarrow> ordering) \<Rightarrow> bytes \<Rightarrow> nat \<Rightarrow> nat \<Rightarrow> nat option res" where
  "lb_search b kcmp target lo hi =
     (if lo < hi then
        let mid = (lo + hi) div 2 in
        bind_res (restarting_key_at b mid) (\<lambda>rk.
          case rk of
            None \<Rightarrow> Inr None
          | Some restart_key \<Rightarrow>
              (case kcmp target restart_key of
                 Greater \<Rightarrow> lb_search b kcmp target (mid + 1) hi
               | _ \<Rightarrow> lb_search b kcmp target lo mid))
      else Inr (Some lo))"
  by pat_completeness auto
termination by (relation "measure (\<lambda>(b, kcmp, target, lo, hi). hi - lo)") auto

declare lb_search.simps [simp del]

function lb_scan :: "block \<Rightarrow> (bytes \<Rightarrow> bytes \<Rightarrow> ordering) \<Rightarrow> bytes \<Rightarrow> nat \<Rightarrow> bytes \<Rightarrow> parsed_entry option" where
  "lb_scan b kcmp target offset last_key =
     (case parse_entry b offset last_key of
        None \<Rightarrow> None
      | Some e \<Rightarrow>
          (case kcmp target (pe_key e) of
             Greater \<Rightarrow>
               if is_past_entries b (pe_next_offset e) then None
               else lb_scan b kcmp target (pe_next_offset e) (pe_key e)
           | _ \<Rightarrow> Some e))"
  by pat_completeness auto
termination
  by (relation "measure (\<lambda>(b, kcmp, target, offset, _). bk_restarts_offset b - offset)")
     (auto dest!: parse_entry_progress)

declare lb_scan.simps [simp del]

text \<open>
  \<open>lo.saturating_sub(1).min(self.num_restarts - 1)\<close> subtracts from zero when the block has no
  restart point.
\<close>

definition lb_entry :: "block \<Rightarrow> (bytes \<Rightarrow> bytes \<Rightarrow> ordering) \<Rightarrow> bytes \<Rightarrow> parsed_entry option res" where
  "lb_entry b kcmp target =
     bind_res (lb_search b kcmp target 0 (bk_num_restarts b)) (\<lambda>r.
       case r of
         None \<Rightarrow> Inr None
       | Some lo \<Rightarrow>
           if bk_num_restarts b = 0 then Inl (Panicked ''attempt to subtract with overflow'')
           else
             let start_restart = min (lo - 1) (bk_num_restarts b - 1) in
             bind_res (restart_offset b start_restart) (\<lambda>offset.
             bind_res (restarting_key_at b start_restart) (\<lambda>rk.
               case rk of
                 None \<Rightarrow> Inr None
               | Some last_key \<Rightarrow> Inr (lb_scan b kcmp target offset last_key))))"

definition block_lower_bound :: "block \<Rightarrow> (bytes \<Rightarrow> bytes \<Rightarrow> ordering) \<Rightarrow> bytes \<Rightarrow> bytes option res" where
  "block_lower_bound b kcmp target =
     bind_res (lb_entry b kcmp target) (\<lambda>e. Inr (map_option pe_value e))"

definition block_lower_bound_kv ::
    "block \<Rightarrow> (bytes \<Rightarrow> bytes \<Rightarrow> ordering) \<Rightarrow> bytes \<Rightarrow> (bytes \<times> bytes) option res" where
  "block_lower_bound_kv b kcmp target =
     bind_res (lb_entry b kcmp target) (\<lambda>e. Inr (map_option (\<lambda>e. (pe_key e, pe_value e)) e))"

section \<open>The common prefix\<close>

lemma common_prefix_loop_bounds:
  "i \<le> len \<Longrightarrow> i \<le> common_prefix_loop a b len i \<and> common_prefix_loop a b len i \<le> len"
proof (induction a b len i rule: common_prefix_loop.induct)
  case (1 a b len i)
  then show ?case by (subst (1 2) common_prefix_loop.simps) auto
qed

lemma common_prefix_loop_equal:
  "i \<le> j \<Longrightarrow> j < common_prefix_loop a b len i \<Longrightarrow> a ! j = b ! j"
proof (induction a b len i rule: common_prefix_loop.induct)
  case (1 a b len i)
  show ?case
  proof (cases "i < len \<and> a ! i = b ! i")
    case True
    with 1 show ?thesis
      by (cases "i = j") (auto simp: common_prefix_loop.simps [of a b len i])
  next
    case False
    with 1 show ?thesis by (simp add: common_prefix_loop.simps [of a b len i])
  qed
qed

lemma common_prefix_loop_maximal:
  "common_prefix_loop a b len i < len \<Longrightarrow> i \<le> len \<Longrightarrow>
   a ! common_prefix_loop a b len i \<noteq> b ! common_prefix_loop a b len i"
proof (induction a b len i rule: common_prefix_loop.induct)
  case (1 a b len i)
  then show ?case
    by (cases "i < len \<and> a ! i = b ! i") (auto simp: common_prefix_loop.simps [of a b len i])
qed

lemma common_prefix_len_le [simp]:
  "common_prefix_len a b \<le> length a" "common_prefix_len a b \<le> length b"
  using common_prefix_loop_bounds [of 0 "min (length a) (length b)" a b]
  by (auto simp: common_prefix_len_def)

lemma take_common_prefix: "take (common_prefix_len a b) a = take (common_prefix_len a b) b"
proof -
  have "min (length a) (common_prefix_len a b) = common_prefix_len a b"
    "min (length b) (common_prefix_len a b) = common_prefix_len a b"
    by (simp_all add: min.absorb2)
  then show ?thesis
    by (intro nth_equalityI)
       (auto intro: common_prefix_loop_equal simp: common_prefix_len_def)
qed

lemma common_prefix_len_nil [simp]: "common_prefix_len [] b = 0"
  using common_prefix_len_le(1) [of "[]" b] by simp

text \<open>No longer prefix is shared.\<close>

lemma common_prefix_len_maximal:
  assumes "take n a = take n b" and "n \<le> length a" and "n \<le> length b"
  shows "n \<le> common_prefix_len a b"
proof (rule ccontr)
  assume "\<not> n \<le> common_prefix_len a b"
  then have n: "common_prefix_len a b < n" by simp
  then have "a ! common_prefix_len a b \<noteq> b ! common_prefix_len a b"
    using assms(2,3) common_prefix_loop_maximal [of a b "min (length a) (length b)" 0]
    by (simp add: common_prefix_len_def)
  moreover have "a ! common_prefix_len a b = b ! common_prefix_len a b"
    using n assms(1) by (metis nth_take)
  ultimately show False by simp
qed

section \<open>The image of a list of entries\<close>

text \<open>The bytes one \<open>add\<close> appends, and the layout that a sequence of them builds.\<close>

definition entry_bytes :: "nat \<Rightarrow> bytes \<Rightarrow> bytes \<Rightarrow> bytes" where
  "entry_bytes shared k v =
     varint_bytes (of_nat shared :: u32) @ varint_bytes (of_nat (length k - shared) :: u32) @
     varint_bytes (of_nat (length v) :: u32) @ drop shared k @ v"

definition shared_at :: "(bytes \<times> bytes) list \<Rightarrow> nat \<Rightarrow> nat" where
  "shared_at kvs i =
     (if i mod RESTART_INTERVAL = 0 then 0 else common_prefix_len (fst (kvs ! (i - 1))) (fst (kvs ! i)))"

definition entry_enc :: "(bytes \<times> bytes) list \<Rightarrow> nat \<Rightarrow> bytes" where
  "entry_enc kvs i = entry_bytes (shared_at kvs i) (fst (kvs ! i)) (snd (kvs ! i))"

definition entries_upto :: "(bytes \<times> bytes) list \<Rightarrow> nat \<Rightarrow> bytes" where
  "entries_upto kvs i = concat (map (entry_enc kvs) [0..<i])"

definition offset_of :: "(bytes \<times> bytes) list \<Rightarrow> nat \<Rightarrow> nat" where
  "offset_of kvs i = length (entries_upto kvs i)"

definition restarts_of :: "nat \<Rightarrow> nat" where
  "restarts_of n = max 1 ((n + 15) div RESTART_INTERVAL)"

definition restart_list :: "(bytes \<times> bytes) list \<Rightarrow> u32 list" where
  "restart_list kvs =
     map (\<lambda>j. of_nat (offset_of kvs (RESTART_INTERVAL * j))) [0..<restarts_of (length kvs)]"

definition block_image :: "(bytes \<times> bytes) list \<Rightarrow> bytes" where
  "block_image kvs =
     entries_upto kvs (length kvs) @ concat (map (to_le 4) (restart_list kvs)) @
     to_le 4 (of_nat (restarts_of (length kvs)) :: u32)"

text \<open>The lengths of the format are 32-bit: a block stays within them.\<close>

definition block_fits :: "(bytes \<times> bytes) list \<Rightarrow> bool" where
  "block_fits kvs \<longleftrightarrow>
     length (entries_upto kvs (length kvs)) < 2 ^ 32 \<and> (\<forall>kv \<in> set kvs. length (fst kv) < 2 ^ 32)"

definition last_key_of :: "(bytes \<times> bytes) list \<Rightarrow> bytes" where
  "last_key_of kvs = (if kvs = [] then [] else fst (last kvs))"

text \<open>A builder that holds the entries \<open>kvs\<close>.\<close>

definition bb_rep :: "block_builder \<Rightarrow> (bytes \<times> bytes) list \<Rightarrow> bool" where
  "bb_rep b kvs \<longleftrightarrow>
     \<not> bb_finished b \<and> bb_buf b = entries_upto kvs (length kvs) \<and> bb_restarts b = restart_list kvs \<and>
     bb_last_key b = last_key_of kvs \<and>
     bb_count_since_restart b = (if kvs = [] then 0 else (length kvs - 1) mod RESTART_INTERVAL + 1)"

lemma entry_enc_append [simp]: "i < length kvs \<Longrightarrow> entry_enc (kvs @ xs) i = entry_enc kvs i"
  by (simp add: entry_enc_def shared_at_def nth_append)

lemma entries_upto_append [simp]: "i \<le> length kvs \<Longrightarrow> entries_upto (kvs @ xs) i = entries_upto kvs i"
  by (auto simp: entries_upto_def intro!: arg_cong [of _ _ concat])

lemma entries_upto_Suc: "entries_upto kvs (Suc i) = entries_upto kvs i @ entry_enc kvs i"
  by (simp add: entries_upto_def)

lemma offset_of_append [simp]: "i \<le> length kvs \<Longrightarrow> offset_of (kvs @ xs) i = offset_of kvs i"
  by (simp add: offset_of_def)

lemma div_16_up: "(n + 15) div 16 = n div 16 + (if n mod 16 = 0 then 0 else 1 :: nat)"
proof -
  have "n + 15 = 16 * (n div 16) + (n mod 16 + 15)" by simp
  then have "(n + 15) div 16 = n div 16 + (n mod 16 + 15) div 16"
    by (metis div_mult_self2 add.commute zero_neq_numeral)
  moreover have "(n mod 16 + 15) div 16 = (if n mod 16 = 0 then 0 else 1)"
    using mod_less_divisor [of 16 n] by (simp add: div_nat_eqI)
  ultimately show ?thesis by simp
qed

lemma restarts_of_Suc:
  "restarts_of (Suc n) = (if n mod RESTART_INTERVAL = 0 \<and> n \<noteq> 0 then Suc (restarts_of n) else restarts_of n)"
proof -
  have "(Suc n + 15) div 16 = n div 16 + 1" by simp
  moreover have "0 < n div 16" if "n mod 16 = 0" "n \<noteq> 0" using that by (metis add.right_neutral bot_nat_0.not_eq_extremum div_mult_mod_eq mult_0)
  ultimately show ?thesis
    unfolding restarts_of_def RESTART_INTERVAL_def div_16_up by auto
qed

lemma restarts_of_bound: "j < restarts_of n \<Longrightarrow> 0 < n \<Longrightarrow> RESTART_INTERVAL * j < n"
  by (simp add: restarts_of_def RESTART_INTERVAL_def max_def split: if_splits)

lemma restarts_of_exact:
  "n mod RESTART_INTERVAL = 0 \<Longrightarrow> n \<noteq> 0 \<Longrightarrow> RESTART_INTERVAL * restarts_of n = n"
  unfolding restarts_of_def RESTART_INTERVAL_def div_16_up by (auto simp: max_def)

lemma prev_mod_16: "n \<noteq> 0 \<Longrightarrow> (n - 1) mod 16 + 1 < (16 :: nat) \<longleftrightarrow> n mod 16 \<noteq> 0"
  by (cases n) (auto simp: mod_Suc)

lemma restart_list_Suc:
  "restart_list (kvs @ [kv]) =
     (if length kvs mod RESTART_INTERVAL = 0 \<and> kvs \<noteq> []
      then restart_list kvs @ [of_nat (length (entries_upto kvs (length kvs)))] else restart_list kvs)"
proof -
  have stable: "offset_of (kvs @ [kv]) (RESTART_INTERVAL * j) = offset_of kvs (RESTART_INTERVAL * j)"
    if "j < restarts_of (length kvs)" for j
  proof (cases "kvs = []")
    case True
    then show ?thesis using that by (simp add: restarts_of_def RESTART_INTERVAL_def offset_of_def entries_upto_def)
  next
    case False
    then show ?thesis using that restarts_of_bound [of j "length kvs"] by simp
  qed
  show ?thesis
    using stable restarts_of_exact [of "length kvs"]
    by (auto simp: restart_list_def restarts_of_Suc offset_of_def)
qed

lemma bb_rep_new: "bb_rep block_builder_new []"
  by (simp add: bb_rep_def block_builder_new_def entries_upto_def restart_list_def restarts_of_def
      RESTART_INTERVAL_def last_key_of_def offset_of_def)

lemma bb_rep_add:
  assumes "bb_rep b kvs"
  shows "\<exists>b'. block_add b k v = Inr b' \<and> bb_rep b' (kvs @ [(k, v)])"
proof -
  let ?n = "length kvs" and ?last = "last_key_of kvs"
  have count: "bb_count_since_restart b < RESTART_INTERVAL \<longleftrightarrow> \<not> (?n mod RESTART_INTERVAL = 0 \<and> kvs \<noteq> [])"
    using assms prev_mod_16 [of ?n] by (auto simp: bb_rep_def RESTART_INTERVAL_def)
  have shared: "shared_at (kvs @ [(k, v)]) ?n =
      (if bb_count_since_restart b < RESTART_INTERVAL then common_prefix_len ?last k else 0)"
    unfolding count
    by (auto simp: shared_at_def nth_append last_key_of_def last_conv_nth)
  have enc: "entries_upto (kvs @ [(k, v)]) (Suc ?n) = entries_upto kvs ?n @
      entry_bytes (shared_at (kvs @ [(k, v)]) ?n) k v"
    by (simp add: entries_upto_Suc entry_enc_def)
  have next_count: "(length (kvs @ [(k, v)]) - 1) mod RESTART_INTERVAL + 1 =
      (if bb_count_since_restart b < RESTART_INTERVAL then bb_count_since_restart b + 1 else 1)"
    using assms unfolding count
    by (auto simp: bb_rep_def RESTART_INTERVAL_def) (metis One_nat_def Suc_pred length_greater_0_conv mod_Suc neq0_conv)
  show ?thesis
  proof (cases "bb_count_since_restart b < RESTART_INTERVAL")
    case True
    then show ?thesis
      using assms shared enc next_count count restart_list_Suc [of kvs "(k, v)"]
      by (simp add: block_add_def Let_def bb_rep_def entry_bytes_def last_key_of_def)
  next
    case False
    then show ?thesis
      using assms shared enc next_count count restart_list_Suc [of kvs "(k, v)"]
      by (simp add: block_add_def Let_def bb_rep_def entry_bytes_def last_key_of_def)
  qed
qed

lemma bb_rep_finish: "bb_rep b kvs \<Longrightarrow> block_finish b = block_image kvs"
proof -
  have "foldl (\<lambda>buf r. buf @ to_le 4 r) buf rs = buf @ concat (map (to_le 4) rs)" for buf and rs :: "u32 list"
    by (induction rs arbitrary: buf) auto
  then show "bb_rep b kvs \<Longrightarrow> block_finish b = block_image kvs"
    by (simp add: bb_rep_def block_finish_def block_image_def Let_def) (simp add: restart_list_def)
qed

section \<open>Reading the image\<close>

text \<open>The view of the image of \<open>kvs\<close>.\<close>

definition block_view :: "block \<Rightarrow> (bytes \<times> bytes) list \<Rightarrow> bool" where
  "block_view b kvs \<longleftrightarrow>
     block_fits kvs \<and> bk_data b = block_image kvs \<and> bk_restarts_offset b = offset_of kvs (length kvs) \<and>
     bk_num_restarts b = restarts_of (length kvs)"

lemma unat_u32: "n < 2 ^ 32 \<Longrightarrow> unat (of_nat n :: u32) = n"
  by (simp add: unat_of_nat)

lemma length_entry_bytes: "3 \<le> length (entry_bytes s k v)"
proof -
  have one: "1 \<le> length (varint_bytes w)" for w :: u32 by (simp add: Suc_leI)
  show ?thesis
    using one [of "of_nat s"] one [of "of_nat (length k - s)"] one [of "of_nat (length v)"]
    unfolding entry_bytes_def length_append by linarith
qed

lemma length_entry_enc: "3 \<le> length (entry_enc kvs i)"
  unfolding entry_enc_def by (rule length_entry_bytes)

lemma offset_of_Suc: "offset_of kvs (Suc i) = offset_of kvs i + length (entry_enc kvs i)"
  by (simp add: offset_of_def entries_upto_Suc)

lemma offset_of_0 [simp]: "offset_of kvs 0 = 0"
  by (simp add: offset_of_def entries_upto_def)

lemma offset_of_less_Suc: "offset_of kvs i < offset_of kvs (Suc i)"
  using length_entry_enc [of kvs i] unfolding offset_of_Suc by linarith

lemma offset_of_mono: "i \<le> j \<Longrightarrow> offset_of kvs i \<le> offset_of kvs j"
  by (rule lift_Suc_mono_le) (simp_all add: offset_of_Suc)

lemma offset_of_strict: "i < j \<Longrightarrow> offset_of kvs i < offset_of kvs j"
  by (rule lift_Suc_mono_less) (simp_all add: offset_of_less_Suc)

lemma offset_of_ge: "3 * i \<le> offset_of kvs i"
proof (induction i)
  case (Suc i)
  then show ?case using length_entry_enc [of kvs i] by (simp add: offset_of_Suc)
qed simp

lemma block_fits_offset: "block_fits kvs \<Longrightarrow> i \<le> length kvs \<Longrightarrow> offset_of kvs i < 2 ^ 32"
  using offset_of_mono [of i "length kvs" kvs] by (simp add: block_fits_def offset_of_def)

lemma restarts_of_le: "restarts_of n \<le> max 1 n"
  by (auto simp: restarts_of_def RESTART_INTERVAL_def max_def)

lemma restarts_of_pos [simp]: "0 < restarts_of n"
  by (simp add: restarts_of_def)

lemma length_entry_enc_le: "length (entry_enc kvs i) \<le> 15 + length (fst (kvs ! i)) + length (snd (kvs ! i))"
proof -
  have five: "length (varint_bytes w) \<le> 5" for w :: u32 by (rule length_varint32_bytes)
  have "length (entry_bytes s k v) \<le> 15 + length k + length v" for s k v
    using five [of "of_nat s"] five [of "of_nat (length k - s)"] five [of "of_nat (length v)"]
    unfolding entry_bytes_def length_append length_drop by linarith
  then show ?thesis by (simp add: entry_enc_def)
qed

text \<open>A bound on the sizes of the entries that is enough for a block to fit.\<close>

definition entries_size :: "(bytes \<times> bytes) list \<Rightarrow> nat" where
  "entries_size kvs = (\<Sum>kv\<leftarrow>kvs. 15 + length (fst kv) + length (snd kv))"

lemma entries_size_simps [simp]:
  "entries_size [] = 0"
  "entries_size (kv # kvs) = 15 + length (fst kv) + length (snd kv) + entries_size kvs"
  "entries_size (xs @ ys) = entries_size xs + entries_size ys"
  by (simp_all add: entries_size_def)

lemma offset_of_le_size: "i \<le> length kvs \<Longrightarrow> offset_of kvs i \<le> entries_size (take i kvs)"
proof (induction i)
  case (Suc i)
  then show ?case
    using length_entry_enc_le [of kvs i] by (simp add: offset_of_Suc take_Suc_conv_app_nth)
qed simp

lemma entries_size_member: "kv \<in> set kvs \<Longrightarrow> length (fst kv) \<le> entries_size kvs"
  by (induction kvs) auto

lemma block_fitsI: "entries_size kvs < 2 ^ 32 \<Longrightarrow> block_fits kvs"
  using offset_of_le_size [of "length kvs" kvs] entries_size_member [of _ kvs]
  by (fastforce simp: block_fits_def offset_of_def)

lemma block_fits_restarts: "block_fits kvs \<Longrightarrow> restarts_of (length kvs) < 2 ^ 32"
  using restarts_of_le [of "length kvs"] offset_of_ge [of "length kvs" kvs]
    block_fits_offset [of kvs "length kvs"]
  by (auto simp: max_def split: if_splits)

lemma length_concat_to_le: "length (concat (map (to_le 4) (rs :: u32 list))) = 4 * length rs"
  by (induction rs) auto

lemma length_restart_list [simp]: "length (restart_list kvs) = restarts_of (length kvs)"
  by (simp add: restart_list_def)

lemma length_block_image:
  "length (block_image kvs) = offset_of kvs (length kvs) + 4 * restarts_of (length kvs) + 4"
  by (simp add: block_image_def offset_of_def length_concat_to_le)

lemma block_new_image:
  assumes "block_fits kvs"
  shows "\<exists>b. block_new (block_image kvs) = Inr b \<and> block_view b kvs"
proof -
  let ?n = "restarts_of (length kvs)"
  have tail: "drop (length (block_image kvs) - 4) (block_image kvs) = to_le 4 (of_nat ?n :: u32)"
    by (simp add: block_image_def)
  have n: "unat (of_nat ?n :: u32) = ?n"
    using block_fits_restarts [OF assms] by (rule unat_u32)
  have "block_new (block_image kvs) =
      Inr \<lparr>bk_data = block_image kvs, bk_restarts_offset = offset_of kvs (length kvs), bk_num_restarts = ?n\<rparr>"
    unfolding block_new_def tail Let_def
    by (simp add: n length_block_image)
  then show ?thesis using assms by (simp add: block_view_def)
qed

lemma nth_restart:
  assumes "j < length (rs :: u32 list)"
  shows "take 4 (drop (4 * j) (concat (map (to_le 4) rs) @ tl')) = to_le 4 (rs ! j)"
  using assms
proof (induction rs arbitrary: j)
  case (Cons r rs)
  show ?case
  proof (cases j)
    case 0
    then show ?thesis by simp
  next
    case (Suc i)
    have "drop (4 * j) (concat (map (to_le 4) (r # rs)) @ tl') =
        drop (4 * i) (concat (map (to_le 4) rs) @ tl')"
      by (simp add: Suc drop_append)
    then show ?thesis using Cons Suc by simp
  qed
qed simp

lemma restart_offset_view:
  assumes v: "block_view b kvs" and j: "j < restarts_of (length kvs)"
  shows "restart_offset b j = Inr (offset_of kvs (RESTART_INTERVAL * j))"
proof -
  let ?e = "entries_upto kvs (length kvs)"
  have len: "offset_of kvs (length kvs) = length ?e" by (simp add: offset_of_def)
  have "take 4 (drop (length ?e + 4 * j) (block_image kvs)) = to_le 4 (restart_list kvs ! j)"
    using nth_restart [of j "restart_list kvs"] j by (simp add: block_image_def)
  moreover have "restart_list kvs ! j = of_nat (offset_of kvs (RESTART_INTERVAL * j))"
    using j by (simp add: restart_list_def)
  moreover have "unat (of_nat (offset_of kvs (RESTART_INTERVAL * j)) :: u32) = offset_of kvs (RESTART_INTERVAL * j)"
  proof (rule unat_u32, cases "kvs = []")
    case True
    then show "offset_of kvs (RESTART_INTERVAL * j) < 2 ^ 32"
      using j by (simp add: restarts_of_def RESTART_INTERVAL_def)
  next
    case False
    then show "offset_of kvs (RESTART_INTERVAL * j) < 2 ^ 32"
      using v j restarts_of_bound [of j "length kvs"]
      by (intro block_fits_offset) (auto simp: block_view_def intro: less_imp_le)
  qed
  ultimately show ?thesis
    using v j
    by (simp add: restart_offset_def slice_range_def get_range_def block_view_def length_block_image len
        Let_def mult.commute)
qed

text \<open>The header varints and the two slices of an entry at a known place.\<close>

lemma entry_pieces:
  assumes data: "data = pre @ entry_bytes s k v @ rest" and off: "off = length pre" and s: "s \<le> length k"
  defines "a \<equiv> varint_bytes (of_nat s :: u32)" and "b \<equiv> varint_bytes (of_nat (length k - s) :: u32)"
    and "c \<equiv> varint_bytes (of_nat (length v) :: u32)"
  shows "get_from data off = Some (a @ b @ c @ drop s k @ v @ rest)"
    and "get_from data (off + length a) = Some (b @ c @ drop s k @ v @ rest)"
    and "get_from data (off + length a + length b) = Some (c @ drop s k @ v @ rest)"
    and "get_range data (off + (length a + length b + length c)) (off + (length a + length b + length c) + (length k - s))
         = Some (drop s k)"
    and "get_range data (off + (length a + length b + length c) + (length k - s))
           (off + (length a + length b + length c) + (length k - s) + length v) = Some v"
    and "length (entry_bytes s k v) = length a + length b + length c + (length k - s) + length v"
proof -
  have d: "data = pre @ a @ b @ c @ drop s k @ v @ rest"
    by (simp add: data entry_bytes_def a_def b_def c_def)
  show "get_from data off = Some (a @ b @ c @ drop s k @ v @ rest)"
    using get_from_append [of pre] by (simp add: d off)
  show "get_from data (off + length a) = Some (b @ c @ drop s k @ v @ rest)"
    using get_from_append [of "pre @ a"] by (simp add: d off)
  show "get_from data (off + length a + length b) = Some (c @ drop s k @ v @ rest)"
    using get_from_append [of "pre @ a @ b"] by (simp add: d off add.assoc)
  show "get_range data (off + (length a + length b + length c)) (off + (length a + length b + length c) + (length k - s))
         = Some (drop s k)"
    unfolding d off by (rule get_range_middle [of "pre @ a @ b @ c" _ _ "drop s k" "v @ rest", unfolded append_assoc]; simp)
  show "get_range data (off + (length a + length b + length c) + (length k - s))
           (off + (length a + length b + length c) + (length k - s) + length v) = Some v"
    unfolding d off by (rule get_range_middle [of "pre @ a @ b @ c @ drop s k" _ _ "v" "rest", unfolded append_assoc]; simp)
  show "length (entry_bytes s k v) = length a + length b + length c + (length k - s) + length v"
    by (simp add: entry_bytes_def a_def b_def c_def)
qed

lemma entry_at_bytes:
  assumes data: "bk_data bl = pre @ entry_bytes s k v @ rest" and off: "off = length pre"
    and s: "s \<le> length k" and k: "length k < 2 ^ 32" and v: "length v < 2 ^ 32"
    and fit: "off + length (entry_bytes s k v) \<le> usize_max"
  shows "entry_at bl off = Inr (drop s k, v, off + length (entry_bytes s k v))"
proof -
  note p = entry_pieces [OF data off s]
  have small: "unat (of_nat (length k - s) :: u32) = length k - s" "unat (of_nat (length v) :: u32) = length v"
    using k v by (simp_all only: unat_u32)
  show ?thesis
    using fit
    unfolding entry_at_def p(1) ok_or_simps bind_res_simps decode_varint32_bytes prod.case Let_def
    unfolding p(2) ok_or_simps bind_res_simps decode_varint32_bytes prod.case
    unfolding p(3) ok_or_simps bind_res_simps decode_varint32_bytes prod.case small checked_add_def
    by (simp add: p(4-6) del: of_nat_diff) 
qed

lemma parse_entry_bytes:
  assumes data: "bk_data bl = pre @ entry_bytes s k v @ rest" and off: "off = length pre"
    and s: "s \<le> length k" and k: "length k < 2 ^ 32" and v: "length v < 2 ^ 32"
    and fit: "off + length (entry_bytes s k v) \<le> usize_max"
    and inside: "off + length (entry_bytes s k v) \<le> bk_restarts_offset bl"
    and last: "s \<le> length lk" "take s lk = take s k"
  shows "parse_entry bl off lk =
    Some \<lparr>pe_key = k, pe_value = v, pe_next_offset = off + length (entry_bytes s k v)\<rparr>"
proof -
  note p = entry_pieces [OF data off s]
  have "s < 2 ^ 32" using s k by linarith
  then have small: "unat (of_nat s :: u32) = s"
    "unat (of_nat (length k - s) :: u32) = length k - s" "unat (of_nat (length v) :: u32) = length v"
    using k v by (simp_all only: unat_u32)
  show ?thesis
    using fit inside last
    unfolding parse_entry_def p(1) bind.bind_lunit ok_opt_simps decode_varint32_bytes prod.case Let_def
    unfolding p(2) bind.bind_lunit ok_opt_simps decode_varint32_bytes prod.case
    unfolding p(3) bind.bind_lunit ok_opt_simps decode_varint32_bytes prod.case small checked_add_def
    by (simp add: p(4-6) del: of_nat_diff)
qed

lemma block_image_at:
  assumes "i < length kvs"
  shows "\<exists>rest. block_image kvs = entries_upto kvs i @ entry_enc kvs i @ rest"
proof -
  have "[0..<length kvs] = [0..<Suc i] @ [Suc i..<length kvs]"
    using assms upt_add_eq_append [of 0 "Suc i" "length kvs - Suc i"]
    by (simp only: zero_le Suc_le_eq le_add_diff_inverse)
  then have "entries_upto kvs (length kvs) = entries_upto kvs i @ entry_enc kvs i @
      concat (map (entry_enc kvs) [Suc i..<length kvs])"
    by (simp add: entries_upto_def)
  then show ?thesis by (auto simp: block_image_def)
qed

lemma shared_at_le: "shared_at kvs i \<le> length (fst (kvs ! i))"
  by (simp add: shared_at_def)

lemma block_fits_entry:
  assumes fits: "block_fits kvs" and i: "i < length kvs"
  shows "length (fst (kvs ! i)) < 2 ^ 32" and "length (snd (kvs ! i)) < 2 ^ 32"
    and "offset_of kvs (Suc i) \<le> usize_max"
proof -
  show "length (fst (kvs ! i)) < 2 ^ 32" using assms by (simp add: block_fits_def)
  have "offset_of kvs (Suc i) < 2 ^ 32" using block_fits_offset [OF fits, of "Suc i"] i by simp
  then show "length (snd (kvs ! i)) < 2 ^ 32" "offset_of kvs (Suc i) \<le> usize_max"
    by (simp_all add: offset_of_Suc entry_enc_def entry_bytes_def usize_max_def)
qed

text \<open>The last key a reader at entry \<open>i\<close> must hold: any, at a restart point.\<close>

definition last_key_fits :: "(bytes \<times> bytes) list \<Rightarrow> nat \<Rightarrow> bytes \<Rightarrow> bool" where
  "last_key_fits kvs i lk \<longleftrightarrow> i mod RESTART_INTERVAL = 0 \<or> lk = fst (kvs ! (i - 1))"

lemma last_key_fits_Suc [simp]: "last_key_fits kvs (Suc i) (fst (kvs ! i))"
  by (simp add: last_key_fits_def)

lemma last_key_fits_restart [simp]: "last_key_fits kvs (RESTART_INTERVAL * j) lk"
  by (simp add: last_key_fits_def)

lemma parse_entry_view:
  assumes v: "block_view b kvs" and i: "i < length kvs" and lk: "last_key_fits kvs i lk"
  shows "parse_entry b (offset_of kvs i) lk =
    Some \<lparr>pe_key = fst (kvs ! i), pe_value = snd (kvs ! i), pe_next_offset = offset_of kvs (Suc i)\<rparr>"
proof -
  have fits: "block_fits kvs" using v by (simp add: block_view_def)
  obtain rest where img: "block_image kvs = entries_upto kvs i @ entry_enc kvs i @ rest"
    using block_image_at [OF i] by blast
  have s: "shared_at kvs i \<le> length lk" "take (shared_at kvs i) lk = take (shared_at kvs i) (fst (kvs ! i))"
    using lk by (auto simp: last_key_fits_def shared_at_def take_common_prefix)
  have next_off: "offset_of kvs i + length (entry_bytes (shared_at kvs i) (fst (kvs ! i)) (snd (kvs ! i))) =
      offset_of kvs (Suc i)"
    by (simp add: offset_of_Suc entry_enc_def)
  have "parse_entry b (offset_of kvs i) lk = Some \<lparr>pe_key = fst (kvs ! i), pe_value = snd (kvs ! i), pe_next_offset =
      offset_of kvs i + length (entry_bytes (shared_at kvs i) (fst (kvs ! i)) (snd (kvs ! i)))\<rparr>"
    by (rule parse_entry_bytes [OF _ offset_of_def])
       (use v s block_fits_entry [OF fits i] offset_of_mono [of "Suc i" "length kvs" kvs] i in
        \<open>simp_all add: next_off block_view_def img [unfolded entry_enc_def] shared_at_le\<close>)
  then show ?thesis by (simp only: next_off)
qed

lemma entry_at_view:
  assumes v: "block_view b kvs" and i: "i < length kvs" and r: "i mod RESTART_INTERVAL = 0"
  shows "entry_at b (offset_of kvs i) = Inr (fst (kvs ! i), snd (kvs ! i), offset_of kvs (Suc i))"
proof -
  have fits: "block_fits kvs" using v by (simp add: block_view_def)
  obtain rest where img: "block_image kvs = entries_upto kvs i @ entry_enc kvs i @ rest"
    using block_image_at [OF i] by blast
  have s: "shared_at kvs i = 0" using r by (simp add: shared_at_def)
  have next_off: "offset_of kvs i + length (entry_bytes 0 (fst (kvs ! i)) (snd (kvs ! i))) =
      offset_of kvs (Suc i)"
    by (simp add: offset_of_Suc entry_enc_def s)
  have "entry_at b (offset_of kvs i) = Inr (drop 0 (fst (kvs ! i)), snd (kvs ! i),
      offset_of kvs i + length (entry_bytes 0 (fst (kvs ! i)) (snd (kvs ! i))))"
    by (rule entry_at_bytes [OF _ offset_of_def])
       (use v block_fits_entry [OF fits i] in
        \<open>simp_all add: next_off block_view_def img [unfolded entry_enc_def s]\<close>)
  then show ?thesis by (simp only: next_off drop_0)
qed

lemma restart_index:
  "block_view b kvs \<Longrightarrow> kvs \<noteq> [] \<Longrightarrow> j < restarts_of (length kvs) \<Longrightarrow> RESTART_INTERVAL * j < length kvs"
  by (simp add: restarts_of_bound)

lemma restarting_key_at_view:
  assumes "block_view b kvs" and "kvs \<noteq> []" and "j < restarts_of (length kvs)"
  shows "restarting_key_at b j = Inr (Some (fst (kvs ! (RESTART_INTERVAL * j))))"
  using assms restart_index [OF assms]
  by (simp add: restarting_key_at_def restart_offset_view entry_at_view)

lemma value_at_restart_view:
  assumes "block_view b kvs" and "kvs \<noteq> []" and "j < restarts_of (length kvs)"
  shows "value_at_restart b j = Inr (Some (snd (kvs ! (RESTART_INTERVAL * j))))"
  using assms restart_index [OF assms]
  by (simp add: value_at_restart_def restart_offset_view entry_at_view)

lemma is_past_view:
  "block_view b kvs \<Longrightarrow> i \<le> length kvs \<Longrightarrow> is_past_entries b (offset_of kvs i) \<longleftrightarrow> i = length kvs"
  using offset_of_strict [of i "length kvs" kvs]
  by (cases "i = length kvs") (auto simp: is_past_entries_def block_view_def)

lemma block_iter_loop_view:
  assumes "block_view b kvs" and "i \<le> length kvs" and "last_key_fits kvs i lk"
  shows "block_iter_loop b (offset_of kvs i, lk) = drop i kvs"
  using assms(2,3)
proof (induction "length kvs - i" arbitrary: i lk)
  case 0
  then show ?case
    using assms(1) by (subst block_iter_loop.simps) (simp add: block_iter_next_def is_past_view)
next
  case (Suc n)
  then have i: "i < length kvs" by simp
  have step: "block_iter_next b (offset_of kvs i, lk) = (Some (kvs ! i), offset_of kvs (Suc i), fst (kvs ! i))"
    using assms(1) i Suc.prems by (simp add: block_iter_next_def is_past_view parse_entry_view)
  have "block_iter_loop b (offset_of kvs (Suc i), fst (kvs ! i)) = drop (Suc i) kvs"
    using Suc.hyps(2) i by (intro Suc.hyps(1)) auto
  then show ?case
    using i by (subst block_iter_loop.simps) (simp add: step Cons_nth_drop_Suc)
qed

lemma block_iter_view: "block_view b kvs \<Longrightarrow> block_iter b = kvs"
  using block_iter_loop_view [of b kvs 0 "[]"]
  by (simp add: block_iter_def last_key_fits_def)

section \<open>Lookups find what the list of entries says\<close>

context key_comparator
begin

text \<open>Entries in strictly ascending key order, as the callers of \<open>add\<close> guarantee.\<close>

definition ascending :: "(bytes \<times> bytes) list \<Rightarrow> bool" where
  "ascending kvs \<longleftrightarrow> sorted_wrt (\<lambda>a b. kcmp (fst a) (fst b) = Less) kvs"

lemma ascending_le:
  "ascending kvs \<Longrightarrow> i \<le> j \<Longrightarrow> j < length kvs \<Longrightarrow> kcmp (fst (kvs ! i)) (fst (kvs ! j)) \<noteq> Greater"
  by (cases "i = j") (auto simp: ascending_def kcmp_refl sorted_wrt_iff_nth_less)

lemma ascending_less:
  "ascending kvs \<Longrightarrow> i < j \<Longrightarrow> j < length kvs \<Longrightarrow> kcmp (fst (kvs ! i)) (fst (kvs ! j)) = Less"
  by (auto simp: ascending_def sorted_wrt_iff_nth_less)

lemma lb_search_view:
  assumes v: "block_view b kvs" and ne: "kvs \<noteq> []" and asc: "ascending kvs"
    and "lo \<le> hi" and "hi \<le> restarts_of (length kvs)"
    and "0 < lo \<Longrightarrow> kcmp target (fst (kvs ! (RESTART_INTERVAL * (lo - 1)))) = Greater"
  shows "\<exists>r. lb_search b kcmp target lo hi = Inr (Some r) \<and> r \<le> restarts_of (length kvs) \<and>
    (0 < r \<longrightarrow> kcmp target (fst (kvs ! (RESTART_INTERVAL * (r - 1)))) = Greater)"
  using assms(4-6)
proof (induction "hi - lo" arbitrary: lo hi rule: less_induct)
  case less
  show ?case
  proof (cases "lo < hi")
    case False
    then show ?thesis using less.prems by (subst lb_search.simps) auto
  next
    case True
    let ?mid = "(lo + hi) div 2"
    have mid: "lo \<le> ?mid" "?mid < hi" using True by auto
    have rk: "restarting_key_at b ?mid = Inr (Some (fst (kvs ! (RESTART_INTERVAL * ?mid))))"
      using restarting_key_at_view [OF v ne, of ?mid] mid less.prems by simp
    show ?thesis
    proof (cases "kcmp target (fst (kvs ! (RESTART_INTERVAL * ?mid))) = Greater")
      case g: True
      have "\<exists>r. lb_search b kcmp target (?mid + 1) hi = Inr (Some r) \<and> r \<le> restarts_of (length kvs) \<and>
          (0 < r \<longrightarrow> kcmp target (fst (kvs ! (RESTART_INTERVAL * (r - 1)))) = Greater)"
        by (rule less.hyps) (use mid less.prems g in auto)
      then show ?thesis using True g by (subst lb_search.simps) (simp add: rk Let_def)
    next
      case ng: False
      have "\<exists>r. lb_search b kcmp target lo ?mid = Inr (Some r) \<and> r \<le> restarts_of (length kvs) \<and>
          (0 < r \<longrightarrow> kcmp target (fst (kvs ! (RESTART_INTERVAL * (r - 1)))) = Greater)"
        by (rule less.hyps) (use mid less.prems in auto)
      then show ?thesis
        using True ng by (subst lb_search.simps) (simp add: rk Let_def split: ordering.split)
    qed
  qed
qed

lemma lb_scan_view:
  assumes v: "block_view b kvs" and "i < length kvs" and "last_key_fits kvs i lk"
  shows "map_option (\<lambda>e. (pe_key e, pe_value e)) (lb_scan b kcmp target (offset_of kvs i) lk) =
    find (\<lambda>kv. kcmp target (fst kv) \<noteq> Greater) (drop i kvs)"
  using assms(2,3)
proof (induction "length kvs - i" arbitrary: i lk)
  case (Suc n)
  note parse = parse_entry_view [OF v Suc.prems]
  have drop: "drop i kvs = kvs ! i # drop (Suc i) kvs" using Suc.prems by (simp add: Cons_nth_drop_Suc)
  show ?case
  proof (cases "kcmp target (fst (kvs ! i)) = Greater")
    case g: True
    show ?thesis
    proof (cases "Suc i = length kvs")
      case True
      then show ?thesis
        using g is_past_view [OF v, of "Suc i"] by (subst lb_scan.simps) (simp add: parse drop)
    next
      case False
      then have "map_option (\<lambda>e. (pe_key e, pe_value e)) (lb_scan b kcmp target (offset_of kvs (Suc i)) (fst (kvs ! i))) =
          find (\<lambda>kv. kcmp target (fst kv) \<noteq> Greater) (drop (Suc i) kvs)"
        using Suc.hyps(2) Suc.prems by (intro Suc.hyps(1)) auto
      then show ?thesis
        using g False Suc.prems is_past_view [OF v, of "Suc i"]
        by (subst lb_scan.simps) (simp add: parse drop)
    qed
  next
    case False
    then show ?thesis by (subst lb_scan.simps) (simp add: parse drop split: ordering.split)
  qed
qed simp

lemma find_drop:
  "(\<And>j. j < n \<Longrightarrow> j < length xs \<Longrightarrow> \<not> P (xs ! j)) \<Longrightarrow> find P (drop n xs) = find P xs"
proof (induction xs arbitrary: n)
  case (Cons x xs)
  show ?case
  proof (cases n)
    case (Suc m)
    have "\<not> P x" using Cons.prems [of 0] Suc by simp
    moreover have "find P (drop m xs) = find P xs"
      using Cons.prems [of "Suc j" for j] Suc by (intro Cons.IH) auto
    ultimately show ?thesis using Suc by simp
  qed simp
qed simp

lemma greater_before:
  assumes asc: "ascending kvs" and i: "i < length kvs" and g: "kcmp target (fst (kvs ! i)) = Greater"
    and j: "j \<le> i"
  shows "kcmp target (fst (kvs ! j)) = Greater"
  using greater_mono [OF g ascending_le [OF asc j i]] .

lemma lb_entry_view:
  assumes v: "block_view b kvs" and ne: "kvs \<noteq> []" and asc: "ascending kvs"
  shows "\<exists>e. lb_entry b kcmp target = Inr e \<and>
    map_option (\<lambda>e. (pe_key e, pe_value e)) e = find (\<lambda>kv. kcmp target (fst kv) \<noteq> Greater) kvs"
proof -
  let ?n = "restarts_of (length kvs)"
  have num: "bk_num_restarts b = ?n" using v by (simp add: block_view_def)
  obtain r where r: "lb_search b kcmp target 0 ?n = Inr (Some r)" "r \<le> ?n"
    and g: "0 < r \<Longrightarrow> kcmp target (fst (kvs ! (RESTART_INTERVAL * (r - 1)))) = Greater"
    using lb_search_view [OF v ne asc, of 0 ?n target] by auto
  let ?s = "min (r - 1) (?n - 1)"
  have s: "?s = r - 1" "?s < ?n" using r(2) restarts_of_pos [of "length kvs"] by linarith+
  let ?i = "RESTART_INTERVAL * ?s"
  have i: "?i < length kvs" using restart_index [OF v ne s(2)] .
  have before: "\<not> kcmp target (fst (kvs ! j)) \<noteq> Greater" if "j < ?i" for j
    using that s g greater_before [OF asc i, of target j] by (cases "r = 0") auto
  have "map_option (\<lambda>e. (pe_key e, pe_value e)) (lb_scan b kcmp target (offset_of kvs ?i) (fst (kvs ! ?i))) =
      find (\<lambda>kv. kcmp target (fst kv) \<noteq> Greater) (drop ?i kvs)"
    by (rule lb_scan_view [OF v i]) simp
  also have "\<dots> = find (\<lambda>kv. kcmp target (fst kv) \<noteq> Greater) kvs"
    using before by (intro find_drop) blast
  finally show ?thesis
    using r(1) restarts_of_pos [of "length kvs"] restart_offset_view [OF v s(2)] restarting_key_at_view [OF v ne s(2)]
    by (simp add: lb_entry_def num Let_def)
qed

lemma block_lower_bound_kv_view:
  assumes "block_view b kvs" and "kvs \<noteq> []" and "ascending kvs"
  shows "block_lower_bound_kv b kcmp target = Inr (find (\<lambda>kv. kcmp target (fst kv) \<noteq> Greater) kvs)"
  using lb_entry_view [OF assms, of target] by (auto simp: block_lower_bound_kv_def)

lemma block_lower_bound_view:
  assumes "block_view b kvs" and "kvs \<noteq> []" and "ascending kvs"
  shows "block_lower_bound b kcmp target =
    Inr (map_option snd (find (\<lambda>kv. kcmp target (fst kv) \<noteq> Greater) kvs))"
proof -
  obtain e where e: "lb_entry b kcmp target = Inr e"
    "map_option (\<lambda>e. (pe_key e, pe_value e)) e = find (\<lambda>kv. kcmp target (fst kv) \<noteq> Greater) kvs"
    using lb_entry_view [OF assms] by blast
  then have "map_option pe_value e = map_option snd (find (\<lambda>kv. kcmp target (fst kv) \<noteq> Greater) kvs)"
    by (cases e) (auto simp: simp del: e(2) simp: e(2) [symmetric])
  then show ?thesis using e(1) by (simp add: block_lower_bound_def)
qed

text \<open>\<open>get\<close>: an exact hit at a restart point ends the search, otherwise the scan decides.\<close>

definition get_result :: "(bytes \<times> bytes) list \<Rightarrow> bytes \<Rightarrow> bytes option" where
  "get_result kvs target = map_option snd (find (\<lambda>kv. kcmp target (fst kv) = Equal) kvs)"

lemma find_unique:
  "i < length xs \<Longrightarrow> P (xs ! i) \<Longrightarrow> (\<And>j. j < i \<Longrightarrow> \<not> P (xs ! j)) \<Longrightarrow> find P xs = Some (xs ! i)"
  by (auto simp: find_Some_iff)

lemma get_result_hit:
  assumes asc: "ascending kvs" and i: "i < length kvs" and e: "kcmp target (fst (kvs ! i)) = Equal"
  shows "get_result kvs target = Some (snd (kvs ! i))"
proof -
  have "kcmp target (fst (kvs ! j)) = Greater" if "j < i" for j
    using greater_mono_le [of target "fst (kvs ! i)" "fst (kvs ! j)"] ascending_less [OF asc that i] e by simp
  then show ?thesis
    using find_unique [of i kvs "\<lambda>kv. kcmp target (fst kv) = Equal"] i e by (auto simp: get_result_def)
qed

lemma get_search_view:
  assumes v: "block_view b kvs" and ne: "kvs \<noteq> []" and asc: "ascending kvs"
    and "lo \<le> hi" and "hi \<le> restarts_of (length kvs)"
    and "0 < lo \<Longrightarrow> kcmp target (fst (kvs ! (RESTART_INTERVAL * (lo - 1)))) = Greater"
    and "hi < restarts_of (length kvs) \<Longrightarrow> kcmp target (fst (kvs ! (RESTART_INTERVAL * hi))) = Less"
  shows "get_search b kcmp target lo hi = Inr (Inl (get_result kvs target)) \<or>
    (\<exists>r. get_search b kcmp target lo hi = Inr (Inr r) \<and> r \<le> restarts_of (length kvs) \<and>
      (0 < r \<longrightarrow> kcmp target (fst (kvs ! (RESTART_INTERVAL * (r - 1)))) = Greater) \<and>
      (r < restarts_of (length kvs) \<longrightarrow> kcmp target (fst (kvs ! (RESTART_INTERVAL * r))) = Less))"
    (is "_ \<or> ?out lo hi")
  using assms(4-7)
proof (induction "hi - lo" arbitrary: lo hi rule: less_induct)
  case less
  show ?case
  proof (cases "lo < hi")
    case False
    then show ?thesis using less.prems by (subst get_search.simps, subst (3) get_search.simps) auto
  next
    case True
    let ?mid = "(lo + hi) div 2"
    have mid: "lo \<le> ?mid" "?mid < hi" using True by auto
    then have mid_n: "?mid < restarts_of (length kvs)" using less.prems by simp
    note rk = restarting_key_at_view [OF v ne mid_n] value_at_restart_view [OF v ne mid_n]
    let ?c = "kcmp target (fst (kvs ! (RESTART_INTERVAL * ?mid)))"
    show ?thesis
    proof (cases ?c)
      case Less
      have "get_search b kcmp target lo hi = get_search b kcmp target lo ?mid"
        using True Less by (subst get_search.simps) (simp add: rk Let_def)
      moreover have "get_search b kcmp target lo ?mid = Inr (Inl (get_result kvs target)) \<or> ?out lo ?mid"
        by (rule less.hyps) (use mid less.prems Less in auto)
      ultimately show ?thesis by simp
    next
      case Equal
      then show ?thesis
        using True get_result_hit [OF asc restart_index [OF v ne mid_n] Equal]
        by (subst get_search.simps) (simp add: rk Let_def)
    next
      case Greater
      have "get_search b kcmp target lo hi = get_search b kcmp target (?mid + 1) hi"
        using True Greater by (subst get_search.simps) (simp add: rk Let_def)
      moreover have "get_search b kcmp target (?mid + 1) hi = Inr (Inl (get_result kvs target)) \<or> ?out (?mid + 1) hi"
        by (rule less.hyps) (use mid less.prems Greater in auto)
      ultimately show ?thesis by simp
    qed
  qed
qed

lemma less_after:
  assumes "ascending kvs" and "kcmp target (fst (kvs ! i)) = Less" and "i \<le> j" and "j < length kvs"
  shows "kcmp target (fst (kvs ! j)) = Less"
  using less_trans_le [OF assms(2)] ascending_le [OF assms(1,3,4)] by blast

lemma find_none_less:
  assumes "ascending kvs" and "kcmp target (fst (kvs ! i)) = Less"
  shows "find (\<lambda>kv. kcmp target (fst kv) = Equal) (drop i kvs) = None"
proof -
  have "kcmp target (fst kv) = Less" if kv: "kv \<in> set (drop i kvs)" for kv
  proof -
    obtain j where "j < length (drop i kvs)" "kv = drop i kvs ! j" using kv by (auto simp: in_set_conv_nth)
    then show ?thesis using less_after [OF assms, of "i + j"] by simp
  qed
  then show ?thesis by (auto simp: find_None_iff)
qed

lemma get_scan_view:
  assumes v: "block_view b kvs" and asc: "ascending kvs" and "i < length kvs" and "last_key_fits kvs i lk"
  shows "get_scan b kcmp target (offset_of kvs i) lk =
    map_option snd (find (\<lambda>kv. kcmp target (fst kv) = Equal) (drop i kvs))"
  using assms(3,4)
proof (induction "length kvs - i" arbitrary: i lk)
  case (Suc n)
  note parse = parse_entry_view [OF v Suc.prems]
  have drop: "drop i kvs = kvs ! i # drop (Suc i) kvs" using Suc.prems by (simp add: Cons_nth_drop_Suc)
  show ?case
  proof (cases "kcmp target (fst (kvs ! i))")
    case Less
    then show ?thesis
      using find_none_less [OF asc Less] by (subst get_scan.simps) (simp add: parse)
  next
    case Equal
    then show ?thesis by (subst get_scan.simps) (simp add: parse drop)
  next
    case g: Greater
    show ?thesis
    proof (cases "Suc i = length kvs")
      case True
      then show ?thesis
        using g is_past_view [OF v, of "Suc i"] by (subst get_scan.simps) (simp add: parse drop)
    next
      case False
      then have "get_scan b kcmp target (offset_of kvs (Suc i)) (fst (kvs ! i)) =
          map_option snd (find (\<lambda>kv. kcmp target (fst kv) = Equal) (drop (Suc i) kvs))"
        using Suc.hyps(2) Suc.prems by (intro Suc.hyps(1)) auto
      then show ?thesis
        using g False Suc.prems is_past_view [OF v, of "Suc i"]
        by (subst get_scan.simps) (simp add: parse drop)
    qed
  qed
qed simp

lemma block_get_view:
  assumes v: "block_view b kvs" and ne: "kvs \<noteq> []" and asc: "ascending kvs"
  shows "block_get b kcmp target = Inr (get_result kvs target)"
proof -
  let ?n = "restarts_of (length kvs)"
  have num: "bk_num_restarts b = ?n" using v by (simp add: block_view_def)
  consider "get_search b kcmp target 0 ?n = Inr (Inl (get_result kvs target))"
    | r where "get_search b kcmp target 0 ?n = Inr (Inr r)" "r \<le> ?n"
      "0 < r \<longrightarrow> kcmp target (fst (kvs ! (RESTART_INTERVAL * (r - 1)))) = Greater"
      "r < ?n \<longrightarrow> kcmp target (fst (kvs ! (RESTART_INTERVAL * r))) = Less"
    using get_search_view [OF v ne asc, of 0 ?n target] by auto
  then show ?thesis
  proof cases
    case 1
    then show ?thesis by (simp add: block_get_def num)
  next
    case (2 r)
    show ?thesis
    proof (cases "r = 0")
      case True
      then have "kcmp target (fst (kvs ! 0)) = Less" using 2(4) by simp
      from find_none_less [OF asc this] show ?thesis
        using 2(1) True by (simp add: block_get_def num get_result_def)
    next
      case False
      then have s: "r - 1 < ?n" using 2(2) by linarith
      let ?i = "RESTART_INTERVAL * (r - 1)"
      have i: "?i < length kvs" using restart_index [OF v ne s] .
      have g: "kcmp target (fst (kvs ! ?i)) = Greater" using 2(3) False by simp
      have "kcmp target (fst (kvs ! j)) \<noteq> Equal" if "j < ?i" for j
        using greater_before [OF asc i g, of j] that by simp
      then have "find (\<lambda>kv. kcmp target (fst kv) = Equal) (drop ?i kvs) =
          find (\<lambda>kv. kcmp target (fst kv) = Equal) kvs"
        by (intro find_drop) blast
      moreover have "get_scan b kcmp target (offset_of kvs ?i) (fst (kvs ! ?i)) =
          map_option snd (find (\<lambda>kv. kcmp target (fst kv) = Equal) (drop ?i kvs))"
        by (rule get_scan_view [OF v asc i]) simp
      ultimately show ?thesis
        using 2(1) False restart_offset_view [OF v s] restarting_key_at_view [OF v ne s]
        by (simp add: block_get_def num Let_def get_result_def)
    qed
  qed
qed

end

section \<open>Degenerate blocks\<close>

text \<open>A stored restart count of zero passes \<open>Block::new\<close>, and the lower bounds then panic.\<close>

lemma lower_bound_no_restarts:
  "bk_num_restarts b = 0 \<Longrightarrow>
   block_lower_bound_kv b kcmp target = Inl (Panicked ''attempt to subtract with overflow'')"
  by (simp add: block_lower_bound_kv_def lb_entry_def lb_search.simps)

text \<open>The image of no entries: iteration and lower bounds find nothing.\<close>

lemma to_le_4:
  "to_le 4 (0 :: u32) = [0, 0, 0, 0]" "to_le 4 (1 :: u32) = [1, 0, 0, 0]"
  by code_simp+

lemma decode_varint32_zero: "decode_varint32 (0 # bs) = Inr (0, 1)"
  by (simp add: decode_varint32_def decode_varint_def MAX_VARINT32_LEN_def eval_nat_numeral)

lemma block_empty_view:
  assumes v: "block_view b []"
  shows "block_lower_bound_kv b kcmp target = Inr None" and "block_lower_bound b kcmp target = Inr None"
    and "block_iter b = []"
proof -
  have one: "restarts_of 0 = 1" by (simp add: restarts_of_def RESTART_INTERVAL_def)
  have num: "bk_num_restarts b = 1" and off: "bk_restarts_offset b = 0"
    using v by (simp_all add: block_view_def one)
  have "bk_data b = block_image []" using v by (simp add: block_view_def)
  also have "\<dots> = [0, 0, 0, 0, 1, 0, 0, 0]"
    unfolding block_image_def restart_list_def list.size one by (simp add: entries_upto_def to_le_4 del: to_le.simps)
  finally have data: "bk_data b = [0, 0, 0, 0, 1, 0, 0, 0]" .
  have ro: "restart_offset b 0 = Inr 0"
    using restart_offset_view [OF v, of 0] by simp
  have "entry_at b 0 = Inr ([], [], 3)"
    by (simp add: entry_at_def data get_from_def decode_varint32_zero checked_add_def usize_max_def get_range_def)
  then have rk: "restarting_key_at b 0 = Inr (Some [])"
    by (simp add: restarting_key_at_def ro)
  have pe: "parse_entry b 0 lk = None" for lk
    by (simp add: parse_entry_def data get_from_def decode_varint32_zero checked_add_def usize_max_def get_range_def off)
  have scan: "lb_scan b kcmp target 0 lk = None" for lk
    by (subst lb_scan.simps) (simp add: pe)
  have "\<exists>r. lb_search b kcmp target 0 1 = Inr (Some r) \<and> r \<le> 1"
  proof -
    have end_loop: "lb_search b kcmp target 1 1 = Inr (Some 1)" "lb_search b kcmp target 0 0 = Inr (Some 0)"
      by (subst lb_search.simps, simp)+
    show ?thesis
      by (subst lb_search.simps) (simp add: rk end_loop [simplified] split: ordering.split)
  qed
  then have e: "lb_entry b kcmp target = Inr None"
    by (auto simp: lb_entry_def num ro rk scan)
  show "block_lower_bound_kv b kcmp target = Inr None" "block_lower_bound b kcmp target = Inr None"
    by (simp_all add: block_lower_bound_kv_def block_lower_bound_def e)
  show "block_iter b = []" using block_iter_view [OF v] .
qed

section \<open>Properties\<close>

text \<open>A client that adds a list of entries to a fresh builder, and the bytes it finishes with.\<close>

definition build_block :: "(bytes \<times> bytes) list \<Rightarrow> bytes res" where
  "build_block kvs =
     bind_res (foldl (\<lambda>r (k, v). bind_res r (\<lambda>b. block_add b k v)) (Inr block_builder_new) kvs)
       (\<lambda>b. Inr (block_finish b))"

lemma build_block_image: "build_block kvs = Inr (block_image kvs)"
proof -
  have "\<exists>b. foldl (\<lambda>r (k, v). bind_res r (\<lambda>b. block_add b k v)) (Inr block_builder_new) kvs = Inr b \<and> bb_rep b kvs"
  proof (induction kvs rule: rev_induct)
    case Nil
    show ?case by (simp add: bb_rep_new)
  next
    case (snoc kv kvs)
    then show ?case using bb_rep_add by (cases kv) fastforce
  qed
  then show ?thesis by (auto simp: build_block_def bb_rep_finish)
qed

lemma build_block_view:
  "block_fits kvs \<Longrightarrow> \<exists>b. bind_res (build_block kvs) block_new = Inr b \<and> block_view b kvs"
  by (simp add: build_block_image block_new_image)

text \<open>C27: Building a block from entries and iterating over the parsed bytes gives back the entries, in order, with
  their full keys rebuilt from the compressed prefixes, when the block stays below 4 GiB (\<open>block_fits\<close>).\<close>

theorem block_roundtrip:
  assumes "block_fits kvs"
  shows "\<exists>b. bind_res (build_block kvs) block_new = Inr b \<and> block_iter b = kvs"
  using build_block_view [OF assms] block_iter_view by blast

theorem block_roundtrip_witness:
  "\<exists>b. bind_res (build_block [([1, 2], [9]), ([1, 3], [])]) block_new = Inr b \<and>
     block_iter b = [([1, 2], [9]), ([1, 3], [])]"
  by (rule block_roundtrip) (simp add: block_fitsI)

text \<open>C26: In a block of entries that ascend under the comparison closure, the two lower-bound searches return
  the first entry whose key is not below the target, and \<open>get\<close> the entry whose key equals it, for every
  target and every closure that is a total preorder. The block is not empty and stays below 4 GiB (\<open>block_fits\<close>).\<close>

theorem block_search_correct:
  assumes "key_comparator kcmp" and "block_fits kvs" and "kvs \<noteq> []"
    and "sorted_wrt (\<lambda>a b. kcmp (fst a) (fst b) = Less) kvs"
  shows "\<exists>b. bind_res (build_block kvs) block_new = Inr b \<and>
    block_lower_bound_kv b kcmp target = Inr (find (\<lambda>kv. kcmp target (fst kv) \<noteq> Greater) kvs) \<and>
    block_lower_bound b kcmp target = Inr (map_option snd (find (\<lambda>kv. kcmp target (fst kv) \<noteq> Greater) kvs)) \<and>
    block_get b kcmp target = Inr (map_option snd (find (\<lambda>kv. kcmp target (fst kv) = Equal) kvs))"
proof -
  obtain b where b: "bind_res (build_block kvs) block_new = Inr b" "block_view b kvs"
    using build_block_view [OF assms(2)] by blast
  have asc: "key_comparator.ascending kcmp kvs"
    using assms(1,4) by (simp add: key_comparator.ascending_def)
  show ?thesis
    using b(1) key_comparator.block_lower_bound_kv_view [OF assms(1) b(2) assms(3) asc]
      key_comparator.block_lower_bound_view [OF assms(1) b(2) assms(3) asc]
      key_comparator.block_get_view [OF assms(1) b(2) assms(3) asc]
    by (simp add: key_comparator.get_result_def [OF assms(1)])
qed

theorem block_search_correct_witness:
  "\<exists>b. bind_res (build_block [([1, 2], [9]), ([1, 3], [])]) block_new = Inr b \<and>
     block_lower_bound_kv b byte_cmp [1, 2, 0] = Inr (Some ([1, 3], [])) \<and>
     block_lower_bound b byte_cmp [1, 2, 0] = Inr (Some []) \<and> block_get b byte_cmp [1, 2, 0] = Inr None"
  using block_search_correct [OF byte_order.key_comparator_axioms, of "[([1, 2], [9]), ([1, 3], [])]" "[1, 2, 0]"]
  by (simp add: block_fitsI byte_cmp_def cmp_def)

text \<open>A block whose stored restart count is zero is accepted by the parser, and the lower-bound searches on it
  panic instead of reporting nothing.\<close>

lemma block_no_restarts_panics:
  "\<exists>b. block_new [0, 0, 0, 0] = Inr b \<and>
     block_lower_bound b kcmp target = Inl (Panicked ''attempt to subtract with overflow'')"
  by (simp add: block_new_def block_lower_bound_def lb_entry_def lb_search.simps)

end
