(* ===== verification/Table.thy ===== *)
theory Table
  imports Block Bloom
begin

text \<open>
  \<^verbatim>\<open>src/src/sstable/table.rs\<close>: the sorted-string tables. The builder cuts the ascending entries into
  data blocks, keeps one index entry per block and a Bloom filter over the user keys, and ends the
  file with filter, metaindex, index and footer; the reader finds the version of a user key that a
  snapshot sees, the iterator lists all entries. A file is the list of its bytes.
\<close>

section \<open>Block handles\<close>

definition DATA_BLOCK_TARGET :: nat where "DATA_BLOCK_TARGET = 4 * 1024"
definition FOOTER_LEN :: nat where "FOOTER_LEN = 48"
definition MAGIC :: u64 where "MAGIC = 0xdb4775248b80fb57"

record block_handle =
  bh_offset :: u64
  bh_size :: u64

definition handle_encode :: "block_handle \<Rightarrow> bytes \<Rightarrow> bytes" where
  "handle_encode h buf =
     (let buf = fst (encode_varint64 buf (bh_offset h)) in fst (encode_varint64 buf (bh_size h)))"

definition handle_decode :: "bytes \<Rightarrow> (block_handle \<times> nat) res" where
  "handle_decode buf =
     bind_res (decode_varint64 buf) (\<lambda>(offset, n1).
     bind_res (slice_from buf n1) (\<lambda>rest.
     bind_res (decode_varint64 rest) (\<lambda>(size, n2).
     Inr (\<lparr>bh_offset = offset, bh_size = size\<rparr>, n1 + n2))))"

section \<open>The builder\<close>

record table_builder =
  tb_file :: bytes
  tb_data_block :: block_builder
  tb_index_block :: block_builder
  tb_file_offset :: u64
  tb_last_key :: bytes
  tb_pending_index_key :: "bytes option"
  tb_pending_handle :: "block_handle option"
  tb_num_entries :: u64
  tb_finished :: bool
  tb_block_target :: nat
  tb_bloom :: bloom_filter

text \<open>\<open>b"filter.mulan.BloomFilter"\<close>.\<close>

definition FILTER_META_KEY :: bytes where
  "FILTER_META_KEY = [102, 105, 108, 116, 101, 114, 46, 109, 117, 108, 97, 110, 46,
     66, 108, 111, 111, 109, 70, 105, 108, 116, 101, 114]"

text \<open>The file handed in is empty: the callers have just created it.\<close>

definition table_with_options :: "nat \<Rightarrow> nat \<Rightarrow> table_builder" where
  "table_with_options block_target bits_per_key =
     (let estimated_keys = max (50 * block_target div 32) 1000;
          bloom = ensure_capacity (bloom_new bits_per_key) estimated_keys bits_per_key
      in \<lparr>tb_file = [], tb_data_block = block_builder_new, tb_index_block = block_builder_new,
          tb_file_offset = 0, tb_last_key = [], tb_pending_index_key = None, tb_pending_handle = None,
          tb_num_entries = 0, tb_finished = False, tb_block_target = block_target, tb_bloom = bloom\<rparr>)"

definition table_with_block_target :: "nat \<Rightarrow> table_builder" where
  "table_with_block_target target = table_with_options target 10"

definition table_builder_new :: table_builder where
  "table_builder_new = table_with_options DATA_BLOCK_TARGET 10"

definition write_raw :: "table_builder \<Rightarrow> bytes \<Rightarrow> block_handle \<times> table_builder" where
  "write_raw tb bs =
     (let handle = \<lparr>bh_offset = tb_file_offset tb, bh_size = of_nat (length bs)\<rparr>
      in (handle, tb\<lparr>tb_file := tb_file tb @ bs, tb_file_offset := tb_file_offset tb + of_nat (length bs)\<rparr>))"

definition flush_data_block :: "table_builder \<Rightarrow> table_builder" where
  "flush_data_block tb =
     (if block_is_empty (tb_data_block tb) then tb
      else
        let bs = block_finish (tb_data_block tb);
            tb = tb\<lparr>tb_data_block := block_builder_new\<rparr>;
            (handle, tb) = write_raw tb bs
        in tb\<lparr>tb_pending_index_key := Some (tb_last_key tb), tb_pending_handle := Some handle\<rparr>)"

text \<open>The pending index entry, moved into the index block at the start of \<open>add\<close> and in \<open>finish\<close>.\<close>

definition take_pending :: "table_builder \<Rightarrow> table_builder res" where
  "take_pending tb =
     (case tb_pending_index_key tb of
        None \<Rightarrow> Inr tb
      | Some key \<Rightarrow>
          let tb = tb\<lparr>tb_pending_index_key := None\<rparr> in
          (case tb_pending_handle tb of
             None \<Rightarrow> Inr tb
           | Some handle \<Rightarrow>
               let tb = tb\<lparr>tb_pending_handle := None\<rparr>; handle_buf = handle_encode handle [] in
               bind_res (block_add (tb_index_block tb) key handle_buf)
                 (\<lambda>ib. Inr (tb\<lparr>tb_index_block := ib\<rparr>))))"

definition table_add :: "table_builder \<Rightarrow> bytes \<Rightarrow> bytes \<Rightarrow> bytes \<Rightarrow> table_builder res" where
  "table_add tb uk ik v =
     (if tb_finished tb then Inl (Panicked ''TableBuilder already finished'')
      else
        bind_res (take_pending tb) (\<lambda>tb.
        bind_res (block_add (tb_data_block tb) ik v) (\<lambda>db.
          let tb = tb\<lparr>tb_data_block := db, tb_last_key := ik,
                       tb_bloom := bloom_insert (tb_bloom tb) uk,
                       tb_num_entries := tb_num_entries tb + 1\<rparr>
          in Inr (if tb_block_target tb \<le> block_size_estimate (tb_data_block tb)
                  then flush_data_block tb else tb))))"

text \<open>\<open>Vec::resize(n, 0)\<close>.\<close>

definition resize_zero :: "nat \<Rightarrow> bytes \<Rightarrow> bytes" where
  "resize_zero n bs = take n bs @ replicate (n - length bs) 0"

definition table_finish :: "table_builder \<Rightarrow> bytes res" where
  "table_finish tb =
     (if tb_finished tb then Inl (Corrupted ''TableBuilder already finished'')
      else
        let tb = tb\<lparr>tb_finished := True\<rparr>;
            tb = (if \<not> block_is_empty (tb_data_block tb) then flush_data_block tb else tb)
        in bind_res (take_pending tb) (\<lambda>tb.
          let bloom_bytes = bloom_finish (tb_bloom tb);
              (filter_handle, tb) = write_raw tb bloom_bytes;
              meta_value = handle_encode filter_handle []
          in bind_res (block_add block_builder_new FILTER_META_KEY meta_value) (\<lambda>metaindex_builder.
            let (metaindex_handle, tb) = write_raw tb (block_finish metaindex_builder);
                index_bytes = block_finish (tb_index_block tb);
                (index_handle, tb) = write_raw tb index_bytes;
                footer = handle_encode metaindex_handle [];
                footer = handle_encode index_handle footer;
                footer = resize_zero (FOOTER_LEN - 8) footer;
                footer = footer @ to_le 8 MAGIC
            in if length footer \<noteq> FOOTER_LEN then Inl (Panicked ''footer length'')
               else Inr (tb_file tb @ footer))))"

definition table_size_estimate :: "table_builder \<Rightarrow> u64" where
  "table_size_estimate tb = tb_file_offset tb + of_nat (block_size_estimate (tb_data_block tb))"

section \<open>The reader\<close>

record table_reader =
  tr_data :: bytes
  tr_index_handle :: block_handle
  tr_bloom :: "bloom_filter option"

text \<open>
  The closure in \<open>open\<close> that reads the filter: its \<open>?\<close> yields \<open>None\<close>, a failed addition panics.
\<close>

definition read_filter :: "bytes \<Rightarrow> block_handle \<Rightarrow> bloom_filter option res" where
  "read_filter data metaindex_handle =
     (let meta_start = unat (bh_offset metaindex_handle) in
      bind_res (usize_add meta_start (unat (bh_size metaindex_handle))) (\<lambda>meta_end.
      case Option.bind (get_range data meta_start meta_end) (\<lambda>bs. ok_opt (block_new bs)) of
        None \<Rightarrow> Inr None
      | Some meta_block \<Rightarrow>
          bind_res (block_get meta_block byte_cmp FILTER_META_KEY) (\<lambda>found.
          case Option.bind found (\<lambda>bs. ok_opt (handle_decode bs)) of
            None \<Rightarrow> Inr None
          | Some (filter_handle, _) \<Rightarrow>
              let fb_start = unat (bh_offset filter_handle) in
              bind_res (usize_add fb_start (unat (bh_size filter_handle))) (\<lambda>fb_end.
                Inr (Option.bind (get_range data fb_start fb_end) bloom_from_bytes)))))"

definition table_open :: "bytes \<Rightarrow> table_reader res" where
  "table_open data =
     (if length data < FOOTER_LEN then Inl (Corrupted ''file too short for footer'')
      else
        let footer = drop (length data - FOOTER_LEN) data;
            magic = from_le (drop (FOOTER_LEN - 8) footer) :: u64
        in if magic \<noteq> MAGIC then Inl (Corrupted ''bad magic'')
           else
             bind_res (handle_decode footer) (\<lambda>(metaindex_handle, n1).
             bind_res (slice_from footer n1) (\<lambda>rest.
             bind_res (handle_decode rest) (\<lambda>(index_handle, _).
             bind_res (read_filter data metaindex_handle) (\<lambda>bloom.
             Inr \<lparr>tr_data = data, tr_index_handle = index_handle, tr_bloom = bloom\<rparr>)))))"

definition block_bytes :: "table_reader \<Rightarrow> block_handle \<Rightarrow> bytes res" where
  "block_bytes tr handle =
     (let start = unat (bh_offset handle) in
      bind_res (usize_add start (unat (bh_size handle))) (\<lambda>stop.
        if length (tr_data tr) < stop then Inl (Corrupted ''block handle out of bounds'')
        else slice_range (tr_data tr) start stop))"

definition table_get_entry :: "table_reader \<Rightarrow> bytes \<Rightarrow> u64 \<Rightarrow> (value_type \<times> bytes) option res" where
  "table_get_entry tr uk snapshot_seq =
     (if (case tr_bloom tr of Some bloom \<Rightarrow> \<not> may_contain bloom uk | None \<Rightarrow> False) then Inr None
      else
        let lookup = lookup_key uk snapshot_seq in
        bind_res (block_bytes tr (tr_index_handle tr)) (\<lambda>index_bytes.
        bind_res (block_new index_bytes) (\<lambda>index_block.
        bind_res (block_lower_bound index_block internal_key_cmp lookup) (\<lambda>found.
        case found of
          None \<Rightarrow> Inr None
        | Some data_handle_bytes \<Rightarrow>
            bind_res (handle_decode data_handle_bytes) (\<lambda>(data_handle, _).
            bind_res (block_bytes tr data_handle) (\<lambda>data_block_bytes.
            bind_res (block_new data_block_bytes) (\<lambda>data_block.
            bind_res (block_lower_bound_kv data_block internal_key_cmp lookup) (\<lambda>found.
            case found of
              None \<Rightarrow> Inr None
            | Some (found_key, v) \<Rightarrow>
                if user_key_of_internal_key found_key = uk then
                  bind_res (ok_or (vtype_of_internal_key found_key) (Corrupted ''invalid vtype in sstable''))
                    (\<lambda>t. Inr (Some (t, v)))
                else Inr None))))))))"

definition table_get :: "table_reader \<Rightarrow> bytes \<Rightarrow> bytes option res" where
  "table_get tr uk =
     bind_res (table_get_entry tr uk MAX_SEQUENCE) (\<lambda>r.
       case r of
         Some (Put, v) \<Rightarrow> Inr (Some v)
       | _ \<Rightarrow> Inr None)"

section \<open>The iterator\<close>

record table_iter =
  ti_data :: bytes
  ti_handles :: "block_handle list"
  ti_handle_idx :: nat
  ti_current :: "(bytes \<times> bytes) list"
  ti_current_pos :: nat

primrec decode_handles :: "(bytes \<times> bytes) list \<Rightarrow> block_handle list \<Rightarrow> block_handle list res" where
  "decode_handles [] handles = Inr handles"
| "decode_handles (kv # kvs) handles =
     bind_res (handle_decode (snd kv)) (\<lambda>(h, _). decode_handles kvs (handles @ [h]))"

definition parse_data_handles :: "bytes \<Rightarrow> block_handle \<Rightarrow> block_handle list res" where
  "parse_data_handles data index_handle =
     (let start = unat (bh_offset index_handle) in
      bind_res (usize_add start (unat (bh_size index_handle))) (\<lambda>stop.
      bind_res (ok_or (get_range data start stop) (Corrupted ''index handle out of bounds'')) (\<lambda>index_bytes.
      bind_res (block_new index_bytes) (\<lambda>index_block.
      decode_handles (block_iter index_block) []))))"

definition table_iter_new :: "bytes \<Rightarrow> block_handle \<Rightarrow> table_iter res" where
  "table_iter_new data index_handle =
     bind_res (parse_data_handles data index_handle) (\<lambda>handles.
       Inr \<lparr>ti_data = data, ti_handles = handles, ti_handle_idx = 0, ti_current = [], ti_current_pos = 0\<rparr>)"

definition into_table_iter :: "table_reader \<Rightarrow> table_iter res" where
  "into_table_iter tr = table_iter_new (tr_data tr) (tr_index_handle tr)"

text \<open>A damaged block is skipped; the result says whether a block was loaded.\<close>

function advance_to_next_block :: "table_iter \<Rightarrow> (bool \<times> table_iter) res" where
  "advance_to_next_block ti =
     (if ti_handle_idx ti < length (ti_handles ti) then
        let handle = ti_handles ti ! ti_handle_idx ti;
            ti' = ti\<lparr>ti_handle_idx := ti_handle_idx ti + 1\<rparr>;
            start = unat (bh_offset handle)
        in bind_res (usize_add start (unat (bh_size handle))) (\<lambda>stop.
           case Option.bind (get_range (ti_data ti) start stop) (\<lambda>bs. ok_opt (block_new bs)) of
             Some block \<Rightarrow> Inr (True, ti'\<lparr>ti_current := block_iter block, ti_current_pos := 0\<rparr>)
           | None \<Rightarrow> advance_to_next_block ti')
      else Inr (False, ti\<lparr>ti_current := []\<rparr>))"
  by pat_completeness auto
termination
  by (relation "measure (\<lambda>ti. length (ti_handles ti) - ti_handle_idx ti)") auto

declare advance_to_next_block.simps [simp del]

lemma advance_progress:
  "advance_to_next_block ti = Inr (True, ti') \<Longrightarrow>
   ti_handles ti' = ti_handles ti \<and> ti_handle_idx ti < ti_handle_idx ti' \<and> ti_handle_idx ti' \<le> length (ti_handles ti)"
proof (induction ti rule: advance_to_next_block.induct)
  case (1 ti)
  let ?h = "ti_handles ti ! ti_handle_idx ti" and ?t = "ti\<lparr>ti_handle_idx := ti_handle_idx ti + 1\<rparr>"
  from 1(2) have less: "ti_handle_idx ti < length (ti_handles ti)"
    by (subst (asm) advance_to_next_block.simps) (simp split: if_splits)
  with 1(2) obtain stop where stop: "usize_add (unat (bh_offset ?h)) (unat (bh_size ?h)) = Inr stop"
    by (subst (asm) advance_to_next_block.simps) (auto simp: Let_def bind_res_eq_Inr)
  let ?o = "Option.bind (get_range (ti_data ti) (unat (bh_offset ?h)) stop) (\<lambda>bs. ok_opt (block_new bs))"
  show ?case
  proof (cases ?o)
    case None
    then have "advance_to_next_block ?t = Inr (True, ti')"
      using 1(2) less stop by (subst (asm) advance_to_next_block.simps) (simp add: Let_def)
    with 1(1) [OF less refl refl refl stop None] less show ?thesis by simp
  next
    case (Some block)
    then have "ti' = ?t\<lparr>ti_current := block_iter block, ti_current_pos := 0\<rparr>"
      using 1(2) less stop by (subst (asm) advance_to_next_block.simps) (simp add: Let_def)
    then show ?thesis using less by simp
  qed
qed

function next_entry :: "table_iter \<Rightarrow> ((bytes \<times> bytes) option \<times> table_iter) res" where
  "next_entry ti =
     (if ti_current_pos ti < length (ti_current ti)
      then Inr (Some (ti_current ti ! ti_current_pos ti), ti\<lparr>ti_current_pos := ti_current_pos ti + 1\<rparr>)
      else bind_res (advance_to_next_block ti) (\<lambda>(more, ti').
             if \<not> more then Inr (None, ti') else next_entry ti'))"
  by pat_completeness auto
termination
  by (relation "measure (\<lambda>ti. length (ti_handles ti) - ti_handle_idx ti)")
     (auto dest!: advance_progress)

declare next_entry.simps [simp del]

definition ti_peek :: "table_iter \<Rightarrow> (bytes \<times> bytes) option" where
  "ti_peek ti = (if ti_current_pos ti < length (ti_current ti) then Some (ti_current ti ! ti_current_pos ti) else None)"

lemma next_entry_progress:
  "next_entry ti = Inr (Some kv, ti') \<Longrightarrow>
   (length (ti_handles ti') - ti_handle_idx ti', length (ti_current ti') - ti_current_pos ti')
     \<in> {(a, b). a < length (ti_handles ti) - ti_handle_idx ti} \<union>
       {(a, b). a = length (ti_handles ti) - ti_handle_idx ti \<and> b < length (ti_current ti) - ti_current_pos ti}"
proof (induction ti rule: next_entry.induct)
  case (1 ti)
  show ?case
  proof (cases "ti_current_pos ti < length (ti_current ti)")
    case True
    then show ?thesis using 1(2) by (subst (asm) next_entry.simps) auto
  next
    case False
    then obtain t where t: "advance_to_next_block ti = Inr (True, t)" "next_entry t = Inr (Some kv, ti')"
      using 1(2) by (subst (asm) next_entry.simps) (auto simp: bind_res_eq_Inr split: if_splits)
    from 1(1) [OF False t(1) refl] t(2) advance_progress [OF t(1)] show ?thesis by auto
  qed
qed

text \<open>Running the iterator to its end.\<close>

function ti_collect :: "table_iter \<Rightarrow> (bytes \<times> bytes) list res" where
  "ti_collect ti =
     bind_res (next_entry ti) (\<lambda>(item, ti').
       case item of None \<Rightarrow> Inr [] | Some kv \<Rightarrow> bind_res (ti_collect ti') (\<lambda>rest. Inr (kv # rest)))"
  by pat_completeness auto
termination
  by (relation "measures [\<lambda>ti. length (ti_handles ti) - ti_handle_idx ti,
        \<lambda>ti. length (ti_current ti) - ti_current_pos ti]")
     (auto dest!: next_entry_progress)

declare ti_collect.simps [simp del]

section \<open>The layout of a table\<close>

definition handle_bytes :: "block_handle \<Rightarrow> bytes" where
  "handle_bytes h = varint_bytes (bh_offset h) @ varint_bytes (bh_size h)"

lemma handle_encode_bytes [simp]: "handle_encode h buf = buf @ handle_bytes h"
  by (simp add: handle_encode_def handle_bytes_def Let_def)

lemma handle_decode_bytes [codec]:
  "handle_decode (handle_bytes h @ rest) = Inr (h, length (handle_bytes h))"
proof -
  have "slice_from (varint_bytes (bh_offset h) @ varint_bytes (bh_size h) @ rest) (length (varint_bytes (bh_offset h)))
      = Inr (varint_bytes (bh_size h) @ rest)"
    by (simp add: slice_from_def)
  then show ?thesis
    by (simp add: handle_decode_def handle_bytes_def decode_varint64_bytes)
qed

lemma length_handle_bytes [codec_len]: "length (handle_bytes h) \<le> 20"
  using length_varint64_bytes [of "bh_offset h"] length_varint64_bytes [of "bh_size h"]
  by (simp add: handle_bytes_def)

text \<open>The data blocks, given as the lists of their entries, and the index over them.\<close>

definition image_of :: "(bytes \<times> bytes) list list \<Rightarrow> bytes" where
  "image_of B = concat (map block_image B)"

definition handle_of :: "(bytes \<times> bytes) list list \<Rightarrow> nat \<Rightarrow> block_handle" where
  "handle_of B i =
     \<lparr>bh_offset = of_nat (length (image_of (take i B))), bh_size = of_nat (length (block_image (B ! i)))\<rparr>"

definition index_entry :: "(bytes \<times> bytes) list list \<Rightarrow> nat \<Rightarrow> bytes \<times> bytes" where
  "index_entry B i = (fst (last (B ! i)), handle_bytes (handle_of B i))"

definition index_kvs :: "(bytes \<times> bytes) list list \<Rightarrow> (bytes \<times> bytes) list" where
  "index_kvs B = map (index_entry B) [0..<length B]"

lemma handle_of_append [simp]: "i < length B \<Longrightarrow> handle_of (B @ [b]) i = handle_of B i"
  by (simp add: handle_of_def nth_append)

lemma index_kvs_snoc:
  "index_kvs (B @ [b]) = index_kvs B @ [(fst (last b), handle_bytes (handle_of (B @ [b]) (length B)))]"
  by (simp add: index_kvs_def index_entry_def nth_append)

lemma image_of_snoc [simp]: "image_of (B @ [b]) = image_of B @ block_image b"
  by (simp add: image_of_def)

lemma index_kvs_simps [simp]: "index_kvs [] = []" "length (index_kvs B) = length B" "image_of [] = []"
  by (simp_all add: index_kvs_def image_of_def)

text \<open>
  A builder that has cut the blocks \<open>B\<close> and holds \<open>cur\<close> in its open block. The index entry of the
  last cut block may still be pending.
\<close>

definition pending_rep :: "table_builder \<Rightarrow> (bytes \<times> bytes) list list \<Rightarrow> bool" where
  "pending_rep tb B \<longleftrightarrow>
     (case tb_pending_index_key tb of
        None \<Rightarrow> tb_pending_handle tb = None \<and> bb_rep (tb_index_block tb) (index_kvs B)
      | Some key \<Rightarrow> \<exists>B' b. B = B' @ [b] \<and> key = fst (last b) \<and>
          tb_pending_handle tb = Some (handle_of B (length B')) \<and> bb_rep (tb_index_block tb) (index_kvs B'))"

definition tb_rep :: "table_builder \<Rightarrow> (bytes \<times> bytes) list list \<Rightarrow> (bytes \<times> bytes) list \<Rightarrow> bool" where
  "tb_rep tb B cur \<longleftrightarrow>
     \<not> tb_finished tb \<and> [] \<notin> set B \<and> tb_file tb = image_of B \<and>
     tb_file_offset tb = of_nat (length (image_of B)) \<and> bb_rep (tb_data_block tb) cur \<and>
     tb_last_key tb = last_key_of (concat B @ cur) \<and>
     tb_num_entries tb = of_nat (length (concat B @ cur)) \<and> pending_rep tb B \<and>
     (cur \<noteq> [] \<longrightarrow> tb_pending_index_key tb = None)"

lemma tb_rep_new: "tb_rep (table_with_options target bits_per_key) [] []"
  by (simp add: tb_rep_def pending_rep_def table_with_options_def Let_def bb_rep_new last_key_of_def)

lemma block_is_empty_rep:
  assumes "bb_rep b kvs"
  shows "block_is_empty b \<longleftrightarrow> kvs = []"
proof -
  have "length (bb_buf b) = offset_of kvs (length kvs)" using assms by (simp add: bb_rep_def offset_of_def)
  then show ?thesis
    using offset_of_ge [of "length kvs" kvs] by (cases "kvs = []") (auto simp: block_is_empty_def)
qed

lemma take_pending_rep:
  assumes "tb_rep tb B cur"
  shows "\<exists>tb'. take_pending tb = Inr tb' \<and> tb_rep tb' B cur \<and> tb_pending_index_key tb' = None \<and>
    tb_bloom tb' = tb_bloom tb \<and> tb_block_target tb' = tb_block_target tb"
proof (cases "tb_pending_index_key tb")
  case None
  then show ?thesis using assms by (intro exI [of _ tb]) (simp add: take_pending_def)
next
  case (Some key)
  then obtain B' b where B: "B = B' @ [b]" "key = fst (last b)"
    "tb_pending_handle tb = Some (handle_of B (length B'))" "bb_rep (tb_index_block tb) (index_kvs B')"
    using assms by (auto simp: tb_rep_def pending_rep_def)
  obtain ib where ib: "block_add (tb_index_block tb) key (handle_bytes (handle_of B (length B'))) = Inr ib"
    "bb_rep ib (index_kvs B' @ [(key, handle_bytes (handle_of B (length B')))])"
    using bb_rep_add [OF B(4)] by blast
  then have "bb_rep ib (index_kvs B)" using B(1,2) by (simp add: index_kvs_snoc)
  then show ?thesis
    using assms Some B(3) ib(1)
    by (auto simp: take_pending_def Let_def tb_rep_def pending_rep_def)
qed

lemma flush_data_block_rep:
  assumes "tb_rep tb B cur" and "cur \<noteq> []" and "tb_pending_index_key tb = None"
  shows "tb_rep (flush_data_block tb) (B @ [cur]) [] \<and> tb_bloom (flush_data_block tb) = tb_bloom tb \<and>
    tb_block_target (flush_data_block tb) = tb_block_target tb"
proof -
  have ne: "\<not> block_is_empty (tb_data_block tb)"
    using assms block_is_empty_rep [of "tb_data_block tb" cur] by (simp add: tb_rep_def)
  have img: "block_finish (tb_data_block tb) = block_image cur"
    using assms by (simp add: tb_rep_def bb_rep_finish)
  have "handle_of (B @ [cur]) (length B) =
      \<lparr>bh_offset = of_nat (length (image_of B)), bh_size = of_nat (length (block_image cur))\<rparr>"
    by (simp add: handle_of_def)
  then show ?thesis
    using assms ne
    by (simp add: flush_data_block_def write_raw_def Let_def img tb_rep_def pending_rep_def bb_rep_new
        last_key_of_def)
qed

lemma table_add_rep:
  assumes "tb_rep tb B cur"
  shows "\<exists>tb' B' cur'. table_add tb uk k v = Inr tb' \<and> tb_rep tb' B' cur' \<and>
    concat B' @ cur' = concat B @ cur @ [(k, v)] \<and> tb_bloom tb' = bloom_insert (tb_bloom tb) uk"
proof -
  obtain t where t: "take_pending tb = Inr t" "tb_rep t B cur" "tb_pending_index_key t = None"
    "tb_bloom t = tb_bloom tb"
    using take_pending_rep [OF assms] by blast
  obtain db where db: "block_add (tb_data_block t) k v = Inr db" "bb_rep db (cur @ [(k, v)])"
    using bb_rep_add [of "tb_data_block t" cur] t(2) by (auto simp: tb_rep_def)
  let ?t = "t\<lparr>tb_data_block := db, tb_last_key := k, tb_bloom := bloom_insert (tb_bloom t) uk,
      tb_num_entries := tb_num_entries t + 1\<rparr>"
  have rep: "tb_rep ?t B (cur @ [(k, v)])" "tb_pending_index_key ?t = None"
    using t(2,3) db(2) by (simp_all add: tb_rep_def pending_rep_def last_key_of_def add.commute)
  have add: "table_add tb uk k v = Inr (if tb_block_target ?t \<le> block_size_estimate db then flush_data_block ?t else ?t)"
    using assms t(1) db(1) by (simp add: table_add_def tb_rep_def Let_def)
  show ?thesis
  proof (cases "tb_block_target ?t \<le> block_size_estimate db")
    case True
    then show ?thesis
      using add flush_data_block_rep [OF rep(1) _ rep(2)] t(4)
      by (intro exI [of _ "flush_data_block ?t"] exI [of _ "B @ [cur @ [(k, v)]]"] exI [of _ "[]"]) simp
  next
    case False
    then show ?thesis
      using add rep(1) t(4) by (intro exI [of _ ?t] exI [of _ B] exI [of _ "cur @ [(k, v)]"]) simp
  qed
qed


section \<open>The bytes of a finished table\<close>

definition filter_handle_of :: "(bytes \<times> bytes) list list \<Rightarrow> bloom_filter \<Rightarrow> block_handle" where
  "filter_handle_of B f =
     \<lparr>bh_offset = of_nat (length (image_of B)), bh_size = of_nat (length (bloom_finish f))\<rparr>"

definition meta_kvs :: "(bytes \<times> bytes) list list \<Rightarrow> bloom_filter \<Rightarrow> (bytes \<times> bytes) list" where
  "meta_kvs B f = [(FILTER_META_KEY, handle_bytes (filter_handle_of B f))]"

definition meta_handle_of :: "(bytes \<times> bytes) list list \<Rightarrow> bloom_filter \<Rightarrow> block_handle" where
  "meta_handle_of B f =
     \<lparr>bh_offset = of_nat (length (image_of B @ bloom_finish f)),
      bh_size = of_nat (length (block_image (meta_kvs B f)))\<rparr>"

definition index_handle_of :: "(bytes \<times> bytes) list list \<Rightarrow> bloom_filter \<Rightarrow> block_handle" where
  "index_handle_of B f =
     \<lparr>bh_offset = of_nat (length (image_of B @ bloom_finish f @ block_image (meta_kvs B f))),
      bh_size = of_nat (length (block_image (index_kvs B)))\<rparr>"

definition footer_of :: "(bytes \<times> bytes) list list \<Rightarrow> bloom_filter \<Rightarrow> bytes" where
  "footer_of B f =
     resize_zero (FOOTER_LEN - 8) (handle_bytes (meta_handle_of B f) @ handle_bytes (index_handle_of B f)) @
     to_le 8 MAGIC"

definition table_image :: "(bytes \<times> bytes) list list \<Rightarrow> bloom_filter \<Rightarrow> bytes" where
  "table_image B f =
     image_of B @ bloom_finish f @ block_image (meta_kvs B f) @ block_image (index_kvs B) @ footer_of B f"

lemma resize_zero_le: "length bs \<le> n \<Longrightarrow> resize_zero n bs = bs @ replicate (n - length bs) 0"
  by (simp add: resize_zero_def)

lemma length_two_handles: "length (handle_bytes g @ handle_bytes h) \<le> 40"
  using length_handle_bytes [of g] length_handle_bytes [of h] by simp

lemma footer_of_split:
  "footer_of B f = handle_bytes (meta_handle_of B f) @ handle_bytes (index_handle_of B f) @
     replicate (40 - length (handle_bytes (meta_handle_of B f) @ handle_bytes (index_handle_of B f))) 0 @ to_le 8 MAGIC"
  using length_two_handles [of "meta_handle_of B f" "index_handle_of B f"]
  by (simp add: footer_of_def FOOTER_LEN_def resize_zero_le)

lemma length_footer_of [simp]: "length (footer_of B f) = 48"
  using length_two_handles [of "meta_handle_of B f" "index_handle_of B f"]
  by (simp add: footer_of_def FOOTER_LEN_def resize_zero_le)

lemma bb_rep_single:
  "\<exists>b. block_add block_builder_new k v = Inr b \<and> bb_rep b [(k, v)]"
  using bb_rep_add [OF bb_rep_new, of k v] by simp

lemma table_finish_closed:
  assumes "tb_rep tb B []"
  shows "table_finish tb = Inr (table_image B (tb_bloom tb))"
proof -
  let ?tb = "tb\<lparr>tb_finished := True\<rparr>"
  have empty: "block_is_empty (tb_data_block tb)"
    using assms block_is_empty_rep [of "tb_data_block tb" "[]"] by (simp add: tb_rep_def)
  obtain t where t: "take_pending tb = Inr t" "tb_rep t B []" "tb_pending_index_key t = None"
    "tb_bloom t = tb_bloom tb"
    using take_pending_rep [OF assms] by blast
  have t': "take_pending ?tb = Inr (t\<lparr>tb_finished := True\<rparr>)"
    using t(1) by (auto simp: take_pending_def Let_def bind_res_eq_Inr split: option.splits)
  have ib: "block_finish (tb_index_block t) = block_image (index_kvs B)"
    using t(2,3) by (simp add: tb_rep_def pending_rep_def bb_rep_finish)
  obtain m where m: "block_add block_builder_new FILTER_META_KEY (handle_bytes (filter_handle_of B (tb_bloom tb))) = Inr m"
    "bb_rep m (meta_kvs B (tb_bloom tb))"
    using bb_rep_single by (auto simp: meta_kvs_def)
  have len: "length (resize_zero 40 (handle_bytes (meta_handle_of B f) @ handle_bytes (index_handle_of B f))) = 40" for f
    using length_two_handles [of "meta_handle_of B f" "index_handle_of B f"] by (simp add: resize_zero_le)
  have fin: "\<not> tb_finished tb" using assms by (simp add: tb_rep_def)
  have off: "tb_file_offset t = of_nat (length (image_of B))" "tb_file t = image_of B"
    using t(2) by (simp_all add: tb_rep_def)
  show ?thesis
    using fin empty t' t(4) m(1) ib len [of "tb_bloom tb"]
    by (simp add: table_finish_def Let_def write_raw_def off bb_rep_finish [OF m(2)] filter_handle_of_def
        meta_handle_of_def index_handle_of_def footer_of_def table_image_def FOOTER_LEN_def add.assoc)
qed

lemma table_finish_rep:
  assumes "tb_rep tb B cur"
  shows "\<exists>B'. table_finish tb = Inr (table_image B' (tb_bloom tb)) \<and> concat B' = concat B @ cur \<and> [] \<notin> set B'"
proof (cases "cur = []")
  case True
  then show ?thesis using assms table_finish_closed [of tb B] by (auto simp: tb_rep_def)
next
  case False
  let ?f = "flush_data_block tb"
  have ne: "\<not> block_is_empty (tb_data_block tb)"
    using False assms block_is_empty_rep [of "tb_data_block tb" cur] by (simp add: tb_rep_def)
  have rep: "tb_rep ?f (B @ [cur]) []" "tb_bloom ?f = tb_bloom tb"
    using flush_data_block_rep [of tb B cur] assms False by (auto simp: tb_rep_def)
  have "flush_data_block (tb\<lparr>tb_finished := True\<rparr>) = ?f\<lparr>tb_finished := True\<rparr>"
    using ne by (simp add: flush_data_block_def write_raw_def Let_def)
  moreover have "block_is_empty (tb_data_block ?f)"
    using rep(1) block_is_empty_rep [of "tb_data_block ?f" "[]"] by (simp add: tb_rep_def)
  moreover have "\<not> tb_finished tb" "\<not> tb_finished ?f" using assms rep(1) by (simp_all add: tb_rep_def)
  ultimately have "table_finish tb = table_finish ?f"
    using ne by (simp add: table_finish_def)
  then show ?thesis
    using table_finish_closed [OF rep(1)] rep(2) assms False
    by (intro exI [of _ "B @ [cur]"]) (auto simp: tb_rep_def)
qed

section \<open>Sizes\<close>

text \<open>
  A bound on the entries under which no length or offset of the table leaves its field: the blocks
  stay below 4 GiB, the filter below 512 MiB.
\<close>

definition entries_bound :: "(bytes \<times> bytes) list \<Rightarrow> nat" where
  "entries_bound kvs = (\<Sum>kv\<leftarrow>kvs. 64 + length (fst kv) + length (snd kv))"

lemma entries_bound_simps [simp]:
  "entries_bound [] = 0"
  "entries_bound (kv # kvs) = 64 + length (fst kv) + length (snd kv) + entries_bound kvs"
  "entries_bound (xs @ ys) = entries_bound xs + entries_bound ys"
  by (simp_all add: entries_bound_def)

definition table_fits :: "(bytes \<times> bytes) list list \<Rightarrow> bloom_filter \<Rightarrow> bool" where
  "table_fits B f \<longleftrightarrow> [] \<notin> set B \<and> entries_bound (concat B) < 2 ^ 32 \<and> length (bits f) < 2 ^ 29"

lemma entries_size_bound: "entries_size kvs + 49 * length kvs = entries_bound kvs"
  by (induction kvs) auto

lemma length_block_image_le: "length (block_image kvs) \<le> entries_size kvs + 4 * length kvs + 8"
  using offset_of_le_size [of "length kvs" kvs] restarts_of_le [of "length kvs"]
  by (simp add: length_block_image max_def split: if_splits)

lemma block_fits_member:
  assumes "table_fits B f" and "b \<in> set B"
  shows "block_fits b"
proof -
  have "entries_bound b \<le> entries_bound (concat B)"
    using assms(2) by (induction B) auto
  then show ?thesis
    using assms(1) entries_size_bound [of b] by (intro block_fitsI) (simp add: table_fits_def)
qed

lemma length_image_of_le: "[] \<notin> set B \<Longrightarrow> length (image_of B) \<le> entries_bound (concat B)"
proof (induction B)
  case (Cons b B)
  have "1 \<le> length b" using Cons.prems by (cases b) auto
  then show ?case
    using Cons length_block_image_le [of b] entries_size_bound [of b] by (simp add: image_of_def)
qed simp

lemma length_image_take_le: "[] \<notin> set B \<Longrightarrow> i < length B \<Longrightarrow>
   length (image_of (take i B)) + length (block_image (B ! i)) \<le> length (image_of B)"
proof (induction B arbitrary: i)
  case (Cons b B)
  then show ?case by (cases i) (auto simp: image_of_def)
qed simp

lemma entries_size_index_le: "[] \<notin> set B \<Longrightarrow> entries_size (index_kvs B) + 4 * length B \<le> entries_bound (concat B)"
proof (induction B rule: rev_induct)
  case (snoc b B)
  have "length (fst (last b)) + 64 \<le> entries_bound b"
    using snoc.prems by (cases b rule: rev_cases) auto
  then show ?case
    using snoc length_handle_bytes [of "handle_of (B @ [b]) (length B)"] by (simp add: index_kvs_snoc)
qed simp

lemma block_fits_index: "table_fits B f \<Longrightarrow> block_fits (index_kvs B)"
  using entries_size_index_le [of B] by (intro block_fitsI) (simp add: table_fits_def)

lemma entries_size_meta: "entries_size (meta_kvs B f) \<le> 59"
  using length_handle_bytes [of "filter_handle_of B f"] by (simp add: meta_kvs_def FILTER_META_KEY_def)

lemma block_fits_meta: "block_fits (meta_kvs B f)"
  using entries_size_meta [of B f] by (intro block_fitsI) simp

lemma length_table_image:
  assumes "table_fits B f"
  shows "length (table_image B f) < 2 ^ 35"
  using assms length_image_of_le [of B] length_block_image_le [of "meta_kvs B f"] entries_size_meta [of B f]
    length_block_image_le [of "index_kvs B"] entries_size_index_le [of B]
  by (simp add: table_fits_def table_image_def bloom_finish_def meta_kvs_def)

lemma unat_u64: "n < 2 ^ 35 \<Longrightarrow> unat (of_nat n :: u64) = n"
  by (simp add: unat_of_nat)

text \<open>A part of the file at a handle whose fields did not wrap.\<close>

lemma handle_range:
  assumes "data = pre @ part @ post" and "length data < 2 ^ 35"
    and "h = \<lparr>bh_offset = of_nat (length pre), bh_size = of_nat (length part)\<rparr>"
  shows "unat (bh_offset h) = length pre" and "unat (bh_size h) = length part"
    and "usize_add (length pre) (length part) = Inr (length pre + length part)"
    and "get_range data (length pre) (length pre + length part) = Some part"
    and "length pre + length part \<le> length data"
  using assms by (simp_all add: unat_u64 usize_add_def usize_max_def)

lemma block_bytes_part:
  assumes "tr_data tr = pre @ part @ post" and "length (tr_data tr) < 2 ^ 35"
    and "h = \<lparr>bh_offset = of_nat (length pre), bh_size = of_nat (length part)\<rparr>"
  shows "block_bytes tr h = Inr part"
  using handle_range [OF assms] by (simp add: block_bytes_def slice_range_def)

lemma table_image_parts:
  assumes "i < length B"
  shows "\<exists>post. table_image B f = image_of (take i B) @ block_image (B ! i) @ post"
proof -
  have "B = take i B @ B ! i # drop (Suc i) B" using assms by (simp add: id_take_nth_drop)
  then have "image_of B = image_of (take i B) @ block_image (B ! i) @ image_of (drop (Suc i) B)"
    by (metis (no_types) image_of_def concat.simps(2) concat_append list.simps(9) map_append)
  then show ?thesis by (simp add: table_image_def)
qed


section \<open>Opening\<close>

definition reader_of :: "(bytes \<times> bytes) list list \<Rightarrow> bloom_filter \<Rightarrow> table_reader" where
  "reader_of B f =
     \<lparr>tr_data = table_image B f, tr_index_handle = index_handle_of B f, tr_bloom = Some f\<rparr>"

lemma read_filter_image:
  assumes fits: "table_fits B f"
  shows "read_filter (table_image B f) (meta_handle_of B f) = Inr (Some f)"
proof -
  note len = length_table_image [OF fits]
  note m = handle_range [of "table_image B f" "image_of B @ bloom_finish f" "block_image (meta_kvs B f)"
      "block_image (index_kvs B) @ footer_of B f" "meta_handle_of B f"]
  note fl = handle_range [of "table_image B f" "image_of B" "bloom_finish f"
      "block_image (meta_kvs B f) @ block_image (index_kvs B) @ footer_of B f" "filter_handle_of B f"]
  obtain b where b: "block_new (block_image (meta_kvs B f)) = Inr b" "block_view b (meta_kvs B f)"
    using block_new_image [OF block_fits_meta] by blast
  have "byte_order.ascending (meta_kvs B f)"
    by (simp add: byte_order.ascending_def meta_kvs_def)
  then have get: "block_get b byte_cmp FILTER_META_KEY = Inr (Some (handle_bytes (filter_handle_of B f)))"
    using byte_order.block_get_view [OF b(2), of FILTER_META_KEY]
    by (simp add: meta_kvs_def byte_order.get_result_def byte_order.kcmp_refl)
  have dec: "handle_decode (handle_bytes (filter_handle_of B f)) =
      Inr (filter_handle_of B f, length (handle_bytes (filter_handle_of B f)))"
    using handle_decode_bytes [of "filter_handle_of B f" "[]"] by simp
  show ?thesis
    using m [OF _ len] fl [OF _ len] b(1) get dec
    by (simp add: read_filter_def table_image_def meta_handle_of_def filter_handle_of_def)
qed

lemma table_open_image:
  assumes fits: "table_fits B f"
  shows "table_open (table_image B f) = Inr (reader_of B f)"
proof -
  let ?d = "table_image B f" and ?m = "meta_handle_of B f" and ?i = "index_handle_of B f"
  have foot: "drop (length ?d - FOOTER_LEN) ?d = footer_of B f" "\<not> length ?d < FOOTER_LEN"
    by (simp_all add: table_image_def FOOTER_LEN_def)
  have magic: "from_le (drop (FOOTER_LEN - 8) (footer_of B f)) = MAGIC"
    using length_two_handles [of ?m ?i]
    by (simp add: footer_of_def FOOTER_LEN_def resize_zero_le)
  obtain rest where rest: "footer_of B f = handle_bytes ?m @ handle_bytes ?i @ rest"
    using footer_of_split by blast
  have "handle_decode (footer_of B f) = Inr (?m, length (handle_bytes ?m))"
    "slice_from (footer_of B f) (length (handle_bytes ?m)) = Inr (handle_bytes ?i @ rest)"
    "handle_decode (handle_bytes ?i @ rest) = Inr (?i, length (handle_bytes ?i))"
    by (simp_all add: rest handle_decode_bytes slice_from_def)
  then show ?thesis
    using foot magic read_filter_image [OF fits]
    by (simp add: table_open_def Let_def reader_of_def)
qed

section \<open>The table iterator lists all entries\<close>

lemma block_image_range:
  assumes fits: "table_fits B f" and i: "i < length B"
  shows "usize_add (unat (bh_offset (handle_of B i))) (unat (bh_size (handle_of B i))) =
      Inr (unat (bh_offset (handle_of B i)) + unat (bh_size (handle_of B i)))"
    and "get_range (table_image B f) (unat (bh_offset (handle_of B i)))
      (unat (bh_offset (handle_of B i)) + unat (bh_size (handle_of B i))) = Some (block_image (B ! i))"
    and "block_bytes (reader_of B f) (handle_of B i) = Inr (block_image (B ! i))"
proof -
  obtain post where post: "table_image B f = image_of (take i B) @ block_image (B ! i) @ post"
    using table_image_parts [OF i] by blast
  note h = handle_range [OF post length_table_image [OF fits] handle_of_def]
  show "usize_add (unat (bh_offset (handle_of B i))) (unat (bh_size (handle_of B i))) =
      Inr (unat (bh_offset (handle_of B i)) + unat (bh_size (handle_of B i)))"
    "get_range (table_image B f) (unat (bh_offset (handle_of B i)))
      (unat (bh_offset (handle_of B i)) + unat (bh_size (handle_of B i))) = Some (block_image (B ! i))"
    using h by simp_all
  show "block_bytes (reader_of B f) (handle_of B i) = Inr (block_image (B ! i))"
    by (rule block_bytes_part [OF _ _ handle_of_def])
       (use post length_table_image [OF fits] in \<open>simp_all add: reader_of_def\<close>)
qed

lemma index_block_range:
  assumes fits: "table_fits B f"
  shows "usize_add (unat (bh_offset (index_handle_of B f))) (unat (bh_size (index_handle_of B f))) =
      Inr (unat (bh_offset (index_handle_of B f)) + unat (bh_size (index_handle_of B f)))"
    and "get_range (table_image B f) (unat (bh_offset (index_handle_of B f)))
      (unat (bh_offset (index_handle_of B f)) + unat (bh_size (index_handle_of B f))) = Some (block_image (index_kvs B))"
    and "block_bytes (reader_of B f) (index_handle_of B f) = Inr (block_image (index_kvs B))"
proof -
  have post: "table_image B f = (image_of B @ bloom_finish f @ block_image (meta_kvs B f)) @
      block_image (index_kvs B) @ footer_of B f"
    by (simp add: table_image_def)
  note h = handle_range [OF post length_table_image [OF fits] index_handle_of_def]
  show "usize_add (unat (bh_offset (index_handle_of B f))) (unat (bh_size (index_handle_of B f))) =
      Inr (unat (bh_offset (index_handle_of B f)) + unat (bh_size (index_handle_of B f)))"
    "get_range (table_image B f) (unat (bh_offset (index_handle_of B f)))
      (unat (bh_offset (index_handle_of B f)) + unat (bh_size (index_handle_of B f))) = Some (block_image (index_kvs B))"
    using h by simp_all
  show "block_bytes (reader_of B f) (index_handle_of B f) = Inr (block_image (index_kvs B))"
    by (rule block_bytes_part [OF _ _ index_handle_of_def])
       (use post length_table_image [OF fits] in \<open>simp_all add: reader_of_def\<close>)
qed

lemma decode_handles_index:
  "n \<le> length B \<Longrightarrow> decode_handles (map (index_entry B) [n..<length B]) hs = Inr (hs @ map (handle_of B) [n..<length B])"
proof (induction "length B - n" arbitrary: n hs)
  case (Suc k)
  then have n: "n < length B" by simp
  have dec: "handle_decode (handle_bytes (handle_of B n)) = Inr (handle_of B n, length (handle_bytes (handle_of B n)))"
    using handle_decode_bytes [of "handle_of B n" "[]"] by simp
  show ?case
    using Suc n by (simp add: upt_conv_Cons dec index_entry_def)
qed simp

lemma into_table_iter_image:
  assumes fits: "table_fits B f"
  shows "into_table_iter (reader_of B f) = Inr \<lparr>ti_data = table_image B f,
    ti_handles = map (handle_of B) [0..<length B], ti_handle_idx = 0, ti_current = [], ti_current_pos = 0\<rparr>"
proof -
  obtain b where b: "block_new (block_image (index_kvs B)) = Inr b" "block_view b (index_kvs B)"
    using block_new_image [OF block_fits_index [OF fits]] by blast
  show ?thesis
    using index_block_range(1,2) [OF fits] b(1) block_iter_view [OF b(2)] decode_handles_index [of 0 B "[]"]
    by (simp add: into_table_iter_def reader_of_def table_iter_new_def parse_data_handles_def Let_def index_kvs_def)
qed

text \<open>The iterator after \<open>i\<close> blocks, at position \<open>p\<close> of the block it loaded last.\<close>

definition iter_at :: "(bytes \<times> bytes) list list \<Rightarrow> bloom_filter \<Rightarrow> nat \<Rightarrow> (bytes \<times> bytes) list \<Rightarrow> nat \<Rightarrow> table_iter" where
  "iter_at B f i cur p = \<lparr>ti_data = table_image B f, ti_handles = map (handle_of B) [0..<length B],
     ti_handle_idx = i, ti_current = cur, ti_current_pos = p\<rparr>"

lemma advance_iter_at:
  assumes fits: "table_fits B f"
  shows "advance_to_next_block (iter_at B f i cur p) =
    Inr (if i < length B then (True, iter_at B f (Suc i) (B ! i) 0) else (False, iter_at B f i [] p))"
proof (cases "i < length B")
  case True
  obtain b where b: "block_new (block_image (B ! i)) = Inr b" "block_view b (B ! i)"
    using block_new_image [OF block_fits_member [OF fits nth_mem [OF True]]] by blast
  show ?thesis
    using True block_image_range(1,2) [OF fits True] b(1) block_iter_view [OF b(2)]
    by (subst advance_to_next_block.simps) (simp add: iter_at_def Let_def)
next
  case False
  then show ?thesis by (subst advance_to_next_block.simps) (simp add: iter_at_def)
qed

lemma next_entry_iter_at:
  assumes fits: "table_fits B f"
  shows "next_entry (iter_at B f i cur p) =
    Inr (if p < length cur then (Some (cur ! p), iter_at B f i cur (Suc p))
         else if i < length B then (Some (B ! i ! 0), iter_at B f (Suc i) (B ! i) 1)
         else (None, iter_at B f i [] p))"
proof -
  have "0 < length (B ! i)" if "i < length B"
    using fits that nth_mem [OF that] by (fastforce simp: table_fits_def)
  then show ?thesis
    by (subst next_entry.simps) (simp add: advance_iter_at [OF fits], simp add: next_entry.simps iter_at_def)
qed

lemma ti_collect_iter_at:
  assumes fits: "table_fits B f"
  shows "i \<le> length B \<Longrightarrow> ti_collect (iter_at B f i cur p) = Inr (drop p cur @ concat (drop i B))"
proof (induction "(length B - i, length cur - p)" arbitrary: i cur p rule: wf_induct_rule [OF wf_lex_prod [OF wf_less_than wf_less_than]])
  case (1 i cur p)
  show ?case
  proof (cases "p < length cur")
    case True
    have "ti_collect (iter_at B f i cur (Suc p)) = Inr (drop (Suc p) cur @ concat (drop i B))"
      using True 1(2) by (intro 1(1)) auto
    then show ?thesis
      using True by (subst ti_collect.simps) (simp add: next_entry_iter_at [OF fits] flip: Cons_nth_drop_Suc)
  next
    case False
    show ?thesis
    proof (cases "i < length B")
      case True
      have ne: "B ! i \<noteq> []" using fits True by (auto simp: table_fits_def dest: nth_mem)
      have "ti_collect (iter_at B f (Suc i) (B ! i) 1) = Inr (drop 1 (B ! i) @ concat (drop (Suc i) B))"
        using True by (intro 1(1)) auto
      moreover have "B ! i = B ! i ! 0 # drop 1 (B ! i)" using ne by (cases "B ! i") auto
      moreover have "concat (drop i B) = B ! i @ concat (drop (Suc i) B)"
        using True by (simp flip: Cons_nth_drop_Suc)
      ultimately show ?thesis
        using True False by (subst ti_collect.simps) (simp add: next_entry_iter_at [OF fits])
    next
      case i: False
      then show ?thesis
        using False 1(2) by (subst ti_collect.simps) (simp add: next_entry_iter_at [OF fits])
    qed
  qed
qed

lemma table_iter_image:
  assumes fits: "table_fits B f"
  shows "bind_res (into_table_iter (reader_of B f)) ti_collect = Inr (concat B)"
  using into_table_iter_image [OF fits] ti_collect_iter_at [OF fits, of 0 "[]" 0]
  by (simp add: iter_at_def)


section \<open>Finding a version\<close>

lemma find_concat:
  assumes "sorted_wrt (\<lambda>a b. P a \<longrightarrow> P b) (concat B)" and "[] \<notin> set B"
  shows "find P (concat B) = (case find (\<lambda>b. P (last b)) B of None \<Rightarrow> None | Some b \<Rightarrow> find P b)"
  using assms
proof (induction B)
  case (Cons b B)
  have app: "find P (xs @ ys) = (case find P xs of None \<Rightarrow> find P ys | Some x \<Rightarrow> Some x)" for xs ys
    by (induction xs) auto
  have b: "b = butlast b @ [last b]" using Cons.prems(2) by (metis append_butlast_last_id list.set_intros(1))
  show ?case
  proof (cases "P (last b)")
    case True
    have "find P b \<noteq> None" using True b by (metis find_None_iff in_set_conv_decomp)
    then show ?thesis using True by (auto simp: app)
  next
    case False
    have "sorted_wrt (\<lambda>a b. P a \<longrightarrow> P b) (butlast b @ [last b])"
      using Cons.prems(1) b by (simp add: sorted_wrt_append)
    then have "\<forall>x \<in> set (butlast b). P x \<longrightarrow> P (last b)" by (simp add: sorted_wrt_append)
    with False have "\<forall>x \<in> set b. \<not> P x" by (subst b) auto
    then have "find P b = None" by (simp add: find_None_iff)
    then show ?thesis using Cons False by (simp add: app sorted_wrt_append)
  qed
qed simp

lemma sorted_wrt_lasts:
  "sorted_wrt R (concat B) \<Longrightarrow> [] \<notin> set B \<Longrightarrow> sorted_wrt R (map last B)"
proof (induction B)
  case (Cons b B)
  have "last b \<in> set b" using Cons.prems(2) by (cases b) auto
  moreover have "last b' \<in> set (concat B)" if "b' \<in> set B" for b'
    using Cons.prems(2) that last_in_set [of b'] by (cases "b' = []") (auto intro!: bexI [of _ b'])
  ultimately show ?case using Cons by (auto simp: sorted_wrt_append)
qed simp

lemma ascending_index:
  assumes "internal_order.ascending (concat B)" and "[] \<notin> set B"
  shows "internal_order.ascending (index_kvs B)"
proof -
  have "sorted_wrt (\<lambda>a b. internal_key_cmp (fst a) (fst b) = Less) (map last B)"
    using assms by (intro sorted_wrt_lasts) (auto simp: internal_order.ascending_def)
  then show ?thesis
    by (simp add: internal_order.ascending_def sorted_wrt_iff_nth_less index_kvs_def index_entry_def)
qed

lemma ascending_upward:
  assumes "internal_order.ascending kvs"
  shows "sorted_wrt (\<lambda>a b. internal_key_cmp t (fst a) \<noteq> Greater \<longrightarrow> internal_key_cmp t (fst b) \<noteq> Greater) kvs"
  using assms unfolding internal_order.ascending_def
  by (rule sorted_wrt_mono_rel [rotated]) (metis internal_order.kcmp_trans ordering.distinct(3))

text \<open>The index leads to the block that holds the first entry not below the target.\<close>

lemma index_lookup:
  assumes fits: "table_fits B f" and asc: "internal_order.ascending (concat B)"
    and P: "P = (\<lambda>kv. internal_key_cmp t (fst kv) \<noteq> Greater)"
  shows "bind_res (block_new (block_image (index_kvs B))) (\<lambda>b. block_lower_bound b internal_key_cmp t) =
    Inr (map_option (\<lambda>i. handle_bytes (handle_of B i)) (find (\<lambda>i. P (last (B ! i))) [0..<length B]))"
proof -
  obtain b where b: "block_new (block_image (index_kvs B)) = Inr b" "block_view b (index_kvs B)"
    using block_new_image [OF block_fits_index [OF fits]] by blast
  have find_map: "find Q (map g xs) = map_option g (find (Q \<circ> g) xs)" for Q :: "bytes \<times> bytes \<Rightarrow> bool" and g and xs :: "nat list"
    by (induction xs) auto
  show ?thesis
  proof (cases "B = []")
    case True
    then show ?thesis using b block_empty_view(2) [of b internal_key_cmp t] by simp
  next
    case False
    then have ne: "index_kvs B \<noteq> []" by (simp add: index_kvs_def)
    have "internal_order.ascending (index_kvs B)"
      using fits asc by (intro ascending_index) (auto simp: table_fits_def)
    from internal_order.block_lower_bound_view [OF b(2) ne this, of t]
    have "block_lower_bound b internal_key_cmp t = Inr (map_option snd (find P (index_kvs B)))"
      by (simp add: P)
    moreover have "find P (index_kvs B) = map_option (index_entry B) (find (\<lambda>i. P (last (B ! i))) [0..<length B])"
      by (simp add: index_kvs_def find_map comp_def P index_entry_def)
    ultimately show ?thesis
      by (simp add: b(1) option.map_comp comp_def index_entry_def)
  qed
qed

lemma find_index: "find Q B = map_option (\<lambda>i. B ! i) (find (\<lambda>i. Q (B ! i)) [0..<length B])"
proof -
  have "find Q (map g xs) = map_option g (find (\<lambda>i. Q (g i)) xs)" for g :: "nat \<Rightarrow> 'a" and xs
    by (induction xs) auto
  from this [of "\<lambda>i. B ! i" "[0..<length B]"] show ?thesis by (simp add: map_nth)
qed

lemma table_get_entry_image:
  assumes fits: "table_fits B f" and asc: "internal_order.ascending (concat B)"
  shows "table_get_entry (reader_of B f) uk snapshot =
    (if \<not> may_contain f uk then Inr None
     else case find (\<lambda>kv. internal_key_cmp (lookup_key uk snapshot) (fst kv) \<noteq> Greater) (concat B) of
       None \<Rightarrow> Inr None
     | Some (found_key, v) \<Rightarrow>
         if user_key_of_internal_key found_key = uk
         then bind_res (ok_or (vtype_of_internal_key found_key) (Corrupted ''invalid vtype in sstable'')) (\<lambda>t. Inr (Some (t, v)))
         else Inr None)"
proof (cases "may_contain f uk")
  case True
  define t where "t = lookup_key uk snapshot"
  define P where "P = (\<lambda>kv :: bytes \<times> bytes. internal_key_cmp t (fst kv) \<noteq> Greater)"
  have ne: "[] \<notin> set B" using fits by (simp add: table_fits_def)
  have whole: "find P (concat B) = (case find (\<lambda>b. P (last b)) B of None \<Rightarrow> None | Some b \<Rightarrow> find P b)"
    using ascending_upward [OF asc, of t] ne by (intro find_concat) (auto simp: P_def)
  obtain ib where ib: "block_new (block_image (index_kvs B)) = Inr ib"
    using block_new_image [OF block_fits_index [OF fits]] by blast
  have idx: "block_lower_bound ib internal_key_cmp t =
      Inr (map_option (\<lambda>i. handle_bytes (handle_of B i)) (find (\<lambda>i. P (last (B ! i))) [0..<length B]))"
    using index_lookup [OF fits asc P_def] ib by simp
  have reader: "tr_bloom (reader_of B f) = Some f" "tr_index_handle (reader_of B f) = index_handle_of B f"
    by (simp_all add: reader_of_def)
  show ?thesis
  proof (cases "find (\<lambda>i. P (last (B ! i))) [0..<length B]")
    case None
    then have "find P (concat B) = None" using whole by (simp add: find_index [of _ B])
    then show ?thesis
      using True None index_block_range(3) [OF fits] ib idx
      by (simp add: table_get_entry_def reader t_def P_def)
  next
    case (Some i)
    then have i: "i < length B" by (auto simp: find_Some_iff)
    then have bi: "B ! i \<in> set B" "B ! i \<noteq> []" using ne by (auto dest: nth_mem)
    obtain b where b: "block_new (block_image (B ! i)) = Inr b" "block_view b (B ! i)"
      using block_new_image [OF block_fits_member [OF fits bi(1)]] by blast
    have "\<exists>xs ys. concat B = xs @ B ! i @ ys"
      using i by (metis concat.simps(2) concat_append id_take_nth_drop)
    then have "internal_order.ascending (B ! i)"
      using asc by (auto simp: internal_order.ascending_def sorted_wrt_append)
    then have lb: "block_lower_bound_kv b internal_key_cmp t = Inr (find P (B ! i))"
      unfolding P_def by (rule internal_order.block_lower_bound_kv_view [OF b(2) bi(2)])
    have dec: "handle_decode (handle_bytes (handle_of B i)) = Inr (handle_of B i, length (handle_bytes (handle_of B i)))"
      using handle_decode_bytes [of "handle_of B i" "[]"] by simp
    have "find P (concat B) = find P (B ! i)" using whole Some by (simp add: find_index [of _ B])
    moreover have "table_get_entry (reader_of B f) uk snapshot =
        (case find P (B ! i) of None \<Rightarrow> Inr None | Some (found_key, v) \<Rightarrow>
           if user_key_of_internal_key found_key = uk
           then bind_res (ok_or (vtype_of_internal_key found_key) (Corrupted ''invalid vtype in sstable'')) (\<lambda>t. Inr (Some (t, v)))
           else Inr None)"
      unfolding table_get_entry_def reader index_block_range(3) [OF fits] t_def [symmetric] Let_def bind_res_simps
        ib idx Some option.map option.case dec prod.case block_image_range(3) [OF fits i] b(1) lb
      using True by simp
    ultimately show ?thesis using True by (simp add: t_def P_def)
  qed
next
  case False
  then show ?thesis by (simp add: table_get_entry_def reader_of_def)
qed


section \<open>What a table holds\<close>

text \<open>
  Entries with decoded keys. The version a snapshot sees is the first entry of the user key whose
  sequence number is not above the snapshot.
\<close>

type_synonym entry = "internal_key \<times> bytes"

definition encode_entries :: "entry list \<Rightarrow> (bytes \<times> bytes) list" where
  "encode_entries es = map (\<lambda>(k, v). (ik_encode k, v)) es"

definition ascending_entries :: "entry list \<Rightarrow> bool" where
  "ascending_entries es \<longleftrightarrow>
     sorted_wrt (\<lambda>a b. internal_key_cmp (ik_encode (fst a)) (ik_encode (fst b)) = Less) es"

definition visible :: "entry list \<Rightarrow> bytes \<Rightarrow> u64 \<Rightarrow> (value_type \<times> bytes) option" where
  "visible es uk snapshot =
     map_option (\<lambda>(k, v). (vtype k, v)) (find (\<lambda>(k, v). user_key k = uk \<and> seq k \<le> snapshot) es)"

lemma encode_entries_simps [simp]:
  "encode_entries [] = []" "encode_entries (e # es) = (ik_encode (fst e), snd e) # encode_entries es"
  "encode_entries (xs @ ys) = encode_entries xs @ encode_entries ys" "length (encode_entries es) = length es"
  by (simp_all add: encode_entries_def case_prod_beta)

lemma ascending_encode_entries: "ascending_entries es \<Longrightarrow> internal_order.ascending (encode_entries es)"
  by (simp add: ascending_entries_def internal_order.ascending_def encode_entries_def sorted_wrt_map case_prod_beta)

lemma ascending_entries_user_key:
  assumes "ascending_entries (e # es)" and "e' \<in> set es"
  shows "user_key (fst e) \<le> user_key (fst e')"
  using assms by (auto simp: ascending_entries_def internal_key_cmp_encode split: if_splits)

text \<open>The sentinel search of \<open>get_entry\<close> with its check of the user key.\<close>

lemma sentinel_visible:
  "ascending_entries es \<Longrightarrow>
   (case find (\<lambda>(k, v). uk < user_key k \<or> uk = user_key k \<and> seq k \<le> snapshot) es of
      None \<Rightarrow> None
    | Some (k, v) \<Rightarrow> if user_key k = uk then Some (vtype k, v) else None) = visible es uk snapshot"
proof (induction es)
  case (Cons e es)
  obtain k v where e: "e = (k, v)" by (cases e)
  have asc: "ascending_entries es" using Cons.prems by (simp add: ascending_entries_def)
  consider "uk < user_key k" | "uk = user_key k" "seq k \<le> snapshot"
    | "\<not> (uk < user_key k \<or> uk = user_key k \<and> seq k \<le> snapshot)" by blast
  then show ?case
  proof cases
    case 1
    have "user_key k' \<noteq> uk" if "(k', v') \<in> set es" for k' v'
      using ascending_entries_user_key [OF Cons.prems that] 1 e by auto
    then have "find (\<lambda>(k, v). user_key k = uk \<and> seq k \<le> snapshot) es = None"
      by (auto simp: find_None_iff)
    then show ?thesis using 1 e by (auto simp: visible_def)
  next
    case 2
    then show ?thesis using e by (simp add: visible_def)
  next
    case 3
    then have nv: "\<not> (user_key k = uk \<and> seq k \<le> snapshot)" by blast
    have "visible (e # es) uk snapshot = visible es uk snapshot"
      unfolding visible_def e by (simp only: find.simps prod.case nv if_False)
    moreover have "find (\<lambda>(k, v). uk < user_key k \<or> uk = user_key k \<and> seq k \<le> snapshot) (e # es) =
        find (\<lambda>(k, v). uk < user_key k \<or> uk = user_key k \<and> seq k \<le> snapshot) es"
      unfolding e by (simp only: find.simps prod.case 3 if_False)
    ultimately show ?thesis using Cons.IH [OF asc] by (simp only:)
  qed
qed (simp add: visible_def)

lemma find_lookup_key:
  "find (\<lambda>kv. internal_key_cmp (lookup_key uk snapshot) (fst kv) \<noteq> Greater) (encode_entries es) =
   map_option (\<lambda>(k, v). (ik_encode k, v))
     (find (\<lambda>(k, v). uk < user_key k \<or> uk = user_key k \<and> seq k \<le> snapshot) es)"
proof (induction es)
  case (Cons e es)
  obtain k v where e: "e = (k, v)" by (cases e)
  show ?case
    unfolding e encode_entries_simps find.simps fst_conv snd_conv lookup_key_le prod.case Cons.IH
    by (cases "uk < user_key k \<or> uk = user_key k \<and> seq k \<le> snapshot")
       (simp_all only: if_True if_False option.map prod.case)
qed simp

lemma visible_None: "uk \<notin> (user_key \<circ> fst) ` set es \<Longrightarrow> visible es uk snapshot = None"
  by (force simp: visible_def find_None_iff)

text \<open>A reader over the image of a list of entries.\<close>

definition table_rep :: "table_reader \<Rightarrow> entry list \<Rightarrow> bool" where
  "table_rep tr es \<longleftrightarrow> (\<exists>B f. tr = reader_of B f \<and> table_fits B f \<and> concat B = encode_entries es \<and>
     ascending_entries es \<and> (\<forall>(k, v) \<in> set es. may_contain f (user_key k)))"

lemma table_rep_get_entry:
  assumes "table_rep tr es"
  shows "table_get_entry tr uk snapshot = Inr (visible es uk snapshot)"
proof -
  obtain B f where tr: "tr = reader_of B f" "table_fits B f" "concat B = encode_entries es" "ascending_entries es"
    and bloom: "\<forall>(k, v) \<in> set es. may_contain f (user_key k)"
    using assms by (auto simp: table_rep_def)
  have "internal_order.ascending (concat B)" using tr by (simp add: ascending_encode_entries)
  note get = table_get_entry_image [OF tr(2) this, of uk snapshot]
  show ?thesis
  proof (cases "may_contain f uk")
    case True
    then show ?thesis
      unfolding sentinel_visible [OF tr(4), of uk snapshot, symmetric]
      by (cases "find (\<lambda>(k, v). uk < user_key k \<or> uk = user_key k \<and> seq k \<le> snapshot) es")
         (auto simp: tr(1) get tr(3) find_lookup_key)
  next
    case False
    then have "uk \<notin> (user_key \<circ> fst) ` set es" using bloom by auto
    then show ?thesis using False by (simp add: tr(1) get visible_None)
  qed
qed

lemma table_rep_iter:
  "table_rep tr es \<Longrightarrow> bind_res (into_table_iter tr) ti_collect = Inr (encode_entries es)"
  by (auto simp: table_rep_def table_iter_image)

section \<open>Building a table\<close>

definition build_table :: "nat \<Rightarrow> nat \<Rightarrow> entry list \<Rightarrow> bytes res" where
  "build_table block_target bits_per_key es =
     bind_res (foldl (\<lambda>r (k, v). bind_res r (\<lambda>tb. table_add tb (user_key k) (ik_encode k) v))
       (Inr (table_with_options block_target bits_per_key)) es) table_finish"

text \<open>The size of the filter that the options allocate, and the bound under which a table is well formed.\<close>

definition filter_size :: "nat \<Rightarrow> nat \<Rightarrow> nat" where
  "filter_size block_target bits_per_key = div_ceil (max (max (50 * block_target div 32) 1000 * bits_per_key) 64) 8"

definition table_limits :: "nat \<Rightarrow> nat \<Rightarrow> entry list \<Rightarrow> bool" where
  "table_limits block_target bits_per_key es \<longleftrightarrow>
     filter_size block_target bits_per_key < 2 ^ 29 \<and> entries_bound (encode_entries es) < 2 ^ 32"

definition bloom_of :: "nat \<Rightarrow> nat \<Rightarrow> entry list \<Rightarrow> bloom_filter" where
  "bloom_of block_target bits_per_key es =
     fold (\<lambda>key bf. bloom_insert bf key) (map (user_key \<circ> fst) es)
       (tb_bloom (table_with_options block_target bits_per_key))"

lemma bloom_start: "bits (tb_bloom (table_with_options target bpk)) = replicate (filter_size target bpk) 0"
  by (simp add: table_with_options_def ensure_capacity_def filter_size_def Let_def)

lemma length_bits_fold [simp]: "length (bits (fold (\<lambda>key bf. bloom_insert bf key) keys f)) = length (bits f)"
  by (induction keys arbitrary: f) auto

lemma bloom_of_contains:
  assumes "filter_size target bpk < 2 ^ 29" and "(k, v) \<in> set es"
  shows "may_contain (bloom_of target bpk es) (user_key k)"
proof -
  have "0 < filter_size target bpk" by (simp add: filter_size_def div_ceil_def)
  then show ?thesis
    unfolding bloom_of_def
    using assms by (intro may_contain_fold) (force simp: bloom_start nbits_of_replicate)+
qed

text \<open>The states of the builder while entries are added.\<close>

definition adding :: "nat \<Rightarrow> nat \<Rightarrow> table_builder \<Rightarrow> entry list \<Rightarrow> bool" where
  "adding target bpk tb es \<longleftrightarrow>
     (\<exists>B cur. tb_rep tb B cur \<and> concat B @ cur = encode_entries es \<and> tb_bloom tb = bloom_of target bpk es)"

lemma adding_new: "adding target bpk (table_with_options target bpk) []"
  using tb_rep_new [of target bpk] by (force simp: adding_def bloom_of_def)

lemma adding_add:
  assumes "adding target bpk tb es"
  shows "\<exists>tb'. table_add tb (user_key k) (ik_encode k) v = Inr tb' \<and> adding target bpk tb' (es @ [(k, v)])"
proof -
  obtain B cur where B: "tb_rep tb B cur" "concat B @ cur = encode_entries es" "tb_bloom tb = bloom_of target bpk es"
    using assms by (auto simp: adding_def)
  obtain tb' B' cur' where "table_add tb (user_key k) (ik_encode k) v = Inr tb'" "tb_rep tb' B' cur'"
    "concat B' @ cur' = concat B @ cur @ [(ik_encode k, v)]" "tb_bloom tb' = bloom_insert (tb_bloom tb) (user_key k)"
    using table_add_rep [OF B(1)] by blast
  then show ?thesis
    using B(2,3) by (intro exI [of _ tb']) (auto simp: adding_def bloom_of_def simp flip: append_assoc)
qed

lemma adding_num_entries: "adding target bpk tb es \<Longrightarrow> tb_num_entries tb = of_nat (length es)"
proof (unfold adding_def, elim exE conjE)
  fix B cur assume "tb_rep tb B cur" "concat B @ cur = encode_entries es"
  moreover from this(2) have "length (concat B @ cur) = length es" by simp
  ultimately show ?thesis by (simp add: tb_rep_def)
qed

lemma adding_finish:
  assumes "adding target bpk tb es" and "table_limits target bpk es" and "ascending_entries es"
  shows "\<exists>bs tr. table_finish tb = Inr bs \<and> table_open bs = Inr tr \<and> table_rep tr es"
proof -
  obtain B cur where B: "tb_rep tb B cur" "concat B @ cur = encode_entries es" "tb_bloom tb = bloom_of target bpk es"
    using assms(1) by (auto simp: adding_def)
  obtain B' where B': "table_finish tb = Inr (table_image B' (tb_bloom tb))" "concat B' = encode_entries es" "[] \<notin> set B'"
    using table_finish_rep [OF B(1)] B(2) by auto
  have fits: "table_fits B' (tb_bloom tb)"
    using B' assms(2) B(3) by (simp add: table_fits_def table_limits_def bloom_of_def bloom_start)
  moreover have "table_rep (reader_of B' (tb_bloom tb)) es"
    using fits B' assms(2,3) B(3) bloom_of_contains [of target bpk _ _ es]
    by (auto simp: table_rep_def table_limits_def)
  ultimately show ?thesis using B'(1) table_open_image by blast
qed

lemma build_table_rep:
  assumes "table_limits target bpk es" and "ascending_entries es"
  shows "\<exists>bs tr. build_table target bpk es = Inr bs \<and> table_open bs = Inr tr \<and> table_rep tr es"
proof -
  have "\<exists>tb. foldl (\<lambda>r (k, v). bind_res r (\<lambda>tb. table_add tb (user_key k) (ik_encode k) v))
      (Inr (table_with_options target bpk)) es = Inr tb \<and> adding target bpk tb es"
  proof (induction es rule: rev_induct)
    case Nil
    show ?case by (simp add: adding_new)
  next
    case (snoc e es)
    then obtain tb where tb: "foldl (\<lambda>r (k, v). bind_res r (\<lambda>tb. table_add tb (user_key k) (ik_encode k) v))
      (Inr (table_with_options target bpk)) es = Inr tb" "adding target bpk tb es" by blast
    then show ?case using adding_add [OF tb(2), of "fst e" "snd e"] by (cases e) auto
  qed
  then show ?thesis
    using adding_finish [OF _ assms] by (auto simp: build_table_def)
qed

section \<open>Properties\<close>

text \<open>C21: A table built from entries that ascend in internal-key order, written and reopened, answers every lookup with the
  newest version of the user key that the snapshot sees, deletion markers included, and with nothing for a user key
  it has no such version of. The block target and the bits per key are arbitrary as long as the sizes are
  within \<open>table_limits\<close>: the filter they ask for is below 512 MiB, so that its bits are counted in 32 bits, and the
  entries, 64 bytes of overhead each included, are below 4 GiB, so that all offsets fit 32 bits.\<close>

theorem table_get_entry_correct:
  assumes "table_limits block_target bits_per_key es" and "ascending_entries es"
  shows "\<exists>bs tr. build_table block_target bits_per_key es = Inr bs \<and> table_open bs = Inr tr \<and>
    table_get_entry tr uk snapshot = Inr (visible es uk snapshot)"
  using build_table_rep [OF assms] table_rep_get_entry by blast

theorem table_get_entry_correct_witness:
  "\<exists>bs tr. build_table 64 10 [(InternalKey [1] 7 Delete, []), (InternalKey [1] 5 Put, [9]), (InternalKey [2] 6 Put, [8])] = Inr bs \<and>
     table_open bs = Inr tr \<and> table_get_entry tr [1] 6 = Inr (Some (Put, [9]))"
proof -
  let ?es = "[(InternalKey [1] 7 Delete, []), (InternalKey [1] 5 Put, [9]), (InternalKey [2] 6 Put, [8])]"
  have "table_limits 64 10 ?es" "ascending_entries ?es"
    by (simp_all add: table_limits_def filter_size_def div_ceil_def ascending_entries_def internal_key_cmp_encode cmp_def)
  then show ?thesis
    using table_get_entry_correct [of 64 10 ?es "[1]" 6] by (simp add: visible_def)
qed

text \<open>C22: Iterating over a reopened table yields exactly the encoded entries that were added, in order: nothing is
  lost at the boundaries between data blocks. The entries ascend in internal-key order, and the sizes are within
  \<open>table_limits\<close> (filter below 512 MiB, entries below 4 GiB).\<close>

theorem table_iter_roundtrip:
  assumes "table_limits block_target bits_per_key es" and "ascending_entries es"
  shows "\<exists>bs tr. build_table block_target bits_per_key es = Inr bs \<and> table_open bs = Inr tr \<and>
    bind_res (into_table_iter tr) ti_collect = Inr (encode_entries es)"
  using build_table_rep [OF assms] table_rep_iter by blast

theorem table_iter_roundtrip_witness:
  "\<exists>bs tr. build_table 64 10 [(InternalKey [1] 7 Delete, []), (InternalKey [2] 6 Put, [8])] = Inr bs \<and>
     table_open bs = Inr tr \<and> bind_res (into_table_iter tr) ti_collect =
       Inr [(ik_encode (InternalKey [1] 7 Delete), []), (ik_encode (InternalKey [2] 6 Put), [8])]"
proof -
  let ?es = "[(InternalKey [1] 7 Delete, []), (InternalKey [2] 6 Put, [8])]"
  have "table_limits 64 10 ?es" "ascending_entries ?es"
    by (simp_all add: table_limits_def filter_size_def div_ceil_def ascending_entries_def internal_key_cmp_encode cmp_def)
  then show ?thesis
    using table_iter_roundtrip [of 64 10 ?es] by simp
qed

end
