(* ===== verification/Mem_Table.thy ===== *)
theory Mem_Table
  imports Skip_List Table "HOL-Library.Multiset"
begin

text \<open>
  \<^verbatim>\<open>src/src/memtable.rs\<close>: the writable layer of the store. Every write becomes a new version in the skip
  list, a lookup finds the newest version a snapshot sees, and the whole contents are flushed into
  a table. The skip list is used through its interface \<open>ordered_index\<close> only.
\<close>

section \<open>State and operations\<close>

text \<open>
  \<open>entries\<close> and \<open>approx_bytes\<close> count objects in memory, so they are natural numbers; the sequence number
  keeps its width, and an addition that overflows panics. An index out of the node array inside the
  skip list would panic too.
\<close>

record memtable =
  mt_skiplist :: "(internal_key, bytes) skiplist"
  mt_seq :: u64
  mt_entries :: nat
  mt_approx_bytes :: nat

definition skiplist_empty :: "(internal_key, bytes) skiplist" where
  "skiplist_empty = skiplist_new internal_key_default []"

definition memtable_new :: memtable where
  "memtable_new = \<lparr>mt_skiplist = skiplist_empty, mt_seq = 0, mt_entries = 0, mt_approx_bytes = 0\<rparr>"

definition memtable_with_initial_sequence :: "u64 \<Rightarrow> memtable" where
  "memtable_with_initial_sequence s =
     \<lparr>mt_skiplist = skiplist_empty, mt_seq = s, mt_entries = 0, mt_approx_bytes = 0\<rparr>"

definition snapshot_entries :: "memtable \<Rightarrow> u64 \<Rightarrow> (bytes \<times> bytes) list res" where
  "snapshot_entries mt snapshot_seq =
     bind_res (index_res (sl_iter (mt_skiplist mt))) (\<lambda>items.
       Inr (map (\<lambda>(ik, v). (ik_encode ik, v)) (filter (\<lambda>(ik, _). seq ik \<le> snapshot_seq) items)))"

definition mt_put :: "(nat \<Rightarrow> nat) \<Rightarrow> bytes \<Rightarrow> bytes \<Rightarrow> memtable \<Rightarrow> memtable res" where
  "mt_put draws key v mt =
     bind_res (u64_succ (mt_seq mt)) (\<lambda>s.
     let ik = InternalKey key s Put in
     bind_res (index_res (sl_insert draws ik v (mt_skiplist mt))) (\<lambda>sl.
     Inr (mt\<lparr>mt_skiplist := sl, mt_seq := s, mt_entries := mt_entries mt + 1,
             mt_approx_bytes := mt_approx_bytes mt + (length key + length v)\<rparr>)))"

definition mt_delete :: "(nat \<Rightarrow> nat) \<Rightarrow> bytes \<Rightarrow> memtable \<Rightarrow> memtable res" where
  "mt_delete draws key mt =
     bind_res (u64_succ (mt_seq mt)) (\<lambda>s.
     let ik = InternalKey key s Delete in
     bind_res (index_res (sl_insert draws ik [] (mt_skiplist mt))) (\<lambda>sl.
     Inr (mt\<lparr>mt_skiplist := sl, mt_seq := s, mt_entries := mt_entries mt + 1,
             mt_approx_bytes := mt_approx_bytes mt + length key\<rparr>)))"

definition mt_apply :: "(nat \<Rightarrow> nat) \<Rightarrow> value_type \<Rightarrow> u64 \<Rightarrow> bytes \<Rightarrow> bytes \<Rightarrow> memtable \<Rightarrow> memtable res" where
  "mt_apply draws t s key v mt =
     (let ik = InternalKey key s t in
      bind_res (index_res (sl_insert draws ik v (mt_skiplist mt))) (\<lambda>sl.
      Inr (mt\<lparr>mt_skiplist := sl, mt_seq := (if mt_seq mt < s then s else mt_seq mt),
              mt_entries := mt_entries mt + 1,
              mt_approx_bytes := mt_approx_bytes mt + (length key + length v)\<rparr>)))"

definition mt_get_entry :: "memtable \<Rightarrow> bytes \<Rightarrow> u64 \<Rightarrow> (value_type \<times> bytes) option res" where
  "mt_get_entry mt key snapshot_seq =
     (let lookup = InternalKey key snapshot_seq Put in
      bind_res (index_res (sl_lower_bound (mt_skiplist mt) lookup)) (\<lambda>found.
        case found of
          None \<Rightarrow> Inr None
        | Some (ik, v) \<Rightarrow> if user_key ik \<noteq> key then Inr None else Inr (Some (vtype ik, v))))"

definition mt_get :: "memtable \<Rightarrow> bytes \<Rightarrow> bytes option res" where
  "mt_get mt key =
     bind_res (mt_get_entry mt key MAX_SEQUENCE) (\<lambda>r.
       case r of Some (Put, v) \<Rightarrow> Inr (Some v) | _ \<Rightarrow> Inr None)"

section \<open>Flushing\<close>

record flush_result =
  fr_num_entries :: u64
  fr_smallest :: "internal_key option"
  fr_largest :: "internal_key option"

fun flush_loop ::
    "(internal_key \<times> bytes) list \<Rightarrow> table_builder \<Rightarrow> internal_key option \<Rightarrow> internal_key option \<Rightarrow>
     (table_builder \<times> internal_key option \<times> internal_key option) res" where
  "flush_loop [] builder smallest largest = Inr (builder, smallest, largest)"
| "flush_loop ((ik, v) # items) builder smallest largest =
     bind_res (table_add builder (user_key ik) (ik_encode ik) v) (\<lambda>builder.
       flush_loop items builder (if smallest = None then Some ik else smallest) (Some ik))"

text \<open>The new file's bytes and the result.\<close>

definition mt_flush :: "nat \<Rightarrow> nat \<Rightarrow> memtable \<Rightarrow> (bytes \<times> flush_result) res" where
  "mt_flush block_target bits_per_key mt =
     bind_res (index_res (sl_iter (mt_skiplist mt))) (\<lambda>items.
     bind_res (flush_loop items (table_with_options block_target bits_per_key) None None)
       (\<lambda>(builder, smallest, largest).
     let num_entries = tb_num_entries builder in
     bind_res (table_finish builder) (\<lambda>file.
     Inr (file, \<lparr>fr_num_entries = num_entries, fr_smallest = smallest, fr_largest = largest\<rparr>))))"

definition mt_flush_default :: "memtable \<Rightarrow> (bytes \<times> flush_result) res" where
  "mt_flush_default mt = mt_flush (4 * 1024) 10 mt"

text \<open>The bytes of the file and the number of entries.\<close>

definition flush_to_sstable :: "memtable \<Rightarrow> (bytes \<times> u64) res" where
  "flush_to_sstable mt = bind_res (mt_flush_default mt) (\<lambda>(file, r). Inr (file, fr_num_entries r))"

section \<open>What a memtable holds\<close>

lemma find_insort_other: "\<not> P x \<Longrightarrow> find P (insort_key f x xs) = find P xs"
  by (induction xs) auto

text \<open>
  The entries in key order. Sequence numbers of one user key differ, so the versions of a user key
  are in strictly descending order of their sequence number.
\<close>

definition version_of :: "entry \<Rightarrow> bytes \<times> u64" where
  "version_of e = (user_key (fst e), seq (fst e))"

definition mt_rep :: "memtable \<Rightarrow> entry list \<Rightarrow> bool" where
  "mt_rep mt es \<longleftrightarrow>
     sl_rep (mt_skiplist mt) es \<and> mt_entries mt = length es \<and> distinct (map version_of es) \<and>
     (\<forall>e \<in> set es. seq (fst e) \<le> mt_seq mt)"

lemma mt_rep_empty [simp]:
  "mt_rep memtable_new []" "mt_rep (memtable_with_initial_sequence s) []"
  by (simp_all add: mt_rep_def memtable_new_def memtable_with_initial_sequence_def skiplist_empty_def sl_rep_new)

lemma mt_rep_skiplist: "mt_rep mt es \<Longrightarrow> sl_rep (mt_skiplist mt) es"
  by (simp add: mt_rep_def)

lemma mt_rep_sorted: "mt_rep mt es \<Longrightarrow> sorted (map fst es)"
  by (auto simp: mt_rep_def intro: sl_rep_sorted)

lemma sorted_distinct_ascending:
  assumes "sorted (map fst es)" and "distinct (map version_of es)"
  shows "ascending_entries es"
  unfolding ascending_entries_def sorted_wrt_iff_nth_less
proof (intro allI impI)
  fix i j assume ij: "i < j" "j < length es"
  have le: "fst (es ! i) \<le> fst (es ! j)"
    using assms(1) ij by (simp add: sorted_iff_nth_mono)
  have ne: "version_of (es ! i) \<noteq> version_of (es ! j)"
    using assms(2) ij by (simp add: distinct_conv_nth)
  then have "fst (es ! i) \<noteq> fst (es ! j)" by (auto simp: version_of_def)
  with le ne show "internal_key_cmp (ik_encode (fst (es ! i))) (ik_encode (fst (es ! j))) = Less"
    by (subst internal_key_cmp_less) (auto simp: version_of_def)
qed

lemma mt_rep_ascending: "mt_rep mt es \<Longrightarrow> ascending_entries es"
  using mt_rep_sorted [of mt es] by (intro sorted_distinct_ascending) (auto simp: mt_rep_def)

text \<open>A version newer than all versions of its key is what every snapshot that reaches it sees.\<close>

lemma visible_insort:
  assumes "sorted (map fst es)" and fresh: "\<forall>e \<in> set es. user_key (fst e) = key \<longrightarrow> seq (fst e) < s"
  shows "visible (insort_key fst (InternalKey key s t, v) es) uk snapshot =
    (if uk = key \<and> s \<le> snapshot then Some (t, v) else visible es uk snapshot)"
proof (cases "uk = key \<and> s \<le> snapshot")
  case True
  have "find (\<lambda>(k, v). user_key k = uk \<and> seq k \<le> snapshot) (insort_key fst (InternalKey key s t, v) es) =
      Some (InternalKey key s t, v)"
    using assms
  proof (induction es)
    case (Cons e es)
    obtain k w where e: "e = (k, w)" by (cases e)
    show ?case
    proof (cases "InternalKey key s t \<le> k")
      case le: True
      then show ?thesis using True by (simp add: e)
    next
      case False
      then have "k < InternalKey key s t" by simp
      moreover have "user_key k = key \<longrightarrow> seq k < s" using Cons.prems(2) e by auto
      ultimately have "user_key k \<noteq> key" by (auto simp: internal_key_less_iff)
      then show ?thesis using False True Cons e by simp
    qed
  qed (use True in simp)
  then show ?thesis using True by (simp add: visible_def)
next
  case False
  define P :: "entry \<Rightarrow> bool" where "P = (\<lambda>(k, v). user_key k = uk \<and> seq k \<le> snapshot)"
  have "\<not> P (InternalKey key s t, v)" using False by (simp add: P_def)
  then have "find P (insort_key fst (InternalKey key s t, v) es) = find P es" by (rule find_insort_other)
  with False show ?thesis unfolding visible_def P_def by (simp only: if_False)
qed

lemma distinct_map_insort:
  "distinct (map f (insort_key g x xs)) \<longleftrightarrow> f x \<notin> f ` set xs \<and> distinct (map f xs)"
  by (induction xs) (auto simp: set_insort_key)

lemma mt_rep_apply:
  assumes rep: "mt_rep mt es" and room: "length es < NIL - 1" and fresh: "mt_seq mt < s"
  shows "\<exists>mt'. mt_apply draws t s key v mt = Inr mt' \<and> mt_rep mt' (insort_key fst (InternalKey key s t, v) es) \<and>
    mt_seq mt' = s \<and> mt_entries mt' = Suc (mt_entries mt) \<and>
    mt_approx_bytes mt' = mt_approx_bytes mt + (length key + length v)"
proof -
  obtain sl' where sl': "sl_insert draws (InternalKey key s t) v (mt_skiplist mt) = Some sl'"
    "sl_rep sl' (insort_key fst (InternalKey key s t, v) es)"
    using sl.rep_insert [OF mt_rep_skiplist [OF rep] room] by blast
  have all: "seq (fst e) < s" if "e \<in> set es" for e
    using rep fresh that by (auto simp: mt_rep_def)
  then have "version_of (InternalKey key s t, v) \<notin> version_of ` set es"
    by (auto simp: version_of_def)
  then have "distinct (map version_of (insort_key fst (InternalKey key s t, v) es))"
    using rep by (simp add: distinct_map_insort mt_rep_def)
  then show ?thesis
    using sl' rep fresh all
    by (auto simp: mt_apply_def index_res_def mt_rep_def set_insort_key Let_def less_imp_le)
qed

lemma lookup_in_order:
  "(InternalKey key snapshot Put \<le> k) \<longleftrightarrow> key < user_key k \<or> key = user_key k \<and> seq k \<le> snapshot"
  by (cases k; cases "vtype k") (auto simp: le_less internal_key_less_iff)

lemma mt_rep_get_entry:
  assumes "mt_rep mt es"
  shows "mt_get_entry mt key snapshot = Inr (visible es key snapshot)"
proof -
  have "sl_lower_bound (mt_skiplist mt) (InternalKey key snapshot Put) =
      Some (find (\<lambda>(k, v). key < user_key k \<or> key = user_key k \<and> seq k \<le> snapshot) es)"
    by (simp add: sl.rep_lower_bound [OF mt_rep_skiplist [OF assms]] lookup_in_order)
  then show ?thesis
    unfolding sentinel_visible [OF mt_rep_ascending [OF assms], of key snapshot, symmetric]
    by (auto simp: mt_get_entry_def index_res_def split: option.split)
qed

lemma mt_rep_snapshot_entries:
  "mt_rep mt es \<Longrightarrow>
   snapshot_entries mt snapshot = Inr (encode_entries (filter (\<lambda>(k, _). seq k \<le> snapshot) es))"
  by (simp add: snapshot_entries_def sl.rep_iter [OF mt_rep_skiplist] index_res_def encode_entries_def)

lemma flush_loop_adding:
  "adding target bpk tb prev \<Longrightarrow>
   \<exists>tb'. flush_loop es tb smallest largest = Inr (tb',
       (if smallest = None \<and> es \<noteq> [] then Some (fst (hd es)) else smallest),
       (if es = [] then largest else Some (fst (last es)))) \<and> adding target bpk tb' (prev @ es)"
proof (induction es arbitrary: tb prev smallest largest)
  case (Cons e es)
  obtain k v where e: "e = (k, v)" by (cases e)
  obtain tb' where tb': "table_add tb (user_key k) (ik_encode k) v = Inr tb'" "adding target bpk tb' (prev @ [(k, v)])"
    using adding_add [OF Cons.prems] by blast
  from Cons.IH [OF tb'(2), of "if smallest = None then Some k else smallest" "Some k"] show ?case
    by (auto simp: e tb'(1))
qed simp

lemma mt_rep_flush:
  assumes rep: "mt_rep mt es" and limits: "table_limits target bpk es"
  shows "\<exists>bs tr fr. mt_flush target bpk mt = Inr (bs, fr) \<and> table_open bs = Inr tr \<and> table_rep tr es \<and>
    fr = \<lparr>fr_num_entries = of_nat (length es),
          fr_smallest = (if es = [] then None else Some (fst (hd es))),
          fr_largest = (if es = [] then None else Some (fst (last es)))\<rparr>"
proof -
  have iter: "sl_iter (mt_skiplist mt) = Some es" by (rule sl.rep_iter [OF mt_rep_skiplist [OF rep]])
  obtain tb where tb: "flush_loop es (table_with_options target bpk) None None = Inr (tb,
       (if es \<noteq> [] then Some (fst (hd es)) else None), (if es = [] then None else Some (fst (last es))))"
    "adding target bpk tb es"
    using flush_loop_adding [OF adding_new, where es = es and smallest = None and largest = None] by auto
  obtain bs tr where "table_finish tb = Inr bs" "table_open bs = Inr tr" "table_rep tr es"
    using adding_finish [OF tb(2) limits mt_rep_ascending [OF rep]] by blast
  then show ?thesis
    using tb adding_num_entries [OF tb(2)]
    by (intro exI [of _ bs] exI [of _ tr]) (auto simp: mt_flush_def index_res_def iter Let_def)
qed


section \<open>Properties\<close>

text \<open>
  A write is an operation on a key with a value. The writes of a client, each with the sequence number
  after the last one, and what the newest write of a key in a sequence of writes is.
\<close>

type_synonym write_op = "value_type \<times> bytes \<times> bytes"

definition apply_all :: "(nat \<Rightarrow> nat \<Rightarrow> nat) \<Rightarrow> write_op list \<Rightarrow> memtable \<Rightarrow> memtable res" where
  "apply_all draws ws mt =
     foldl (\<lambda>r (i, t, key, v). bind_res r (mt_apply (draws i) t (of_nat (Suc i)) key v)) (Inr mt) (enumerate 0 ws)"

definition last_write :: "write_op list \<Rightarrow> bytes \<Rightarrow> (value_type \<times> bytes) option" where
  "last_write ws key = map_option (\<lambda>(t, _, v). (t, v)) (find (\<lambda>(t, k, v). k = key) (rev ws))"

lemma last_write_snoc:
  "last_write (ws @ [(t, k, v)]) key = (if k = key then Some (t, v) else last_write ws key)"
  by (simp add: last_write_def)

lemma last_write_Nil [simp]: "last_write [] key = None"
  by (simp add: last_write_def)

lemma of_nat_u64_mono: "m < n \<Longrightarrow> n < 2 ^ 63 \<Longrightarrow> (of_nat m :: u64) < of_nat n"
  by (simp add: word_less_nat_alt unat_of_nat)

lemma of_nat_u64_le: "m < 2 ^ 63 \<Longrightarrow> n < 2 ^ 63 \<Longrightarrow> (of_nat m :: u64) \<le> of_nat n \<longleftrightarrow> m \<le> n"
  by (simp add: word_le_nat_alt unat_of_nat)

text \<open>
  The entries that the writes \<open>ws\<close> leave in a memtable that starts at sequence number \<open>b\<close>: the \<open>i\<close>-th write of
  a history has the sequence number \<open>i + 1\<close>.
\<close>

definition op_entry :: "nat \<Rightarrow> write_op \<Rightarrow> entry" where
  "op_entry i w = (case w of (t, key, v) \<Rightarrow> (InternalKey key (of_nat (Suc i)) t, v))"

definition mem_entries :: "nat \<Rightarrow> write_op list \<Rightarrow> entry list" where
  "mem_entries b ws = foldl (\<lambda>es (i, w). insort_key fst (op_entry i w) es) [] (enumerate b ws)"

lemma mem_entries_Nil [simp]: "mem_entries b [] = []"
  by (simp add: mem_entries_def)

lemma mem_entries_snoc: "mem_entries b (ws @ [w]) = insort_key fst (op_entry (b + length ws) w) (mem_entries b ws)"
  by (simp add: mem_entries_def enumerate_append_eq)

lemma mset_mem_entries: "mset (mem_entries b ws) = mset (map (\<lambda>(i, w). op_entry i w) (enumerate b ws))"
proof (induction ws rule: rev_induct)
  case (snoc w ws)
  then show ?case by (simp add: mem_entries_snoc enumerate_append_eq)
qed simp

lemma length_mem_entries [simp]: "length (mem_entries b ws) = length ws"
  using arg_cong [OF mset_mem_entries [of b ws], of size] by simp

lemma set_mem_entries: "set (mem_entries b ws) = (\<lambda>i. op_entry (b + i) (ws ! i)) ` {..<length ws}"
proof (induction ws rule: rev_induct)
  case (snoc w ws)
  have "(\<lambda>i. op_entry (b + i) ((ws @ [w]) ! i)) ` {..<length ws} = (\<lambda>i. op_entry (b + i) (ws ! i)) ` {..<length ws}"
    by (rule image_cong) (simp_all add: nth_append)
  then show ?case using snoc by (simp add: mem_entries_snoc set_insort_key lessThan_Suc)
qed simp

lemma op_entry_simps [simp]:
  "user_key (fst (op_entry i (t, key, v))) = key" "seq (fst (op_entry i w)) = of_nat (Suc i)"
  "vtype (fst (op_entry i (t, key, v))) = t" "snd (op_entry i (t, key, v)) = v"
  by (simp_all add: op_entry_def split: prod.split)

lemma mem_entries_seq:
  assumes "e \<in> set (mem_entries b ws)" and "b + length ws < 2 ^ 63"
  shows "of_nat b < seq (fst e)" "seq (fst e) \<le> of_nat (b + length ws)"
proof -
  obtain i where i: "i < length ws" "e = op_entry (b + i) (ws ! i)" using assms(1) by (auto simp: set_mem_entries)
  show "of_nat b < seq (fst e)"
    unfolding i(2) op_entry_simps using i(1) assms(2) by (intro of_nat_u64_mono) auto
  show "seq (fst e) \<le> of_nat (b + length ws)"
    unfolding i(2) op_entry_simps using i(1) assms(2) by (subst of_nat_u64_le) auto
qed

lemma sorted_mem_entries: "sorted (map fst (mem_entries b ws))"
  by (induction ws rule: rev_induct) (simp_all add: mem_entries_snoc sorted_insort_key)

lemma mt_rep_write:
  assumes rep: "mt_rep mt (mem_entries b ws)" and s: "mt_seq mt = of_nat (b + length ws)"
    and room: "Suc (b + length ws) < 2 ^ 63"
  shows "\<exists>mt'. mt_apply draws t (of_nat (Suc (b + length ws))) key v mt = Inr mt' \<and>
    mt_rep mt' (mem_entries b (ws @ [(t, key, v)])) \<and> mt_seq mt' = of_nat (b + length (ws @ [(t, key, v)])) \<and>
    mt_entries mt' = Suc (mt_entries mt) \<and> mt_approx_bytes mt' = mt_approx_bytes mt + (length key + length v)"
proof -
  have fresh: "mt_seq mt < of_nat (Suc (b + length ws))" unfolding s using room by (intro of_nat_u64_mono) auto
  have "length (mem_entries b ws) < NIL - 1" using room by (simp add: NIL_def)
  from mt_rep_apply [OF rep this fresh, of draws t key v] show ?thesis
    by (auto simp: mem_entries_snoc op_entry_def)
qed

lemma visible_newest:
  assumes "\<forall>e \<in> set es. seq (fst e) \<le> s" and "s \<le> s'"
  shows "visible es key s' = visible es key s"
proof -
  have "find (\<lambda>(k, v). user_key k = key \<and> seq k \<le> s') es = find (\<lambda>(k, v). user_key k = key \<and> seq k \<le> s) es"
    using assms by (intro find_cong) (auto intro: order_trans)
  then show ?thesis by (simp only: visible_def)
qed

lemma visible_mem_entries:
  assumes "b + length ws < 2 ^ 63" and "i \<le> b + length ws"
  shows "visible (mem_entries b ws) key (of_nat i) = last_write (take (i - b) ws) key"
  using assms
proof (induction ws arbitrary: i rule: rev_induct)
  case Nil
  then show ?case by (simp add: visible_def)
next
  case (snoc w ws)
  obtain t k v where w: "w = (t, k, v)" by (cases w)
  let ?n = "b + length ws"
  let ?s = "of_nat (Suc ?n) :: u64"
  have below: "\<forall>e \<in> set (mem_entries b ws). user_key (fst e) = k \<longrightarrow> seq (fst e) < ?s"
  proof (intro ballI impI)
    fix e assume "e \<in> set (mem_entries b ws)"
    then have "seq (fst e) \<le> of_nat ?n" using mem_entries_seq(2) snoc.prems(1) by simp
    also have "(of_nat ?n :: u64) < ?s" using snoc.prems(1) by (intro of_nat_u64_mono) auto
    finally show "seq (fst e) < ?s" .
  qed
  note step = visible_insort [OF sorted_mem_entries below]
  show ?case
  proof (cases "i = Suc ?n")
    case True
    have "visible (mem_entries b ws) key ?s = visible (mem_entries b ws) key (of_nat ?n)"
    proof (rule visible_newest)
      show "\<forall>e \<in> set (mem_entries b ws). seq (fst e) \<le> of_nat ?n" using mem_entries_seq(2) snoc.prems(1) by simp
      show "(of_nat ?n :: u64) \<le> ?s" using snoc.prems(1) by (subst of_nat_u64_le) auto
    qed
    also have "\<dots> = last_write ws key" using snoc.IH [of ?n] snoc.prems(1) by simp
    finally show ?thesis
      unfolding mem_entries_snoc w op_entry_def True prod.case step
      by (simp add: last_write_snoc)
  next
    case False
    then have i: "i \<le> ?n" and "\<not> ?s \<le> of_nat i" using snoc.prems by (auto simp: of_nat_u64_le simp del: of_nat_Suc)
    then show ?thesis
      using snoc.IH [of i] snoc.prems(1)
      unfolding mem_entries_snoc w op_entry_def prod.case step by simp
  qed
qed

lemma apply_all_snoc:
  "apply_all draws (ws @ [(t, key, v)]) mt =
     bind_res (apply_all draws ws mt) (mt_apply (draws (length ws)) t (of_nat (Suc (length ws))) key v)"
  by (simp add: apply_all_def enumerate_append_eq)

lemma apply_all_rep:
  assumes "length ws < 2 ^ 63"
  shows "\<exists>mt. apply_all draws ws memtable_new = Inr mt \<and> mt_rep mt (mem_entries 0 ws) \<and> mt_seq mt = of_nat (length ws)"
  using assms
proof (induction ws rule: rev_induct)
  case Nil
  show ?case by (simp add: apply_all_def) (simp add: memtable_new_def)
next
  case (snoc w ws)
  obtain t key v where w: "w = (t, key, v)" by (cases w)
  obtain mt where mt: "apply_all draws ws memtable_new = Inr mt" "mt_rep mt (mem_entries 0 ws)"
    "mt_seq mt = of_nat (0 + length ws)"
    using snoc by auto
  then show ?case
    using mt_rep_write [OF mt(2,3), of "draws (length ws)" t key v] snoc.prems
    by (auto simp: w apply_all_snoc)
qed

text \<open>C20: After any sequence of puts and deletes a memtable answers a lookup at any snapshot with the newest write of
  the key among the writes up to that snapshot, deletion markers included, whatever the random heights:
  later writes never disturb an older snapshot.\<close>

theorem memtable_snapshot_reads:
  assumes "length ws < 2 ^ 63" and "i \<le> length ws"
  shows "\<exists>mt. apply_all draws ws memtable_new = Inr mt \<and>
    mt_get_entry mt key (of_nat i) = Inr (last_write (take i ws) key)"
  using apply_all_rep [OF assms(1), of draws] assms mt_rep_get_entry visible_mem_entries [of 0 ws i key] by fastforce

theorem memtable_snapshot_reads_witness:
  "\<exists>mt. apply_all (\<lambda>_ _. 0) [(Put, [1], [7]), (Put, [2], [5]), (Delete, [1], [])] memtable_new = Inr mt \<and>
     mt_get_entry mt [1] (of_nat 2) = Inr (Some (Put, [7]))"
  using memtable_snapshot_reads [of "[(Put, [1], [7]), (Put, [2], [5]), (Delete, [1], [])]" 2 "\<lambda>_ _. 0" "[1]"]
  by (simp add: last_write_def)

text \<open>C19: Flushing a memtable gives a table that answers every lookup at every snapshot as the memtable does, and the
  flush reports the number of entries and the smallest and largest key of the memtable, whose entries \<open>es\<close> are in
  ascending order and within \<open>table_limits\<close> (below 4 GiB, filter below 512 MiB).\<close>

theorem flush_preserves_lookups:
  assumes "mt_rep mt es" and "table_limits block_target bits_per_key es"
  shows "\<exists>bs tr. mt_flush block_target bits_per_key mt = Inr (bs,
      \<lparr>fr_num_entries = of_nat (length es), fr_smallest = (if es = [] then None else Some (fst (hd es))),
       fr_largest = (if es = [] then None else Some (fst (last es)))\<rparr>) \<and>
    table_open bs = Inr tr \<and>
    (\<forall>key snapshot. table_get_entry tr key snapshot = mt_get_entry mt key snapshot)"
  using mt_rep_flush [OF assms] mt_rep_get_entry [OF assms(1)] table_rep_get_entry by fastforce

text \<open>A key written twice, another one, and a deletion: four entries, from the newest version of \<open>[1]\<close> to \<open>[3]\<close>.\<close>

theorem flush_preserves_lookups_witness:
  "\<exists>mt bs tr. apply_all (\<lambda>_ _. 0) [(Put, [1], [7]), (Put, [3], [5]), (Put, [1], [8]), (Delete, [2], [])] memtable_new = Inr mt \<and>
    mt_flush 64 10 mt = Inr (bs, \<lparr>fr_num_entries = 4, fr_smallest = Some (InternalKey [1] 3 Put),
      fr_largest = Some (InternalKey [3] 2 Put)\<rparr>) \<and>
    table_open bs = Inr tr \<and> table_get_entry tr [1] 1 = Inr (Some (Put, [7])) \<and>
    table_get_entry tr [1] 4 = Inr (Some (Put, [8])) \<and> table_get_entry tr [2] 4 = Inr (Some (Delete, [])) \<and>
    table_get_entry tr [2] 3 = Inr None"
proof -
  let ?ws = "[(Put, [1], [7]), (Put, [3], [5]), (Put, [1], [8]), (Delete, [2], [])]"
  obtain mt where mt: "apply_all (\<lambda>_ _. 0) ?ws memtable_new = Inr mt" "mt_rep mt (mem_entries 0 ?ws)"
    using apply_all_rep [of ?ws "\<lambda>_ _. 0"] by auto
  have es: "mem_entries 0 ?ws = [(InternalKey [1] 3 Put, [8]), (InternalKey [1] 1 Put, [7]), (InternalKey [2] 4 Delete, []),
      (InternalKey [3] 2 Put, [5])]"
    by (simp add: mem_entries_def op_entry_def less_eq_internal_key_def internal_key_ord_def cmp_def)
  have lim: "table_limits 64 10 (mem_entries 0 ?ws)" by (simp add: es table_limits_def filter_size_def div_ceil_def)
  obtain bs tr where t: "mt_flush 64 10 mt = Inr (bs, \<lparr>fr_num_entries = 4, fr_smallest = Some (InternalKey [1] 3 Put),
      fr_largest = Some (InternalKey [3] 2 Put)\<rparr>)" "table_open bs = Inr tr"
    "\<forall>key snapshot. table_get_entry tr key snapshot = mt_get_entry mt key snapshot"
    using flush_preserves_lookups [OF mt(2) lim] by (auto simp: es)
  have "mt_get_entry mt key snapshot = Inr (visible (mem_entries 0 ?ws) key snapshot)" for key snapshot
    by (rule mt_rep_get_entry [OF mt(2)])
  then have get: "table_get_entry tr key snapshot = Inr (visible (mem_entries 0 ?ws) key snapshot)" for key snapshot
    using t(3) by simp
  have "visible (mem_entries 0 ?ws) [1] 1 = Some (Put, [7])" "visible (mem_entries 0 ?ws) [1] 4 = Some (Put, [8])"
    "visible (mem_entries 0 ?ws) [2] 4 = Some (Delete, [])" "visible (mem_entries 0 ?ws) [2] 3 = None"
    by (simp_all add: es visible_def word_le_nat_alt)
  then show ?thesis using mt(1) t(1,2) unfolding get [symmetric] by (metis get)
qed

end
