(* ===== verification/Iterators.thy ===== *)
theory Iterators
  imports Table "HOL-Library.Multiset"
begin

text \<open>
  \<^verbatim>\<open>src/src/iterator.rs\<close>: the iterators over internal keys, their merge through a min-heap, and the user
  iterator, which shows for every user key the newest version a snapshot sees and skips deletion
  markers. The heap of the standard library is used through its contract \<open>min_heap\<close> only.
\<close>

section \<open>Sources\<close>

text \<open>
  \<open>Box<dyn LsmIterator>\<close>: the program merges \<open>VecIterator\<close>s and \<open>TableIter\<close>s. Reading a table may panic on
  a handle that overflows, so a step has a result.
\<close>

type_synonym kv = "bytes \<times> bytes"

record vec_iter =
  vi_items :: "kv list"
  vi_pos :: nat

definition vec_iter_new :: "kv list \<Rightarrow> vec_iter" where
  "vec_iter_new items = \<lparr>vi_items = items, vi_pos = 0\<rparr>"

definition vi_peek :: "vec_iter \<Rightarrow> kv option" where
  "vi_peek it = (if vi_pos it < length (vi_items it) then Some (vi_items it ! vi_pos it) else None)"

definition vi_next :: "vec_iter \<Rightarrow> kv option \<times> vec_iter" where
  "vi_next it =
     (if vi_pos it < length (vi_items it)
      then (Some (vi_items it ! vi_pos it), it\<lparr>vi_pos := vi_pos it + 1\<rparr>) else (None, it))"

datatype lsm_iter = VecSource vec_iter | TableSource table_iter

fun li_peek :: "lsm_iter \<Rightarrow> kv option" where
  "li_peek (VecSource it) = vi_peek it"
| "li_peek (TableSource it) = ti_peek it"

fun li_next :: "lsm_iter \<Rightarrow> (kv option \<times> lsm_iter) res" where
  "li_next (VecSource it) = (let (item, it) = vi_next it in Inr (item, VecSource it))"
| "li_next (TableSource it) = bind_res (next_entry it) (\<lambda>(item, it). Inr (item, TableSource it))"

section \<open>The heap\<close>

text \<open>
  \<open>Buffered\<close> and its order. \<open>BinaryHeap<Reverse<Buffered>>\<close> promises that \<open>pop\<close> removes a smallest element and
  \<open>peek\<close> shows the one \<open>pop\<close> would remove; which of several smallest elements that is, it leaves open. Here
  the heap is the list of its elements and the first of the smallest is taken.
\<close>

record buffered =
  bf_key :: bytes
  bf_value :: bytes
  bf_src :: nat

definition buffered_cmp :: "buffered \<Rightarrow> buffered \<Rightarrow> ordering" where
  "buffered_cmp a b = internal_key_cmp (bf_key a) (bf_key b)"

definition buffered_eq :: "buffered \<Rightarrow> buffered \<Rightarrow> bool" where
  "buffered_eq a b \<longleftrightarrow> buffered_cmp a b = Equal"

definition buffered_le :: "buffered \<Rightarrow> buffered \<Rightarrow> bool" where
  "buffered_le a b \<longleftrightarrow> buffered_cmp a b \<noteq> Greater"

locale min_heap =
  fixes le :: "'a \<Rightarrow> 'a \<Rightarrow> bool"
    and empty :: "'h"
    and push :: "'a \<Rightarrow> 'h \<Rightarrow> 'h"
    and pop :: "'h \<Rightarrow> ('a \<times> 'h) option"
    and elems :: "'h \<Rightarrow> 'a multiset"
  assumes elems_empty: "elems empty = {#}"
    and elems_push: "elems (push x h) = add_mset x (elems h)"
    and pop_empty: "pop h = None \<longleftrightarrow> elems h = {#}"
    and pop_elems: "pop h = Some (x, h') \<Longrightarrow> elems h = add_mset x (elems h')"
    and pop_least: "pop h = Some (x, h') \<Longrightarrow> y \<in># elems h \<Longrightarrow> le x y"
begin

lemma pop_nonempty: "elems h \<noteq> {#} \<Longrightarrow> \<exists>x h'. pop h = Some (x, h')"
  using pop_empty [of h] by (cases "pop h") auto

lemma pop_size: "pop h = Some (x, h') \<Longrightarrow> size (elems h) = Suc (size (elems h'))"
  by (simp add: pop_elems)

end

definition heap_push :: "buffered \<Rightarrow> buffered list \<Rightarrow> buffered list" where
  "heap_push b h = h @ [b]"

fun heap_min :: "buffered \<Rightarrow> buffered list \<Rightarrow> buffered" where
  "heap_min b [] = b"
| "heap_min b (c # cs) = heap_min (if buffered_le b c then b else c) cs"

fun heap_pop :: "buffered list \<Rightarrow> (buffered \<times> buffered list) option" where
  "heap_pop [] = None"
| "heap_pop (b # bs) = (let m = heap_min b bs in Some (m, remove1 m (b # bs)))"

definition heap_peek :: "buffered list \<Rightarrow> buffered option" where
  "heap_peek h = map_option fst (heap_pop h)"

lemma buffered_le_refl: "buffered_le a a"
  by (simp add: buffered_le_def buffered_cmp_def internal_order.kcmp_refl)

lemma buffered_le_trans: "buffered_le a b \<Longrightarrow> buffered_le b c \<Longrightarrow> buffered_le a c"
  unfolding buffered_le_def buffered_cmp_def by (rule internal_order.kcmp_trans)

lemma buffered_le_linear: "\<not> buffered_le a b \<Longrightarrow> buffered_le b a"
  unfolding buffered_le_def buffered_cmp_def
  using internal_order.greater_less [of "bf_key a" "bf_key b"] by simp

lemma heap_min_in: "heap_min b bs \<in> set (b # bs)"
proof (induction bs arbitrary: b)
  case (Cons c cs)
  show ?case using Cons.IH [of "if buffered_le b c then b else c"] by auto
qed simp

lemma heap_min_le: "c \<in> set (b # bs) \<Longrightarrow> buffered_le (heap_min b bs) c"
proof (induction bs arbitrary: b c)
  case Nil
  then show ?case by (simp add: buffered_le_refl)
next
  case (Cons d bs)
  let ?m = "if buffered_le b d then b else d"
  have m: "buffered_le (heap_min ?m bs) ?m" by (rule Cons.IH) simp
  have "buffered_le ?m b" "buffered_le ?m d"
    using buffered_le_refl buffered_le_linear [of b d] by auto
  then have "buffered_le (heap_min ?m bs) b" "buffered_le (heap_min ?m bs) d"
    using buffered_le_trans [OF m] by blast+
  moreover have "buffered_le (heap_min ?m bs) c" if "c \<in> set bs"
    by (rule Cons.IH) (use that in simp)
  ultimately show ?case using Cons.prems by auto
qed

interpretation bin_heap: min_heap buffered_le "[]" heap_push heap_pop mset
proof
  fix x y :: buffered and h h' :: "buffered list"
  show "mset [] = {#}" by simp
  show "mset (heap_push x h) = add_mset x (mset h)" by (simp add: heap_push_def)
  show "heap_pop h = None \<longleftrightarrow> mset h = {#}" by (cases h) (auto simp: Let_def)
  show "mset h = add_mset x (mset h')" if "heap_pop h = Some (x, h')"
  proof (cases h)
    case (Cons b bs)
    then have "x = heap_min b bs" "h' = remove1 x h" using that by (auto simp: Let_def)
    moreover have "x \<in> set h" using calculation heap_min_in [of b bs] Cons by simp
    ultimately show ?thesis by simp
  qed (use that in simp)
  show "buffered_le x y" if "heap_pop h = Some (x, h')" "y \<in># mset h"
    using that heap_min_le by (cases h) (auto simp: Let_def)
qed

section \<open>Merging\<close>

record merger =
  mg_iters :: "lsm_iter list"
  mg_heap :: "buffered list"

text \<open>Advance source \<open>src\<close> and put its next entry, if there is one, into the heap.\<close>

definition refill :: "nat \<Rightarrow> merger \<Rightarrow> merger res" where
  "refill src m =
     (if src < length (mg_iters m) then
        bind_res (li_next (mg_iters m ! src)) (\<lambda>(item, it).
          let m = m\<lparr>mg_iters := (mg_iters m)[src := it]\<rparr> in
          case item of
            None \<Rightarrow> Inr m
          | Some (k, v) \<Rightarrow>
              Inr (m\<lparr>mg_heap := heap_push \<lparr>bf_key = k, bf_value = v, bf_src = src\<rparr> (mg_heap m)\<rparr>))
      else Inl (Panicked ''index out of bounds''))"

primrec refill_all :: "nat list \<Rightarrow> merger \<Rightarrow> merger res" where
  "refill_all [] m = Inr m"
| "refill_all (src # srcs) m = bind_res (refill src m) (refill_all srcs)"

definition merger_new :: "lsm_iter list \<Rightarrow> merger res" where
  "merger_new iters = refill_all [0..<length iters] \<lparr>mg_iters = iters, mg_heap = []\<rparr>"

definition merger_peek :: "merger \<Rightarrow> kv option" where
  "merger_peek m = map_option (\<lambda>b. (bf_key b, bf_value b)) (heap_peek (mg_heap m))"

definition merger_next :: "merger \<Rightarrow> (kv option \<times> merger) res" where
  "merger_next m =
     (case heap_pop (mg_heap m) of
        None \<Rightarrow> Inr (None, m)
      | Some (b, h) \<Rightarrow>
          bind_res (refill (bf_src b) (m\<lparr>mg_heap := h\<rparr>)) (\<lambda>m. Inr (Some (bf_key b, bf_value b), m)))"

text \<open>The entries still to come bound the loops over a merger.\<close>

function ti_count :: "table_iter \<Rightarrow> nat" where
  "ti_count ti = (case next_entry ti of Inr (Some _, ti') \<Rightarrow> Suc (ti_count ti') | _ \<Rightarrow> 0)"
  by pat_completeness auto
termination
  by (relation "measures [\<lambda>ti. length (ti_handles ti) - ti_handle_idx ti,
        \<lambda>ti. length (ti_current ti) - ti_current_pos ti]")
     (auto dest!: next_entry_progress)

declare ti_count.simps [simp del]

fun li_count :: "lsm_iter \<Rightarrow> nat" where
  "li_count (VecSource it) = length (vi_items it) - vi_pos it"
| "li_count (TableSource it) = ti_count it"

definition merger_size :: "merger \<Rightarrow> nat" where
  "merger_size m = length (mg_heap m) + sum_list (map li_count (mg_iters m))"

lemma li_next_count: "li_next it = Inr (item, it') \<Longrightarrow> item \<noteq> None \<Longrightarrow> li_count it = Suc (li_count it')"
  by (cases it)
     (auto simp: vi_next_def Let_def bind_res_eq_Inr ti_count.simps [of "_ :: table_iter"] split: if_splits prod.splits)

lemma advance_end:
  "advance_to_next_block ti = Inr (False, ti') \<Longrightarrow>
   \<not> ti_handle_idx ti' < length (ti_handles ti') \<and> ti_current ti' = []"
proof (induction ti rule: advance_to_next_block.induct)
  case (1 ti)
  let ?h = "ti_handles ti ! ti_handle_idx ti" and ?t = "ti\<lparr>ti_handle_idx := ti_handle_idx ti + 1\<rparr>"
  show ?case
  proof (cases "ti_handle_idx ti < length (ti_handles ti)")
    case True
    with 1(2) obtain stop where stop: "usize_add (unat (bh_offset ?h)) (unat (bh_size ?h)) = Inr stop"
      by (subst (asm) advance_to_next_block.simps) (auto simp: Let_def bind_res_eq_Inr)
    let ?o = "Option.bind (get_range (ti_data ti) (unat (bh_offset ?h)) stop) (\<lambda>bs. ok_opt (block_new bs))"
    have none: "?o = None"
      using 1(2) True stop by (subst (asm) advance_to_next_block.simps) (simp add: Let_def split: option.splits)
    then have "advance_to_next_block ?t = Inr (False, ti')"
      using 1(2) True stop by (subst (asm) advance_to_next_block.simps) (simp add: Let_def)
    with 1(1) [OF True refl refl refl stop none] show ?thesis by blast
  next
    case False
    then have "ti' = ti\<lparr>ti_current := []\<rparr>"
      using 1(2) by (subst (asm) advance_to_next_block.simps) simp
    then show ?thesis using False by simp
  qed
qed

lemma next_entry_end: "next_entry ti = Inr (None, ti') \<Longrightarrow> ti_count ti' = 0"
proof (induction ti rule: next_entry.induct)
  case (1 ti)
  then have pos: "\<not> ti_current_pos ti < length (ti_current ti)"
    by (subst (asm) next_entry.simps) (simp split: if_splits)
  then obtain more t where adv: "advance_to_next_block ti = Inr (more, t)"
    using 1(2) by (subst (asm) next_entry.simps) (auto simp: bind_res_eq_Inr)
  show ?case
  proof (cases more)
    case True
    have "next_entry t = Inr (None, ti')"
      using 1(2) pos adv True by (subst (asm) next_entry.simps) simp
    from 1(1) [OF pos adv refl _ this] True show ?thesis by simp
  next
    case False
    then have "ti' = t" using 1(2) pos adv by (subst (asm) next_entry.simps) simp
    moreover from advance_end [of ti t] adv False
    have "\<not> ti_handle_idx t < length (ti_handles t)" "ti_current t = []" by auto
    ultimately show ?thesis
      by (subst ti_count.simps, subst next_entry.simps) (simp add: advance_to_next_block.simps [of t])
  qed
qed

lemma li_next_end_count: "li_next it = Inr (None, it') \<Longrightarrow> li_count it' \<le> li_count it"
  by (cases it) (auto simp: vi_next_def Let_def bind_res_eq_Inr next_entry_end split: if_splits)

lemma sum_list_update_Suc:
  "i < length xs \<Longrightarrow> xs ! i = y + k \<Longrightarrow> sum_list (xs[i := y]) + k = sum_list (xs :: nat list)"
  by (induction xs arbitrary: i) (auto split: nat.splits)

lemma refill_size:
  assumes "refill src m = Inr m'"
  shows "merger_size m' \<le> merger_size m"
proof -
  obtain item it where src: "src < length (mg_iters m)" and nx: "li_next (mg_iters m ! src) = Inr (item, it)"
    using assms by (auto simp: refill_def bind_res_eq_Inr split: if_splits)
  have upd: "mg_iters m' = (mg_iters m)[src := it]"
    using assms src nx by (auto simp: refill_def Let_def split: option.splits prod.splits)
  show ?thesis
  proof (cases item)
    case None
    have "li_count it \<le> li_count (mg_iters m ! src)" using nx None li_next_end_count by blast
    then obtain k where "li_count (mg_iters m ! src) = li_count it + k" using le_Suc_ex by blast
    then have "sum_list ((map li_count (mg_iters m))[src := li_count it]) + k = sum_list (map li_count (mg_iters m))"
      using src by (intro sum_list_update_Suc) auto
    then show ?thesis
      using assms src nx None by (auto simp: refill_def Let_def merger_size_def map_update)
  next
    case (Some kv)
    then have "li_count (mg_iters m ! src) = li_count it + 1" using li_next_count [OF nx] by simp
    then have "sum_list ((map li_count (mg_iters m))[src := li_count it]) + 1 = sum_list (map li_count (mg_iters m))"
      using src by (intro sum_list_update_Suc) auto
    then show ?thesis
      using assms src nx Some
      by (auto simp: refill_def Let_def merger_size_def map_update heap_push_def split: prod.splits)
  qed
qed

lemma merger_next_size: "merger_next m = Inr (Some e, m') \<Longrightarrow> merger_size m' < merger_size m"
proof -
  assume a: "merger_next m = Inr (Some e, m')"
  then obtain b h where pop: "heap_pop (mg_heap m) = Some (b, h)" and re: "refill (bf_src b) (m\<lparr>mg_heap := h\<rparr>) = Inr m'"
    by (auto simp: merger_next_def bind_res_eq_Inr split: option.splits)
  have "length (mg_heap m) = Suc (length h)" using bin_heap.pop_size [OF pop] by simp
  then show ?thesis using refill_size [OF re] by (simp add: merger_size_def)
qed

lemma merger_peek_next: "merger_peek m = Some e \<Longrightarrow> merger_next m = Inr (item, m') \<Longrightarrow> item = Some e"
  by (auto simp: merger_peek_def merger_next_def heap_peek_def bind_res_eq_Inr split: option.splits)

lemma merger_peek_none: "merger_peek m = None \<longleftrightarrow> merger_next m = Inr (None, m)"
  by (auto simp: merger_peek_def merger_next_def heap_peek_def bind_res_eq_Inr split: option.splits)

text \<open>The merger run to its end.\<close>

function merger_collect :: "merger \<Rightarrow> kv list res" where
  "merger_collect m =
     bind_res (merger_next m) (\<lambda>(item, m').
       case item of None \<Rightarrow> Inr [] | Some e \<Rightarrow> bind_res (merger_collect m') (\<lambda>rest. Inr (e # rest)))"
  by pat_completeness auto
termination by (relation "measure merger_size") (auto dest!: merger_next_size)

declare merger_collect.simps [simp del]

section \<open>The user iterator\<close>

record db_iter =
  di_inner :: merger
  di_snapshot_seq :: u64
  di_pending :: "kv option"

text \<open>The loop of \<open>advance\<close> that skips the older versions of a user key.\<close>

function skip_same :: "bytes \<Rightarrow> merger \<Rightarrow> merger res" where
  "skip_same uk m =
     (case merger_peek m of
        None \<Rightarrow> Inr m
      | Some (peek_key, _) \<Rightarrow>
          if user_key_of_internal_key peek_key = uk
          then bind_res (merger_next m) (\<lambda>(_, m'). skip_same uk m')
          else Inr m)"
  by pat_completeness auto
termination
  by (relation "measure (\<lambda>(uk, m). merger_size m)")
     (auto dest: merger_peek_next dest!: merger_next_size)

declare skip_same.simps [simp del]

lemma skip_same_size: "skip_same uk m = Inr m' \<Longrightarrow> merger_size m' \<le> merger_size m"
proof (induction uk m rule: skip_same.induct)
  case (1 uk m)
  show ?case
  proof (cases "merger_peek m")
    case None
    then show ?thesis using 1(2) by (subst (asm) skip_same.simps) simp
  next
    case (Some e)
    obtain k v where e: "e = (k, v)" by (cases e)
    show ?thesis
    proof (cases "user_key_of_internal_key k = uk")
      case True
      then obtain item m1 where m1: "merger_next m = Inr (item, m1)" "skip_same uk m1 = Inr m'"
        using 1(2) Some e by (subst (asm) skip_same.simps) (auto simp: bind_res_eq_Inr)
      have "merger_size m1 < merger_size m"
        using merger_peek_next [OF Some m1(1)] m1(1) merger_next_size by blast
      moreover have "merger_size m' \<le> merger_size m1"
        using 1(1) Some e True m1 by blast
      ultimately show ?thesis by simp
    next
      case False
      then show ?thesis using 1(2) Some e by (subst (asm) skip_same.simps) simp
    qed
  qed
qed

text \<open>The outer loop of \<open>advance\<close>: the next visible pair, and the merger behind it.\<close>

function advance_loop :: "u64 \<Rightarrow> merger \<Rightarrow> (kv option \<times> merger) res" where
  "advance_loop snapshot_seq m =
     bind_res (merger_next m) (\<lambda>(item, m').
       case item of
         None \<Rightarrow> Inr (None, m')
       | Some (ik_bytes, v) \<Rightarrow>
           (case seq_of_internal_key ik_bytes of
              None \<Rightarrow> advance_loop snapshot_seq m'
            | Some s \<Rightarrow>
                if snapshot_seq < s then advance_loop snapshot_seq m'
                else
                  (case vtype_of_internal_key ik_bytes of
                     None \<Rightarrow> advance_loop snapshot_seq m'
                   | Some t \<Rightarrow>
                       let uk = user_key_of_internal_key ik_bytes in
                       bind_res (skip_same uk m') (\<lambda>m''.
                         case t of
                           Put \<Rightarrow> Inr (Some (uk, v), m'')
                         | Delete \<Rightarrow> advance_loop snapshot_seq m''))))"
  by pat_completeness auto
termination
  by (relation "measure (\<lambda>(s, m). merger_size m)")
     (auto dest!: merger_next_size skip_same_size)

declare advance_loop.simps [simp del]

definition di_advance :: "db_iter \<Rightarrow> db_iter res" where
  "di_advance it =
     bind_res (advance_loop (di_snapshot_seq it) (di_inner it)) (\<lambda>(pending, inner).
       Inr (it\<lparr>di_inner := inner, di_pending := pending\<rparr>))"

definition db_iter_new :: "merger \<Rightarrow> u64 \<Rightarrow> db_iter res" where
  "db_iter_new inner snapshot_seq =
     di_advance \<lparr>di_inner = inner, di_snapshot_seq = snapshot_seq, di_pending = None\<rparr>"

definition parse_internal_key :: "bytes \<Rightarrow> internal_key option" where
  "parse_internal_key bs = (case ik_decode bs of Inr k \<Rightarrow> Some k | Inl _ \<Rightarrow> None)"

lemma parse_internal_key_encode [simp]: "parse_internal_key (ik_encode k) = Some k"
  by (simp add: parse_internal_key_def)

definition di_peek :: "db_iter \<Rightarrow> kv option" where
  "di_peek it = di_pending it"

definition di_next :: "db_iter \<Rightarrow> (kv option \<times> db_iter) res" where
  "di_next it =
     (case di_pending it of
        None \<Rightarrow> Inr (None, it)
      | Some item \<Rightarrow> bind_res (di_advance (it\<lparr>di_pending := None\<rparr>)) (\<lambda>it'. Inr (Some item, it')))"

lemma advance_loop_size: "advance_loop s m = Inr (Some e, m') \<Longrightarrow> merger_size m' < merger_size m"
proof (induction "merger_size m" arbitrary: m rule: less_induct)
  case less
  note run = less.prems
  obtain item m1 where m1: "merger_next m = Inr (item, m1)"
    using run by (subst (asm) advance_loop.simps) (auto simp: bind_res_eq_Inr)
  then obtain ik v where item: "item = Some (ik, v)"
    using run by (subst (asm) advance_loop.simps) (cases item, auto)
  have smaller: "merger_size m1 < merger_size m" using m1 item merger_next_size by blast
  have rec: "merger_size m' < merger_size m1" if "advance_loop s m1 = Inr (Some e, m')"
    by (rule less.hyps [OF smaller that])
  show ?case
  proof (cases "seq_of_internal_key ik")
    case None
    then have "advance_loop s m1 = Inr (Some e, m')"
      using run m1 item by (subst (asm) advance_loop.simps) simp
    then show ?thesis using rec smaller by simp
  next
    case (Some q)
    show ?thesis
    proof (cases "s < q \<or> vtype_of_internal_key ik = None")
      case True
      then have "advance_loop s m1 = Inr (Some e, m')"
        using run m1 item Some by (subst (asm) advance_loop.simps) (auto split: if_splits)
      then show ?thesis using rec smaller by simp
    next
      case False
      then obtain t where t: "vtype_of_internal_key ik = Some t" "\<not> s < q" by blast
      obtain m2 where m2: "skip_same (user_key_of_internal_key ik) m1 = Inr m2"
        using run m1 item Some t by (subst (asm) advance_loop.simps) (auto simp: bind_res_eq_Inr Let_def)
      have le: "merger_size m2 \<le> merger_size m1" by (rule skip_same_size [OF m2])
      show ?thesis
      proof (cases t)
        case Put
        then have "m' = m2" using run m1 item Some t m2 by (subst (asm) advance_loop.simps) (simp add: Let_def)
        then show ?thesis using le smaller by simp
      next
        case Delete
        then have "advance_loop s m2 = Inr (Some e, m')"
          using run m1 item Some t m2 by (subst (asm) advance_loop.simps) (simp add: Let_def)
        then have "merger_size m' < merger_size m2"
          using less.hyps [of m2] le smaller by simp
        then show ?thesis using le smaller by simp
      qed
    qed
  qed
qed

definition di_size :: "db_iter \<Rightarrow> nat" where
  "di_size it = (case di_pending it of None \<Rightarrow> 0 | Some _ \<Rightarrow> Suc (merger_size (di_inner it)))"

lemma di_next_size: "di_next it = Inr (Some e, it') \<Longrightarrow> di_size it' < di_size it"
  by (auto simp: di_next_def di_advance_def di_size_def bind_res_eq_Inr split: option.splits
      dest!: advance_loop_size)

text \<open>The user iterator run to its end.\<close>

function di_collect :: "db_iter \<Rightarrow> kv list res" where
  "di_collect it =
     bind_res (di_next it) (\<lambda>(item, it').
       case item of None \<Rightarrow> Inr [] | Some e \<Rightarrow> bind_res (di_collect it') (\<lambda>rest. Inr (e # rest)))"
  by pat_completeness auto
termination by (relation "measure di_size") (auto dest!: di_next_size)

declare di_collect.simps [simp del]

text \<open>The loop of a caller, cut off after \<open>n\<close> calls of \<open>next\<close>: \<open>None\<close> when it has not seen the end by then.\<close>

primrec scan_loop :: "nat \<Rightarrow> db_iter \<Rightarrow> kv list res option" where
  "scan_loop 0 it = None"
| "scan_loop (Suc n) it =
     (case di_next it of
        Inl e \<Rightarrow> Some (Inl e)
      | Inr (None, _) \<Rightarrow> Some (Inr [])
      | Inr (Some e, it') \<Rightarrow> map_option (\<lambda>r. bind_res r (\<lambda>rest. Inr (e # rest))) (scan_loop n it'))"

lemma scan_loop_enough: "di_size it < n \<Longrightarrow> scan_loop n it = Some (di_collect it)"
proof (induction n arbitrary: it)
  case (Suc n)
  show ?case
  proof (cases "di_next it")
    case (Inl e)
    then show ?thesis by (subst di_collect.simps) simp
  next
    case (Inr p)
    obtain item it' where p: "p = (item, it')" by force
    show ?thesis
    proof (cases item)
      case None
      then show ?thesis using Inr p by (subst di_collect.simps) simp
    next
      case (Some e)
      then have "scan_loop n it' = Some (di_collect it')"
        using Suc di_next_size [of it e it'] Inr p by fastforce
      then show ?thesis using Inr p Some by (subst di_collect.simps) simp
    qed
  qed
qed simp

section \<open>The merge is the ordered union of its sources\<close>

text \<open>What a source still has to give.\<close>

fun li_rest :: "lsm_iter \<Rightarrow> kv list res" where
  "li_rest (VecSource it) = Inr (drop (vi_pos it) (vi_items it))"
| "li_rest (TableSource it) = ti_collect it"

lemma li_rest_Cons:
  assumes "li_rest it = Inr (x # xs)"
  shows "\<exists>it'. li_next it = Inr (Some x, it') \<and> li_rest it' = Inr xs"
proof (cases it)
  case (VecSource v)
  then have d: "drop (vi_pos v) (vi_items v) = x # xs" using assms by simp
  then have less: "vi_pos v < length (vi_items v)" by (metis drop_all list.distinct(1) not_le)
  then have "drop (vi_pos v) (vi_items v) = vi_items v ! vi_pos v # drop (Suc (vi_pos v)) (vi_items v)"
    by (simp add: Cons_nth_drop_Suc)
  then show ?thesis using d less VecSource by (simp add: vi_next_def)
next
  case (TableSource t)
  then have "ti_collect t = Inr (x # xs)" using assms by simp
  then show ?thesis
    using TableSource by (subst (asm) ti_collect.simps) (auto simp: bind_res_eq_Inr split: option.splits)
qed

lemma li_rest_Nil:
  assumes "li_rest it = Inr []"
  shows "\<exists>it'. li_next it = Inr (None, it')"
proof (cases it)
  case (TableSource t)
  then have "ti_collect t = Inr []" using assms by simp
  then obtain item t' where step: "next_entry t = Inr (item, t')"
    and rest: "(case item of None \<Rightarrow> Inr [] | Some kv \<Rightarrow> bind_res (ti_collect t') (\<lambda>rest. Inr (kv # rest))) = Inr []"
    by (subst (asm) ti_collect.simps) (auto simp: bind_res_eq_Inr)
  from rest have "item = None" by (cases item) (auto simp: bind_res_eq_Inr)
  then show ?thesis using step TableSource by simp
qed (use assms in \<open>simp add: vi_next_def\<close>)

text \<open>
  A merger over sources whose remaining entries are \<open>R\<close>, where the heap holds the first entry of every
  source in \<open>S\<close> that has one.
\<close>

definition head_of :: "kv list list \<Rightarrow> nat \<Rightarrow> buffered" where
  "head_of R i = \<lparr>bf_key = fst (hd (R ! i)), bf_value = snd (hd (R ! i)), bf_src = i\<rparr>"

definition loaded :: "nat set \<Rightarrow> merger \<Rightarrow> kv list list \<Rightarrow> bool" where
  "loaded S m R \<longleftrightarrow>
     length R = length (mg_iters m) \<and> S \<subseteq> {..<length R} \<and>
     mset (mg_heap m) = image_mset (head_of R) (mset_set {i \<in> S. R ! i \<noteq> []}) \<and>
     (\<forall>i < length R. if i \<in> S then R ! i \<noteq> [] \<longrightarrow> li_rest (mg_iters m ! i) = Inr (tl (R ! i))
                      else li_rest (mg_iters m ! i) = Inr (R ! i))"

lemma loaded_finite: "loaded S m R \<Longrightarrow> finite S"
  by (auto simp: loaded_def intro: finite_subset)

lemma refill_loaded:
  assumes l: "loaded S m R" and i: "i < length R" "i \<notin> S"
  shows "\<exists>m'. refill i m = Inr m' \<and> loaded (insert i S) m' R"
proof (cases "R ! i")
  case Nil
  then obtain it where it: "li_next (mg_iters m ! i) = Inr (None, it)"
    using l i li_rest_Nil [of "mg_iters m ! i"] by (auto simp: loaded_def)
  have "{j \<in> insert i S. R ! j \<noteq> []} = {j \<in> S. R ! j \<noteq> []}" using Nil by auto
  then show ?thesis
    using l i it Nil by (auto simp: refill_def loaded_def nth_list_update)
next
  case (Cons x xs)
  then obtain it where it: "li_next (mg_iters m ! i) = Inr (Some x, it)" "li_rest it = Inr xs"
    using l i li_rest_Cons [of "mg_iters m ! i" x xs] by (auto simp: loaded_def)
  have "{j \<in> insert i S. R ! j \<noteq> []} = insert i {j \<in> S. R ! j \<noteq> []}" using Cons by auto
  moreover have "finite {j \<in> S. R ! j \<noteq> []}" "i \<notin> {j \<in> S. R ! j \<noteq> []}"
    using loaded_finite [OF l] i by auto
  ultimately have "mset_set {j \<in> insert i S. R ! j \<noteq> []} = add_mset i (mset_set {j \<in> S. R ! j \<noteq> []})"
    by simp
  moreover have "head_of R i = \<lparr>bf_key = fst x, bf_value = snd x, bf_src = i\<rparr>"
    by (simp add: head_of_def Cons)
  ultimately show ?thesis
    using l i it Cons by (cases x) (auto simp: refill_def loaded_def nth_list_update heap_push_def)
qed

lemma refill_all_loaded:
  assumes "distinct is" and "loaded S m R" and "set is \<subseteq> {..<length R}" and "set is \<inter> S = {}"
  shows "\<exists>m'. refill_all is m = Inr m' \<and> loaded (S \<union> set is) m' R"
  using assms
proof (induction "is" arbitrary: S m)
  case (Cons i js)
  obtain m1 where m1: "refill i m = Inr m1" "loaded (insert i S) m1 R"
    using refill_loaded [OF Cons.prems(2), of i] Cons.prems(3,4) by auto
  have "\<exists>m'. refill_all js m1 = Inr m' \<and> loaded (insert i S \<union> set js) m' R"
    by (rule Cons.IH) (use Cons.prems m1(2) in auto)
  then show ?case using m1(1) by (simp add: insert_commute)
qed simp

definition merger_rep :: "merger \<Rightarrow> kv list list \<Rightarrow> bool" where
  "merger_rep m R \<longleftrightarrow> loaded {..<length R} m R"

lemma merger_new_rep:
  assumes "length R = length iters" and "\<forall>i < length R. li_rest (iters ! i) = Inr (R ! i)"
  shows "\<exists>m. merger_new iters = Inr m \<and> merger_rep m R"
proof -
  have "loaded {} \<lparr>mg_iters = iters, mg_heap = []\<rparr> R"
    using assms by (simp add: loaded_def)
  from refill_all_loaded [OF distinct_upt this, of 0 "length iters"] show ?thesis
    using assms(1) by (simp add: merger_new_def merger_rep_def atLeast0LessThan)
qed

definition kv_le :: "kv \<Rightarrow> kv \<Rightarrow> bool" where
  "kv_le a b \<longleftrightarrow> internal_key_cmp (fst a) (fst b) \<noteq> Greater"

lemma merger_next_rep:
  assumes rep: "merger_rep m R"
  shows "(\<forall>i < length R. R ! i = []) \<and> merger_next m = Inr (None, m) \<or>
    (\<exists>i m'. i < length R \<and> R ! i \<noteq> [] \<and> merger_next m = Inr (Some (hd (R ! i)), m') \<and>
       merger_rep m' (R[i := tl (R ! i)]) \<and> (\<forall>j < length R. R ! j \<noteq> [] \<longrightarrow> kv_le (hd (R ! i)) (hd (R ! j))))"
proof (cases "heap_pop (mg_heap m)")
  case None
  then have "mset (mg_heap m) = {#}" using bin_heap.pop_empty by blast
  moreover have "mset (mg_heap m) = image_mset (head_of R) (mset_set {i \<in> {..<length R}. R ! i \<noteq> []})"
    using rep unfolding merger_rep_def loaded_def by blast
  ultimately have "mset_set {i \<in> {..<length R}. R ! i \<noteq> []} = {#}" by simp
  then have "{i \<in> {..<length R}. R ! i \<noteq> []} = {}" by (simp add: mset_set_empty_iff)
  then show ?thesis using None by (auto simp: merger_next_def)
next
  case (Some p)
  obtain b h where pop: "heap_pop (mg_heap m) = Some (b, h)" using Some by (cases p) auto
  let ?S = "{..<length R}" and ?N = "\<lambda>S R. {i \<in> S. R ! i \<noteq> []}"
  note elems = bin_heap.pop_elems [OF pop] and least = bin_heap.pop_least [OF pop]
  have heap: "mset (mg_heap m) = image_mset (head_of R) (mset_set (?N ?S R))"
    using rep by (simp add: merger_rep_def loaded_def)
  have "b \<in># image_mset (head_of R) (mset_set (?N ?S R))" using elems heap by (metis union_single_eq_member)
  then obtain i where i: "i < length R" "R ! i \<noteq> []" "b = head_of R i" by auto
  let ?R = "R[i := tl (R ! i)]"
  have "?N ?S R = insert i (?N (?S - {i}) R)" using i by auto
  then have "mset_set (?N ?S R) = add_mset i (mset_set (?N (?S - {i}) R))" by simp
  then have h: "mset h = image_mset (head_of R) (mset_set (?N (?S - {i}) R))"
    using elems heap i(3) by simp
  also have "\<dots> = image_mset (head_of ?R) (mset_set (?N (?S - {i}) ?R))"
  proof -
    have "?N (?S - {i}) R = ?N (?S - {i}) ?R" by auto
    moreover have "image_mset (head_of R) (mset_set (?N (?S - {i}) R)) =
        image_mset (head_of ?R) (mset_set (?N (?S - {i}) R))"
      by (intro image_mset_cong) (simp add: head_of_def)
    ultimately show ?thesis by (simp only:)
  qed
  finally have "loaded (?S - {i}) (m\<lparr>mg_heap := h\<rparr>) ?R"
    using rep i(1,2) by (auto simp: merger_rep_def loaded_def nth_list_update)
  from refill_loaded [OF this, of i] obtain m' where
    m': "refill i (m\<lparr>mg_heap := h\<rparr>) = Inr m'" "loaded (insert i (?S - {i})) m' ?R"
    using i(1) by auto
  have "insert i (?S - {i}) = {..<length ?R}" using i(1) by auto
  then have "merger_rep m' ?R" using m'(2) by (simp add: merger_rep_def)
  moreover have "merger_next m = Inr (Some (hd (R ! i)), m')"
    using pop m'(1) i(3) by (simp add: merger_next_def head_of_def)
  moreover have "kv_le (hd (R ! i)) (hd (R ! j))" if "j < length R" "R ! j \<noteq> []" for j
  proof -
    have "head_of R j \<in># mset (mg_heap m)" using that heap by simp
    from least [OF this] show ?thesis
      by (simp add: i(3) buffered_le_def buffered_cmp_def kv_le_def head_of_def)
  qed
  ultimately show ?thesis using i by blast
qed

lemma mset_concat_update:
  "i < length R \<Longrightarrow> R ! i \<noteq> [] \<Longrightarrow> mset (concat R) = add_mset (hd (R ! i)) (mset (concat (R[i := tl (R ! i)])))"
proof (induction R arbitrary: i)
  case (Cons r R)
  then show ?case by (cases i; cases r) auto
qed simp

lemma set_tl: "x \<in> set (tl xs) \<Longrightarrow> x \<in> set xs"
  by (cases xs) auto

lemma merger_collect_rep:
  assumes "merger_rep m R" and "\<forall>r \<in> set R. sorted_wrt kv_le r"
  shows "\<exists>out. merger_collect m = Inr out \<and> mset out = mset (concat R) \<and> sorted_wrt kv_le out"
  using assms
proof (induction "length (concat R)" arbitrary: m R)
  case 0
  then have "R ! i = []" if "i < length R" for i using that by (metis length_0_conv concat_eq_Nil_conv nth_mem)
  then have "merger_next m = Inr (None, m)" using merger_next_rep [OF 0(2)] by auto
  then show ?case using 0 by (subst merger_collect.simps) simp
next
  case (Suc n)
  have "\<exists>i < length R. R ! i \<noteq> []" using Suc(2) by (metis concat_eq_Nil_conv in_set_conv_nth length_0_conv nat.distinct(1))
  then obtain i m' where i: "i < length R" "R ! i \<noteq> []" "merger_next m = Inr (Some (hd (R ! i)), m')"
    "merger_rep m' (R[i := tl (R ! i)])" and least: "\<forall>j < length R. R ! j \<noteq> [] \<longrightarrow> kv_le (hd (R ! i)) (hd (R ! j))"
    using merger_next_rep [OF Suc(3)] by auto
  let ?R = "R[i := tl (R ! i)]"
  note ms = mset_concat_update [OF i(1,2)]
  have "size (mset (concat R)) = Suc (size (mset (concat ?R)))" unfolding ms by (rule size_add_mset)
  then have "length (concat R) = Suc (length (concat ?R))" by (simp only: size_mset)
  then have n: "n = length (concat ?R)" using Suc(2) by simp
  have sorted_tl: "sorted_wrt kv_le (tl r)" if "sorted_wrt kv_le r" for r using that by (cases r) auto
  have "\<forall>r \<in> set ?R. sorted_wrt kv_le r"
  proof
    fix r assume "r \<in> set ?R"
    then consider "r = tl (R ! i)" | "r \<in> set R" using set_update_subset_insert [of R i "tl (R ! i)"] by blast
    then show "sorted_wrt kv_le r"
      using Suc(4) nth_mem [OF i(1)] by cases (auto intro: sorted_tl)
  qed
  then obtain out where out: "merger_collect m' = Inr out" "mset out = mset (concat ?R)" "sorted_wrt kv_le out"
    using Suc(1) [OF n i(4)] by blast
  have head_le: "kv_le (hd (R ! i)) e" if e: "e \<in> set out" for e
  proof -
    have "e \<in> set (concat ?R)" using e out(2) by (metis set_mset_mset)
    then obtain r where "r \<in> set ?R" "e \<in> set r" by auto
    then obtain j where j: "j < length R" "e \<in> set (?R ! j)" by (auto simp: in_set_conv_nth)
    then have e: "e \<in> set (R ! j)" using set_tl by (cases "j = i") auto
    then have "R ! j \<noteq> []" by auto
    moreover have "kv_le (hd (R ! j)) e"
    proof (cases "R ! j")
      case (Cons x xs)
      have "sorted_wrt kv_le (R ! j)" using Suc(4) j(1) by simp
      then show ?thesis
        using Cons e by (auto simp: kv_le_def internal_order.kcmp_refl)
    qed (use e in simp)
    ultimately show ?thesis
      using least j(1) internal_order.kcmp_trans unfolding kv_le_def by blast
  qed
  show ?case
    using i(3) out ms head_le by (subst merger_collect.simps) simp
qed

section \<open>What the user iterator shows\<close>

text \<open>The scan as a function of the merged entries.\<close>

function scan_list :: "u64 \<Rightarrow> kv list \<Rightarrow> kv list" where
  "scan_list snapshot [] = []"
| "scan_list snapshot ((ik, v) # xs) =
     (case (seq_of_internal_key ik, vtype_of_internal_key ik) of
        (Some s, Some t) \<Rightarrow>
          if snapshot < s then scan_list snapshot xs
          else
            let uk = user_key_of_internal_key ik;
                rest = scan_list snapshot (dropWhile (\<lambda>(k, _). user_key_of_internal_key k = uk) xs)
            in (case t of Put \<Rightarrow> (uk, v) # rest | Delete \<Rightarrow> rest)
      | _ \<Rightarrow> scan_list snapshot xs)"
  by pat_completeness auto
termination
  by (relation "measure (\<lambda>(s, xs). length xs)") (auto simp: length_dropWhile_le le_imp_less_Suc)

lemma stream_Nil: "merger_collect m = Inr [] \<Longrightarrow> merger_next m = Inr (None, m)"
proof -
  assume "merger_collect m = Inr []"
  then obtain item m' where step: "merger_next m = Inr (item, m')"
    and rest: "(case item of None \<Rightarrow> Inr [] | Some e \<Rightarrow> bind_res (merger_collect m') (\<lambda>rest. Inr (e # rest))) = Inr []"
    by (subst (asm) merger_collect.simps) (auto simp: bind_res_eq_Inr)
  from rest have "item = None" by (cases item) (auto simp: bind_res_eq_Inr)
  then show ?thesis
    using step merger_peek_none [of m] merger_peek_next [of m] by (cases "merger_peek m") auto
qed

lemma stream_Cons:
  assumes "merger_collect m = Inr (x # xs)"
  shows "\<exists>m'. merger_next m = Inr (Some x, m') \<and> merger_collect m' = Inr xs"
proof -
  obtain item m' where step: "merger_next m = Inr (item, m')"
    and rest: "(case item of None \<Rightarrow> Inr [] | Some e \<Rightarrow> bind_res (merger_collect m') (\<lambda>rest. Inr (e # rest))) = Inr (x # xs)"
    using assms by (subst (asm) merger_collect.simps) (auto simp: bind_res_eq_Inr)
  from rest show ?thesis using step by (cases item) (auto simp: bind_res_eq_Inr)
qed

lemma stream_peek:
  assumes "merger_collect m = Inr xs"
  shows "merger_peek m = (case xs of [] \<Rightarrow> None | x # _ \<Rightarrow> Some x)"
proof (cases xs)
  case Nil
  then show ?thesis using stream_Nil assms merger_peek_none by auto
next
  case (Cons x ys)
  then obtain m' where m': "merger_next m = Inr (Some x, m')" using stream_Cons assms by blast
  then obtain e where "merger_peek m = Some e" using merger_peek_none [of m] by (cases "merger_peek m") auto
  then show ?thesis using merger_peek_next [OF _ m'] Cons by auto
qed

lemma skip_same_stream:
  "merger_collect m = Inr xs \<Longrightarrow>
   \<exists>m'. skip_same uk m = Inr m' \<and>
     merger_collect m' = Inr (dropWhile (\<lambda>(k, _). user_key_of_internal_key k = uk) xs)"
proof (induction xs arbitrary: m)
  case Nil
  then show ?case using stream_peek [OF Nil] by (subst skip_same.simps) simp
next
  case (Cons x xs)
  obtain k v where x: "x = (k, v)" by (cases x)
  obtain m1 where m1: "merger_next m = Inr (Some x, m1)" "merger_collect m1 = Inr xs"
    using stream_Cons [OF Cons.prems] by blast
  show ?case
  proof (cases "user_key_of_internal_key k = uk")
    case True
    then show ?thesis
      using stream_peek [OF Cons.prems] m1 Cons.IH [OF m1(2)] x by (subst skip_same.simps) simp
  next
    case False
    then show ?thesis
      using stream_peek [OF Cons.prems] Cons.prems x by (subst skip_same.simps) simp
  qed
qed

lemma advance_stream:
  "merger_collect m = Inr xs \<Longrightarrow>
   (case scan_list snapshot xs of
      [] \<Rightarrow> \<exists>m'. advance_loop snapshot m = Inr (None, m')
    | e # es \<Rightarrow> \<exists>m' xs'. advance_loop snapshot m = Inr (Some e, m') \<and> merger_collect m' = Inr xs' \<and>
        scan_list snapshot xs' = es)"
proof (induction "length xs" arbitrary: xs m rule: less_induct)
  case less
  show ?case
  proof (cases xs)
    case Nil
    then show ?thesis using stream_Nil less.prems by (subst advance_loop.simps) simp
  next
    case (Cons x ys)
    obtain ik v where x: "x = (ik, v)" by (cases x)
    obtain m1 where m1: "merger_next m = Inr (Some (ik, v), m1)" "merger_collect m1 = Inr ys"
      using stream_Cons less.prems Cons x by blast
    have IH: "merger_collect m2 = Inr zs \<Longrightarrow> length zs < length xs \<Longrightarrow>
        (case scan_list snapshot zs of
          [] \<Rightarrow> \<exists>m'. advance_loop snapshot m2 = Inr (None, m')
        | e # es \<Rightarrow> \<exists>m' xs'. advance_loop snapshot m2 = Inr (Some e, m') \<and> merger_collect m' = Inr xs' \<and>
            scan_list snapshot xs' = es)" for m2 zs
      using less.hyps by blast
    show ?thesis
    proof (cases "seq_of_internal_key ik = None \<or> vtype_of_internal_key ik = None \<or>
        (\<exists>s. seq_of_internal_key ik = Some s \<and> snapshot < s)")
      case True
      then have "advance_loop snapshot m = advance_loop snapshot m1" "scan_list snapshot xs = scan_list snapshot ys"
        using m1 Cons x by (auto simp: advance_loop.simps [of snapshot m] split: option.splits)
      then show ?thesis using IH [OF m1(2)] Cons by (cases "scan_list snapshot ys") simp_all
    next
      case False
      then obtain s t where st: "seq_of_internal_key ik = Some s" "vtype_of_internal_key ik = Some t" "\<not> snapshot < s"
        by auto
      let ?uk = "user_key_of_internal_key ik"
      let ?rest = "dropWhile (\<lambda>(k, _). user_key_of_internal_key k = ?uk) ys"
      obtain m2 where m2: "skip_same ?uk m1 = Inr m2" "merger_collect m2 = Inr ?rest"
        using skip_same_stream [OF m1(2)] by blast
      have "length ?rest < length xs" using Cons by (simp add: length_dropWhile_le le_imp_less_Suc)
      note IH2 = IH [OF m2(2) this]
      show ?thesis
      proof (cases t)
        case Put
        then show ?thesis
          using m1 m2 st Cons x by (subst advance_loop.simps) (auto simp: Let_def)
      next
        case Delete
        then have "advance_loop snapshot m = advance_loop snapshot m2" "scan_list snapshot xs = scan_list snapshot ?rest"
          using m1 m2 st Cons x by (auto simp: advance_loop.simps [of snapshot m] Let_def)
        then show ?thesis using IH2 by (cases "scan_list snapshot ?rest") simp_all
      qed
    qed
  qed
qed

lemma di_collect_stream:
  "merger_collect m = Inr xs \<Longrightarrow> bind_res (db_iter_new m snapshot) di_collect = Inr (scan_list snapshot xs)"
proof (induction "length (scan_list snapshot xs)" arbitrary: m xs)
  case 0
  then show ?case
    using advance_stream [OF 0(2), of snapshot]
    by (auto simp: db_iter_new_def di_advance_def di_collect.simps di_next_def)
next
  case (Suc n)
  then obtain e es where es: "scan_list snapshot xs = e # es" by (cases "scan_list snapshot xs") auto
  then obtain m' xs' where m': "advance_loop snapshot m = Inr (Some e, m')" "merger_collect m' = Inr xs'"
    "scan_list snapshot xs' = es"
    using advance_stream [OF Suc(3), of snapshot] by auto
  have "bind_res (db_iter_new m' snapshot) di_collect = Inr es"
    using Suc(1) [OF _ m'(2)] Suc(2) es m'(3) by simp
  then obtain it where it: "db_iter_new m' snapshot = Inr it" "di_collect it = Inr es"
    by (auto simp: bind_res_eq_Inr)
  let ?it = "\<lparr>di_inner = m', di_snapshot_seq = snapshot, di_pending = Some e\<rparr>"
  have "di_next ?it = Inr (Some e, it)" using it(1) by (simp add: di_next_def db_iter_new_def)
  then have "di_collect ?it = Inr (e # es)" using it(2) by (subst di_collect.simps) simp
  then show ?case
    using m'(1) es by (simp add: db_iter_new_def di_advance_def)
qed

lemma encode_entries_dropWhile:
  "dropWhile (\<lambda>(k, _). user_key_of_internal_key k = uk) (encode_entries es) =
   encode_entries (dropWhile (\<lambda>(k, _). user_key k = uk) es)"
  by (induction es) auto

lemma visible_skip: "\<not> (user_key k = uk \<and> seq k \<le> snapshot) \<Longrightarrow> visible ((k, v) # es) uk snapshot = visible es uk snapshot"
  by (auto simp: visible_def)

lemma visible_take: "seq k \<le> snapshot \<Longrightarrow> visible ((k, v) # es) (user_key k) snapshot = Some (vtype k, v)"
  by (simp add: visible_def)

lemma visible_dropWhile: "uk' \<noteq> uk \<Longrightarrow> visible (dropWhile (\<lambda>(k, _). user_key k = uk) es) uk' snapshot = visible es uk' snapshot"
proof (induction es)
  case (Cons e es)
  then show ?case by (cases e) (auto simp: visible_skip)
qed (simp add: visible_def)

lemma dropWhile_user_key:
  assumes "ascending_entries ((k, v) # es)"
  shows "\<forall>e \<in> set (dropWhile (\<lambda>(k', _). user_key k' = user_key k) es). user_key k < user_key (fst e)"
  using assms
proof (induction es)
  case (Cons e es)
  obtain k' v' where e: "e = (k', v')" by (cases e)
  have asc: "ascending_entries ((k, v) # es)" "ascending_entries ((k', v') # es)"
    using Cons.prems e by (auto simp: ascending_entries_def)
  have le: "user_key k \<le> user_key k'"
    using ascending_entries_user_key [OF Cons.prems, of e] e by simp
  show ?case
  proof (cases "user_key k' = user_key k")
    case True
    then show ?thesis using Cons.IH [OF asc(1)] e by simp
  next
    case False
    then have less: "user_key k < user_key k'" using le by simp
    have "user_key k < user_key (fst e')" if "e' \<in> set es" for e'
      using less_le_trans [OF less ascending_entries_user_key [OF asc(2) that, simplified]] .
    then show ?thesis using False less e by simp
  qed
qed simp

lemma ascending_dropWhile:
  assumes "ascending_entries es"
  shows "ascending_entries (dropWhile P es)"
proof -
  have "ascending_entries (takeWhile P es @ dropWhile P es)"
    using assms by (simp only: takeWhile_dropWhile_id)
  then show ?thesis unfolding ascending_entries_def sorted_wrt_append by blast
qed

lemma scan_list_visible:
  "ascending_entries es \<Longrightarrow>
   set (scan_list snapshot (encode_entries es)) = {(uk, v). visible es uk snapshot = Some (Put, v)} \<and>
   sorted_wrt (<) (map fst (scan_list snapshot (encode_entries es)))"
proof (induction "length es" arbitrary: es rule: less_induct)
  case less
  show ?case
  proof (cases es)
    case Nil
    then show ?thesis by (simp add: visible_def)
  next
    case (Cons e xs)
    obtain k v where e: "e = (k, v)" by (cases e)
    have asc: "ascending_entries ((k, v) # xs)" "ascending_entries xs"
      using less.prems Cons e by (auto simp: ascending_entries_def)
    show ?thesis
    proof (cases "snapshot < seq k")
      case True
      then have "visible es uk snapshot = visible xs uk snapshot" for uk
        unfolding Cons e by (intro visible_skip) auto
      moreover have "scan_list snapshot (encode_entries es) = scan_list snapshot (encode_entries xs)"
        using True Cons e by simp
      ultimately show ?thesis using less.hyps [OF _ asc(2)] Cons by simp
    next
      case False
      let ?ys = "dropWhile (\<lambda>(k', _). user_key k' = user_key k) xs"
      have len: "length ?ys < length es" using Cons by (simp add: length_dropWhile_le le_imp_less_Suc)
      note IH = less.hyps [OF len ascending_dropWhile [OF asc(2)]]
      have above: "\<forall>e \<in> set ?ys. user_key k < user_key (fst e)" by (rule dropWhile_user_key [OF asc(1)])
      then have "user_key k \<notin> (user_key \<circ> fst) ` set ?ys" by auto
      then have none: "visible ?ys (user_key k) snapshot = None" by (rule visible_None)
      have vis: "visible es uk snapshot = (if uk = user_key k then Some (vtype k, v) else visible ?ys uk snapshot)" for uk
        using False by (auto simp: Cons e visible_take visible_dropWhile visible_skip not_less)
      have scan: "scan_list snapshot (encode_entries es) =
          (case vtype k of Put \<Rightarrow> (user_key k, v) # scan_list snapshot (encode_entries ?ys)
             | Delete \<Rightarrow> scan_list snapshot (encode_entries ?ys))"
        using False Cons e by (simp add: encode_entries_dropWhile Let_def)
      have "user_key k < uk" if "(uk, w) \<in> set (scan_list snapshot (encode_entries ?ys))" for uk w
      proof -
        have "visible ?ys uk snapshot = Some (Put, w)" using that IH by auto
        then have "uk \<in> (user_key \<circ> fst) ` set ?ys" using visible_None by fastforce
        then show ?thesis using above by auto
      qed
      then show ?thesis
        using IH none by (cases "vtype k") (auto simp: scan vis split: if_splits)
    qed
  qed
qed

lemma ascending_perm:
  assumes "ascending_entries es" and "sorted_wrt kv_le out" and "mset out = mset (encode_entries es)"
  shows "out = encode_entries es"
  using assms
proof (induction es arbitrary: out)
  case (Cons e es)
  then obtain x xs where out: "out = x # xs" by (cases out) auto
  let ?e = "(ik_encode (fst e), snd e)"
  have asc: "ascending_entries es" using Cons.prems(1) by (simp add: ascending_entries_def)
  have below: "internal_key_cmp (fst ?e) (fst y) = Less" if "y \<in> set (encode_entries es)" for y
    using that Cons.prems(1) by (auto simp: ascending_entries_def encode_entries_def)
  have "x \<in># mset (encode_entries (e # es))" using Cons.prems(3) out by (metis list.set_intros(1) set_mset_mset)
  moreover have "?e \<in># mset out" using Cons.prems(3) by simp
  ultimately have "x = ?e"
  proof (cases "x = ?e")
    case False
    assume "x \<in># mset (encode_entries (e # es))" "?e \<in># mset out"
    then have "x \<in> set (encode_entries es)" "?e \<in> set xs" using False out by auto
    then have "internal_key_cmp (fst ?e) (fst x) = Less" "internal_key_cmp (fst x) (fst ?e) \<noteq> Greater"
      using below Cons.prems(2) out by (auto simp: kv_le_def)
    then show ?thesis using internal_order.greater_less [of "fst x" "fst ?e"] by simp
  qed
  then show ?case
    using Cons.IH [OF asc, of xs] Cons.prems(2,3) out by simp
qed simp

lemma ascending_kv_le:
  assumes "ascending_entries es"
  shows "sorted_wrt kv_le (encode_entries es)"
proof -
  have "sorted_wrt (\<lambda>a b. kv_le (ik_encode (fst a), snd a) (ik_encode (fst b), snd b)) es"
    using assms unfolding ascending_entries_def
    by (rule sorted_wrt_mono_rel [rotated]) (simp add: kv_le_def)
  then show ?thesis by (simp add: encode_entries_def sorted_wrt_map case_prod_beta)
qed

text \<open>Sources over given entry lists: vectors of encoded entries and iterators over tables.\<close>

definition source_rep :: "lsm_iter \<Rightarrow> entry list \<Rightarrow> bool" where
  "source_rep it es \<longleftrightarrow> li_rest it = Inr (encode_entries es) \<and> ascending_entries es"

lemma source_rep_vec: "ascending_entries es \<Longrightarrow> source_rep (VecSource (vec_iter_new (encode_entries es))) es"
  by (simp add: source_rep_def vec_iter_new_def)

lemma source_rep_table:
  "table_rep tr es \<Longrightarrow> \<exists>ti. into_table_iter tr = Inr ti \<and> source_rep (TableSource ti) es"
  using table_rep_iter [of tr es] by (auto simp: source_rep_def bind_res_eq_Inr table_rep_def)

lemma merge_sources:
  assumes "list_all2 source_rep iters Es" and "ascending_entries es" and "mset es = mset (concat Es)"
  shows "\<exists>m. merger_new iters = Inr m \<and> merger_collect m = Inr (encode_entries es)"
proof -
  let ?R = "map encode_entries Es"
  have "\<forall>i < length ?R. li_rest (iters ! i) = Inr (?R ! i)" "length ?R = length iters"
    using assms(1) by (auto simp: list_all2_conv_all_nth source_rep_def)
  then obtain m where m: "merger_new iters = Inr m" "merger_rep m ?R"
    using merger_new_rep by metis
  have "ascending_entries E" if "E \<in> set Es" for E
    using assms(1) that by (auto simp: list_all2_conv_all_nth source_rep_def in_set_conv_nth)
  then have "\<forall>r \<in> set ?R. sorted_wrt kv_le r" by (auto intro: ascending_kv_le)
  then obtain out where out: "merger_collect m = Inr out" "mset out = mset (concat ?R)" "sorted_wrt kv_le out"
    using merger_collect_rep [OF m(2)] by blast
  have "concat ?R = encode_entries (concat Es)" by (induction Es) auto
  then have "mset out = image_mset (\<lambda>(k, v). (ik_encode k, v)) (mset (concat Es))"
    using out(2) by (simp add: encode_entries_def)
  then have "mset out = mset (encode_entries es)" by (simp add: encode_entries_def assms(3) [symmetric])
  then show ?thesis using ascending_perm [OF assms(2) out(3)] out(1) m(1) by blast
qed

section \<open>Properties\<close>

text \<open>C18: Merging any number of sorted sources, memory vectors and table iterators alike, yields all their entries in
  internal-key order: nothing is lost, repeated or invented.\<close>

theorem merge_is_sorted_union:
  assumes "length R = length iters" and "\<forall>i < length iters. li_rest (iters ! i) = Inr (R ! i)"
    and "\<forall>r \<in> set R. sorted_wrt kv_le r"
  shows "\<exists>m out. merger_new iters = Inr m \<and> merger_collect m = Inr out \<and>
    mset out = mset (concat R) \<and> sorted_wrt kv_le out"
proof -
  have "\<forall>i < length R. li_rest (iters ! i) = Inr (R ! i)" using assms(1,2) by simp
  from merger_new_rep [OF assms(1) this] obtain m where "merger_new iters = Inr m" "merger_rep m R" by blast
  then show ?thesis using merger_collect_rep [OF _ assms(3), of m] by blast
qed

theorem merge_is_sorted_union_witness:
  "\<exists>m out. merger_new [VecSource (vec_iter_new [([1, 0, 0, 0, 0, 0, 0, 0, 0, 0], [])]), VecSource (vec_iter_new [])] = Inr m \<and>
    merger_collect m = Inr out \<and> mset out = {#([1, 0, 0, 0, 0, 0, 0, 0, 0, 0], [])#} \<and> sorted_wrt kv_le out"
  using merge_is_sorted_union [of "[[([1, 0, 0, 0, 0, 0, 0, 0, 0, 0], [])], []]"
      "[VecSource (vec_iter_new [([1, 0, 0, 0, 0, 0, 0, 0, 0, 0], [])]), VecSource (vec_iter_new [])]"]
  by (auto simp: vec_iter_new_def less_Suc_eq)

text \<open>C16: A scan over merged sources shows, in strictly ascending order of the user keys, exactly the keys whose newest
  version at the snapshot is a put, each with the value of that version: deletion markers hide older
  versions, and versions newer than the snapshot hide nothing.\<close>

theorem scan_shows_visible:
  assumes "list_all2 source_rep iters Es" and "ascending_entries es" and "mset es = mset (concat Es)"
  shows "\<exists>shown. bind_res (merger_new iters) (\<lambda>m. bind_res (db_iter_new m snapshot) di_collect) = Inr shown \<and>
    sorted_wrt (<) (map fst shown) \<and>
    (\<forall>uk v. (uk, v) \<in> set shown \<longleftrightarrow> visible es uk snapshot = Some (Put, v))"
proof -
  obtain m where "merger_new iters = Inr m" "merger_collect m = Inr (encode_entries es)"
    using merge_sources [OF assms] by blast
  then show ?thesis
    using di_collect_stream [of m] scan_list_visible [OF assms(2), of snapshot] by auto
qed

theorem scan_shows_visible_witness:
  "\<exists>shown. bind_res (merger_new [VecSource (vec_iter_new (encode_entries [(InternalKey [1] 3 Delete, []), (InternalKey [2] 4 Put, [7])])),
        VecSource (vec_iter_new (encode_entries [(InternalKey [1] 2 Put, [9])]))])
      (\<lambda>m. bind_res (db_iter_new m 3) di_collect) = Inr shown \<and> sorted_wrt (<) (map fst shown) \<and>
    (\<forall>uk v. (uk, v) \<in> set shown \<longleftrightarrow>
       visible [(InternalKey [1] 3 Delete, []), (InternalKey [1] 2 Put, [9]), (InternalKey [2] 4 Put, [7])] uk 3 = Some (Put, v))"
  by (rule scan_shows_visible [where Es = "[[(InternalKey [1] 3 Delete, []), (InternalKey [2] 4 Put, [7])], [(InternalKey [1] 2 Put, [9])]]"])
     (auto simp: source_rep_def vec_iter_new_def ascending_entries_def internal_key_cmp_encode cmp_def)

text \<open>C17: A scan ends: whatever the merged sources hold, tables with damaged blocks included, a caller that keeps asking the
  user iterator sees its end or an error after at most one call more than there are entries left, and
  has then collected the scan's whole result.\<close>

theorem scan_terminates: "scan_loop (Suc (di_size it + k)) it = Some (di_collect it)"
  by (rule scan_loop_enough) simp

end
