(* ===== verification/File_Meta.thy ===== *)
theory File_Meta
  imports Internal_Key "HOL-Library.Char_ord"
begin

text \<open>
  \<^verbatim>\<open>src/src/file_meta.rs\<close>: the names of the files of a database, their parsing, the metadata of a table
  file, and the allocator of file numbers. The directory is fixed, so a path is the name in it.
\<close>

section \<open>Names\<close>

text \<open>The newtype \<open>FileNumber(u64)\<close>.\<close>

type_synonym file_number = u64

definition digit_char :: "nat \<Rightarrow> char" where
  "digit_char d = char_of (48 + d)"

fun decimal :: "nat \<Rightarrow> string" where
  "decimal n = (if n < 10 then [digit_char n] else decimal (n div 10) @ [digit_char (n mod 10)])"

declare decimal.simps [simp del]

text \<open>\<open>format!("{:06}", n)\<close>: decimal, padded with zeros to six digits.\<close>

definition to_name_part :: "file_number \<Rightarrow> string" where
  "to_name_part n = (let ds = decimal (unat n) in replicate (6 - length ds) CHR ''0'' @ ds)"

definition SST_SUFFIX :: string where "SST_SUFFIX = ''sst''"
definition LOG_SUFFIX :: string where "LOG_SUFFIX = ''log''"
definition TMP_SUFFIX :: string where "TMP_SUFFIX = ''dbtmp''"
definition MANIFEST_PREFIX :: string where "MANIFEST_PREFIX = ''MANIFEST-''"
definition CURRENT_NAME :: string where "CURRENT_NAME = ''CURRENT''"

definition numbered_file_path :: "file_number \<Rightarrow> string \<Rightarrow> string" where
  "numbered_file_path n suffix = to_name_part n @ ''.'' @ suffix"

definition sst_path :: "file_number \<Rightarrow> string" where
  "sst_path n = numbered_file_path n SST_SUFFIX"

definition log_path :: "file_number \<Rightarrow> string" where
  "log_path n = numbered_file_path n LOG_SUFFIX"

definition manifest_path :: "file_number \<Rightarrow> string" where
  "manifest_path n = MANIFEST_PREFIX @ to_name_part n"

definition current_path :: string where
  "current_path = CURRENT_NAME"

definition current_tmp_path :: string where
  "current_tmp_path = CURRENT_NAME @ ''.'' @ TMP_SUFFIX"

text \<open>\<open>str::strip_suffix\<close> and \<open>str::strip_prefix\<close>.\<close>

definition strip_suffix :: "string \<Rightarrow> string \<Rightarrow> string option" where
  "strip_suffix s suffix =
     (if length suffix \<le> length s \<and> drop (length s - length suffix) s = suffix
      then Some (take (length s - length suffix) s) else None)"

definition strip_prefix :: "string \<Rightarrow> string \<Rightarrow> string option" where
  "strip_prefix s prefix =
     (if take (length prefix) s = prefix then Some (drop (length prefix) s) else None)"

definition is_ascii_digit :: "char \<Rightarrow> bool" where
  "is_ascii_digit c \<longleftrightarrow> 48 \<le> (of_char c :: nat) \<and> (of_char c :: nat) \<le> 57"

definition digits_value :: "string \<Rightarrow> nat" where
  "digits_value s = foldl (\<lambda>acc c. acc * 10 + (of_char c - 48)) 0 s"

text \<open>\<open>s.parse::<u64>()\<close> fails when the number does not fit.\<close>

definition parse_number :: "string \<Rightarrow> file_number option" where
  "parse_number s =
     (if s = [] \<or> \<not> list_all is_ascii_digit s then None
      else if digits_value s < 2 ^ 64 then Some (of_nat (digits_value s)) else None)"

definition parse_sst_name :: "string \<Rightarrow> file_number option" where
  "parse_sst_name name = Option.bind (strip_suffix name ''.sst'') parse_number"

definition parse_log_name :: "string \<Rightarrow> file_number option" where
  "parse_log_name name = Option.bind (strip_suffix name ''.log'') parse_number"

definition parse_manifest_name :: "string \<Rightarrow> file_number option" where
  "parse_manifest_name name = Option.bind (strip_prefix name MANIFEST_PREFIX) parse_number"

section \<open>Metadata and numbers\<close>

record file_meta =
  fm_number :: file_number
  fm_file_size :: u64
  fm_smallest :: internal_key
  fm_largest :: internal_key
  fm_allowed_seeks :: u64

definition file_meta_new :: "file_number \<Rightarrow> u64 \<Rightarrow> internal_key \<Rightarrow> internal_key \<Rightarrow> file_meta" where
  "file_meta_new number file_size smallest largest =
     \<lparr>fm_number = number, fm_file_size = file_size, fm_smallest = smallest, fm_largest = largest,
      fm_allowed_seeks = 0\<rparr>"

record id_generator =
  id_next :: u64

definition id_generator_new :: "u64 \<Rightarrow> id_generator" where
  "id_generator_new start = \<lparr>id_next = start\<rparr>"

definition new_file_number :: "id_generator \<Rightarrow> (file_number \<times> id_generator) res" where
  "new_file_number g = bind_res (u64_succ (id_next g)) (\<lambda>n. Inr (id_next g, g\<lparr>id_next := n\<rparr>))"

definition bump_to :: "u64 \<Rightarrow> id_generator \<Rightarrow> id_generator" where
  "bump_to n g = (if id_next g < n then g\<lparr>id_next := n\<rparr> else g)"

section \<open>Names are read back\<close>

lemma of_digit_char: "d < 10 \<Longrightarrow> (of_char (digit_char d) :: nat) = 48 + d"
  by (simp add: digit_char_def of_char_of)

lemma decimal_digits: "list_all is_ascii_digit (decimal n)"
proof (induction n rule: decimal.induct)
  case (1 n)
  show ?case
  proof (cases "n < 10")
    case True
    then show ?thesis by (subst decimal.simps) (simp add: is_ascii_digit_def of_digit_char)
  next
    case False
    have "is_ascii_digit (digit_char (n mod 10))" by (simp add: is_ascii_digit_def of_digit_char)
    then show ?thesis using False 1 by (subst decimal.simps) simp
  qed
qed

lemma digits_value_snoc: "digits_value (s @ [c]) = digits_value s * 10 + (of_char c - 48)"
  by (simp add: digits_value_def)

lemma digits_value_decimal: "digits_value (decimal n) = n"
proof (induction n rule: decimal.induct)
  case (1 n)
  show ?case
  proof (cases "n < 10")
    case True
    then show ?thesis by (subst decimal.simps) (simp add: digits_value_def of_digit_char)
  next
    case False
    then show ?thesis using 1 by (subst decimal.simps) (simp add: digits_value_snoc of_digit_char)
  qed
qed

lemma digits_value_zeros: "digits_value (replicate k CHR ''0'' @ s) = digits_value s"
  by (induction k) (auto simp: digits_value_def)

lemma decimal_nonempty: "decimal n \<noteq> []"
  by (subst decimal.simps) simp

lemma name_part_digits: "list_all is_ascii_digit (to_name_part n)"
proof -
  have "is_ascii_digit CHR ''0''" by (simp add: is_ascii_digit_def)
  then show ?thesis
    using decimal_digits [of "unat n"] by (auto simp: to_name_part_def Let_def list_all_iff)
qed

lemma name_part_nonempty: "to_name_part n \<noteq> []"
  by (simp add: to_name_part_def Let_def decimal_nonempty)

lemma parse_number_name_part [simp]: "parse_number (to_name_part n) = Some n"
proof -
  have v: "digits_value (to_name_part n) = unat n"
    by (simp add: to_name_part_def Let_def digits_value_zeros digits_value_decimal)
  have "unat n < 2 ^ 64" using unsigned_less [of n] by simp
  then show ?thesis
    by (simp add: parse_number_def name_part_nonempty name_part_digits v)
qed

lemma to_name_part_inject [simp]: "to_name_part m = to_name_part n \<longleftrightarrow> m = n"
  by (metis option.inject parse_number_name_part)

lemma strip_suffix_append [simp]: "strip_suffix (s @ suffix) suffix = Some s"
  by (simp add: strip_suffix_def)

lemma strip_prefix_append [simp]: "strip_prefix (prefix @ s) prefix = Some s"
  by (simp add: strip_prefix_def)

lemma parse_names [simp]:
  "parse_sst_name (sst_path n) = Some n"
  "parse_log_name (log_path n) = Some n"
  "parse_manifest_name (manifest_path n) = Some n"
  using strip_suffix_append [of "to_name_part n" "''.sst''"] strip_suffix_append [of "to_name_part n" "''.log''"]
  by (simp_all add: parse_sst_name_def parse_log_name_def parse_manifest_name_def sst_path_def log_path_def
      manifest_path_def numbered_file_path_def SST_SUFFIX_def LOG_SUFFIX_def)

text \<open>The kinds of files do not mix: the parsers separate their names.\<close>

lemma strip_suffix_Some_iff: "strip_suffix s suffix = Some p \<longleftrightarrow> s = p @ suffix"
proof
  assume "strip_suffix s suffix = Some p"
  then have "drop (length s - length suffix) s = suffix" "take (length s - length suffix) s = p"
    by (auto simp: strip_suffix_def split: if_splits)
  then show "s = p @ suffix" using append_take_drop_id [of "length s - length suffix" s] by simp
qed simp

lemma strip_suffix_last:
  assumes "s \<noteq> []" "suffix \<noteq> []" "List.last s \<noteq> List.last suffix"
  shows "strip_suffix s suffix = None"
proof (cases "strip_suffix s suffix")
  case (Some p)
  then show ?thesis using assms by (simp add: strip_suffix_Some_iff)
qed

lemma strip_prefix_hd:
  assumes "s \<noteq> []" "prefix \<noteq> []" "List.hd s \<noteq> List.hd prefix"
  shows "strip_prefix s prefix = None"
  using assms by (cases s; cases prefix) (auto simp: strip_prefix_def)

lemma name_part_ends:
  "is_ascii_digit (List.hd (to_name_part n))" "is_ascii_digit (List.last (to_name_part n))"
  using name_part_digits [of n] name_part_nonempty [of n] by (auto simp: list_all_iff)

lemma letters_not_digits:
  "\<not> is_ascii_digit CHR ''M''" "\<not> is_ascii_digit CHR ''C''" "\<not> is_ascii_digit CHR ''t''" "\<not> is_ascii_digit CHR ''g''"
  by (simp_all add: is_ascii_digit_def)

lemma last_names:
  "List.last (sst_path n) = CHR ''t''" "List.last (log_path n) = CHR ''g''"
  "is_ascii_digit (List.last (manifest_path n))" "List.last current_path = CHR ''T''"
  "List.last current_tmp_path = CHR ''p''"
  by (simp_all add: sst_path_def log_path_def manifest_path_def current_path_def current_tmp_path_def
      numbered_file_path_def SST_SUFFIX_def LOG_SUFFIX_def CURRENT_NAME_def TMP_SUFFIX_def name_part_ends
      name_part_nonempty)

lemma hd_names:
  "is_ascii_digit (List.hd (sst_path n))" "is_ascii_digit (List.hd (log_path n))"
  "List.hd (manifest_path n) = CHR ''M''" "List.hd current_path = CHR ''C''"
  "List.hd current_tmp_path = CHR ''C''"
  by (simp_all add: sst_path_def log_path_def manifest_path_def current_path_def current_tmp_path_def
      numbered_file_path_def MANIFEST_PREFIX_def CURRENT_NAME_def name_part_ends name_part_nonempty)

lemma names_nonempty:
  "sst_path n \<noteq> []" "log_path n \<noteq> []" "manifest_path n \<noteq> []" "current_path \<noteq> []" "current_tmp_path \<noteq> []"
  by (simp_all add: sst_path_def log_path_def manifest_path_def current_path_def current_tmp_path_def
      numbered_file_path_def MANIFEST_PREFIX_def CURRENT_NAME_def)

lemma manifest_last_not:
  "List.last (manifest_path n) \<noteq> CHR ''t''" "List.last (manifest_path n) \<noteq> CHR ''g''"
  using last_names(3) [of n] letters_not_digits by auto

lemma names_hd_not:
  "List.hd (sst_path n) \<noteq> CHR ''M''" "List.hd (log_path n) \<noteq> CHR ''M''"
  using hd_names(1,2) [of n] letters_not_digits by auto

lemma parse_names_other [simp]:
  "parse_sst_name (log_path n) = None" "parse_sst_name (manifest_path n) = None"
  "parse_sst_name current_path = None" "parse_sst_name current_tmp_path = None"
  "parse_log_name (sst_path n) = None" "parse_log_name (manifest_path n) = None"
  "parse_log_name current_path = None" "parse_log_name current_tmp_path = None"
  "parse_manifest_name (sst_path n) = None" "parse_manifest_name (log_path n) = None"
  "parse_manifest_name current_path = None" "parse_manifest_name current_tmp_path = None"
  by (simp_all add: parse_sst_name_def parse_log_name_def parse_manifest_name_def strip_suffix_last strip_prefix_hd
      last_names hd_names names_nonempty manifest_last_not names_hd_not MANIFEST_PREFIX_def)

lemma path_inject [simp]:
  "sst_path m = sst_path n \<longleftrightarrow> m = n" "log_path m = log_path n \<longleftrightarrow> m = n"
  "manifest_path m = manifest_path n \<longleftrightarrow> m = n"
  by (simp_all add: sst_path_def log_path_def manifest_path_def numbered_file_path_def)

lemma path_distinct [simp]:
  "sst_path m \<noteq> log_path n" "sst_path m \<noteq> manifest_path n" "sst_path m \<noteq> current_path" "sst_path m \<noteq> current_tmp_path"
  "log_path m \<noteq> manifest_path n" "log_path m \<noteq> current_path" "log_path m \<noteq> current_tmp_path"
  "manifest_path m \<noteq> current_path" "manifest_path m \<noteq> current_tmp_path" "current_tmp_path \<noteq> current_path"
  by (metis parse_names parse_names_other option.distinct(1))+
  (simp add: current_path_def current_tmp_path_def CURRENT_NAME_def)

lemmas path_distinct_sym [simp] = path_distinct [symmetric]

text \<open>The directory listing is read back by kind: the number of a table, log or manifest name is recovered, and names of
  the other kinds, CURRENT and its temporary file are not taken for it.\<close>

lemma file_names_separated:
  "parse_sst_name (sst_path n) = Some n \<and> parse_log_name (log_path n) = Some n
   \<and> parse_manifest_name (manifest_path n) = Some n
   \<and> (\<forall>name. name \<in> {sst_path n, log_path n, manifest_path n, current_path, current_tmp_path} \<longrightarrow>
        (parse_sst_name name \<noteq> None) = (name = sst_path n)
        \<and> (parse_log_name name \<noteq> None) = (name = log_path n)
        \<and> (parse_manifest_name name \<noteq> None) = (name = manifest_path n))"
  by auto

section \<open>Numbers are not reused\<close>

lemma new_file_number_Inr [simp]:
  "new_file_number g = Inr (n, g') \<longleftrightarrow> n = id_next g \<and> id_next g \<noteq> - 1 \<and> g' = g\<lparr>id_next := id_next g + 1\<rparr>"
  by (auto simp: new_file_number_def u64_succ_def)

text \<open>\<open>k\<close> numbers drawn one after the other.\<close>

primrec draw_numbers :: "nat \<Rightarrow> id_generator \<Rightarrow> (file_number list \<times> id_generator) res" where
  "draw_numbers 0 g = Inr ([], g)"
| "draw_numbers (Suc k) g = bind_res (new_file_number g) (\<lambda>(n, g).
     bind_res (draw_numbers k g) (\<lambda>(ns, g). Inr (n # ns, g)))"

lemma draw_numbers_bounds:
  "draw_numbers k g = Inr (ns, g') \<Longrightarrow>
   length ns = k \<and> sorted_wrt (<) ns \<and> (\<forall>n \<in> set ns. id_next g \<le> n \<and> n < id_next g') \<and> id_next g \<le> id_next g'"
proof (induction k arbitrary: g ns)
  case (Suc k)
  obtain g1 ns1 where g1: "new_file_number g = Inr (id_next g, g1)" "draw_numbers k g1 = Inr (ns1, g')"
    and ns: "ns = id_next g # ns1"
    using Suc.prems by (auto simp: bind_res_eq_Inr)
  have lt: "id_next g < id_next g1" using g1(1) u64_succ_less [of "id_next g" "id_next g1"] by (auto simp: u64_succ_def)
  have IH: "length ns1 = k" "sorted_wrt (<) ns1" "\<forall>n \<in> set ns1. id_next g1 \<le> n \<and> n < id_next g'"
    "id_next g1 \<le> id_next g'" using Suc.IH [OF g1(2)] by auto
  show ?case using lt IH by (auto simp: ns)
qed simp

lemma draw_numbers_total:
  "unat (id_next g) + k < 2 ^ 64 \<Longrightarrow> \<exists>ns g'. draw_numbers k g = Inr (ns, g')"
proof (induction k arbitrary: g)
  case (Suc k)
  have ne: "id_next g \<noteq> - 1" using Suc.prems by (auto simp: unsigned_minus_1_eq_mask mask_eq_exp_minus_1)
  have "unat (id_next g + 1) = Suc (unat (id_next g))"
    using Suc.prems by (simp add: unat_word_ariths)
  then obtain ns g' where "draw_numbers k (g\<lparr>id_next := id_next g + 1\<rparr>) = Inr (ns, g')"
    using Suc.IH [of "g\<lparr>id_next := id_next g + 1\<rparr>"] Suc.prems by auto
  then show ?case using ne by (auto simp: new_file_number_def u64_succ_def)
qed simp

lemma bump_to_le [simp]: "id_next g \<le> id_next (bump_to n g)" "n \<le> id_next (bump_to n g)"
  by (auto simp: bump_to_def)

text \<open>File numbers are never reused: after a recovery has bumped the generator past the numbers in use, a run of
  allocations that stays below 2^64 returns, its numbers strictly increase and are all new, and
  the next number lies above them.\<close>

lemma file_numbers_fresh:
  assumes "\<forall>n \<in> used. n < next_file" "unat (id_next (bump_to next_file g)) + k < 2 ^ 64"
  shows "\<exists>ns g'. draw_numbers k (bump_to next_file g) = Inr (ns, g') \<and> length ns = k \<and> sorted_wrt (<) ns
    \<and> set ns \<inter> used = {} \<and> (\<forall>n \<in> set ns \<union> used. n < id_next g')"
proof -
  obtain ns g' where d: "draw_numbers k (bump_to next_file g) = Inr (ns, g')"
    using draw_numbers_total [OF assms(2)] by blast
  note b = draw_numbers_bounds [OF d]
  have le: "next_file \<le> id_next (bump_to next_file g)" by simp
  then have "\<forall>n \<in> set ns. next_file \<le> n" "next_file \<le> id_next g'"
    using b order_trans [OF le] by blast+
  then have "set ns \<inter> used = {}" "\<forall>n \<in> used. n < id_next g'"
    using assms(1) by (auto simp: order.strict_trans1 leD)
  then show ?thesis using d b by blast
qed

end
