(* ===== verification/File_System.thy ===== *)
theory File_System
  imports Wal File_Meta "HOL-Library.Finite_Map"
begin

text \<open>
  What the store uses of \<^verbatim>\<open>std::fs\<close>: one directory, a finite map from the names in it to the
  contents of the files. Names and strings are lists of 8-bit characters, so a \<open>String\<close> is its UTF-8
  bytes. Creating, writing, syncing, renaming and deleting a file succeed and take effect at once; opening
  a file that does not exist is the one I/O error the model has. Directory listings are the domain of
  the map, in no order. An open log is a handle: the name of its file and the writer's block offset.
\<close>

section \<open>The directory\<close>

type_synonym fs = "(string, bytes) fmap"

definition fs_exists :: "string \<Rightarrow> fs \<Rightarrow> bool" where
  "fs_exists name fs \<longleftrightarrow> fmlookup fs name \<noteq> None"

definition fs_read :: "string \<Rightarrow> fs \<Rightarrow> bytes res" where
  "fs_read name fs = ok_or (fmlookup fs name) (Io ''No such file or directory'')"

text \<open>\<open>metadata(path).len()\<close>.\<close>

definition fs_len :: "string \<Rightarrow> fs \<Rightarrow> u64 res" where
  "fs_len name fs = bind_res (fs_read name fs) (\<lambda>bs. Inr (of_nat (length bs)))"

text \<open>\<open>File::create\<close> followed by the writes that produce \<open>bs\<close>.\<close>

definition fs_write :: "string \<Rightarrow> bytes \<Rightarrow> fs \<Rightarrow> fs" where
  "fs_write name bs fs = fmupd name bs fs"

definition fs_rename :: "string \<Rightarrow> string \<Rightarrow> fs \<Rightarrow> fs res" where
  "fs_rename old new fs =
     bind_res (fs_read old fs) (\<lambda>bs. Inr (fmupd new bs (fmdrop old fs)))"

definition fs_remove :: "string \<Rightarrow> fs \<Rightarrow> fs" where
  "fs_remove name fs = fmdrop name fs"

definition string_bytes :: "string \<Rightarrow> bytes" where
  "string_bytes s = map (\<lambda>c. of_nat (of_char c)) s"

definition bytes_string :: "bytes \<Rightarrow> string" where
  "bytes_string bs = map (\<lambda>b. char_of (unat b)) bs"

lemma bytes_string_inverse [simp]: "bytes_string (string_bytes s) = s"
proof -
  have "unat (of_nat (of_char c :: nat) :: byte) = of_char c" for c
    using nat_of_char_less_256 [of c] by (simp add: unat_of_nat)
  then show ?thesis by (simp add: bytes_string_def string_bytes_def comp_def map_idI)
qed

section \<open>Open logs\<close>

record log_handle =
  lh_name :: string
  lh_offset :: nat

text \<open>\<open>WalWriter::create\<close>: append mode, the file is created when it does not exist.\<close>

definition log_open :: "string \<Rightarrow> fs \<Rightarrow> log_handle \<times> fs" where
  "log_open name fs =
     (let bs = case_option [] id (fmlookup fs name) in
      (\<lparr>lh_name = name, lh_offset = block_offset (wal_create bs)\<rparr>, fmupd name bs fs))"

text \<open>\<open>WalWriter::add_record\<close> on the file of the handle; a file that was unlinked stays so.\<close>

definition log_add :: "(bytes \<Rightarrow> u32) \<Rightarrow> log_handle \<Rightarrow> bytes \<Rightarrow> fs \<Rightarrow> log_handle \<times> fs" where
  "log_add crc h data fs =
     (let bs = case_option [] id (fmlookup fs (lh_name h));
          w = add_record crc \<lparr>wal_file = bs, block_offset = lh_offset h\<rparr> data
      in (h\<lparr>lh_offset := block_offset w\<rparr>,
          if fs_exists (lh_name h) fs then fmupd (lh_name h) (wal_file w) fs else fs))"

text \<open>\<open>WalReader::open\<close> and \<open>read_records\<close>.\<close>

definition log_read :: "(bytes \<Rightarrow> u32) \<Rightarrow> string \<Rightarrow> fs \<Rightarrow> bytes list res" where
  "log_read crc name fs = bind_res (fs_read name fs) (\<lambda>bs. Inr (read_records crc bs))"

section \<open>Lookups after operations\<close>

lemma fs_read_simps [simp]:
  "fs_read n (fmupd n bs fs) = Inr bs"
  "n \<noteq> m \<Longrightarrow> fs_read n (fmupd m bs fs) = fs_read n fs"
  by (simp_all add: fs_read_def)

lemma fs_read_Some: "fmlookup fs n = Some bs \<Longrightarrow> fs_read n fs = Inr bs"
  by (simp add: fs_read_def)

lemma fs_read_Inr_iff: "fs_read n fs = Inr bs \<longleftrightarrow> fmlookup fs n = Some bs"
  by (cases "fmlookup fs n") (auto simp: fs_read_def)

text \<open>
  The handle agrees with the file it appends to, whose contents are the records \<open>rs\<close>. What a client of
  a log needs is in the laws below.
\<close>

definition log_holds :: "(bytes \<Rightarrow> u32) \<Rightarrow> log_handle \<Rightarrow> fs \<Rightarrow> bytes list \<Rightarrow> bool" where
  "log_holds crc h fs rs \<longleftrightarrow>
     (\<exists>bs. fmlookup fs (lh_name h) = Some bs \<and> wal_ok \<lparr>wal_file = bs, block_offset = lh_offset h\<rparr> \<and>
        holds_records crc bs rs)"

lemma log_holds_new:
  assumes "log_open name fs = (h, fs')" and "fmlookup fs name = None"
  shows "log_holds crc h fs' []" "lh_name h = name" "fs' = fmupd name [] fs"
  using assms wal_ok_create [of "[]"] by (auto simp: log_open_def log_holds_def holds_records_nil wal_create_def)

lemma log_holds_reopen:
  assumes "log_open name fs = (h, fs')" and "fmlookup fs name = Some bs" and "holds_records crc bs rs"
  shows "log_holds crc h fs' rs" "lh_name h = name" "fs' = fs"
  using assms wal_ok_create [of bs]
  by (auto simp: log_open_def log_holds_def wal_create_def intro!: fmap_ext)

lemma log_add_lookup:
  assumes "log_holds crc h fs rs" and "log_add crc h data fs = (h', fs')"
  shows "\<exists>bs. fmlookup fs (lh_name h) = Some bs \<and> holds_records crc bs rs \<and>
    fs' = fmupd (lh_name h) (log_append crc bs data) fs \<and> log_holds crc h' fs' (rs @ [data]) \<and> lh_name h' = lh_name h"
proof -
  obtain bs where bs: "fmlookup fs (lh_name h) = Some bs" "holds_records crc bs rs"
    and ok: "wal_ok \<lparr>wal_file = bs, block_offset = lh_offset h\<rparr>" (is "wal_ok ?w")
    using assms(1) by (auto simp: log_holds_def)
  let ?w' = "add_record crc ?w data"
  have f: "wal_file ?w' = log_append crc bs data" using add_record_file [OF ok] by simp
  have h': "h' = h\<lparr>lh_offset := block_offset ?w'\<rparr>" and fs': "fs' = fmupd (lh_name h) (wal_file ?w') fs"
    using assms(2) bs(1) by (auto simp: log_add_def Let_def fs_exists_def)
  have "wal_ok \<lparr>wal_file = wal_file ?w', block_offset = block_offset ?w'\<rparr>"
    using wal_ok_add_record [OF ok, of crc data] by (simp add: wal_ok_def)
  then have "log_holds crc h' fs' (rs @ [data])"
    using holds_records_append [OF bs(2), of data] by (simp add: log_holds_def h' fs' f)
  then show ?thesis using bs fs' f h' by auto
qed

lemma log_holds_read: "log_holds crc h fs rs \<Longrightarrow> log_read crc (lh_name h) fs = Inr rs"
  by (auto simp: log_holds_def log_read_def fs_read_def holds_records_read)

lemma log_holds_other:
  "log_holds crc h fs rs \<Longrightarrow> fmlookup fs' (lh_name h) = fmlookup fs (lh_name h) \<Longrightarrow> log_holds crc h fs' rs"
  by (simp add: log_holds_def)

end
