(* ===== verification/Disk.thy ===== *)
theory Disk
  imports File_System
begin

text \<open>
  Sequences of operations on the directory, with what a crash leaves of them. A file that has been written
  since it was last synced is on the disk up to some byte behind the synced part; creating, renaming and
  syncing are one step each and take effect in order, which is what the comments of \<^verbatim>\<open>manifest.rs\<close> rely
  on. The operations are those of \<^verbatim>\<open>std::fs\<close> that the program calls: \<^verbatim>\<open>File::create\<close>, \<^verbatim>\<open>write_all\<close>,
  \<^verbatim>\<open>sync_all\<close> and \<^verbatim>\<open>rename\<close>.
\<close>

section \<open>Operations\<close>

datatype fs_op = Create_File string | Write_All string bytes | Sync_All string | Rename_File string string

text \<open>For a file with unsynced bytes, \<open>dk_synced\<close> is the length of its synced part; the other files are on the disk
  as they are read.\<close>

record disk =
  dk_files :: fs
  dk_synced :: "(string, nat) fmap"

definition on_disk :: "fs \<Rightarrow> disk" where
  "on_disk fs = \<lparr>dk_files = fs, dk_synced = fmempty\<rparr>"

fun disk_exec :: "fs_op \<Rightarrow> disk \<Rightarrow> disk res" where
  "disk_exec (Create_File name) d =
     Inr (d\<lparr>dk_files := fs_write name [] (dk_files d), dk_synced := fmupd name 0 (dk_synced d)\<rparr>)"
| "disk_exec (Write_All name bs) d =
     bind_res (fs_read name (dk_files d)) (\<lambda>old.
     Inr (d\<lparr>dk_files := fs_write name (old @ bs) (dk_files d),
            dk_synced := fmupd name (case_option (length old) id (fmlookup (dk_synced d) name)) (dk_synced d)\<rparr>))"
| "disk_exec (Sync_All name) d = Inr (d\<lparr>dk_synced := fmdrop name (dk_synced d)\<rparr>)"
| "disk_exec (Rename_File old new) d =
     bind_res (fs_rename old new (dk_files d)) (\<lambda>fs.
     Inr (d\<lparr>dk_files := fs,
            dk_synced := (case fmlookup (dk_synced d) old of
                            None \<Rightarrow> fmdrop new (dk_synced d)
                          | Some k \<Rightarrow> fmupd new k (fmdrop old (dk_synced d)))\<rparr>))"

primrec disk_run :: "fs_op list \<Rightarrow> disk \<Rightarrow> disk res" where
  "disk_run [] d = Inr d"
| "disk_run (op # ops) d = bind_res (disk_exec op d) (disk_run ops)"

lemma disk_run_append: "disk_run (xs @ ys) d = bind_res (disk_run xs d) (disk_run ys)"
proof (induction xs arbitrary: d)
  case (Cons x xs)
  then show ?case by (cases "disk_exec x d") simp_all
qed simp

lemma disk_run_prefix:
  assumes "disk_run ops d = Inr d'"
  shows "\<exists>d1. disk_run (take i ops) d = Inr d1"
proof -
  have "bind_res (disk_run (take i ops) d) (disk_run (drop i ops)) = Inr d'"
    using assms disk_run_append [of "take i ops" "drop i ops" d] by simp
  then show ?thesis by (auto simp: bind_res_eq_Inr)
qed

section \<open>Crashes\<close>

text \<open>What is found after a crash: of a file with unsynced bytes, the first \<open>kept name\<close> bytes, and never less than was
  synced.\<close>

definition disk_crash :: "(string \<Rightarrow> nat) \<Rightarrow> disk \<Rightarrow> fs" where
  "disk_crash kept d =
     fmmap_keys (\<lambda>name bs. case fmlookup (dk_synced d) name of None \<Rightarrow> bs | Some k \<Rightarrow> take (max k (kept name)) bs)
       (dk_files d)"

lemma disk_crash_lookup [simp]:
  "fmlookup (disk_crash kept d) name =
     map_option (\<lambda>bs. case fmlookup (dk_synced d) name of None \<Rightarrow> bs | Some k \<Rightarrow> take (max k (kept name)) bs)
       (fmlookup (dk_files d) name)"
  by (simp add: disk_crash_def)

lemma disk_crash_on_disk: "disk_crash kept (on_disk fs) = fs"
  by (rule fmap_ext) (simp add: on_disk_def option.map_ident)

text \<open>The files an operation writes, creates, renames or removes.\<close>

fun op_names :: "fs_op \<Rightarrow> string list" where
  "op_names (Create_File name) = [name]"
| "op_names (Write_All name _) = [name]"
| "op_names (Sync_All name) = [name]"
| "op_names (Rename_File old new) = [old, new]"

lemma disk_exec_frame:
  "disk_exec op d = Inr d' \<Longrightarrow> name \<notin> set (op_names op) \<Longrightarrow>
   fmlookup (dk_files d') name = fmlookup (dk_files d) name \<and> fmlookup (dk_synced d') name = fmlookup (dk_synced d) name"
  by (cases op) (auto simp: bind_res_eq_Inr fs_write_def fs_rename_def split: option.splits)

text \<open>A crash leaves every file alone that no operation names.\<close>

lemma disk_run_frame:
  "disk_run ops d = Inr d' \<Longrightarrow> name \<notin> (\<Union>op \<in> set ops. set (op_names op)) \<Longrightarrow>
   fmlookup (disk_crash kept d') name = fmlookup (disk_crash kept d) name"
proof (induction ops arbitrary: d)
  case (Cons op ops)
  then obtain d1 where "disk_exec op d = Inr d1" "disk_run ops d1 = Inr d'" by (auto simp: bind_res_eq_Inr)
  then show ?case using Cons.IH Cons.prems(2) disk_exec_frame [of op d d1 name] by simp
qed simp

end
