(* ===== verification/Manifest.thy ===== *)
theory Manifest
  imports Disk
begin

text \<open>
  \<^verbatim>\<open>src/src/manifest.rs\<close>: the version edits, one state change of the database each, their tagged
  encoding, the manifest (a log of encoded edits), the CURRENT file that names it, and its replay. The
  offset arithmetic of the decoder stays far below 2^64 and is on natural numbers; a slice out of
  range would panic, which \<open>decode_no_panic\<close> excludes.
\<close>

section \<open>Edits\<close>

definition TAG_COMPARATOR :: byte where "TAG_COMPARATOR = 1"
definition TAG_LOG_NUMBER :: byte where "TAG_LOG_NUMBER = 2"
definition TAG_NEXT_FILE_NUMBER :: byte where "TAG_NEXT_FILE_NUMBER = 3"
definition TAG_LAST_SEQUENCE :: byte where "TAG_LAST_SEQUENCE = 4"
definition TAG_COMPACT_POINTER :: byte where "TAG_COMPACT_POINTER = 5"
definition TAG_DELETED_FILE :: byte where "TAG_DELETED_FILE = 6"
definition TAG_NEW_FILE :: byte where "TAG_NEW_FILE = 7"
definition TAG_PREV_LOG_NUMBER :: byte where "TAG_PREV_LOG_NUMBER = 9"

lemmas tag_defs = TAG_COMPARATOR_def TAG_LOG_NUMBER_def TAG_NEXT_FILE_NUMBER_def TAG_LAST_SEQUENCE_def
  TAG_COMPACT_POINTER_def TAG_DELETED_FILE_def TAG_NEW_FILE_def TAG_PREV_LOG_NUMBER_def

record deleted_file =
  df_level :: u32
  df_number :: file_number

record new_file =
  nf_level :: u32
  nf_meta :: file_meta

text \<open>The comparator's name is its UTF-8 bytes.\<close>

record version_edit =
  ve_comparator :: "bytes option"
  ve_log_number :: "u64 option"
  ve_prev_log_number :: "u64 option"
  ve_next_file_number :: "u64 option"
  ve_last_sequence :: "u64 option"
  ve_deleted_files :: "deleted_file list"
  ve_new_files :: "new_file list"
  ve_compact_pointers :: "(u32 \<times> bytes) list"

definition version_edit_new :: version_edit where
  "version_edit_new = \<lparr>ve_comparator = None, ve_log_number = None, ve_prev_log_number = None,
     ve_next_file_number = None, ve_last_sequence = None, ve_deleted_files = [], ve_new_files = [],
     ve_compact_pointers = []\<rparr>"

definition set_comparator :: "bytes \<Rightarrow> version_edit \<Rightarrow> version_edit" where
  "set_comparator c e = e\<lparr>ve_comparator := Some c\<rparr>"

definition set_log_number :: "u64 \<Rightarrow> version_edit \<Rightarrow> version_edit" where
  "set_log_number n e = e\<lparr>ve_log_number := Some n\<rparr>"

definition set_prev_log_number :: "u64 \<Rightarrow> version_edit \<Rightarrow> version_edit" where
  "set_prev_log_number n e = e\<lparr>ve_prev_log_number := Some n\<rparr>"

definition set_next_file_number :: "u64 \<Rightarrow> version_edit \<Rightarrow> version_edit" where
  "set_next_file_number n e = e\<lparr>ve_next_file_number := Some n\<rparr>"

definition set_last_sequence :: "u64 \<Rightarrow> version_edit \<Rightarrow> version_edit" where
  "set_last_sequence s e = e\<lparr>ve_last_sequence := Some s\<rparr>"

definition add_delete :: "u32 \<Rightarrow> file_number \<Rightarrow> version_edit \<Rightarrow> version_edit" where
  "add_delete level number e =
     e\<lparr>ve_deleted_files := ve_deleted_files e @ [\<lparr>df_level = level, df_number = number\<rparr>]\<rparr>"

definition add_file :: "u32 \<Rightarrow> file_meta \<Rightarrow> version_edit \<Rightarrow> version_edit" where
  "add_file level meta e = e\<lparr>ve_new_files := ve_new_files e @ [\<lparr>nf_level = level, nf_meta = meta\<rparr>]\<rparr>"

definition set_compact_pointer :: "u32 \<Rightarrow> bytes \<Rightarrow> version_edit \<Rightarrow> version_edit" where
  "set_compact_pointer level key e = e\<lparr>ve_compact_pointers := ve_compact_pointers e @ [(level, key)]\<rparr>"

lemmas edit_setter_defs = set_comparator_def set_log_number_def set_prev_log_number_def set_next_file_number_def
  set_last_sequence_def add_delete_def add_file_def set_compact_pointer_def

section \<open>Encoding\<close>

text \<open>The two shapes of a field: an optional number behind its tag, and a length-prefixed slice.\<close>

definition put_number :: "byte \<Rightarrow> u64 option \<Rightarrow> bytes \<Rightarrow> bytes" where
  "put_number tag n buf = (case n of None \<Rightarrow> buf | Some n \<Rightarrow> fst (encode_varint64 (buf @ [tag]) n))"

definition put_slice :: "bytes \<Rightarrow> bytes \<Rightarrow> bytes" where
  "put_slice s buf = fst (encode_varint32 buf (of_nat (length s))) @ s"

definition put_comparator :: "bytes option \<Rightarrow> bytes \<Rightarrow> bytes" where
  "put_comparator c buf = (case c of None \<Rightarrow> buf | Some c \<Rightarrow> put_slice c (buf @ [TAG_COMPARATOR]))"

definition put_deleted :: "bytes \<Rightarrow> deleted_file \<Rightarrow> bytes" where
  "put_deleted buf d =
     (let buf = buf @ [TAG_DELETED_FILE]; buf = fst (encode_varint32 buf (df_level d))
      in fst (encode_varint64 buf (df_number d)))"

definition put_new_file :: "bytes \<Rightarrow> new_file \<Rightarrow> bytes" where
  "put_new_file buf f =
     (let buf = buf @ [TAG_NEW_FILE];
          buf = fst (encode_varint32 buf (nf_level f));
          buf = fst (encode_varint64 buf (fm_number (nf_meta f)));
          buf = fst (encode_varint64 buf (fm_file_size (nf_meta f)));
          buf = put_slice (ik_encode (fm_smallest (nf_meta f))) buf
      in put_slice (ik_encode (fm_largest (nf_meta f))) buf)"

definition put_compact_pointer :: "bytes \<Rightarrow> u32 \<times> bytes \<Rightarrow> bytes" where
  "put_compact_pointer buf p =
     (let buf = buf @ [TAG_COMPACT_POINTER]; buf = fst (encode_varint32 buf (fst p))
      in put_slice (snd p) buf)"

definition edit_encode_to :: "version_edit \<Rightarrow> bytes \<Rightarrow> bytes" where
  "edit_encode_to e buf =
     (let buf = put_comparator (ve_comparator e) buf;
          buf = put_number TAG_LOG_NUMBER (ve_log_number e) buf;
          buf = put_number TAG_PREV_LOG_NUMBER (ve_prev_log_number e) buf;
          buf = put_number TAG_NEXT_FILE_NUMBER (ve_next_file_number e) buf;
          buf = put_number TAG_LAST_SEQUENCE (ve_last_sequence e) buf;
          buf = foldl put_deleted buf (ve_deleted_files e);
          buf = foldl put_new_file buf (ve_new_files e)
      in foldl put_compact_pointer buf (ve_compact_pointers e))"

definition edit_encode :: "version_edit \<Rightarrow> bytes" where
  "edit_encode e = edit_encode_to e []"

section \<open>Decoding\<close>

definition corrupt :: "string \<Rightarrow> mulan_error" where
  "corrupt msg = Corrupted (''version edit: '' @ msg)"

text \<open>\<open>String::from_utf8\<close> accepts the well-formed byte sequences of the Unicode standard.\<close>

definition utf8_cont :: "byte \<Rightarrow> bool" where
  "utf8_cont b \<longleftrightarrow> 0x80 \<le> b \<and> b \<le> 0xBF"

text \<open>The range of the second byte, by the first byte.\<close>

definition utf8_second :: "byte \<Rightarrow> byte \<Rightarrow> bool" where
  "utf8_second b c \<longleftrightarrow>
     (if b = 0xE0 then 0xA0 \<le> c \<and> c \<le> 0xBF else if b = 0xED then 0x80 \<le> c \<and> c \<le> 0x9F
      else if b = 0xF0 then 0x90 \<le> c \<and> c \<le> 0xBF else if b = 0xF4 then 0x80 \<le> c \<and> c \<le> 0x8F
      else utf8_cont c)"

definition utf8_width :: "byte \<Rightarrow> nat" where
  "utf8_width b =
     (if b < 0x80 then 1 else if 0xC2 \<le> b \<and> b \<le> 0xDF then 2 else if 0xE0 \<le> b \<and> b \<le> 0xEF then 3
      else if 0xF0 \<le> b \<and> b \<le> 0xF4 then 4 else 0)"

function utf8_valid :: "bytes \<Rightarrow> bool" where
  "utf8_valid bs =
     (case bs of
        [] \<Rightarrow> True
      | b # tail \<Rightarrow>
          let w = utf8_width b in
          if 0 < w \<and> w \<le> length bs \<and> (1 < w \<longrightarrow> utf8_second b (bs ! 1)) \<and>
             list_all utf8_cont (take (w - 2) (drop 2 bs))
          then utf8_valid (drop w bs) else False)"
  by pat_completeness auto
termination by (relation "measure length") auto

declare utf8_valid.simps [simp del]

text \<open>Reading one number or slice at offset \<open>i\<close>, and the offset behind it.\<close>

definition read_v32 :: "bytes \<Rightarrow> nat \<Rightarrow> (u32 \<times> nat) res" where
  "read_v32 buf i =
     bind_res (slice_from buf i) (\<lambda>s. bind_res (decode_varint32 s) (\<lambda>(v, n). Inr (v, i + n)))"

definition read_v64 :: "bytes \<Rightarrow> nat \<Rightarrow> (u64 \<times> nat) res" where
  "read_v64 buf i =
     bind_res (slice_from buf i) (\<lambda>s. bind_res (decode_varint64 s) (\<lambda>(v, n). Inr (v, i + n)))"

definition read_slice :: "string \<Rightarrow> bytes \<Rightarrow> nat \<Rightarrow> (bytes \<times> nat) res" where
  "read_slice msg buf i =
     bind_res (read_v32 buf i) (\<lambda>(len, i).
     let end_pos = i + unat len in
     if length buf < end_pos then Inl (corrupt msg)
     else bind_res (slice_range buf i end_pos) (\<lambda>s. Inr (s, end_pos)))"

text \<open>One arm per tag; \<open>i\<close> is the offset behind the tag.\<close>

definition decode_field :: "bytes \<Rightarrow> byte \<Rightarrow> nat \<Rightarrow> version_edit \<Rightarrow> (version_edit \<times> nat) res" where
  "decode_field buf tag i e =
     (if tag = TAG_COMPARATOR then
        bind_res (read_slice ''comparator length out of bounds'' buf i) (\<lambda>(s, i).
        if utf8_valid s then Inr (e\<lparr>ve_comparator := Some s\<rparr>, i) else Inl (corrupt ''comparator not utf-8''))
      else if tag = TAG_LOG_NUMBER then
        bind_res (read_v64 buf i) (\<lambda>(n, i). Inr (e\<lparr>ve_log_number := Some n\<rparr>, i))
      else if tag = TAG_PREV_LOG_NUMBER then
        bind_res (read_v64 buf i) (\<lambda>(n, i). Inr (e\<lparr>ve_prev_log_number := Some n\<rparr>, i))
      else if tag = TAG_NEXT_FILE_NUMBER then
        bind_res (read_v64 buf i) (\<lambda>(n, i). Inr (e\<lparr>ve_next_file_number := Some n\<rparr>, i))
      else if tag = TAG_LAST_SEQUENCE then
        bind_res (read_v64 buf i) (\<lambda>(n, i). Inr (e\<lparr>ve_last_sequence := Some n\<rparr>, i))
      else if tag = TAG_DELETED_FILE then
        bind_res (read_v32 buf i) (\<lambda>(level, i).
        bind_res (read_v64 buf i) (\<lambda>(num, i).
        Inr (e\<lparr>ve_deleted_files := ve_deleted_files e @ [\<lparr>df_level = level, df_number = num\<rparr>]\<rparr>, i)))
      else if tag = TAG_NEW_FILE then
        bind_res (read_v32 buf i) (\<lambda>(level, i).
        bind_res (read_v64 buf i) (\<lambda>(num, i).
        bind_res (read_v64 buf i) (\<lambda>(size, i).
        bind_res (read_slice ''smallest key length out of bounds'' buf i) (\<lambda>(s, i).
        bind_res (ik_decode s) (\<lambda>smallest.
        bind_res (read_slice ''largest key length out of bounds'' buf i) (\<lambda>(s, i).
        bind_res (ik_decode s) (\<lambda>largest.
        Inr (e\<lparr>ve_new_files := ve_new_files e @
                 [\<lparr>nf_level = level, nf_meta = file_meta_new num size smallest largest\<rparr>]\<rparr>, i))))))))
      else if tag = TAG_COMPACT_POINTER then
        bind_res (read_v32 buf i) (\<lambda>(level, i).
        bind_res (read_slice ''compact pointer key out of bounds'' buf i) (\<lambda>(key, i).
        Inr (e\<lparr>ve_compact_pointers := ve_compact_pointers e @ [(level, key)]\<rparr>, i)))
      else Inl (corrupt ''unknown version edit tag''))"

lemma read_v32_progress: "read_v32 buf i = Inr (v, j) \<Longrightarrow> i \<le> j"
  by (auto simp: read_v32_def bind_res_eq_Inr)

lemma read_v64_progress: "read_v64 buf i = Inr (v, j) \<Longrightarrow> i \<le> j"
  by (auto simp: read_v64_def bind_res_eq_Inr)

lemma read_slice_progress: "read_slice msg buf i = Inr (v, j) \<Longrightarrow> i \<le> j"
  by (auto simp: read_slice_def bind_res_eq_Inr Let_def dest!: read_v32_progress split: if_splits)

lemmas read_progress = read_v32_progress read_v64_progress read_slice_progress

lemma decode_field_progress: "decode_field buf tag i e = Inr (e', j) \<Longrightarrow> i \<le> j"
  unfolding decode_field_def
  by (auto simp: bind_res_eq_Inr dest!: read_progress split: if_splits)

text \<open>The \<open>while i < buf.len()\<close> loop.\<close>

function edit_decode_loop :: "bytes \<Rightarrow> nat \<Rightarrow> version_edit \<Rightarrow> version_edit res" where
  "edit_decode_loop buf i e =
     (if i < length buf then
        let tag = buf ! i
        in bind_res (decode_field buf tag (i + 1) e) (\<lambda>(e, i). edit_decode_loop buf i e)
      else Inr e)"
  by pat_completeness auto
termination
  by (relation "measure (\<lambda>(buf, i, e). length buf - i)") (auto dest!: decode_field_progress)

declare edit_decode_loop.simps [simp del]

definition edit_decode :: "bytes \<Rightarrow> version_edit res" where
  "edit_decode buf = edit_decode_loop buf 0 version_edit_new"

section \<open>The manifest file and CURRENT\<close>

record manifest_writer =
  mw_wal :: log_handle

definition manifest_create :: "file_number \<Rightarrow> fs \<Rightarrow> manifest_writer \<times> fs" where
  "manifest_create number fs =
     (let path = manifest_path number; (wal, fs) = log_open path fs in (\<lparr>mw_wal = wal\<rparr>, fs))"

definition manifest_append :: "(bytes \<Rightarrow> u32) \<Rightarrow> manifest_writer \<Rightarrow> version_edit \<Rightarrow> fs \<Rightarrow> manifest_writer \<times> fs" where
  "manifest_append crc mw edit fs =
     (let bytes = edit_encode edit; (wal, fs) = log_add crc (mw_wal mw) bytes fs
      in (mw\<lparr>mw_wal := wal\<rparr>, fs))"

text \<open>What CURRENT contains when it names a manifest.\<close>

definition current_content :: "file_number \<Rightarrow> bytes" where
  "current_content manifest_number =
     (let name = MANIFEST_PREFIX @ to_name_part manifest_number in string_bytes name @ string_bytes [CHR 10])"

text \<open>The file-system calls of \<open>write_current\<close> in their order, and \<open>write_current\<close> as their execution.\<close>

definition write_current_ops :: "file_number \<Rightarrow> fs_op list" where
  "write_current_ops manifest_number =
     (let tmp = current_tmp_path; name = MANIFEST_PREFIX @ to_name_part manifest_number
      in [Create_File tmp, Write_All tmp (string_bytes name), Write_All tmp (string_bytes [CHR 10]), Sync_All tmp,
          Rename_File tmp current_path])"

definition write_current :: "file_number \<Rightarrow> fs \<Rightarrow> fs res" where
  "write_current manifest_number fs =
     bind_res (disk_run (write_current_ops manifest_number) (on_disk fs)) (\<lambda>d. Inr (dk_files d))"

text \<open>\<open>str::trim_end\<close>: the characters with the Unicode property \<open>White_Space\<close>, as UTF-8 bytes.\<close>

definition white_spaces :: "bytes list" where
  "white_spaces = [[9], [10], [11], [12], [13], [32], [0xC2, 0x85], [0xC2, 0xA0], [0xE1, 0x9A, 0x80],
     [0xE2, 0x80, 0x80], [0xE2, 0x80, 0x81], [0xE2, 0x80, 0x82], [0xE2, 0x80, 0x83], [0xE2, 0x80, 0x84],
     [0xE2, 0x80, 0x85], [0xE2, 0x80, 0x86], [0xE2, 0x80, 0x87], [0xE2, 0x80, 0x88], [0xE2, 0x80, 0x89],
     [0xE2, 0x80, 0x8A], [0xE2, 0x80, 0xA8], [0xE2, 0x80, 0xA9], [0xE2, 0x80, 0xAF], [0xE2, 0x81, 0x9F],
     [0xE3, 0x80, 0x80]]"

definition ends_with :: "bytes \<Rightarrow> bytes \<Rightarrow> bool" where
  "ends_with s w \<longleftrightarrow> length w \<le> length s \<and> drop (length s - length w) s = w"

lemma white_spaces_nonempty: "w \<in> set white_spaces \<Longrightarrow> w \<noteq> []"
  by (auto simp: white_spaces_def)

function trim_end :: "bytes \<Rightarrow> bytes" where
  "trim_end s =
     (case find (ends_with s) white_spaces of
        None \<Rightarrow> s
      | Some w \<Rightarrow> trim_end (take (length s - length w) s))"
  by pat_completeness auto
termination
proof (relation "measure length")
  fix s w assume "find (ends_with s) white_spaces = Some w"
  then have "w \<in> set white_spaces" "ends_with s w" by (auto simp: find_Some_iff in_set_conv_nth)
  then have "0 < length w" "length w \<le> length s" using white_spaces_nonempty by (auto simp: ends_with_def)
  then have "length s - length w < length s" by linarith
  then show "(take (length s - length w) s, s) \<in> measure length" by simp
qed simp

declare trim_end.simps [simp del]

definition read_current :: "fs \<Rightarrow> file_number res" where
  "read_current fs =
     bind_res (fs_read current_path fs) (\<lambda>content.
     if \<not> utf8_valid content then Inl (Io ''stream did not contain valid UTF-8'')
     else
       let name = trim_end content
       in ok_or (parse_manifest_name (bytes_string name)) (corrupt ''CURRENT points to invalid manifest name''))"

record manifest_recovery =
  mr_edits :: "version_edit list"
  mr_manifest_number :: file_number

primrec decode_edits :: "bytes list \<Rightarrow> version_edit list \<Rightarrow> version_edit list res" where
  "decode_edits [] edits = Inr edits"
| "decode_edits (rec # records) edits =
     bind_res (edit_decode rec) (\<lambda>e. decode_edits records (edits @ [e]))"

definition recover_manifest :: "(bytes \<Rightarrow> u32) \<Rightarrow> fs \<Rightarrow> manifest_recovery res" where
  "recover_manifest crc fs =
     bind_res (read_current fs) (\<lambda>manifest_number.
     let path = manifest_path manifest_number in
     bind_res (log_read crc path fs) (\<lambda>records.
     bind_res (decode_edits records []) (\<lambda>edits.
     Inr \<lparr>mr_edits = edits, mr_manifest_number = manifest_number\<rparr>)))"

section \<open>Decoding never panics\<close>

definition no_panic :: "'a res \<Rightarrow> bool" where
  "no_panic r \<longleftrightarrow> (\<forall>m. r \<noteq> Inl (Panicked m))"

text \<open>A read of the decoder: no panic, and the offset it returns is inside the buffer.\<close>

definition read_ok :: "bytes \<Rightarrow> ('a \<times> nat) res \<Rightarrow> bool" where
  "read_ok buf r \<longleftrightarrow> no_panic r \<and> (\<forall>v j. r = Inr (v, j) \<longrightarrow> j \<le> length buf)"

lemma no_panic_simps [simp]:
  "no_panic (Inr x)" "no_panic (Inl (Corrupted m))" "no_panic (Inl (corrupt m))"
  by (simp_all add: no_panic_def corrupt_def)

lemma no_panic_bind: "no_panic r \<Longrightarrow> (\<And>x. r = Inr x \<Longrightarrow> no_panic (f x)) \<Longrightarrow> no_panic (bind_res r f)"
  by (cases r) (auto simp: no_panic_def)

lemma read_ok_bind:
  "read_ok buf r \<Longrightarrow> (\<And>v j. j \<le> length buf \<Longrightarrow> read_ok buf (f v j)) \<Longrightarrow>
   read_ok buf (bind_res r (\<lambda>(v, j). f v j))"
  by (cases r) (auto simp: read_ok_def no_panic_def)

lemma read_ok_bind_pure: "no_panic r \<Longrightarrow> (\<And>v. read_ok buf (f v)) \<Longrightarrow> read_ok buf (bind_res r f)"
  by (cases r) (auto simp: read_ok_def no_panic_def)

lemma read_ok_if: "(b \<Longrightarrow> read_ok buf x) \<Longrightarrow> (\<not> b \<Longrightarrow> read_ok buf y) \<Longrightarrow> read_ok buf (if b then x else y)"
  by simp

lemma read_ok_simps [simp]:
  "read_ok buf (Inr (v, j)) \<longleftrightarrow> j \<le> length buf" "read_ok buf (Inl (corrupt m))"
  by (auto simp: read_ok_def)

lemma decode_loop_bound:
  "no_panic (decode_loop n i sh r bs) \<and> (\<forall>v k. decode_loop n i sh r bs = Inr (v, k) \<longrightarrow> k \<le> i + length bs)"
  by (induction n i sh r bs rule: decode_loop.induct) (auto simp: Let_def)

lemma decode_varints_bound:
  "no_panic (decode_varint32 bs)" "no_panic (decode_varint64 bs)"
  "decode_varint32 bs = Inr (v, k) \<Longrightarrow> k \<le> length bs" "decode_varint64 bs = Inr (w, k) \<Longrightarrow> k \<le> length bs"
  using decode_loop_bound [of MAX_VARINT32_LEN 0 0 0 bs] decode_loop_bound [of MAX_VARINT64_LEN 0 0 0 bs]
  by (auto simp: decode_varint32_def decode_varint64_def decode_varint_def bind_res_eq_Inr intro!: no_panic_bind)

lemma slice_from_ok: "i \<le> length buf \<Longrightarrow> slice_from buf i = Inr (drop i buf)"
  by (simp add: slice_from_def get_from_def)

lemma read_ok_v32: "i \<le> length buf \<Longrightarrow> read_ok buf (read_v32 buf i)"
  using decode_varints_bound(1,3) [of "drop i buf"]
  by (cases "decode_varint32 (drop i buf)") (auto simp: read_v32_def read_ok_def slice_from_ok no_panic_def)

lemma read_ok_v64: "i \<le> length buf \<Longrightarrow> read_ok buf (read_v64 buf i)"
  using decode_varints_bound(2,4) [of "drop i buf"]
  by (cases "decode_varint64 (drop i buf)") (auto simp: read_v64_def read_ok_def slice_from_ok no_panic_def)

lemma read_ok_slice: "i \<le> length buf \<Longrightarrow> read_ok buf (read_slice msg buf i)"
  unfolding read_slice_def Let_def
  by (intro read_ok_bind read_ok_v32) (simp_all add: slice_range_def get_range_def)

lemma no_panic_ik_decode: "no_panic (ik_decode s)"
  by (auto simp: ik_decode_def Let_def ok_or_def intro!: no_panic_bind split: option.splits)

lemma decode_field_ok: "i \<le> length buf \<Longrightarrow> read_ok buf (decode_field buf tag i e)"
  unfolding decode_field_def
  by (intro read_ok_if read_ok_bind read_ok_bind_pure read_ok_v32 read_ok_v64 read_ok_slice no_panic_ik_decode; simp)

lemma edit_decode_loop_no_panic: "i \<le> length buf \<Longrightarrow> no_panic (edit_decode_loop buf i e)"
proof (induction buf i e rule: edit_decode_loop.induct)
  case (1 buf i e)
  show ?case
  proof (cases "i < length buf")
    case True
    have f: "read_ok buf (decode_field buf (buf ! i) (i + 1) e)" using True by (simp add: decode_field_ok)
    show ?thesis
    proof (cases "decode_field buf (buf ! i) (i + 1) e")
      case (Inl err)
      then show ?thesis using f True by (subst edit_decode_loop.simps) (simp add: read_ok_def no_panic_def)
    next
      case (Inr x)
      obtain e' j where x: "x = (e', j)" by force
      have "j \<le> length buf" using f Inr by (simp add: read_ok_def x)
      then have "no_panic (edit_decode_loop buf j e')"
        using "1.IH" Inr x True by simp
      then show ?thesis using True Inr by (subst edit_decode_loop.simps) (simp add: x)
    qed
  next
    case False
    then show ?thesis by (subst edit_decode_loop.simps) simp
  qed
qed

section \<open>Encoded edits are decoded\<close>

text \<open>At offset \<open>i\<close> the buffer continues with \<open>s\<close>.\<close>

definition reads :: "bytes \<Rightarrow> nat \<Rightarrow> bytes \<Rightarrow> bool" where
  "reads buf i s \<longleftrightarrow> i \<le> length buf \<and> drop i buf = s"

lemma reads_skip: "reads buf i (xs @ s) \<Longrightarrow> reads buf (i + length xs) s"
proof -
  assume r: "reads buf i (xs @ s)"
  then have d: "drop i buf = xs @ s" and le: "i \<le> length buf" by (auto simp: reads_def)
  have "drop (length xs) (drop i buf) = s" by (simp add: d)
  then have "drop (i + length xs) buf = s" by (simp add: add.commute)
  moreover have "length (drop i buf) = length xs + length s" by (simp only: d length_append)
  then have "i + length xs \<le> length buf" using le by simp
  ultimately show ?thesis by (simp add: reads_def)
qed

lemma reads_nth:
  assumes "reads buf i (x # s)"
  shows "i < length buf \<and> buf ! i = x \<and> reads buf (i + 1) s"
proof -
  have d: "drop i buf = x # s" using assms by (simp add: reads_def)
  have l: "i < length buf" by (rule ccontr) (use d in simp)
  then have "buf ! i = x" using d by (metis Cons_nth_drop_Suc list.inject)
  then show ?thesis using l reads_skip [of buf i "[x]" s] assms by simp
qed

lemma reads_end: "reads buf i [] \<Longrightarrow> i = length buf"
  by (auto simp: reads_def)

lemma reads_v32:
  "reads buf i (varint_bytes v @ s) \<Longrightarrow>
   read_v32 buf i = Inr (v, i + length (varint_bytes v)) \<and> reads buf (i + length (varint_bytes v)) s"
  using reads_skip [of buf i "varint_bytes v" s]
  by (auto simp: read_v32_def reads_def slice_from_ok codec)

lemma reads_v64:
  "reads buf i (varint_bytes v @ s) \<Longrightarrow>
   read_v64 buf i = Inr (v, i + length (varint_bytes v)) \<and> reads buf (i + length (varint_bytes v)) s"
  using reads_skip [of buf i "varint_bytes v" s]
  by (auto simp: read_v64_def reads_def slice_from_ok codec)

definition slice_bytes :: "bytes \<Rightarrow> bytes" where
  "slice_bytes s = varint_bytes (of_nat (length s) :: u32) @ s"

lemma put_slice_bytes: "put_slice s buf = buf @ slice_bytes s"
  by (simp add: put_slice_def slice_bytes_def)

lemma reads_slice:
  assumes "reads buf i (slice_bytes x @ s)" and "length x < 2 ^ 32"
  shows "read_slice msg buf i = Inr (x, i + length (slice_bytes x)) \<and> reads buf (i + length (slice_bytes x)) s"
proof -
  let ?n = "of_nat (length x) :: u32" and ?j = "i + length (varint_bytes (of_nat (length x) :: u32))"
  have r: "reads buf i (varint_bytes ?n @ x @ s)" using assms(1) by (simp add: slice_bytes_def)
  note v = reads_v32 [OF r]
  have n: "unat ?n = length x" using assms(2) by (simp add: unat_of_nat_u32)
  have e: "reads buf (?j + length x) s" using reads_skip v by blast
  have g: "get_range buf ?j (?j + length x) = Some x"
    using v e by (auto simp: get_range_def reads_def)
  have "\<not> length buf < ?j + length x" using e by (simp add: reads_def)
  then show ?thesis
    using v e g by (simp add: read_slice_def n slice_range_def slice_bytes_def add.assoc)
qed

text \<open>One decoded field: the loop goes on behind it with the edit updated.\<close>

definition field_step :: "bytes \<Rightarrow> (version_edit \<Rightarrow> version_edit) \<Rightarrow> bool" where
  "field_step bs upd \<longleftrightarrow>
     (\<forall>buf i s e. reads buf i (bs @ s) \<longrightarrow>
        (\<exists>j. edit_decode_loop buf i e = edit_decode_loop buf j (upd e) \<and> reads buf j s))"

lemma field_step_nil: "field_step [] id"
  by (auto simp: field_step_def)

lemma field_step_append: "field_step xs f \<Longrightarrow> field_step ys g \<Longrightarrow> field_step (xs @ ys) (\<lambda>e. g (f e))"
  unfolding field_step_def by (metis append_assoc)

lemma field_step_concat:
  "(\<And>x. x \<in> set xs \<Longrightarrow> field_step (f x) (g x)) \<Longrightarrow> field_step (concat (map f xs)) (fold g xs)"
proof (induction xs)
  case Nil
  then show ?case using field_step_nil by (simp add: id_def)
next
  case (Cons x xs)
  then have "field_step (f x @ concat (map f xs)) (\<lambda>e. fold g xs (g x e))"
    by (intro field_step_append) auto
  then show ?case by (simp add: comp_def)
qed

lemma field_step_tag:
  assumes "\<And>buf i s e. reads buf i (bs @ s) \<Longrightarrow> \<exists>j. decode_field buf tag i e = Inr (upd e, j) \<and> reads buf j s"
  shows "field_step (tag # bs) upd"
  unfolding field_step_def
proof (intro allI impI)
  fix buf i s e assume r: "reads buf i ((tag # bs) @ s)"
  then have n: "i < length buf" "buf ! i = tag" "reads buf (i + 1) (bs @ s)" using reads_nth by auto
  obtain j where "decode_field buf tag (i + 1) e = Inr (upd e, j)" "reads buf j s" using assms [OF n(3)] by blast
  then show "\<exists>j. edit_decode_loop buf i e = edit_decode_loop buf j (upd e) \<and> reads buf j s"
    using n by (subst edit_decode_loop.simps) auto
qed

text \<open>The fields, as the bytes they add and the update they stand for.\<close>

definition number_bytes :: "byte \<Rightarrow> u64 option \<Rightarrow> bytes" where
  "number_bytes tag n = (case n of None \<Rightarrow> [] | Some n \<Rightarrow> tag # varint_bytes n)"

definition comparator_bytes :: "bytes option \<Rightarrow> bytes" where
  "comparator_bytes c = (case c of None \<Rightarrow> [] | Some c \<Rightarrow> TAG_COMPARATOR # slice_bytes c)"

definition deleted_bytes :: "deleted_file \<Rightarrow> bytes" where
  "deleted_bytes d = TAG_DELETED_FILE # varint_bytes (df_level d) @ varint_bytes (df_number d)"

definition new_file_bytes :: "new_file \<Rightarrow> bytes" where
  "new_file_bytes f = TAG_NEW_FILE # varint_bytes (nf_level f) @ varint_bytes (fm_number (nf_meta f)) @
     varint_bytes (fm_file_size (nf_meta f)) @ slice_bytes (ik_encode (fm_smallest (nf_meta f))) @
     slice_bytes (ik_encode (fm_largest (nf_meta f)))"

definition pointer_bytes :: "u32 \<times> bytes \<Rightarrow> bytes" where
  "pointer_bytes p = TAG_COMPACT_POINTER # varint_bytes (fst p) @ slice_bytes (snd p)"

lemma edit_encode_bytes:
  "edit_encode e = comparator_bytes (ve_comparator e) @ number_bytes TAG_LOG_NUMBER (ve_log_number e) @
     number_bytes TAG_PREV_LOG_NUMBER (ve_prev_log_number e) @
     number_bytes TAG_NEXT_FILE_NUMBER (ve_next_file_number e) @
     number_bytes TAG_LAST_SEQUENCE (ve_last_sequence e) @
     concat (map deleted_bytes (ve_deleted_files e)) @ concat (map new_file_bytes (ve_new_files e)) @
     concat (map pointer_bytes (ve_compact_pointers e))"
proof -
  have f: "foldl g buf xs = buf @ concat (map h xs)" if "\<And>buf x. g buf x = buf @ h x"
    for g and h :: "'x \<Rightarrow> bytes" and buf xs
    by (induction xs arbitrary: buf) (simp_all add: that)
  have d: "foldl put_deleted buf xs = buf @ concat (map deleted_bytes xs)" for buf xs
    by (rule f) (simp add: put_deleted_def deleted_bytes_def Let_def)
  have n: "foldl put_new_file buf xs = buf @ concat (map new_file_bytes xs)" for buf xs
    by (rule f) (simp add: put_new_file_def new_file_bytes_def put_slice_bytes Let_def)
  have p: "foldl put_compact_pointer buf xs = buf @ concat (map pointer_bytes xs)" for buf xs
    by (rule f) (simp add: put_compact_pointer_def pointer_bytes_def put_slice_bytes Let_def)
  have c: "put_comparator x buf = buf @ comparator_bytes x" for x buf
    by (simp add: put_comparator_def comparator_bytes_def put_slice_bytes split: option.split)
  have u: "put_number tag x buf = buf @ number_bytes tag x" for tag x buf
    by (simp add: put_number_def number_bytes_def split: option.split)
  show ?thesis by (simp add: edit_encode_def edit_encode_to_def Let_def d n p c u)
qed

lemma number_steps:
  "field_step (number_bytes TAG_LOG_NUMBER n) (case n of None \<Rightarrow> id | Some n \<Rightarrow> ve_log_number_update (\<lambda>_. Some n))"
  "field_step (number_bytes TAG_PREV_LOG_NUMBER n)
     (case n of None \<Rightarrow> id | Some n \<Rightarrow> ve_prev_log_number_update (\<lambda>_. Some n))"
  "field_step (number_bytes TAG_NEXT_FILE_NUMBER n)
     (case n of None \<Rightarrow> id | Some n \<Rightarrow> ve_next_file_number_update (\<lambda>_. Some n))"
  "field_step (number_bytes TAG_LAST_SEQUENCE n)
     (case n of None \<Rightarrow> id | Some n \<Rightarrow> ve_last_sequence_update (\<lambda>_. Some n))"
  by (cases n; force simp: number_bytes_def field_step_nil decode_field_def tag_defs dest: reads_v64
      intro!: field_step_tag)+

lemma comparator_step:
  assumes "\<forall>c. x = Some c \<longrightarrow> utf8_valid c \<and> length c < 2 ^ 32"
  shows "field_step (comparator_bytes x) (case x of None \<Rightarrow> id | Some c \<Rightarrow> ve_comparator_update (\<lambda>_. Some c))"
proof (cases x)
  case None
  then show ?thesis by (simp add: comparator_bytes_def field_step_nil)
next
  case (Some c)
  have "\<exists>j. decode_field buf TAG_COMPARATOR i e = Inr (e\<lparr>ve_comparator := Some c\<rparr>, j) \<and> reads buf j s"
    if "reads buf i (slice_bytes c @ s)" for buf i s e
    using reads_slice [OF that] assms Some by (simp add: decode_field_def)
  then show ?thesis unfolding Some comparator_bytes_def option.case by (rule field_step_tag)
qed

lemma deleted_step: "field_step (deleted_bytes d) (\<lambda>e. e\<lparr>ve_deleted_files := ve_deleted_files e @ [d]\<rparr>)"
  unfolding deleted_bytes_def
proof (rule field_step_tag)
  fix buf i s e assume "reads buf i ((varint_bytes (df_level d) @ varint_bytes (df_number d)) @ s)"
  then have 1: "reads buf i (varint_bytes (df_level d) @ varint_bytes (df_number d) @ s)" by simp
  note 2 = reads_v32 [OF 1]
  note 3 = reads_v64 [OF 2 [THEN conjunct2]]
  show "\<exists>j. decode_field buf TAG_DELETED_FILE i e = Inr (e\<lparr>ve_deleted_files := ve_deleted_files e @ [d]\<rparr>, j)
    \<and> reads buf j s"
    using 2 3 by (simp add: decode_field_def tag_defs)
qed

lemma pointer_step:
  assumes "length (snd p) < 2 ^ 32"
  shows "field_step (pointer_bytes p) (\<lambda>e. e\<lparr>ve_compact_pointers := ve_compact_pointers e @ [p]\<rparr>)"
  unfolding pointer_bytes_def
proof (rule field_step_tag)
  fix buf i s e assume "reads buf i ((varint_bytes (fst p) @ slice_bytes (snd p)) @ s)"
  then have 1: "reads buf i (varint_bytes (fst p) @ slice_bytes (snd p) @ s)" by simp
  note 2 = reads_v32 [OF 1]
  note 3 = reads_slice [OF 2 [THEN conjunct2] assms]
  show "\<exists>j. decode_field buf TAG_COMPACT_POINTER i e =
      Inr (e\<lparr>ve_compact_pointers := ve_compact_pointers e @ [p]\<rparr>, j) \<and> reads buf j s"
    using 2 3 by (simp add: decode_field_def tag_defs)
qed

text \<open>The seek budget of a table is not written: decoding sets it to 0.\<close>

definition reset_seeks :: "new_file \<Rightarrow> new_file" where
  "reset_seeks f = f\<lparr>nf_meta := (nf_meta f)\<lparr>fm_allowed_seeks := 0\<rparr>\<rparr>"

lemma new_file_step:
  assumes fits: "length (ik_encode (fm_smallest (nf_meta f))) < 2 ^ 32" "length (ik_encode (fm_largest (nf_meta f))) < 2 ^ 32"
  shows "field_step (new_file_bytes f) (\<lambda>e. e\<lparr>ve_new_files := ve_new_files e @ [reset_seeks f]\<rparr>)"
  unfolding new_file_bytes_def
proof (rule field_step_tag)
  let ?m = "nf_meta f"
  let ?rest = "\<lambda>s. slice_bytes (ik_encode (fm_smallest ?m)) @ slice_bytes (ik_encode (fm_largest ?m)) @ s"
  fix buf i s e
  assume "reads buf i ((varint_bytes (nf_level f) @ varint_bytes (fm_number ?m) @ varint_bytes (fm_file_size ?m) @
      slice_bytes (ik_encode (fm_smallest ?m)) @ slice_bytes (ik_encode (fm_largest ?m))) @ s)"
  then have 1: "reads buf i (varint_bytes (nf_level f) @ varint_bytes (fm_number ?m) @ varint_bytes (fm_file_size ?m) @ ?rest s)"
    by simp
  note 2 = reads_v32 [OF 1]
  note 3 = reads_v64 [OF 2 [THEN conjunct2]]
  note 4 = reads_v64 [OF 3 [THEN conjunct2]]
  note 5 = reads_slice [OF 4 [THEN conjunct2] fits(1)]
  note 6 = reads_slice [OF 5 [THEN conjunct2] fits(2)]
  have m: "\<lparr>nf_level = nf_level f, nf_meta =
      file_meta_new (fm_number ?m) (fm_file_size ?m) (fm_smallest ?m) (fm_largest ?m)\<rparr> = reset_seeks f"
    by (simp add: file_meta_new_def reset_seeks_def)
  show "\<exists>j. decode_field buf TAG_NEW_FILE i e = Inr (e\<lparr>ve_new_files := ve_new_files e @ [reset_seeks f]\<rparr>, j) \<and> reads buf j s"
    using 2 3 4 5 6 by (simp add: decode_field_def tag_defs m ik_decode_encode)
qed

text \<open>What an edit needs for its encoding to be faithful: lengths that fit their 32-bit prefix, a UTF-8 name.\<close>

definition edit_fits :: "version_edit \<Rightarrow> bool" where
  "edit_fits e \<longleftrightarrow> (\<forall>c. ve_comparator e = Some c \<longrightarrow> utf8_valid c \<and> length c < 2 ^ 32) \<and>
     (\<forall>f \<in> set (ve_new_files e). length (ik_encode (fm_smallest (nf_meta f))) < 2 ^ 32 \<and>
        length (ik_encode (fm_largest (nf_meta f))) < 2 ^ 32) \<and>
     (\<forall>p \<in> set (ve_compact_pointers e). length (snd p) < 2 ^ 32)"

lemma fold_list_fields:
  "fold (\<lambda>d e. e\<lparr>ve_deleted_files := ve_deleted_files e @ [d]\<rparr>) ds e = ve_deleted_files_update (\<lambda>xs. xs @ ds) e"
  "fold (\<lambda>f e. e\<lparr>ve_new_files := ve_new_files e @ [g f]\<rparr>) fs e = ve_new_files_update (\<lambda>xs. xs @ map g fs) e"
  "fold (\<lambda>p e. e\<lparr>ve_compact_pointers := ve_compact_pointers e @ [p]\<rparr>) ps e =
     ve_compact_pointers_update (\<lambda>xs. xs @ ps) e"
proof -
  show "fold (\<lambda>d e. e\<lparr>ve_deleted_files := ve_deleted_files e @ [d]\<rparr>) ds e = ve_deleted_files_update (\<lambda>xs. xs @ ds) e"
    by (induction ds arbitrary: e) simp_all
  show "fold (\<lambda>f e. e\<lparr>ve_new_files := ve_new_files e @ [g f]\<rparr>) fs e = ve_new_files_update (\<lambda>xs. xs @ map g fs) e"
    by (induction fs arbitrary: e) simp_all
  show "fold (\<lambda>p e. e\<lparr>ve_compact_pointers := ve_compact_pointers e @ [p]\<rparr>) ps e =
      ve_compact_pointers_update (\<lambda>xs. xs @ ps) e"
    by (induction ps arbitrary: e) simp_all
qed

lemma optional_fields:
  "(case n of None \<Rightarrow> id | Some n \<Rightarrow> ve_log_number_update (\<lambda>_. Some n)) e =
     ve_log_number_update (\<lambda>x. if n = None then x else n) e"
  "(case n of None \<Rightarrow> id | Some n \<Rightarrow> ve_prev_log_number_update (\<lambda>_. Some n)) e =
     ve_prev_log_number_update (\<lambda>x. if n = None then x else n) e"
  "(case n of None \<Rightarrow> id | Some n \<Rightarrow> ve_next_file_number_update (\<lambda>_. Some n)) e =
     ve_next_file_number_update (\<lambda>x. if n = None then x else n) e"
  "(case n of None \<Rightarrow> id | Some n \<Rightarrow> ve_last_sequence_update (\<lambda>_. Some n)) e =
     ve_last_sequence_update (\<lambda>x. if n = None then x else n) e"
  "(case c of None \<Rightarrow> id | Some c \<Rightarrow> ve_comparator_update (\<lambda>_. Some c)) e =
     ve_comparator_update (\<lambda>x. if c = None then x else c) e"
  by (simp_all split: option.split)

lemma if_None_same: "(if n = None then None else n) = n"
  by simp

lemma edit_decode_encode_seeks:
  assumes fits: "edit_fits e"
  shows "edit_decode (edit_encode e) = Inr (e\<lparr>ve_new_files := map reset_seeks (ve_new_files e)\<rparr>)"
proof -
  let ?f = "\<lambda>e'. fold (\<lambda>p e. e\<lparr>ve_compact_pointers := ve_compact_pointers e @ [p]\<rparr>) (ve_compact_pointers e)
      (fold (\<lambda>f e. e\<lparr>ve_new_files := ve_new_files e @ [reset_seeks f]\<rparr>) (ve_new_files e)
      (fold (\<lambda>d e. e\<lparr>ve_deleted_files := ve_deleted_files e @ [d]\<rparr>) (ve_deleted_files e)
      ((case ve_last_sequence e of None \<Rightarrow> id | Some n \<Rightarrow> ve_last_sequence_update (\<lambda>_. Some n))
      ((case ve_next_file_number e of None \<Rightarrow> id | Some n \<Rightarrow> ve_next_file_number_update (\<lambda>_. Some n))
      ((case ve_prev_log_number e of None \<Rightarrow> id | Some n \<Rightarrow> ve_prev_log_number_update (\<lambda>_. Some n))
      ((case ve_log_number e of None \<Rightarrow> id | Some n \<Rightarrow> ve_log_number_update (\<lambda>_. Some n))
      ((case ve_comparator e of None \<Rightarrow> id | Some c \<Rightarrow> ve_comparator_update (\<lambda>_. Some c)) e')))))))"
  have c: "field_step (comparator_bytes (ve_comparator e))
      (case ve_comparator e of None \<Rightarrow> id | Some c \<Rightarrow> ve_comparator_update (\<lambda>_. Some c))"
    using fits by (intro comparator_step) (simp add: edit_fits_def)
  have d: "field_step (concat (map deleted_bytes (ve_deleted_files e)))
      (fold (\<lambda>d e. e\<lparr>ve_deleted_files := ve_deleted_files e @ [d]\<rparr>) (ve_deleted_files e))"
    by (rule field_step_concat) (rule deleted_step)
  have n: "field_step (concat (map new_file_bytes (ve_new_files e)))
      (fold (\<lambda>f e. e\<lparr>ve_new_files := ve_new_files e @ [reset_seeks f]\<rparr>) (ve_new_files e))"
    by (rule field_step_concat, rule new_file_step) (use fits in \<open>simp_all add: edit_fits_def\<close>)
  have p: "field_step (concat (map pointer_bytes (ve_compact_pointers e)))
      (fold (\<lambda>p e. e\<lparr>ve_compact_pointers := ve_compact_pointers e @ [p]\<rparr>) (ve_compact_pointers e))"
    by (rule field_step_concat, rule pointer_step) (use fits in \<open>simp_all add: edit_fits_def\<close>)
  have step: "field_step (edit_encode e) ?f"
    unfolding edit_encode_bytes
    by (rule field_step_append [OF c field_step_append [OF number_steps(1) field_step_append [OF number_steps(2)
        field_step_append [OF number_steps(3) field_step_append [OF number_steps(4)
        field_step_append [OF d field_step_append [OF n p]]]]]]])
  have f: "?f version_edit_new = e\<lparr>ve_new_files := map reset_seeks (ve_new_files e)\<rparr>"
    by (cases e) (simp add: optional_fields fold_list_fields version_edit_new_def if_None_same)
  have "reads (edit_encode e) 0 (edit_encode e @ [])" by (simp add: reads_def)
  then obtain j where j: "reads (edit_encode e) j []" and
    l: "edit_decode (edit_encode e) = edit_decode_loop (edit_encode e) j (?f version_edit_new)"
    using step unfolding field_step_def edit_decode_def by blast
  show ?thesis unfolding l f using reads_end [OF j] by (subst edit_decode_loop.simps) simp
qed

text \<open>The edits the database itself writes have no seek budget and are decoded to themselves.\<close>

definition meta_ok :: "file_meta \<Rightarrow> bool" where
  "meta_ok m \<longleftrightarrow> length (user_key (fm_smallest m)) + 9 < 2 ^ 32 \<and> length (user_key (fm_largest m)) + 9 < 2 ^ 32 \<and>
     fm_allowed_seeks m = 0"

definition edit_ok :: "version_edit \<Rightarrow> bool" where
  "edit_ok e \<longleftrightarrow> (\<forall>c. ve_comparator e = Some c \<longrightarrow> utf8_valid c \<and> length c < 2 ^ 32) \<and>
     (\<forall>f \<in> set (ve_new_files e). meta_ok (nf_meta f)) \<and> (\<forall>p \<in> set (ve_compact_pointers e). length (snd p) < 2 ^ 32)"

lemma edit_ok_fits: "edit_ok e \<Longrightarrow> edit_fits e"
  by (auto simp: edit_ok_def edit_fits_def meta_ok_def length_ik_encode)

lemma edit_decode_encode [codec]:
  assumes "edit_ok e"
  shows "edit_decode (edit_encode e) = Inr e"
proof -
  have "reset_seeks f = f" if "f \<in> set (ve_new_files e)" for f
    using assms that by (simp add: edit_ok_def meta_ok_def reset_seeks_def)
  then have "map reset_seeks (ve_new_files e) = ve_new_files e" by (rule map_idI)
  then show ?thesis using edit_decode_encode_seeks [OF edit_ok_fits [OF assms]] by simp
qed

section \<open>CURRENT names the manifest\<close>

lemma utf8_valid_ascii: "(\<forall>b \<in> set bs. b < 0x80) \<Longrightarrow> utf8_valid bs"
proof (induction bs)
  case (Cons b bs)
  then show ?case by (subst utf8_valid.simps) (simp add: utf8_width_def)
qed (simp add: utf8_valid.simps)

lemma of_char_word_less: "unat (of_nat (of_char c) :: byte) = of_char c"
  using nat_of_char_less_256 [of c] by (simp add: unat_of_nat)

lemma ascii_string: "(\<forall>c \<in> set s. (of_char c :: nat) < 128) \<Longrightarrow> utf8_valid (string_bytes s)"
  by (rule utf8_valid_ascii) (simp add: string_bytes_def word_less_nat_alt of_char_word_less)

lemma manifest_name_ascii: "c \<in> set (manifest_path n) \<Longrightarrow> (of_char c :: nat) < 128"
  using name_part_digits [of n]
  by (auto simp: manifest_path_def MANIFEST_PREFIX_def list_all_iff is_ascii_digit_def)

lemma current_content_path: "current_content n = string_bytes (manifest_path n) @ [10]"
  by (simp add: current_content_def manifest_path_def string_bytes_def)

lemma utf8_current: "utf8_valid (current_content n)"
proof -
  have "current_content n = string_bytes (manifest_path n @ [CHR 10])"
    by (simp add: current_content_path string_bytes_def)
  then show ?thesis using ascii_string [of "manifest_path n @ [CHR 10]"] manifest_name_ascii by auto
qed

lemma ends_with_last: "w \<noteq> [] \<Longrightarrow> ends_with s w \<Longrightarrow> s \<noteq> [] \<and> List.last s = List.last w"
  by (auto simp: ends_with_def) (metis append_take_drop_id last_appendR)

text \<open>White space ends in a control byte, a blank or a continuation byte, never in a digit.\<close>

lemma white_spaces_last: "w \<in> set white_spaces \<Longrightarrow> List.last w \<le> 32 \<or> 0x80 \<le> List.last w"
  by (auto simp: white_spaces_def)

lemma trim_end_stop:
  assumes "s \<noteq> []" and "32 < List.last s" and "List.last s < 0x80"
  shows "trim_end s = s"
proof -
  have "\<not> ends_with s w" if w: "w \<in> set white_spaces" for w
  proof
    assume "ends_with s w"
    then have "List.last s = List.last w" using ends_with_last white_spaces_nonempty [OF w] by blast
    then show False using white_spaces_last [OF w] assms(2,3) by (auto simp: not_le [symmetric])
  qed
  then have "find (ends_with s) white_spaces = None" by (simp add: find_None_iff)
  then show ?thesis by (subst trim_end.simps) simp
qed

lemma trim_end_newline:
  assumes "s \<noteq> []" and "32 < List.last s" and "List.last s < 0x80"
  shows "trim_end (s @ [10]) = s"
proof -
  have "\<not> ends_with (s @ [10]) [9]" "ends_with (s @ [10]) [10]" by (auto simp: ends_with_def)
  then have "find (ends_with (s @ [10])) white_spaces = Some [10]" by (simp add: white_spaces_def)
  then show ?thesis using trim_end_stop [OF assms] by (subst trim_end.simps) simp
qed

lemma read_current_content:
  assumes "fmlookup fs current_path = Some (current_content n)"
  shows "read_current fs = Inr n"
proof -
  let ?s = "string_bytes (manifest_path n)"
  have ne: "?s \<noteq> []" using names_nonempty(3) [of n] by (simp add: string_bytes_def)
  have l: "List.last ?s = of_nat (of_char (List.last (manifest_path n)))"
    using names_nonempty(3) [of n] by (simp add: string_bytes_def last_map)
  have "48 \<le> (of_char (List.last (manifest_path n)) :: nat) \<and> (of_char (List.last (manifest_path n)) :: nat) \<le> 57"
    using last_names(3) [of n] by (simp add: is_ascii_digit_def)
  then have "32 < List.last ?s" "List.last ?s < 0x80"
    by (simp_all add: l word_less_nat_alt of_char_word_less)
  then have "trim_end (current_content n) = ?s"
    unfolding current_content_path using ne by (intro trim_end_newline)
  then show ?thesis by (simp add: read_current_def fs_read_Some [OF assms] utf8_current)
qed

lemma read_current_cong: "fmlookup fs current_path = fmlookup fs' current_path \<Longrightarrow> read_current fs = read_current fs'"
  by (simp add: read_current_def fs_read_def)

text \<open>The operations run to their end, and nothing of what they wrote is left unsynced.\<close>

lemma write_current_run:
  "\<exists>d. disk_run (write_current_ops n) (on_disk fs) = Inr d \<and> (\<forall>name. fmlookup (dk_synced d) name = None) \<and>
     fmlookup (dk_files d) current_path = Some (current_content n) \<and>
     (\<forall>name. name \<noteq> current_path \<longrightarrow>
        fmlookup (dk_files d) name = (if name = current_tmp_path then None else fmlookup fs name))"
  by (simp add: write_current_ops_def on_disk_def fs_rename_def fs_write_def Let_def current_content_def string_bytes_def)

text \<open>A crash before the renaming finds CURRENT as it was, one behind it finds the new name.\<close>

lemma write_current_crash:
  assumes "disk_run (take i (write_current_ops n)) (on_disk fs) = Inr d"
  shows "fmlookup (disk_crash kept d) current_path =
      (if i < length (write_current_ops n) then fmlookup fs current_path else Some (current_content n))"
    and "name \<noteq> current_path \<Longrightarrow> name \<noteq> current_tmp_path \<Longrightarrow> fmlookup (disk_crash kept d) name = fmlookup fs name"
proof -
  let ?ops = "write_current_ops n" and ?files = "\<lambda>ops. \<Union>op \<in> set ops. set (op_names op)"
  have frame: "name \<notin> ?files (take i ?ops) \<Longrightarrow> fmlookup (disk_crash kept d) name = fmlookup fs name" for name
    using disk_run_frame [OF assms] by (simp only: disk_crash_on_disk not_False_eq_True)
  have len: "length ?ops = 5" by (simp add: write_current_ops_def Let_def)
  have early: "i < 5 \<Longrightarrow> ?files (take i ?ops) \<subseteq> {current_tmp_path}"
    by (auto simp: write_current_ops_def Let_def take_Cons' numeral_eq_Suc split: if_splits)
  show "fmlookup (disk_crash kept d) current_path =
      (if i < length ?ops then fmlookup fs current_path else Some (current_content n))"
  proof (cases "i < length ?ops")
    case True
    have "current_path \<notin> {current_tmp_path}" by simp
    then have "current_path \<notin> ?files (take i ?ops)" using early True len by auto
    then show ?thesis using frame True by simp
  next
    case False
    then have "disk_run ?ops (on_disk fs) = Inr d" using assms by simp
    then show ?thesis using False write_current_run [of n fs] by auto
  qed
  have "?files (take i ?ops) \<subseteq> ?files ?ops" by (auto dest: in_set_takeD)
  then have "?files (take i ?ops) \<subseteq> {current_tmp_path, current_path}"
    by (auto simp: write_current_ops_def Let_def)
  then show "name \<noteq> current_path \<Longrightarrow> name \<noteq> current_tmp_path \<Longrightarrow> fmlookup (disk_crash kept d) name = fmlookup fs name"
    using frame [of name] by blast
qed

lemma write_current_Inr:
  "\<exists>fs'. write_current n fs = Inr fs' \<and> fmlookup fs' current_path = Some (current_content n) \<and>
     (\<forall>name. name \<noteq> current_path \<longrightarrow> fmlookup fs' name = (if name = current_tmp_path then None else fmlookup fs name))"
  using write_current_run [of n fs] by (auto simp: write_current_def)

section \<open>Replaying the manifest\<close>

lemma decode_edits_encoded:
  "\<forall>e \<in> set es. edit_ok e \<Longrightarrow> decode_edits (map edit_encode es) acc = Inr (acc @ es)"
  by (induction es arbitrary: acc) (simp_all add: edit_decode_encode)

text \<open>The writer's manifest holds the edits \<open>es\<close>.\<close>

definition manifest_holds :: "(bytes \<Rightarrow> u32) \<Rightarrow> manifest_writer \<Rightarrow> fs \<Rightarrow> version_edit list \<Rightarrow> bool" where
  "manifest_holds crc mw fs es \<longleftrightarrow> log_holds crc (mw_wal mw) fs (map edit_encode es)"

lemma manifest_create_new:
  assumes "fmlookup fs (manifest_path n) = None" and "manifest_create n fs = (mw, fs')"
  shows "manifest_holds crc mw fs' []" "lh_name (mw_wal mw) = manifest_path n" "fs' = fmupd (manifest_path n) [] fs"
  using assms log_holds_new [of "manifest_path n" fs]
  by (auto simp: manifest_create_def manifest_holds_def Let_def split: prod.splits)

lemma manifest_append_holds:
  assumes "manifest_holds crc mw fs es" and "manifest_append crc mw e fs = (mw', fs')"
  shows "manifest_holds crc mw' fs' (es @ [e])" "lh_name (mw_wal mw') = lh_name (mw_wal mw)"
    "name \<noteq> lh_name (mw_wal mw) \<Longrightarrow> fmlookup fs' name = fmlookup fs name"
  using assms log_add_lookup [of crc "mw_wal mw" fs "map edit_encode es" "edit_encode e"]
  by (auto simp: manifest_append_def manifest_holds_def Let_def split: prod.splits)

lemma manifest_holds_recover:
  assumes "manifest_holds crc mw fs es" and "lh_name (mw_wal mw) = manifest_path n"
    and "fmlookup fs current_path = Some (current_content n)" and "\<forall>e \<in> set es. edit_ok e"
  shows "recover_manifest crc fs = Inr \<lparr>mr_edits = es, mr_manifest_number = n\<rparr>"
  using assms log_holds_read [of crc "mw_wal mw" fs "map edit_encode es"]
  by (simp add: recover_manifest_def read_current_content manifest_holds_def decode_edits_encoded)

section \<open>Properties\<close>

text \<open>C32: Every version edit whose comparator name is UTF-8, and whose encoded keys, compaction pointers and name fit their
  32-bit length prefixes, is decoded to itself up to the seek budgets: all optional fields, deleted files, new
  files and compaction pointers come back in order, and \<open>allowed_seeks\<close>, which is not written, is 0 in every new file.\<close>

theorem manifest_edit_roundtrip:
  assumes "edit_fits e"
  shows "edit_decode (edit_encode e) = Inr (e\<lparr>ve_new_files := map reset_seeks (ve_new_files e)\<rparr>)"
  by (rule edit_decode_encode_seeks [OF assms])

theorem manifest_edit_roundtrip_witness:
  "edit_decode (edit_encode (set_last_sequence 9 (add_file 0 \<lparr>fm_number = 3, fm_file_size = 120,
       fm_smallest = InternalKey [1] 5 Put, fm_largest = InternalKey [7] 2 Delete, fm_allowed_seeks = 17\<rparr>
       (set_compact_pointer 1 [4, 4] (set_comparator [0x66] (add_delete 1 8 version_edit_new)))))) =
   Inr (set_last_sequence 9 (add_file 0 \<lparr>fm_number = 3, fm_file_size = 120,
       fm_smallest = InternalKey [1] 5 Put, fm_largest = InternalKey [7] 2 Delete, fm_allowed_seeks = 0\<rparr>
       (set_compact_pointer 1 [4, 4] (set_comparator [0x66] (add_delete 1 8 version_edit_new)))))"
proof -
  let ?f = "\<lparr>fm_number = 3, fm_file_size = 120, fm_smallest = InternalKey [1] 5 Put,
    fm_largest = InternalKey [7] 2 Delete, fm_allowed_seeks = 17\<rparr>"
  let ?e = "set_last_sequence 9 (add_file 0 ?f (set_compact_pointer 1 [4, 4]
    (set_comparator [0x66] (add_delete 1 8 version_edit_new))))"
  have "utf8_valid [0x66]" by (rule utf8_valid_ascii) simp
  then have "edit_fits ?e" by (simp add: edit_fits_def edit_setter_defs version_edit_new_def)
  then show ?thesis
    using manifest_edit_roundtrip [of ?e] by (simp add: edit_setter_defs version_edit_new_def reset_seeks_def)
qed

text \<open>C33: Decoding an edit terminates without a panic on every byte sequence: each slice the decoder takes is in range,
  so damaged input ends in an edit or in a reported corruption.\<close>

theorem edit_decode_never_panics: "edit_decode buf \<noteq> Inl (Panicked msg)"
  using edit_decode_loop_no_panic [of 0 buf version_edit_new] by (simp add: edit_decode_def no_panic_def)

text \<open>C34: Switching CURRENT is atomic: \<open>write_current\<close> succeeds and CURRENT is then read back as the new manifest number. If
  the machine crashes after any number of its file-system calls, and whatever part of the bytes not yet synced is on
  the disk, CURRENT is read as before the switch until the last call, the renaming, and as the new number behind
  it; all files but CURRENT and the temporary one are as they were.\<close>

theorem current_switch_atomic:
  "(\<exists>fs'. write_current n fs = Inr fs' \<and> read_current fs' = Inr n) \<and>
   (\<exists>d. disk_run (take i (write_current_ops n)) (on_disk fs) = Inr d \<and>
      read_current (disk_crash kept d) = (if i < length (write_current_ops n) then read_current fs else Inr n) \<and>
      fmdrop current_path (fmdrop current_tmp_path (disk_crash kept d)) =
        fmdrop current_path (fmdrop current_tmp_path fs))"
proof -
  have "\<exists>fs'. write_current n fs = Inr fs' \<and> read_current fs' = Inr n"
    using write_current_Inr [of n fs] read_current_content by blast
  moreover obtain d where d: "disk_run (take i (write_current_ops n)) (on_disk fs) = Inr d"
    using write_current_run [of n fs] disk_run_prefix by blast
  note crash = write_current_crash [OF d, where kept = kept]
  have "read_current (disk_crash kept d) = (if i < length (write_current_ops n) then read_current fs else Inr n)"
    using crash(1) read_current_content read_current_cong [of "disk_crash kept d" fs] by (auto split: if_splits)
  moreover have "fmdrop current_path (fmdrop current_tmp_path (disk_crash kept d)) =
      fmdrop current_path (fmdrop current_tmp_path fs)"
    using crash(2) by (intro fmap_ext) simp
  ultimately show ?thesis using d by blast
qed

end
