(* ===== verification/Version.thy ===== *)
theory Version
  imports Manifest
begin

text \<open>
  \<^verbatim>\<open>src/src/version.rs\<close>: which table files make up each level, the edits applied to them, and the
  version set, that is the current version with its scalar metadata, the open manifest, the compaction
  pointers and the active snapshots. An operation that changes the version set returns the new state also when it
  fails half-way, as the code leaves it.
\<close>

section \<open>Versions\<close>

text \<open>The byte-string comparison of user keys is the lexicographic order of the lists.\<close>

definition user_key_overlap :: "file_meta \<Rightarrow> bytes \<Rightarrow> bytes \<Rightarrow> bool" where
  "user_key_overlap f range_smallest range_largest \<longleftrightarrow>
     (if user_key (fm_largest f) < range_smallest then False
      else if range_largest < user_key (fm_smallest f) then False else True)"

definition NUM_LEVELS :: nat where "NUM_LEVELS = 7"

text \<open>The array of \<open>NUM_LEVELS\<close> vectors; every index the program uses is below \<open>NUM_LEVELS\<close>.\<close>

record version =
  v_files :: "file_meta list list"

definition version_empty :: version where
  "version_empty = \<lparr>v_files = replicate NUM_LEVELS []\<rparr>"

definition files_at :: "version \<Rightarrow> nat \<Rightarrow> file_meta list" where
  "files_at v level = v_files v ! level"

definition num_files :: "version \<Rightarrow> nat \<Rightarrow> nat" where
  "num_files v level = length (files_at v level)"

text \<open>\<open>sum()\<close> over \<open>u64\<close> panics when it overflows.\<close>

fun sum_u64 :: "u64 \<Rightarrow> u64 list \<Rightarrow> u64 res" where
  "sum_u64 acc [] = Inr acc"
| "sum_u64 acc (x # xs) =
     (if unat acc + unat x < 2 ^ 64 then sum_u64 (acc + x) xs
      else Inl (Panicked ''attempt to add with overflow''))"

definition total_size :: "version \<Rightarrow> nat \<Rightarrow> u64 res" where
  "total_size v level = sum_u64 0 (map fm_file_size (files_at v level))"

definition get_overlaps :: "version \<Rightarrow> nat \<Rightarrow> bytes \<Rightarrow> bytes \<Rightarrow> file_meta list" where
  "get_overlaps v level range_smallest range_largest =
     filter (\<lambda>f. user_key_overlap f range_smallest range_largest) (files_at v level)"

primrec apply_deletes :: "deleted_file list \<Rightarrow> file_meta list list \<Rightarrow> file_meta list list res" where
  "apply_deletes [] files = Inr files"
| "apply_deletes (d # ds) files =
     (let level = unat (df_level d) in
      if NUM_LEVELS \<le> level then Inl (Corrupted ''deleted file level out of range'')
      else apply_deletes ds (files[level := filter (\<lambda>f. fm_number f \<noteq> df_number d) (files ! level)]))"

primrec apply_adds :: "new_file list \<Rightarrow> file_meta list list \<Rightarrow> file_meta list list res" where
  "apply_adds [] files = Inr files"
| "apply_adds (f # fs) files =
     (let level = unat (nf_level f) in
      if NUM_LEVELS \<le> level then Inl (Corrupted ''new file level out of range'')
      else apply_adds fs (files[level := files ! level @ [nf_meta f]]))"

definition apply_edit :: "version \<Rightarrow> version_edit \<Rightarrow> version res" where
  "apply_edit base edit =
     bind_res (apply_deletes (ve_deleted_files edit) (v_files base)) (\<lambda>files.
     bind_res (apply_adds (ve_new_files edit) files) (\<lambda>files. Inr \<lparr>v_files = files\<rparr>))"

section \<open>The version set\<close>

record version_set =
  vs_current :: version
  vs_log_number :: u64
  vs_prev_log_number :: u64
  vs_next_file_number :: u64
  vs_last_sequence :: u64
  vs_manifest_number :: file_number
  vs_manifest_writer :: manifest_writer
  vs_compact_pointer :: "bytes list"
  vs_snapshots :: "u64 list"

definition new_pending :: "file_number \<Rightarrow> fs \<Rightarrow> version_set \<times> fs" where
  "new_pending manifest_number fs =
     (let (writer, fs) = manifest_create manifest_number fs in
      (\<lparr>vs_current = version_empty, vs_log_number = 0, vs_prev_log_number = 0, vs_next_file_number = 0,
        vs_last_sequence = 0, vs_manifest_number = manifest_number, vs_manifest_writer = writer,
        vs_compact_pointer = replicate NUM_LEVELS [], vs_snapshots = []\<rparr>, fs))"

text \<open>\<open>if let Some(n) = field { var = n; }\<close>\<close>

definition set_if_some :: "'a option \<Rightarrow> 'a \<Rightarrow> 'a" where
  "set_if_some x old = (case x of Some n \<Rightarrow> n | None \<Rightarrow> old)"

text \<open>The local variables of \<open>recover\<close>, and the body and loop of its \<open>for\<close>.\<close>

record replay =
  rp_version :: version
  rp_log_number :: u64
  rp_prev_log_number :: u64
  rp_next_file_number :: u64
  rp_last_sequence :: u64
  rp_compact_pointer :: "bytes list"

definition replay_start :: replay where
  "replay_start = \<lparr>rp_version = version_empty, rp_log_number = 0, rp_prev_log_number = 0,
     rp_next_file_number = 0, rp_last_sequence = 0, rp_compact_pointer = replicate NUM_LEVELS []\<rparr>"

primrec recover_pointers :: "(u32 \<times> bytes) list \<Rightarrow> bytes list \<Rightarrow> bytes list" where
  "recover_pointers [] cp = cp"
| "recover_pointers (p # ps) cp =
     recover_pointers ps (if unat (fst p) < NUM_LEVELS then cp[unat (fst p) := snd p] else cp)"

definition replay_edit :: "replay \<Rightarrow> version_edit \<Rightarrow> replay res" where
  "replay_edit r edit =
     bind_res (apply_edit (rp_version r) edit) (\<lambda>v.
     Inr \<lparr>rp_version = v,
          rp_log_number = set_if_some (ve_log_number edit) (rp_log_number r),
          rp_prev_log_number = set_if_some (ve_prev_log_number edit) (rp_prev_log_number r),
          rp_next_file_number = set_if_some (ve_next_file_number edit) (rp_next_file_number r),
          rp_last_sequence = set_if_some (ve_last_sequence edit) (rp_last_sequence r),
          rp_compact_pointer = recover_pointers (ve_compact_pointers edit) (rp_compact_pointer r)\<rparr>)"

primrec replay_edits :: "version_edit list \<Rightarrow> replay \<Rightarrow> replay res" where
  "replay_edits [] r = Inr r"
| "replay_edits (e # es) r = bind_res (replay_edit r e) (replay_edits es)"

text \<open>\<open>VersionSet::recover\<close>.\<close>

definition vs_recover :: "(bytes \<Rightarrow> u32) \<Rightarrow> fs \<Rightarrow> (version_set \<times> fs) res" where
  "vs_recover crc fs =
     bind_res (recover_manifest crc fs) (\<lambda>recovery.
     bind_res (replay_edits (mr_edits recovery) replay_start) (\<lambda>r.
     let (writer, fs) = manifest_create (mr_manifest_number recovery) fs in
     Inr (\<lparr>vs_current = rp_version r, vs_log_number = rp_log_number r,
           vs_prev_log_number = rp_prev_log_number r, vs_next_file_number = rp_next_file_number r,
           vs_last_sequence = rp_last_sequence r, vs_manifest_number = mr_manifest_number recovery,
           vs_manifest_writer = writer, vs_compact_pointer = rp_compact_pointer r, vs_snapshots = []\<rparr>, fs)))"

text \<open>The assignments \<open>self.compact_pointer[level] = key\<close> of \<open>write_new_version\<close>, which index unchecked.\<close>

primrec set_pointers :: "(u32 \<times> bytes) list \<Rightarrow> bytes list \<Rightarrow> bytes list \<times> unit res" where
  "set_pointers [] cp = (cp, Inr ())"
| "set_pointers (p # ps) cp =
     (if unat (fst p) < NUM_LEVELS then set_pointers ps (cp[unat (fst p) := snd p])
      else (cp, Inl (Panicked ''index out of bounds'')))"

definition write_new_version ::
    "(bytes \<Rightarrow> u32) \<Rightarrow> version_edit \<Rightarrow> version_set \<Rightarrow> fs \<Rightarrow> version res \<times> version_set \<times> fs" where
  "write_new_version crc edit vs fs =
     (let (writer, fs) = manifest_append crc (vs_manifest_writer vs) edit fs;
          vs = vs\<lparr>vs_manifest_writer := writer\<rparr>
      in case apply_edit (vs_current vs) edit of
           Inl e \<Rightarrow> (Inl e, vs, fs)
         | Inr new_version \<Rightarrow>
             let vs = vs\<lparr>vs_current := new_version,
                   vs_log_number := set_if_some (ve_log_number edit) (vs_log_number vs),
                   vs_prev_log_number := set_if_some (ve_prev_log_number edit) (vs_prev_log_number vs),
                   vs_next_file_number := set_if_some (ve_next_file_number edit) (vs_next_file_number vs),
                   vs_last_sequence := set_if_some (ve_last_sequence edit) (vs_last_sequence vs)\<rparr>;
                 (cp, r) = set_pointers (ve_compact_pointers edit) (vs_compact_pointer vs);
                 vs = vs\<lparr>vs_compact_pointer := cp\<rparr>
             in (bind_res r (\<lambda>_. Inr (vs_current vs)), vs, fs))"

definition compact_pointer :: "version_set \<Rightarrow> nat \<Rightarrow> bytes" where
  "compact_pointer vs level = vs_compact_pointer vs ! level"

definition vs_set_compact_pointer :: "nat \<Rightarrow> bytes \<Rightarrow> version_set \<Rightarrow> version_set" where
  "vs_set_compact_pointer level key vs = vs\<lparr>vs_compact_pointer := (vs_compact_pointer vs)[level := key]\<rparr>"

definition acquire_snapshot :: "u64 \<Rightarrow> version_set \<Rightarrow> version_set" where
  "acquire_snapshot s vs = vs\<lparr>vs_snapshots := vs_snapshots vs @ [s]\<rparr>"

definition release_snapshot :: "u64 \<Rightarrow> version_set \<Rightarrow> version_set" where
  "release_snapshot s vs = vs\<lparr>vs_snapshots := filter (\<lambda>t. t \<noteq> s) (vs_snapshots vs)\<rparr>"

definition oldest_snapshot_seq :: "version_set \<Rightarrow> u64" where
  "oldest_snapshot_seq vs =
     (case vs_snapshots vs of [] \<Rightarrow> MAX_SEQUENCE | s # ss \<Rightarrow> fold min ss s)"

section \<open>What an edit does to a version\<close>

lemma length_apply_deletes: "apply_deletes ds files = Inr files' \<Longrightarrow> length files' = length files"
  by (induction ds arbitrary: files) (auto simp: Let_def split: if_splits)

lemma length_apply_adds: "apply_adds fs files = Inr files' \<Longrightarrow> length files' = length files"
  by (induction fs arbitrary: files) (auto simp: Let_def split: if_splits)

definition deleted_at :: "deleted_file list \<Rightarrow> nat \<Rightarrow> file_meta \<Rightarrow> bool" where
  "deleted_at ds level f \<longleftrightarrow> (\<exists>d \<in> set ds. unat (df_level d) = level \<and> df_number d = fm_number f)"

lemma apply_deletes_nth:
  "apply_deletes ds files = Inr files' \<Longrightarrow> level < length files \<Longrightarrow>
   files' ! level = filter (\<lambda>f. \<not> deleted_at ds level f) (files ! level)"
proof (induction ds arbitrary: files)
  case (Cons d ds)
  let ?l = "unat (df_level d)"
  have "apply_deletes ds (files[?l := filter (\<lambda>f. fm_number f \<noteq> df_number d) (files ! ?l)]) = Inr files'"
    using Cons.prems(1) by (auto simp: Let_def split: if_splits)
  from Cons.IH [OF this] show ?case
    using Cons.prems(2) by (cases "?l = level") (auto simp: deleted_at_def intro!: filter_cong)
qed (simp add: deleted_at_def)

lemma apply_adds_nth:
  "apply_adds fs files = Inr files' \<Longrightarrow> level < length files \<Longrightarrow>
   files' ! level = files ! level @ map nf_meta (filter (\<lambda>f. unat (nf_level f) = level) fs)"
proof (induction fs arbitrary: files)
  case (Cons f fs)
  let ?l = "unat (nf_level f)"
  have "apply_adds fs (files[?l := files ! ?l @ [nf_meta f]]) = Inr files'"
    using Cons.prems(1) by (auto simp: Let_def split: if_splits)
  from Cons.IH [OF this] show ?case using Cons.prems(2) by (cases "?l = level") auto
qed simp

lemma apply_deletes_Inr_iff:
  "(\<exists>files'. apply_deletes ds files = Inr files') \<longleftrightarrow> (\<forall>d \<in> set ds. unat (df_level d) < NUM_LEVELS)"
  by (induction ds arbitrary: files) (auto simp: Let_def)

lemma apply_adds_Inr_iff:
  "(\<exists>files'. apply_adds fs files = Inr files') \<longleftrightarrow> (\<forall>f \<in> set fs. unat (nf_level f) < NUM_LEVELS)"
  by (induction fs arbitrary: files) (auto simp: Let_def)

definition levels_ok :: "version_edit \<Rightarrow> bool" where
  "levels_ok e \<longleftrightarrow> (\<forall>d \<in> set (ve_deleted_files e). unat (df_level d) < NUM_LEVELS) \<and>
     (\<forall>f \<in> set (ve_new_files e). unat (nf_level f) < NUM_LEVELS)"

lemma apply_edit_Inr_iff: "(\<exists>v'. apply_edit v e = Inr v') \<longleftrightarrow> levels_ok e"
  using apply_deletes_Inr_iff [of "ve_deleted_files e" "v_files v"] apply_adds_Inr_iff [of "ve_new_files e"]
  unfolding apply_edit_def levels_ok_def by (fastforce simp: bind_res_eq_Inr)

lemma apply_edit_files:
  assumes "apply_edit v e = Inr v'" and "level < length (v_files v)"
  shows "length (v_files v') = length (v_files v)"
    and "files_at v' level = filter (\<lambda>f. \<not> deleted_at (ve_deleted_files e) level f) (files_at v level) @
      map nf_meta (filter (\<lambda>f. unat (nf_level f) = level) (ve_new_files e))"
proof -
  obtain fs fs' where a: "apply_deletes (ve_deleted_files e) (v_files v) = Inr fs"
    "apply_adds (ve_new_files e) fs = Inr fs'" "v' = \<lparr>v_files = fs'\<rparr>"
    using assms(1) by (auto simp: apply_edit_def bind_res_eq_Inr)
  have l: "length fs = length (v_files v)" using length_apply_deletes [OF a(1)] .
  then show "length (v_files v') = length (v_files v)" using length_apply_adds [OF a(2)] by (simp add: a(3))
  show "files_at v' level = filter (\<lambda>f. \<not> deleted_at (ve_deleted_files e) level f) (files_at v level) @
      map nf_meta (filter (\<lambda>f. unat (nf_level f) = level) (ve_new_files e))"
    using apply_deletes_nth [OF a(1) assms(2)] apply_adds_nth [OF a(2), of level] assms(2) l
    by (simp add: files_at_def a(3))
qed

text \<open>Seven levels, and no file in two places.\<close>

definition level_numbers :: "version \<Rightarrow> nat \<Rightarrow> file_number set" where
  "level_numbers v level = fm_number ` set (files_at v level)"

definition version_wf :: "version \<Rightarrow> bool" where
  "version_wf v \<longleftrightarrow> length (v_files v) = NUM_LEVELS \<and>
     (\<forall>l < NUM_LEVELS. distinct (map fm_number (files_at v l))) \<and>
     (\<forall>l < NUM_LEVELS. \<forall>k < NUM_LEVELS. l \<noteq> k \<longrightarrow> level_numbers v l \<inter> level_numbers v k = {})"

lemma version_wf_empty: "version_wf version_empty"
  by (simp add: version_wf_def version_empty_def files_at_def level_numbers_def)

lemma distinct_map_filter_fun: "distinct (map (\<lambda>x. g (f x)) xs) \<Longrightarrow> distinct (map g (map f (filter P xs)))"
  by (simp add: comp_def distinct_map_filter)

lemma distinct_map_image_eq: "distinct (map g xs) \<Longrightarrow> x \<in> set xs \<Longrightarrow> y \<in> set xs \<Longrightarrow> g x = g y \<Longrightarrow> x = y"
  by (simp add: distinct_map inj_on_def)

lemma version_wf_apply_edit:
  assumes wf: "version_wf v" and a: "apply_edit v e = Inr v'"
    and new: "distinct (map (\<lambda>f. fm_number (nf_meta f)) (ve_new_files e))"
    and fresh: "\<forall>f \<in> set (ve_new_files e). \<forall>l < NUM_LEVELS. fm_number (nf_meta f) \<notin> level_numbers v l"
  shows "version_wf v'"
proof -
  have len: "length (v_files v) = NUM_LEVELS" using wf by (simp add: version_wf_def)
  have len': "length (v_files v') = NUM_LEVELS" using apply_edit_files(1) [OF a, of 0] len by (simp add: NUM_LEVELS_def)
  let ?news = "\<lambda>l. map nf_meta (filter (\<lambda>f. unat (nf_level f) = l) (ve_new_files e))"
  have f: "files_at v' l = filter (\<lambda>f. \<not> deleted_at (ve_deleted_files e) l f) (files_at v l) @ ?news l"
    if "l < NUM_LEVELS" for l using apply_edit_files(2) [OF a] that len by simp
  have sub: "level_numbers v' l \<subseteq> level_numbers v l \<union> fm_number ` set (?news l)" if "l < NUM_LEVELS" for l
    using f [OF that] by (auto simp: level_numbers_def)
  have o: "fm_number ` set (?news k) \<inter> level_numbers v l = {}" if "l < NUM_LEVELS" for l k
    using fresh that by fastforce
  have d: "distinct (map fm_number (files_at v' l))" if l: "l < NUM_LEVELS" for l
  proof -
    have "distinct (map fm_number (filter (\<lambda>f. \<not> deleted_at (ve_deleted_files e) l f) (files_at v l)))"
      using wf l by (simp add: version_wf_def distinct_map_filter)
    moreover have "distinct (map fm_number (?news l))" using new by (rule distinct_map_filter_fun)
    moreover have "fm_number ` set (files_at v l) \<inter> fm_number ` set (?news l) = {}"
      using o [OF l, of l] unfolding level_numbers_def by blast
    ultimately show ?thesis unfolding f [OF l] map_append distinct_append by auto
  qed
  have n: "fm_number ` set (?news l) \<inter> fm_number ` set (?news k) = {}" if "l \<noteq> k" for l k
  proof -
    have False if x: "x \<in> fm_number ` set (?news l)" "x \<in> fm_number ` set (?news k)" for x
    proof -
      obtain a b where ab: "a \<in> set (ve_new_files e)" "b \<in> set (ve_new_files e)"
        "unat (nf_level a) = l" "unat (nf_level b) = k" "fm_number (nf_meta a) = fm_number (nf_meta b)"
        using x by auto
      then have "a = b" using distinct_map_image_eq [OF new] by blast
      then show False using ab \<open>l \<noteq> k\<close> by simp
    qed
    then show ?thesis by blast
  qed
  have "level_numbers v' l \<inter> level_numbers v' k = {}" if "l < NUM_LEVELS" "k < NUM_LEVELS" "l \<noteq> k" for l k
  proof -
    have "level_numbers v l \<inter> level_numbers v k = {}" using wf that by (simp add: version_wf_def)
    then show ?thesis
      using Int_mono [OF sub [OF that(1)] sub [OF that(2)]] n [OF that(3)] o [OF that(1), of k] o [OF that(2), of l]
      by (simp only: Int_Un_distrib Int_Un_distrib2 Int_commute Un_empty_left Un_empty_right subset_empty)
  qed
  then show ?thesis using d len' by (simp add: version_wf_def)
qed

section \<open>The version set is recovered from its manifest\<close>

lemma replay_edits_append:
  "replay_edits (es @ es') r = bind_res (replay_edits es r) (replay_edits es')"
proof (induction es arbitrary: r)
  case (Cons e es)
  then show ?case by (cases "replay_edit r e") simp_all
qed simp

lemma replay_edits_prefix: "replay_edits (es @ es') r = Inr r' \<Longrightarrow> \<exists>r1. replay_edits es r = Inr r1"
  by (auto simp: replay_edits_append bind_res_eq_Inr)

lemma set_pointers_recover: "set_pointers ps cp = (cp', Inr ()) \<Longrightarrow> recover_pointers ps cp = cp'"
  by (induction ps arbitrary: cp) (auto split: if_splits)

text \<open>The fields of a version set that a manifest determines.\<close>

definition vs_fields :: "version_set \<Rightarrow> replay" where
  "vs_fields vs = \<lparr>rp_version = vs_current vs, rp_log_number = vs_log_number vs,
     rp_prev_log_number = vs_prev_log_number vs, rp_next_file_number = vs_next_file_number vs,
     rp_last_sequence = vs_last_sequence vs, rp_compact_pointer = vs_compact_pointer vs\<rparr>"

lemma write_new_version_fields:
  assumes "write_new_version crc e vs fs = (Inr v, vs', fs')"
  shows "replay_edit (vs_fields vs) e = Inr (vs_fields vs')" "v = vs_current vs'"
    "manifest_append crc (vs_manifest_writer vs) e fs = (vs_manifest_writer vs', fs')"
    "vs_manifest_number vs' = vs_manifest_number vs" "vs_snapshots vs' = vs_snapshots vs"
proof -
  obtain w where m: "manifest_append crc (vs_manifest_writer vs) e fs = (w, fs')"
    using assms by (auto simp: write_new_version_def Let_def split: prod.splits sum.splits)
  obtain nv cp where a: "apply_edit (vs_current vs) e = Inr nv"
    "set_pointers (ve_compact_pointers e) (vs_compact_pointer vs) = (cp, Inr ())"
    using assms m
    by (auto simp: write_new_version_def Let_def bind_res_eq_Inr split: prod.splits sum.splits)
  have vs': "vs' = vs\<lparr>vs_manifest_writer := w, vs_current := nv,
      vs_log_number := set_if_some (ve_log_number e) (vs_log_number vs),
      vs_prev_log_number := set_if_some (ve_prev_log_number e) (vs_prev_log_number vs),
      vs_next_file_number := set_if_some (ve_next_file_number e) (vs_next_file_number vs),
      vs_last_sequence := set_if_some (ve_last_sequence e) (vs_last_sequence vs),
      vs_compact_pointer := cp\<rparr>" and v: "v = nv"
    using assms m a by (auto simp: write_new_version_def Let_def)
  show "replay_edit (vs_fields vs) e = Inr (vs_fields vs')"
    using a(1) set_pointers_recover [OF a(2)] by (simp add: replay_edit_def vs_fields_def vs')
  show "v = vs_current vs'" "manifest_append crc (vs_manifest_writer vs) e fs = (vs_manifest_writer vs', fs')"
    "vs_manifest_number vs' = vs_manifest_number vs" "vs_snapshots vs' = vs_snapshots vs"
    by (simp_all add: v vs' m)
qed

text \<open>The manifest of the version set holds the edits \<open>es\<close>, and its state is their replay.\<close>

definition vs_written :: "(bytes \<Rightarrow> u32) \<Rightarrow> version_edit list \<Rightarrow> version_set \<Rightarrow> fs \<Rightarrow> bool" where
  "vs_written crc es vs fs \<longleftrightarrow>
     manifest_holds crc (vs_manifest_writer vs) fs es \<and>
     lh_name (mw_wal (vs_manifest_writer vs)) = manifest_path (vs_manifest_number vs) \<and>
     replay_edits es replay_start = Inr (vs_fields vs)"

lemma vs_written_new:
  assumes "fmlookup fs (manifest_path n) = None" and "new_pending n fs = (vs, fs')"
  shows "vs_written crc [] vs fs'" "vs_manifest_number vs = n" "fs' = fmupd (manifest_path n) [] fs"
    "vs_snapshots vs = []"
  using assms(2) manifest_create_new [OF assms(1)]
  by (auto simp: new_pending_def vs_written_def vs_fields_def replay_start_def split: prod.splits)

lemma vs_written_append:
  assumes "vs_written crc es vs fs" and "write_new_version crc e vs fs = (Inr v, vs', fs')"
  shows "vs_written crc (es @ [e]) vs' fs'" "vs_manifest_number vs' = vs_manifest_number vs"
    "name \<noteq> manifest_path (vs_manifest_number vs) \<Longrightarrow> fmlookup fs' name = fmlookup fs name"
proof -
  note w = write_new_version_fields [OF assms(2)]
  have h: "manifest_holds crc (vs_manifest_writer vs) fs es" "replay_edits es replay_start = Inr (vs_fields vs)"
    "lh_name (mw_wal (vs_manifest_writer vs)) = manifest_path (vs_manifest_number vs)"
    using assms(1) by (auto simp: vs_written_def)
  note m = manifest_append_holds [OF h(1) w(3)]
  show "vs_written crc (es @ [e]) vs' fs'"
    using m h w by (simp add: vs_written_def replay_edits_append)
  show "vs_manifest_number vs' = vs_manifest_number vs" by (rule w)
  show "name \<noteq> manifest_path (vs_manifest_number vs) \<Longrightarrow> fmlookup fs' name = fmlookup fs name"
    using m(3) h(3) by simp
qed

lemma vs_recover_lookup:
  assumes "fmlookup fs current_path = Some (current_content n)"
    and "fmlookup fs (manifest_path n) = Some bs" and "read_records crc bs = map edit_encode es"
    and "\<forall>e \<in> set es. edit_ok e" and "replay_edits es replay_start = Inr r"
  shows "\<exists>vs fs'. vs_recover crc fs = Inr (vs, fs') \<and> fs' = fs \<and> vs_fields vs = r \<and> vs_manifest_number vs = n \<and>
    vs_snapshots vs = [] \<and> lh_name (mw_wal (vs_manifest_writer vs)) = manifest_path n \<and>
    manifest_create n fs = (vs_manifest_writer vs, fs)"
proof -
  have rec: "recover_manifest crc fs = Inr \<lparr>mr_edits = es, mr_manifest_number = n\<rparr>"
    using assms by (simp add: recover_manifest_def read_current_content log_read_def fs_read_Some decode_edits_encoded)
  have c: "manifest_create n fs = (\<lparr>mw_wal = fst (log_open (manifest_path n) fs)\<rparr>, fs)"
    using assms(2) by (auto simp: manifest_create_def log_open_def Let_def intro!: fmap_ext)
  have l: "lh_name (fst (log_open (manifest_path n) fs)) = manifest_path n"
    by (simp add: log_open_def Let_def)
  show ?thesis using assms(5) by (simp add: vs_recover_def rec c l vs_fields_def)
qed

lemma vs_written_recover:
  assumes w: "vs_written crc es vs fs" and c: "fmlookup fs current_path = Some (current_content (vs_manifest_number vs))"
    and ok: "\<forall>e \<in> set es. edit_ok e"
  shows "\<exists>vs'. vs_recover crc fs = Inr (vs', fs) \<and> vs_written crc es vs' fs \<and> vs_fields vs' = vs_fields vs \<and>
    vs_manifest_number vs' = vs_manifest_number vs \<and> vs_snapshots vs' = []"
proof -
  let ?n = "vs_manifest_number vs"
  obtain bs where bs: "fmlookup fs (manifest_path ?n) = Some bs" "holds_records crc bs (map edit_encode es)"
    using w by (auto simp: vs_written_def manifest_holds_def log_holds_def)
  have r: "replay_edits es replay_start = Inr (vs_fields vs)" using w by (simp add: vs_written_def)
  obtain vs' where vs': "vs_recover crc fs = Inr (vs', fs)" "vs_fields vs' = vs_fields vs" "vs_manifest_number vs' = ?n"
    "vs_snapshots vs' = []" "lh_name (mw_wal (vs_manifest_writer vs')) = manifest_path ?n"
    "manifest_create ?n fs = (vs_manifest_writer vs', fs)"
    using vs_recover_lookup [OF c bs(1) holds_records_read [OF bs(2)] ok r] by blast
  have "log_open (manifest_path ?n) fs = (mw_wal (vs_manifest_writer vs'), fs)"
    using vs'(6) by (auto simp: manifest_create_def Let_def split: prod.splits)
      (metis manifest_writer.select_convs(1))
  then have "manifest_holds crc (vs_manifest_writer vs') fs es"
    using log_holds_reopen(1) [OF _ bs] by (simp add: manifest_holds_def)
  then show ?thesis using vs' r by (auto simp: vs_written_def)
qed

text \<open>A run of committed edits.\<close>

primrec write_versions ::
    "(bytes \<Rightarrow> u32) \<Rightarrow> version_edit list \<Rightarrow> version_set \<Rightarrow> fs \<Rightarrow> (version_set \<times> fs) res" where
  "write_versions crc [] vs fs = Inr (vs, fs)"
| "write_versions crc (e # es) vs fs =
     (case write_new_version crc e vs fs of
        (Inl err, _) \<Rightarrow> Inl err
      | (Inr _, vs, fs) \<Rightarrow> write_versions crc es vs fs)"

lemma write_new_version_file:
  assumes "vs_written crc es vs fs" and "write_new_version crc e vs fs = (Inr v, vs', fs')"
    and "fmlookup fs (manifest_path (vs_manifest_number vs)) = Some bs"
  shows "fmlookup fs' (manifest_path (vs_manifest_number vs)) = Some (log_append crc bs (edit_encode e))"
proof -
  have m: "manifest_append crc (vs_manifest_writer vs) e fs = (vs_manifest_writer vs', fs')"
    by (rule write_new_version_fields [OF assms(2)])
  then obtain h where "log_add crc (mw_wal (vs_manifest_writer vs)) (edit_encode e) fs = (h, fs')"
    by (auto simp: manifest_append_def Let_def split: prod.splits)
  then show ?thesis
    using log_add_lookup assms(1,3) unfolding vs_written_def manifest_holds_def by fastforce
qed

lemma write_versions_written:
  assumes "vs_written crc es0 vs fs" and "write_versions crc es vs fs = Inr (vs', fs')"
    and "fmlookup fs (manifest_path (vs_manifest_number vs)) = Some bs"
  shows "vs_written crc (es0 @ es) vs' fs' \<and> vs_manifest_number vs' = vs_manifest_number vs \<and>
    fmlookup fs' (manifest_path (vs_manifest_number vs)) = Some (foldl (log_append crc) bs (map edit_encode es)) \<and>
    (\<forall>name. name \<noteq> manifest_path (vs_manifest_number vs) \<longrightarrow> fmlookup fs' name = fmlookup fs name)"
  using assms
proof (induction es arbitrary: es0 vs fs bs)
  case (Cons e es)
  obtain v vs1 fs1 where w: "write_new_version crc e vs fs = (Inr v, vs1, fs1)"
    and rest: "write_versions crc es vs1 fs1 = Inr (vs', fs')"
    using Cons.prems(2) by (auto split: prod.splits sum.splits)
  note 1 = vs_written_append [OF Cons.prems(1) w]
  have "fmlookup fs1 (manifest_path (vs_manifest_number vs1)) = Some (log_append crc bs (edit_encode e))"
    using write_new_version_file [OF Cons.prems(1) w Cons.prems(3)] 1(2) by simp
  from Cons.IH [OF 1(1) rest this] show ?case using 1 by simp
qed simp

lemma write_versions_prefix:
  assumes "write_versions crc es vs fs = Inr r"
  shows "\<exists>vs' fs'. write_versions crc (take m es) vs fs = Inr (vs', fs')"
  using assms
proof (induction es arbitrary: vs fs m)
  case (Cons e es)
  then show ?case by (cases m) (auto split: prod.splits sum.splits)
qed simp

lemma vs_written_fields: "vs_written crc es vs fs \<Longrightarrow> replay_edits es replay_start = Inr (vs_fields vs)"
  by (simp add: vs_written_def)

text \<open>A crash that keeps \<open>k\<close> bytes of the manifest keeps exactly the edits whose records are whole in them.\<close>

lemma recover_after_crash:
  assumes w: "vs_written crc es0 vs fs" and b: "fmlookup fs (manifest_path (vs_manifest_number vs)) = Some bs"
    and c: "fmlookup fs current_path = Some (current_content (vs_manifest_number vs))"
    and ok: "\<forall>e \<in> set (es0 @ es). edit_ok e"
    and ws: "write_versions crc es vs fs = Inr (vs', fs')"
    and new: "fmlookup fs' (manifest_path (vs_manifest_number vs)) = Some new"
    and crash: "fs'' = fmupd (manifest_path (vs_manifest_number vs)) (take k new) fs'"
    and k: "length bs \<le> k"
  shows "\<exists>m \<le> length es. \<exists>vsm fsm vsr. write_versions crc (take m es) vs fs = Inr (vsm, fsm) \<and>
    vs_recover crc fs'' = Inr (vsr, fs'') \<and> vs_fields vsr = vs_fields vsm \<and>
    vs_manifest_number vsr = vs_manifest_number vs \<and> vs_snapshots vsr = [] \<and>
    (\<forall>i \<le> length es. \<forall>vsi fsi mi. write_versions crc (take i es) vs fs = Inr (vsi, fsi) \<longrightarrow>
       fmlookup fsi (manifest_path (vs_manifest_number vs)) = Some mi \<longrightarrow> (length mi \<le> k \<longleftrightarrow> i \<le> m))"
proof -
  let ?n = "vs_manifest_number vs" and ?ds = "map edit_encode es"
  have h: "holds_records crc bs (map edit_encode es0)"
    using w b by (auto simp: vs_written_def manifest_holds_def log_holds_def)
  have f: "fmlookup fsi (manifest_path ?n) = Some (foldl (log_append crc) bs (take i ?ds))"
    if "write_versions crc (take i es) vs fs = Inr (vsi, fsi)" for i vsi fsi
    using write_versions_written [OF w that b] by (simp add: take_map)
  have new': "new = foldl (log_append crc) bs ?ds" using f [of "length es"] ws new by simp
  obtain m where m: "m \<le> length es" "read_records crc (take k new) = map edit_encode es0 @ take m ?ds"
    "\<forall>i \<le> length es. length (foldl (log_append crc) bs (take i ?ds)) \<le> k \<longleftrightarrow> i \<le> m"
    using wal.read_crash_kept [where crc = crc and ds = ?ds, OF h k] unfolding new' by auto
  obtain vsm fsm where wm: "write_versions crc (take m es) vs fs = Inr (vsm, fsm)"
    using write_versions_prefix [OF ws] by blast
  have r: "replay_edits (es0 @ take m es) replay_start = Inr (vs_fields vsm)"
    using write_versions_written [OF w wm b] vs_written_fields by blast
  have "fmlookup fs' current_path = Some (current_content ?n)"
    using write_versions_written [OF w ws b] c by simp
  then have cur: "fmlookup fs'' current_path = Some (current_content ?n)" by (simp add: crash)
  have man: "fmlookup fs'' (manifest_path ?n) = Some (take k new)" by (simp add: crash)
  have recs: "read_records crc (take k new) = map edit_encode (es0 @ take m es)"
    using m(2) by (simp add: take_map)
  have ok': "\<forall>e \<in> set (es0 @ take m es). edit_ok e" using ok by (auto dest: in_set_takeD)
  have kept: "\<forall>i \<le> length es. \<forall>vsi fsi mi. write_versions crc (take i es) vs fs = Inr (vsi, fsi) \<longrightarrow>
      fmlookup fsi (manifest_path ?n) = Some mi \<longrightarrow> (length mi \<le> k \<longleftrightarrow> i \<le> m)"
    using f m(3) by fastforce
  show ?thesis using vs_recover_lookup [OF cur man recs ok' r] m(1) wm kept by blast
qed

section \<open>Snapshots\<close>

lemma oldest_snapshot_Min: "vs_snapshots vs \<noteq> [] \<Longrightarrow> oldest_snapshot_seq vs = Min (set (vs_snapshots vs))"
  by (cases "vs_snapshots vs") (simp_all add: oldest_snapshot_seq_def Min.set_eq_fold flip: list.set(2))

lemma oldest_snapshot_le: "s \<in> set (vs_snapshots vs) \<Longrightarrow> oldest_snapshot_seq vs \<le> s"
  by (subst oldest_snapshot_Min) auto

lemma oldest_snapshot_in: "vs_snapshots vs \<noteq> [] \<Longrightarrow> oldest_snapshot_seq vs \<in> set (vs_snapshots vs)"
  by (subst oldest_snapshot_Min) auto

lemma released_bound:
  assumes "s < MAX_SEQUENCE" and "\<forall>t \<in> set (vs_snapshots vs). s \<le> t"
  shows "s < oldest_snapshot_seq (release_snapshot s vs)"
proof (cases "vs_snapshots (release_snapshot s vs) = []")
  case True
  then show ?thesis using assms(1) by (simp add: oldest_snapshot_seq_def)
next
  case False
  then have "oldest_snapshot_seq (release_snapshot s vs) \<in> set (filter (\<lambda>t. t \<noteq> s) (vs_snapshots vs))"
    using oldest_snapshot_in by (fastforce simp: release_snapshot_def)
  then show ?thesis using assms(2) by (auto simp: order.strict_iff_order)
qed

section \<open>Properties\<close>

text \<open>C30: Applying an edit removes the deleted files and appends the new ones, in order, on every level, succeeds exactly
  when all levels are in range, and keeps the version well formed: seven levels and no file number in
  two places, given new files with fresh, distinct numbers.\<close>

theorem apply_edit_keeps_version_wf:
  assumes "version_wf v" and "levels_ok e" and "distinct (map (\<lambda>f. fm_number (nf_meta f)) (ve_new_files e))"
    and "\<forall>f \<in> set (ve_new_files e). \<forall>l < NUM_LEVELS. fm_number (nf_meta f) \<notin> level_numbers v l"
  shows "\<exists>v'. apply_edit v e = Inr v' \<and> version_wf v' \<and>
    (\<forall>l < NUM_LEVELS. files_at v' l = filter (\<lambda>f. \<not> deleted_at (ve_deleted_files e) l f) (files_at v l) @
       map nf_meta (filter (\<lambda>f. unat (nf_level f) = l) (ve_new_files e)))"
proof -
  obtain v' where v': "apply_edit v e = Inr v'" using apply_edit_Inr_iff [of v e] assms(2) by blast
  have "length (v_files v) = NUM_LEVELS" using assms(1) by (simp add: version_wf_def)
  then show ?thesis
    using apply_edit_files(2) [OF v'] version_wf_apply_edit [OF assms(1) v' assms(3,4)] v' by auto
qed

theorem apply_edit_keeps_version_wf_witness:
  "\<exists>v'. apply_edit version_empty (add_file 0 (file_meta_new 3 9 internal_key_default internal_key_default)
      (add_delete 6 4 version_edit_new)) = Inr v' \<and> version_wf v' \<and>
    (\<forall>l < NUM_LEVELS. files_at v' l = filter (\<lambda>f. \<not> deleted_at [\<lparr>df_level = 6, df_number = 4\<rparr>] l f) (files_at version_empty l) @
       map nf_meta (filter (\<lambda>f. unat (nf_level f) = l)
         [\<lparr>nf_level = 0, nf_meta = file_meta_new 3 9 internal_key_default internal_key_default\<rparr>]))"
  using apply_edit_keeps_version_wf [OF version_wf_empty, of "add_file 0 (file_meta_new 3 9 internal_key_default
      internal_key_default) (add_delete 6 4 version_edit_new)"]
  by (simp add: edit_setter_defs version_edit_new_def levels_ok_def NUM_LEVELS_def level_numbers_def files_at_def
      version_empty_def)

text \<open>Reopening a database recovers the version set it was closed with: after any run of committed edits, replaying
  the manifest that CURRENT names gives the same version, log numbers, next file number, last
  sequence number and compaction pointers, with no active snapshot.\<close>

lemma version_set_recovered:
  assumes "fmlookup fs0 (manifest_path n) = None" and "new_pending n fs0 = (vs0, fs1)"
    and "write_versions crc es vs0 fs1 = Inr (vs, fs2)" and "\<forall>e \<in> set es. edit_ok e"
    and "write_current n fs2 = Inr fs3"
  shows "\<exists>vs'. vs_recover crc fs3 = Inr (vs', fs3) \<and> vs_fields vs' = vs_fields vs \<and>
    vs_manifest_number vs' = n \<and> vs_snapshots vs' = []"
proof -
  note new = vs_written_new [OF assms(1,2)]
  have b: "fmlookup fs1 (manifest_path (vs_manifest_number vs0)) = Some []" using new by simp
  note w = write_versions_written [OF new(1) assms(3) b]
  obtain fs3' where c: "write_current n fs2 = Inr fs3'" "fmlookup fs3' current_path = Some (current_content n)"
    "\<forall>name. name \<noteq> current_path \<longrightarrow> fmlookup fs3' name = (if name = current_tmp_path then None else fmlookup fs2 name)"
    using write_current_Inr by blast
  then have fs3: "fs3' = fs3" using assms(5) by simp
  have m: "manifest_path n \<noteq> current_path" "manifest_path n \<noteq> current_tmp_path" by simp_all
  have "vs_written crc ([] @ es) vs fs2" "vs_manifest_number vs = n" using w new(2) by auto
  moreover from this have "vs_written crc es vs fs3"
    using c(3) m log_holds_other [of crc "mw_wal (vs_manifest_writer vs)" fs2 _ fs3]
    by (simp add: vs_written_def manifest_holds_def fs3)
  ultimately show ?thesis using vs_written_recover [of crc es vs fs3] c(2) assms(4) fs3 by auto
qed

text \<open>C8: A crash while edits are being committed loses no durable edit, invents none, and loses no edit whose record is
  whole: if the manifest that committing the edits wrote is cut anywhere behind the part that was durable, recovery
  returns exactly the version set as it was after some number \<open>m\<close> of the later edits, and \<open>m\<close> counts exactly those
  edits up to whose commit the manifest is within the cut.\<close>

theorem version_set_crash_recovery:
  assumes "vs_written crc durable vs fs"
    and "fmlookup fs (manifest_path (vs_manifest_number vs)) = Some bs"
    and "fmlookup fs current_path = Some (current_content (vs_manifest_number vs))"
    and "\<forall>e \<in> set (durable @ later). edit_ok e"
    and "write_versions crc later vs fs = Inr (vs', fs')"
    and "fmlookup fs' (manifest_path (vs_manifest_number vs)) = Some new"
    and "crashed = fmupd (manifest_path (vs_manifest_number vs)) (take k new) fs'"
    and "length bs \<le> k"
  shows "\<exists>m \<le> length later. \<exists>vsm fsm vsr. write_versions crc (take m later) vs fs = Inr (vsm, fsm) \<and>
    vs_recover crc crashed = Inr (vsr, crashed) \<and> vs_fields vsr = vs_fields vsm \<and>
    vs_manifest_number vsr = vs_manifest_number vs \<and> vs_snapshots vsr = [] \<and>
    (\<forall>i \<le> length later. \<forall>vsi fsi mi. write_versions crc (take i later) vs fs = Inr (vsi, fsi) \<longrightarrow>
       fmlookup fsi (manifest_path (vs_manifest_number vs)) = Some mi \<longrightarrow> (length mi \<le> k \<longleftrightarrow> i \<le> m))"
  by (rule recover_after_crash [OF assms])

lemma encode_number_edit: "edit_encode (set_log_number n version_edit_new) = TAG_LOG_NUMBER # varint_bytes n"
  by (simp add: edit_encode_bytes set_log_number_def version_edit_new_def comparator_bytes_def number_bytes_def)

text \<open>Two edits of nine bytes each, the manifest cut inside the second: the log number of the first is recovered.\<close>

theorem version_set_crash_recovery_witness:
  "\<exists>vs fs vs' fs' new vsr. new_pending 1 (fmupd current_path (current_content 1) fmempty) = (vs, fs) \<and>
     write_versions (\<lambda>_. 0) [set_log_number 7 version_edit_new, set_log_number 9 version_edit_new] vs fs = Inr (vs', fs') \<and>
     fmlookup fs' (manifest_path 1) = Some new \<and> length new = 18 \<and> vs_log_number vs' = 9 \<and>
     vs_recover (\<lambda>_. 0) (fmupd (manifest_path 1) (take 12 new) fs') =
       Inr (vsr, fmupd (manifest_path 1) (take 12 new) fs') \<and> vs_log_number vsr = 7"
proof -
  let ?e1 = "set_log_number 7 version_edit_new" and ?e2 = "set_log_number 9 version_edit_new"
  let ?fs0 = "fmupd current_path (current_content 1) fmempty"
  obtain vs fs where np: "new_pending 1 ?fs0 = (vs, fs)" by force
  have "fmlookup ?fs0 (manifest_path 1) = None" by simp
  note new = vs_written_new [OF this np]
  have w: "vs_written (\<lambda>_. 0) [] vs fs" by (rule new(1))
  have b: "fmlookup fs (manifest_path (vs_manifest_number vs)) = Some []" using new by simp
  have c: "fmlookup fs current_path = Some (current_content (vs_manifest_number vs))" using new by simp
  have ok: "\<forall>e \<in> set ([] @ [?e1, ?e2]). edit_ok e" by (simp add: edit_ok_def edit_setter_defs version_edit_new_def)
  have commit: "\<exists>v vs2 fs2. write_new_version (\<lambda>_. 0) (set_log_number n version_edit_new) vs1 fs1 = (Inr v, vs2, fs2) \<and>
      vs_log_number vs2 = n" for n vs1 fs1
    by (simp add: write_new_version_def apply_edit_def edit_setter_defs version_edit_new_def set_if_some_def split: prod.split)
  obtain v vs1 fs1 where s1: "write_new_version (\<lambda>_. 0) ?e1 vs fs = (Inr v, vs1, fs1)" "vs_log_number vs1 = 7"
    using commit by blast
  obtain v' vs2 fs2 where s2: "write_new_version (\<lambda>_. 0) ?e2 vs1 fs1 = (Inr v', vs2, fs2)" "vs_log_number vs2 = 9"
    using commit by blast
  have ws: "write_versions (\<lambda>_. 0) [?e1, ?e2] vs fs = Inr (vs2, fs2)" "write_versions (\<lambda>_. 0) [?e1] vs fs = Inr (vs1, fs1)"
    using s1 s2 by simp_all
  have len: "length (log_append (\<lambda>_. 0) bs (edit_encode (set_log_number n version_edit_new))) = length bs + 9"
    if "length bs < 20" "n = 7 \<or> n = 9" for bs n
  proof -
    have "length (varint_bytes n) = 1" using that(2) by (auto simp: varint_bytes_rec [of n])
    then show ?thesis
      using that(1) by (simp add: log_append_small encode_number_edit encode_piece_def BLOCK_SIZE_def HEADER_SIZE_def)
  qed
  obtain new where n: "fmlookup fs1 (manifest_path 1) = Some (log_append (\<lambda>_. 0) [] (edit_encode ?e1))"
    "fmlookup fs2 (manifest_path 1) = Some new" "length new = 18"
    using write_versions_written [OF w ws(2) b] write_versions_written [OF w ws(1) b] new(2) len by simp
  have n2: "fmlookup fs2 (manifest_path (vs_manifest_number vs)) = Some new" using n new(2) by simp
  obtain m vsm fsm vsr where m: "m \<le> length [?e1, ?e2]" "write_versions (\<lambda>_. 0) (take m [?e1, ?e2]) vs fs = Inr (vsm, fsm)"
    "vs_recover (\<lambda>_. 0) (fmupd (manifest_path 1) (take 12 new) fs2) = Inr (vsr, fmupd (manifest_path 1) (take 12 new) fs2)"
    "vs_fields vsr = vs_fields vsm"
    "\<forall>i \<le> length [?e1, ?e2]. \<forall>vsi fsi mi. write_versions (\<lambda>_. 0) (take i [?e1, ?e2]) vs fs = Inr (vsi, fsi) \<longrightarrow>
       fmlookup fsi (manifest_path 1) = Some mi \<longrightarrow> (length mi \<le> 12 \<longleftrightarrow> i \<le> m)"
    using version_set_crash_recovery [OF w b c ok ws(1) n2 refl, of 12] unfolding new(2) by auto
  have "1 \<le> m" using m(5) [rule_format, of 1 vs1 fs1] ws(2) n(1) len [of "[]" 7] by simp
  moreover have "\<not> 2 \<le> m" using m(5) [rule_format, of 2 vs2 fs2 new] ws(1) n(2,3) by simp
  ultimately have "m = 1" by simp
  then have "vs_log_number vsr = 7" using m(2,4) ws(2) s1(2) by (simp add: vs_fields_def)
  then show ?thesis using np ws(1) n(2,3) s2(2) m(3) by blast
qed

end
