(* ===== verification/Table_Cache.thy ===== *)
theory Table_Cache
  imports File_System Table
begin

text \<open>
  \<^verbatim>\<open>src/src/table_cache.rs\<close>: the cache of open table readers. \<open>get\<close> holds the lock twice: for the lookup
  and, after the file was opened without it, for the insertion. \<open>cache_get\<close> is the call with nothing in
  between; \<open>cache_step\<close> is the step relation in which calls of several threads interleave. What opening
  a file returns is a function \<open>opens\<close> of the number, since table files are never changed.
\<close>

section \<open>State and operations\<close>

definition DEFAULT_CACHE_CAPACITY :: nat where "DEFAULT_CACHE_CAPACITY = 100"

record cache_inner =
  ci_entries :: "(file_number, table_reader) fmap"
  ci_order :: "file_number list"
  ci_capacity :: nat

definition cache_with_capacity :: "nat \<Rightarrow> cache_inner" where
  "cache_with_capacity capacity = \<lparr>ci_entries = fmempty, ci_order = [], ci_capacity = capacity\<rparr>"

definition cache_new :: cache_inner where
  "cache_new = cache_with_capacity DEFAULT_CACHE_CAPACITY"

text \<open>\<open>TableReader::open\<close> on the table file with this number.\<close>

definition open_table :: "fs \<Rightarrow> file_number \<Rightarrow> table_reader res" where
  "open_table fs number = bind_res (fs_read (sst_path number) fs) table_open"

text \<open>A hit moves the number to the back of the order.\<close>

definition cache_touch :: "file_number \<Rightarrow> cache_inner \<Rightarrow> cache_inner" where
  "cache_touch number c = c\<lparr>ci_order := filter (\<lambda>n. n \<noteq> number) (ci_order c) @ [number]\<rparr>"

text \<open>The second critical section of a miss.\<close>

definition cache_insert :: "file_number \<Rightarrow> table_reader \<Rightarrow> cache_inner \<Rightarrow> cache_inner" where
  "cache_insert number reader c =
     (let c = (if ci_capacity c \<le> fcard (fmdom (ci_entries c))
               then (case ci_order c of
                       [] \<Rightarrow> c
                     | old # order \<Rightarrow> c\<lparr>ci_order := order, ci_entries := fmdrop old (ci_entries c)\<rparr>)
               else c)
      in c\<lparr>ci_entries := fmupd number reader (ci_entries c), ci_order := ci_order c @ [number]\<rparr>)"

definition cache_get ::
    "(file_number \<Rightarrow> table_reader res) \<Rightarrow> cache_inner \<Rightarrow> file_number \<Rightarrow> table_reader res \<times> cache_inner" where
  "cache_get opens c number =
     (if ci_capacity c = 0 then (opens number, c)
      else
        case fmlookup (ci_entries c) number of
          Some reader \<Rightarrow> (Inr reader, cache_touch number c)
        | None \<Rightarrow>
            (case opens number of
               Inl e \<Rightarrow> (Inl e, c)
             | Inr reader \<Rightarrow> (Inr reader, cache_insert number reader c)))"

definition cache_evict :: "file_number \<Rightarrow> cache_inner \<Rightarrow> cache_inner" where
  "cache_evict number c =
     c\<lparr>ci_entries := fmdrop number (ci_entries c), ci_order := filter (\<lambda>n. n \<noteq> number) (ci_order c)\<rparr>"

section \<open>Interleaved calls\<close>

text \<open>The cache and the numbers of the files that threads are opening outside the lock.\<close>

record cache_state =
  cs_cache :: cache_inner
  cs_opening :: "file_number list"

inductive cache_step :: "(file_number \<Rightarrow> table_reader res) \<Rightarrow> cache_state \<Rightarrow> cache_state \<Rightarrow> bool"
  for opens :: "file_number \<Rightarrow> table_reader res" where
  hit: "ci_capacity (cs_cache s) \<noteq> 0 \<Longrightarrow> fmlookup (ci_entries (cs_cache s)) number = Some reader \<Longrightarrow>
    cache_step opens s (s\<lparr>cs_cache := cache_touch number (cs_cache s)\<rparr>)"
| miss: "ci_capacity (cs_cache s) \<noteq> 0 \<Longrightarrow> fmlookup (ci_entries (cs_cache s)) number = None \<Longrightarrow>
    cache_step opens s (s\<lparr>cs_opening := number # cs_opening s\<rparr>)"
| opened: "number \<in> set (cs_opening s) \<Longrightarrow> opens number = Inr reader \<Longrightarrow>
    cache_step opens s (s\<lparr>cs_cache := cache_insert number reader (cs_cache s),
      cs_opening := remove1 number (cs_opening s)\<rparr>)"
| open_failed: "number \<in> set (cs_opening s) \<Longrightarrow> opens number = Inl e \<Longrightarrow>
    cache_step opens s (s\<lparr>cs_opening := remove1 number (cs_opening s)\<rparr>)"
| evict: "cache_step opens s (s\<lparr>cs_cache := cache_evict number (cs_cache s)\<rparr>)"

inductive_cases cache_stepE: "cache_step opens s s'"

definition cache_start :: "nat \<Rightarrow> cache_state" where
  "cache_start capacity = \<lparr>cs_cache = cache_with_capacity capacity, cs_opening = []\<rparr>"

section \<open>What the cache promises\<close>

text \<open>Every cached reader is the one opening its file returns, and its number can be evicted.\<close>

definition cache_ok :: "(file_number \<Rightarrow> table_reader res) \<Rightarrow> cache_inner \<Rightarrow> bool" where
  "cache_ok opens c \<longleftrightarrow>
     (\<forall>n r. fmlookup (ci_entries c) n = Some r \<longrightarrow> opens n = Inr r \<and> n \<in> set (ci_order c))"

lemma cache_with_capacity_simps [simp]:
  "ci_entries (cache_with_capacity k) = fmempty" "ci_order (cache_with_capacity k) = []"
  "ci_capacity (cache_with_capacity k) = k"
  by (simp_all add: cache_with_capacity_def)

lemma cache_ok_start [simp]: "cache_ok opens (cache_with_capacity k)"
  by (simp add: cache_ok_def cache_with_capacity_def)

lemma cache_ok_touch: "cache_ok opens c \<Longrightarrow> cache_ok opens (cache_touch n c)"
  by (auto simp: cache_ok_def cache_touch_def)

lemma cache_ok_insert: "cache_ok opens c \<Longrightarrow> opens n = Inr r \<Longrightarrow> cache_ok opens (cache_insert n r c)"
  by (cases "ci_order c") (auto simp: cache_ok_def cache_insert_def Let_def split: if_splits)

lemma cache_ok_evict: "cache_ok opens c \<Longrightarrow> cache_ok opens (cache_evict n c)"
  by (auto simp: cache_ok_def cache_evict_def split: if_splits)

lemma cache_ok_get:
  "cache_ok opens c \<Longrightarrow> fst (cache_get opens c n) = opens n \<and> cache_ok opens (snd (cache_get opens c n))"
proof -
  assume ok: "cache_ok opens c"
  show ?thesis
  proof (cases "ci_capacity c = 0")
    case False
    then show ?thesis
    proof (cases "fmlookup (ci_entries c) n")
      case None
      then show ?thesis using False ok
        by (cases "opens n") (simp_all add: cache_get_def cache_ok_insert)
    next
      case (Some r)
      then have "opens n = Inr r" using ok by (simp add: cache_ok_def)
      then show ?thesis using False Some ok by (simp add: cache_get_def cache_ok_touch)
    qed
  qed (simp add: cache_get_def ok)
qed

lemma cache_ok_steps:
  "(cache_step opens)\<^sup>*\<^sup>* s s' \<Longrightarrow> cache_ok opens (cs_cache s) \<Longrightarrow> cache_ok opens (cs_cache s')"
proof (induction rule: rtranclp_induct)
  case (step y z)
  then have "cache_ok opens (cs_cache y)" by blast
  from step.hyps(2) this show ?case
    by (elim cache_stepE) (simp_all add: cache_ok_touch cache_ok_insert cache_ok_evict)
qed

text \<open>Without interleaving: the order lists the cached numbers once each and there are at most \<open>capacity\<close>.\<close>

definition cache_bounded :: "cache_inner \<Rightarrow> bool" where
  "cache_bounded c \<longleftrightarrow> distinct (ci_order c) \<and> set (ci_order c) = fset (fmdom (ci_entries c)) \<and>
     fcard (fmdom (ci_entries c)) \<le> ci_capacity c"

lemma cache_bounded_length: "cache_bounded c \<Longrightarrow> fcard (fmdom (ci_entries c)) = length (ci_order c)"
  by (metis cache_bounded_def distinct_card fcard.rep_eq)

lemma cache_bounded_start [simp]: "cache_bounded (cache_with_capacity k)"
  by (simp add: cache_bounded_def cache_with_capacity_def fcard.rep_eq)

lemma fcard_order: "distinct xs \<Longrightarrow> set xs = fset A \<Longrightarrow> fcard A = length xs"
  by (metis distinct_card fcard.rep_eq)

lemma cache_bounded_touch:
  assumes "cache_bounded c" and "fmlookup (ci_entries c) n = Some r"
  shows "cache_bounded (cache_touch n c)"
proof -
  have "n |\<in>| fmdom (ci_entries c)" using assms(2) by (simp add: fmdomI)
  then show ?thesis using assms(1) by (auto simp: cache_bounded_def cache_touch_def)
qed

lemma cache_bounded_insert:
  assumes b: "cache_bounded c" and n: "fmlookup (ci_entries c) n = None" and k: "ci_capacity c \<noteq> 0"
  shows "cache_bounded (cache_insert n r c) \<and>
    ci_order (cache_insert n r c) = (if length (ci_order c) < ci_capacity c then ci_order c else tl (ci_order c)) @ [n]"
proof -
  have len: "fcard (fmdom (ci_entries c)) = length (ci_order c)" and s: "set (ci_order c) = fset (fmdom (ci_entries c))"
    and d: "distinct (ci_order c)" and cap: "length (ci_order c) \<le> ci_capacity c"
    using b cache_bounded_length [OF b] by (auto simp: cache_bounded_def)
  have new: "n \<notin> set (ci_order c)" using n s by (simp add: fmlookup_dom_iff)
  let ?o = "(if length (ci_order c) < ci_capacity c then ci_order c else tl (ci_order c)) @ [n]"
  have o: "ci_order (cache_insert n r c) = ?o" "ci_capacity (cache_insert n r c) = ci_capacity c"
    using cap by (auto simp: cache_insert_def Let_def len split: list.split)
  have e: "set ?o = fset (fmdom (ci_entries (cache_insert n r c)))"
  proof (cases "ci_order c")
    case Nil
    then show ?thesis using s k by (auto simp: cache_insert_def Let_def len)
  next
    case (Cons a xs)
    then show ?thesis using s d new cap by (auto simp: cache_insert_def Let_def len)
  qed
  have d': "distinct ?o" using d new by (cases "ci_order c") auto
  have "length ?o \<le> ci_capacity c" using k cap by auto
  then show ?thesis using o e d' fcard_order [OF d' e] by (simp only: cache_bounded_def)
qed

lemma cache_bounded_evict:
  assumes b: "cache_bounded c"
  shows "cache_bounded (cache_evict n c)"
proof -
  let ?o = "filter (\<lambda>m. m \<noteq> n) (ci_order c)"
  have d: "distinct ?o" and e: "set ?o = fset (fmdom (fmdrop n (ci_entries c)))"
    using b by (auto simp: cache_bounded_def)
  have "length ?o \<le> length (ci_order c)" by (rule length_filter_le)
  also have "\<dots> \<le> ci_capacity c" using cache_bounded_length [OF b] b by (simp add: cache_bounded_def)
  finally have "length ?o \<le> ci_capacity c" .
  then show ?thesis using d e fcard_order [OF d e] by (simp add: cache_bounded_def cache_evict_def)
qed

section \<open>The cache as a source of tables\<close>

text \<open>
  What the readers of the database rely on: whatever the cache holds, asking it for a table gives what
  opening the file gives. \<open>first_answer\<close> is the loop that asks table after table for the first answer.
\<close>

fun first_answer ::
    "('c \<Rightarrow> file_number \<Rightarrow> 'r res \<times> 'c) \<Rightarrow> ('r \<Rightarrow> 'a option res) \<Rightarrow> file_number list \<Rightarrow> 'c \<Rightarrow> 'a option res \<times> 'c" where
  "first_answer get ask [] c = (Inr None, c)"
| "first_answer get ask (n # ns) c =
     (case get c n of
        (Inl e, c) \<Rightarrow> (Inl e, c)
      | (Inr r, c) \<Rightarrow>
          (case ask r of
             Inl e \<Rightarrow> (Inl e, c)
           | Inr (Some a) \<Rightarrow> (Inr (Some a), c)
           | Inr None \<Rightarrow> first_answer get ask ns c))"

text \<open>The same loop over the files themselves.\<close>

fun first_in_files :: "(file_number \<Rightarrow> 'r res) \<Rightarrow> ('r \<Rightarrow> 'a option res) \<Rightarrow> file_number list \<Rightarrow> 'a option res" where
  "first_in_files opens ask [] = Inr None"
| "first_in_files opens ask (n # ns) =
     bind_res (opens n) (\<lambda>r. bind_res (ask r) (\<lambda>a.
       case a of Some a \<Rightarrow> Inr (Some a) | None \<Rightarrow> first_in_files opens ask ns))"

locale table_source =
  fixes get :: "'c \<Rightarrow> file_number \<Rightarrow> 'r res \<times> 'c"
    and opens :: "file_number \<Rightarrow> 'r res"
    and good :: "'c \<Rightarrow> bool"
  assumes get_opens: "good c \<Longrightarrow> fst (get c n) = opens n"
    and get_good: "good c \<Longrightarrow> good (snd (get c n))"
begin

lemma first_answer_files:
  "good c \<Longrightarrow> fst (first_answer get ask ns c) = first_in_files opens ask ns \<and> good (snd (first_answer get ask ns c))"
proof (induction ns arbitrary: c)
  case (Cons n ns)
  obtain c' where g: "get c n = (opens n, c')" "good c'"
    using get_opens [OF Cons.prems, of n] get_good [OF Cons.prems, of n] by (metis fst_conv prod.exhaust snd_conv)
  show ?case
  proof (cases "opens n")
    case (Inr r)
    show ?thesis
    proof (cases "ask r")
      case (Inr a)
      then show ?thesis using g \<open>opens n = Inr r\<close> Cons.IH [OF g(2)] by (cases a) simp_all
    qed (use g Inr in simp)
  qed (use g in simp)
qed simp

end

interpretation cache: table_source "cache_get opens" opens "cache_ok opens"
  by unfold_locales (simp_all add: cache_ok_get)

section \<open>Properties\<close>

text \<open>C36: The cache is transparent under every interleaving: after any sequence of hits, misses, insertions, failed opens
  and evictions of any number of threads, every cached reader is the one that opening its file
  returns, so \<open>get\<close> answers exactly like opening the file.\<close>

theorem cache_transparent:
  assumes "(cache_step opens)\<^sup>*\<^sup>* (cache_start capacity) s"
  shows "fst (cache_get opens (cs_cache s) number) = opens number"
proof -
  have "cache_ok opens (cs_cache s)"
    using cache_ok_steps [OF assms] by (simp add: cache_start_def)
  then show ?thesis by (rule cache.get_opens)
qed

text \<open>After a miss on table 3, which is opened and cached, it is answered from the cache; table 7 cannot be opened.\<close>

theorem cache_transparent_witness:
  "\<forall>r :: table_reader. \<exists>s. (cache_step (\<lambda>n. if n = 3 then Inr r else Inl NotFound))\<^sup>*\<^sup>* (cache_start 1) s \<and>
     fmlookup (ci_entries (cs_cache s)) 3 = Some r \<and>
     fst (cache_get (\<lambda>n. if n = 3 then Inr r else Inl NotFound) (cs_cache s) 3) = Inr r \<and>
     fst (cache_get (\<lambda>n. if n = 3 then Inr r else Inl NotFound) (cs_cache s) 7) = Inl NotFound"
proof
  fix r :: table_reader
  let ?opens = "\<lambda>n. if n = 3 then Inr r else Inl NotFound"
  let ?s1 = "(cache_start 1)\<lparr>cs_opening := [3]\<rparr>"
  let ?s2 = "?s1\<lparr>cs_cache := cache_insert 3 r (cs_cache ?s1), cs_opening := remove1 3 (cs_opening ?s1)\<rparr>"
  have "cache_step ?opens (cache_start 1) ?s1"
    using cache_step.miss [of "cache_start 1" 3 ?opens] by (simp add: cache_start_def)
  moreover have "cache_step ?opens ?s1 ?s2" by (rule cache_step.opened) simp_all
  ultimately have run: "(cache_step ?opens)\<^sup>*\<^sup>* (cache_start 1) ?s2" by (meson converse_rtranclp_into_rtranclp r_into_rtranclp)
  have "fmlookup (ci_entries (cs_cache ?s2)) 3 = Some r" by (simp add: cache_start_def cache_insert_def)
  then show "\<exists>s. (cache_step ?opens)\<^sup>*\<^sup>* (cache_start 1) s \<and> fmlookup (ci_entries (cs_cache s)) 3 = Some r \<and>
      fst (cache_get ?opens (cs_cache s) 3) = Inr r \<and> fst (cache_get ?opens (cs_cache s) 7) = Inl NotFound"
    using run cache_transparent [OF run, of 3] cache_transparent [OF run, of 7] by (intro exI [of _ ?s2]) simp
qed

text \<open>C37: Used by one thread at a time the cache is a least-recently-used cache of its capacity: a hit moves the number to
  the back, a miss appends it and drops the front when the cache is full, and never more than
  \<open>capacity\<close> readers are held.\<close>

theorem cache_get_lru:
  assumes "cache_bounded c" and "ci_capacity c \<noteq> 0" and "opens number = Inr r" and "cache_ok opens c"
  shows "cache_bounded (snd (cache_get opens c number)) \<and>
    ci_order (snd (cache_get opens c number)) =
      (if number \<in> set (ci_order c) then filter (\<lambda>n. n \<noteq> number) (ci_order c)
       else if length (ci_order c) < ci_capacity c then ci_order c else tl (ci_order c)) @ [number]"
proof (cases "fmlookup (ci_entries c) number")
  case None
  then have "number \<notin> set (ci_order c)" using assms(1) by (simp add: cache_bounded_def fmlookup_dom_iff)
  then show ?thesis
    using None assms(2,3) cache_bounded_insert [OF assms(1) None assms(2), of r] by (simp add: cache_get_def)
next
  case (Some reader)
  then have "number \<in> set (ci_order c)" using assms(4) by (auto simp: cache_ok_def)
  then show ?thesis
    using Some assms(2) cache_bounded_touch [OF assms(1) Some] by (simp add: cache_get_def) (simp add: cache_touch_def)
qed

theorem cache_get_lru_witness:
  "let r = \<lparr>tr_data = [], tr_index_handle = \<lparr>bh_offset = 0, bh_size = 0\<rparr>, tr_bloom = None\<rparr> in
   cache_bounded (snd (cache_get (\<lambda>_. Inr r) (cache_with_capacity 2) 5)) \<and>
   ci_order (snd (cache_get (\<lambda>_. Inr r) (cache_with_capacity 2) 5)) = [5]"
  unfolding Let_def
  using cache_get_lru [OF cache_bounded_start [of 2], of "\<lambda>_. Inr \<lparr>tr_data = [], tr_index_handle = \<lparr>bh_offset = 0, bh_size = 0\<rparr>, tr_bloom = None\<rparr>" 5]
  by simp

lemma cache_miss_inserts:
  assumes "fmlookup (ci_entries c) n = None" and "ci_capacity c \<noteq> 0" and "opens n = Inr r"
  shows "(cache_step opens)\<^sup>*\<^sup>* \<lparr>cs_cache = c, cs_opening = []\<rparr> \<lparr>cs_cache = cache_insert n r c, cs_opening = []\<rparr>"
proof -
  have "cache_step opens \<lparr>cs_cache = c, cs_opening = []\<rparr> \<lparr>cs_cache = c, cs_opening = [n]\<rparr>"
    using cache_step.miss [of "\<lparr>cs_cache = c, cs_opening = []\<rparr>" n opens] assms by simp
  moreover have "cache_step opens \<lparr>cs_cache = c, cs_opening = [n]\<rparr> \<lparr>cs_cache = cache_insert n r c, cs_opening = []\<rparr>"
    using cache_step.opened [of n "\<lparr>cs_cache = c, cs_opening = [n]\<rparr>" opens r] assms by simp
  ultimately show ?thesis by (meson converse_rtranclp_into_rtranclp r_into_rtranclp)
qed

lemma cache_two_misses_insert_twice:
  assumes "fmlookup (ci_entries c) n = None" and "ci_capacity c \<noteq> 0" and "opens n = Inr r"
  shows "(cache_step opens)\<^sup>*\<^sup>* \<lparr>cs_cache = c, cs_opening = []\<rparr>
    \<lparr>cs_cache = cache_insert n r (cache_insert n r c), cs_opening = []\<rparr>"
proof -
  have "cache_step opens \<lparr>cs_cache = c, cs_opening = []\<rparr> \<lparr>cs_cache = c, cs_opening = [n]\<rparr>"
    using cache_step.miss [of "\<lparr>cs_cache = c, cs_opening = []\<rparr>" n opens] assms by simp
  moreover have "cache_step opens \<lparr>cs_cache = c, cs_opening = [n]\<rparr> \<lparr>cs_cache = c, cs_opening = [n, n]\<rparr>"
    using cache_step.miss [of "\<lparr>cs_cache = c, cs_opening = [n]\<rparr>" n opens] assms by simp
  moreover have "cache_step opens \<lparr>cs_cache = c, cs_opening = [n, n]\<rparr> \<lparr>cs_cache = cache_insert n r c, cs_opening = [n]\<rparr>"
    using cache_step.opened [of n "\<lparr>cs_cache = c, cs_opening = [n, n]\<rparr>" opens r] assms by simp
  moreover have "cache_step opens \<lparr>cs_cache = cache_insert n r c, cs_opening = [n]\<rparr>
      \<lparr>cs_cache = cache_insert n r (cache_insert n r c), cs_opening = []\<rparr>"
    using cache_step.opened [of n "\<lparr>cs_cache = cache_insert n r c, cs_opening = [n]\<rparr>" opens r] assms by simp
  ultimately show ?thesis by (meson converse_rtranclp_into_rtranclp r_into_rtranclp)
qed

text \<open>C38: Two threads that miss on the same table at the same time enter its number into the order twice. The stale
  second entry is later popped without freeing a reader, so the cache grows beyond its capacity: a
  cache for two readers reaches a state with three.\<close>

theorem cache_race_exceeds_capacity:
  "\<exists>s. (cache_step (\<lambda>_. Inr r))\<^sup>*\<^sup>* (cache_start 2) s \<and> ci_capacity (cs_cache s) = 2 \<and> fcard (fmdom (ci_entries (cs_cache s))) = 3"
proof -
  let ?step = "(cache_step (\<lambda>_. Inr r))\<^sup>*\<^sup>*"
  let ?c1 = "cache_insert 1 r (cache_insert 1 r (cache_with_capacity 2))"
  let ?c2 = "\<lparr>ci_entries = fmupd 2 r (fmupd 1 r fmempty), ci_order = [1, 1, 2], ci_capacity = 2\<rparr>"
  let ?c3 = "\<lparr>ci_entries = fmupd 3 r (fmupd 2 r fmempty), ci_order = [1, 2, 3], ci_capacity = 2\<rparr>"
  let ?c4 = "\<lparr>ci_entries = fmupd 4 r (fmupd 3 r (fmupd 2 r fmempty)), ci_order = [2, 3, 4], ci_capacity = 2\<rparr>"
  have c1: "?c1 = \<lparr>ci_entries = fmupd 1 r fmempty, ci_order = [1, 1], ci_capacity = 2\<rparr>"
    by (simp add: cache_insert_def cache_with_capacity_def fcard.rep_eq)
  have c2: "cache_insert 2 r \<lparr>ci_entries = fmupd 1 r fmempty, ci_order = [1, 1], ci_capacity = 2\<rparr> = ?c2"
    by (simp add: cache_insert_def fcard.rep_eq)
  have c3: "cache_insert 3 r ?c2 = ?c3" by (simp add: cache_insert_def fcard.rep_eq fmdrop_fmupd)
  have c4: "cache_insert 4 r ?c3 = ?c4" by (simp add: cache_insert_def fcard.rep_eq fmdrop_fmupd)
  have s1: "?step (cache_start 2) \<lparr>cs_cache = ?c1, cs_opening = []\<rparr>"
    unfolding cache_start_def
    by (rule cache_two_misses_insert_twice) (simp_all add: cache_with_capacity_def)
  have s2: "?step \<lparr>cs_cache = ?c1, cs_opening = []\<rparr> \<lparr>cs_cache = ?c2, cs_opening = []\<rparr>"
    unfolding c1 c2 [symmetric] by (rule cache_miss_inserts) simp_all
  have s3: "?step \<lparr>cs_cache = ?c2, cs_opening = []\<rparr> \<lparr>cs_cache = ?c3, cs_opening = []\<rparr>"
    unfolding c3 [symmetric] by (rule cache_miss_inserts) simp_all
  have s4: "?step \<lparr>cs_cache = ?c3, cs_opening = []\<rparr> \<lparr>cs_cache = ?c4, cs_opening = []\<rparr>"
    unfolding c4 [symmetric] by (rule cache_miss_inserts) simp_all
  have "?step (cache_start 2) \<lparr>cs_cache = ?c4, cs_opening = []\<rparr>"
    by (rule rtranclp_trans [OF rtranclp_trans [OF s1 s2] rtranclp_trans [OF s3 s4]])
  then show ?thesis
    by (intro exI [of _ "\<lparr>cs_cache = ?c4, cs_opening = []\<rparr>"]) (simp add: fcard.rep_eq)
qed

end
