(* ===== verification/Compaction.thy ===== *)
theory Compaction
  imports Version Iterators Table_Cache "HOL-Library.Log_Nat"
begin

text \<open>
  \<^verbatim>\<open>src/src/compaction.rs\<close>: when a compaction is due and for which level, which files it takes, and the merge
  that writes their entries into new tables of the next level, dropping the versions no snapshot can
  see. Scores are \<open>f64\<close> in the code: \<open>f64\<close> below rounds a non-negative rational to the nearest
  double with ties to even, in the range of the normal numbers, where all scores lie. The bytes of a table
  reach its file when the table is finished.
\<close>

section \<open>Scores\<close>

definition L0_COMPACTION_TRIGGER :: nat where "L0_COMPACTION_TRIGGER = 4"
definition LEVEL0_STOP_WRITES_TRIGGER :: nat where "LEVEL0_STOP_WRITES_TRIGGER = 12"
definition TARGET_FILE_SIZE :: u64 where "TARGET_FILE_SIZE = 2 * 1024 * 1024"
definition MAX_BYTES_FOR_LEVEL_BASE :: u64 where "MAX_BYTES_FOR_LEVEL_BASE = 10 * 1024 * 1024"
definition MAX_BYTES_FOR_LEVEL_MULTIPLIER :: u64 where "MAX_BYTES_FOR_LEVEL_MULTIPLIER = 10"
definition MAX_GRANDPARENT_OVERLAP_BYTES :: u64 where "MAX_GRANDPARENT_OVERLAP_BYTES = 10 * TARGET_FILE_SIZE"

text \<open>The levels are below \<open>NUM_LEVELS\<close>, where nothing overflows.\<close>

definition max_bytes_for_level :: "nat \<Rightarrow> u64" where
  "max_bytes_for_level level =
     (if level \<le> 1 then MAX_BYTES_FOR_LEVEL_BASE
      else MAX_BYTES_FOR_LEVEL_BASE * MAX_BYTES_FOR_LEVEL_MULTIPLIER ^ (level - 1))"

text \<open>The binary exponent of a positive rational, and rounding to 53 significant bits.\<close>

definition f64_exponent :: "rat \<Rightarrow> int" where
  "f64_exponent x =
     (let (p, q) = quotient_of x; e = int (floorlog 2 (nat p)) - int (floorlog 2 (nat q))
      in if 2 powi e \<le> x then e else e - 1)"

definition round_half_even :: "rat \<Rightarrow> int" where
  "round_half_even x =
     (let f = \<lfloor>x\<rfloor>; d = x - of_int f
      in if d < 1 / 2 then f else if 1 / 2 < d then f + 1 else if even f then f else f + 1)"

definition f64 :: "rat \<Rightarrow> rat" where
  "f64 x =
     (if x \<le> 0 then 0
      else let ulp = 2 powi (f64_exponent x - 52) in of_int (round_half_even (x / ulp)) * ulp)"

definition f64_div :: "nat \<Rightarrow> nat \<Rightarrow> rat" where
  "f64_div a b = f64 (f64 (of_nat a) / f64 (of_nat b))"

text \<open>The score of one level; \<open>None\<close> is the \<open>continue\<close> for an empty level.\<close>

definition level_score :: "version \<Rightarrow> nat \<Rightarrow> rat option res" where
  "level_score v level =
     (if level = 0 then Inr (Some (f64_div (num_files v 0) L0_COMPACTION_TRIGGER))
      else
        bind_res (total_size v level) (\<lambda>size.
        if size = 0 then Inr None
        else Inr (Some (f64_div (unat size) (unat (max_bytes_for_level level))))))"

primrec score_loop :: "version \<Rightarrow> nat list \<Rightarrow> (nat \<times> rat) option \<Rightarrow> (nat \<times> rat) option res" where
  "score_loop v [] best = Inr best"
| "score_loop v (level # levels) best =
     bind_res (level_score v level) (\<lambda>s.
       case s of
         None \<Rightarrow> score_loop v levels best
       | Some score \<Rightarrow>
           score_loop v levels
             (if 0 < score \<and> (case best of None \<Rightarrow> True | Some (_, bs) \<Rightarrow> bs < score)
              then Some (level, score) else best))"

definition compaction_score :: "version \<Rightarrow> (nat \<times> rat) option res" where
  "compaction_score v = score_loop v [0..<NUM_LEVELS] None"

definition level0_needs_slowdown :: "version \<Rightarrow> bool" where
  "level0_needs_slowdown v \<longleftrightarrow> LEVEL0_STOP_WRITES_TRIGGER \<le> num_files v 0"

section \<open>Choosing the inputs\<close>

record compaction =
  co_level :: nat
  co_inputs :: "file_meta list \<times> file_meta list"
  co_grandparents :: "file_meta list"

definition smallest_user_key :: "compaction \<Rightarrow> bytes" where
  "smallest_user_key c =
     (case fst (co_inputs c) of
        f # _ \<Rightarrow> user_key (fm_smallest f)
      | [] \<Rightarrow> (case snd (co_inputs c) of f # _ \<Rightarrow> user_key (fm_smallest f) | [] \<Rightarrow> []))"

definition largest_user_key :: "compaction \<Rightarrow> bytes" where
  "largest_user_key c =
     (if fst (co_inputs c) \<noteq> [] then user_key (fm_largest (List.last (fst (co_inputs c))))
      else if snd (co_inputs c) \<noteq> [] then user_key (fm_largest (List.last (snd (co_inputs c)))) else [])"

definition is_base_level_for_user_key :: "compaction \<Rightarrow> version \<Rightarrow> bytes \<Rightarrow> bool" where
  "is_base_level_for_user_key c v uk \<longleftrightarrow>
     list_all (\<lambda>level. get_overlaps v level uk uk = []) [co_level c + 2..<NUM_LEVELS]"

definition input_file_numbers :: "compaction \<Rightarrow> (nat \<times> file_number) list" where
  "input_file_numbers c =
     map (\<lambda>f. (co_level c, fm_number f)) (fst (co_inputs c)) @
     map (\<lambda>f. (co_level c + 1, fm_number f)) (snd (co_inputs c))"

text \<open>\<open>min().unwrap()\<close> and \<open>max().unwrap()\<close> of a non-empty list.\<close>

definition key_min :: "bytes list \<Rightarrow> bytes" where
  "key_min ks = fold min (tl ks) (List.hd ks)"

definition key_max :: "bytes list \<Rightarrow> bytes" where
  "key_max ks = fold max (tl ks) (List.hd ks)"

text \<open>The files of the level itself; \<open>None\<close> when no file lies behind the compaction pointer.\<close>

definition pick_level_inputs :: "version_set \<Rightarrow> nat \<Rightarrow> file_meta list option" where
  "pick_level_inputs vs level =
     (if level = 0 then Some (files_at (vs_current vs) 0)
      else
        let pointer = compact_pointer vs level in
        map_option (\<lambda>picked. [picked])
          (find (\<lambda>f. pointer = [] \<or> pointer < user_key (fm_largest f)) (files_at (vs_current vs) level)))"

definition pick_compaction :: "version_set \<Rightarrow> compaction option res" where
  "pick_compaction vs =
     (let version = vs_current vs in
      bind_res (compaction_score version) (\<lambda>best.
      case best of
        None \<Rightarrow> Inr None
      | Some (level, _) \<Rightarrow>
          if NUM_LEVELS - 1 \<le> level then Inr None
          else
            (case pick_level_inputs vs level of
               None \<Rightarrow> Inr None
             | Some inputs0 \<Rightarrow>
                 let inputs1 =
                       (if inputs0 \<noteq> [] then
                          get_overlaps version (level + 1)
                            (key_min (map (\<lambda>f. user_key (fm_smallest f)) inputs0))
                            (key_max (map (\<lambda>f. user_key (fm_largest f)) inputs0))
                        else []);
                     grandparents =
                       (if level + 2 < NUM_LEVELS \<and> inputs0 \<noteq> [] then
                          let all_files = inputs0 @ inputs1 in
                          get_overlaps version (level + 2)
                            (key_min (map (\<lambda>f. user_key (fm_smallest f)) all_files))
                            (key_max (map (\<lambda>f. user_key (fm_largest f)) all_files))
                        else [])
                 in Inr (Some \<lparr>co_level = level, co_inputs = (inputs0, inputs1), co_grandparents = grandparents\<rparr>))))"

section \<open>Merging into new tables\<close>

text \<open>The local variables of \<open>do_compaction\<close>, with the number generator and the directory it changes.\<close>

record output_state =
  os_new_files :: "file_meta list"
  os_builder :: "table_builder option"
  os_smallest :: "internal_key option"
  os_largest :: "internal_key option"
  os_overlap :: u64
  os_number :: "file_number option"
  os_gp_idx :: nat
  os_last_user_key :: "bytes option"
  os_last_seq :: u64
  os_id_gen :: id_generator
  os_fs :: fs

definition continue_with_entry :: "bytes \<Rightarrow> bytes \<Rightarrow> bytes \<Rightarrow> output_state \<Rightarrow> unit res \<times> output_state" where
  "continue_with_entry uk ik_bytes v st =
     (case os_builder st of
        None \<Rightarrow> (Inl (Corrupted ''compaction builder missing''), st)
      | Some b \<Rightarrow>
          (case table_add b uk ik_bytes v of
             Inl e \<Rightarrow> (Inl e, st)
           | Inr b \<Rightarrow>
               let st = st\<lparr>os_builder := Some b\<rparr> in
               (case ik_decode ik_bytes of
                  Inl e \<Rightarrow> (Inl e, st)
                | Inr ik \<Rightarrow> (Inr (), st\<lparr>os_largest := Some ik\<rparr>))))"

definition finish_current :: "output_state \<Rightarrow> file_meta res \<times> output_state" where
  "finish_current st =
     (case os_builder st of
        None \<Rightarrow> (Inl (Corrupted ''compaction builder missing at finish''), st)
      | Some b \<Rightarrow>
          let st = st\<lparr>os_builder := None\<rparr> in
          (case table_finish b of
             Inl e \<Rightarrow> (Inl e, st)
           | Inr bs \<Rightarrow>
               (case os_number st of
                  None \<Rightarrow> (Inl (Corrupted ''compaction file number missing''), st)
                | Some num \<Rightarrow>
                    let st = st\<lparr>os_fs := fs_write (sst_path num) bs (os_fs st)\<rparr> in
                    (bind_res (fs_len (sst_path num) (os_fs st)) (\<lambda>file_size.
                     bind_res (ok_or (os_smallest st) (Corrupted ''compaction smallest key missing'')) (\<lambda>smallest.
                     bind_res (ok_or (os_largest st) (Corrupted ''compaction largest key missing'')) (\<lambda>largest.
                     Inr (file_meta_new num file_size smallest largest)))), st))))"

text \<open>A new output file that starts with \<open>ik\<close>.\<close>

definition open_output :: "nat \<Rightarrow> nat \<Rightarrow> internal_key \<Rightarrow> output_state \<Rightarrow> unit res \<times> output_state" where
  "open_output block_target bits_per_key ik st =
     (case new_file_number (os_id_gen st) of
        Inl e \<Rightarrow> (Inl e, st)
      | Inr (num, id_gen) \<Rightarrow>
          (Inr (), st\<lparr>os_id_gen := id_gen, os_number := Some num,
             os_fs := fs_write (sst_path num) [] (os_fs st),
             os_builder := Some (table_with_options block_target bits_per_key),
             os_smallest := Some ik, os_largest := Some ik, os_overlap := 0\<rparr>))"

text \<open>The \<open>while grandparent_idx < len\<close> loop: the index and the overlap it ends with.\<close>

function grandparent_loop :: "file_meta list \<Rightarrow> bytes \<Rightarrow> nat \<Rightarrow> u64 \<Rightarrow> (nat \<times> u64) res" where
  "grandparent_loop gps uk idx overlap =
     (if idx < length gps then
        let gp = gps ! idx in
        if user_key (fm_largest gp) < uk then grandparent_loop gps uk (idx + 1) overlap
        else if uk < user_key (fm_smallest gp) then Inr (idx, overlap)
        else if unat overlap + unat (fm_file_size gp) < 2 ^ 64
        then grandparent_loop gps uk (idx + 1) (overlap + fm_file_size gp)
        else Inl (Panicked ''attempt to add with overflow'')
      else Inr (idx, overlap))"
  by pat_completeness auto
termination by (relation "measure (\<lambda>(gps, uk, idx, overlap). length gps - idx)") auto

declare grandparent_loop.simps [simp del]

definition should_split :: "output_state \<Rightarrow> bool" where
  "should_split st \<longleftrightarrow>
     (case os_builder st of
        None \<Rightarrow> False
      | Some b \<Rightarrow> TARGET_FILE_SIZE \<le> table_size_estimate b \<or> MAX_GRANDPARENT_OVERLAP_BYTES < os_overlap st)"

text \<open>The part of the loop body behind the drop decision: the entry \<open>ik\<close> is written.\<close>

definition write_entry ::
    "compaction \<Rightarrow> nat \<Rightarrow> nat \<Rightarrow> internal_key \<Rightarrow> bytes \<Rightarrow> bytes \<Rightarrow> bytes \<Rightarrow> output_state \<Rightarrow> unit res \<times> output_state" where
  "write_entry c block_target bits_per_key ik uk ik_bytes v st =
     (if os_builder st = None then
        then_do (open_output block_target bits_per_key ik st) (\<lambda>_ st.
        continue_with_entry uk ik_bytes v st)
      else
        then_do
          (if should_split st then
             then_do (finish_current st) (\<lambda>meta st.
             then_do (open_output block_target bits_per_key ik (st\<lparr>os_new_files := os_new_files st @ [meta]\<rparr>)) (\<lambda>_ st.
             (Inr (), st\<lparr>os_gp_idx := 0\<rparr>)))
           else (Inr (), st)) (\<lambda>_ st.
        case grandparent_loop (co_grandparents c) uk (os_gp_idx st) (os_overlap st) of
          Inl e \<Rightarrow> (Inl e, st)
        | Inr (idx, overlap) \<Rightarrow>
            continue_with_entry uk ik_bytes v (st\<lparr>os_gp_idx := idx, os_overlap := overlap\<rparr>)))"

text \<open>The body of the \<open>while\<close> loop, for one merged entry.\<close>

definition compact_entry ::
    "compaction \<Rightarrow> version \<Rightarrow> u64 \<Rightarrow> nat \<Rightarrow> nat \<Rightarrow> kv \<Rightarrow> output_state \<Rightarrow> unit res \<times> output_state" where
  "compact_entry c version oldest block_target bits_per_key e st =
     (let (ik_bytes, v) = e in
      case vtype_of_internal_key ik_bytes of
        None \<Rightarrow> (Inr (), st)
      | Some t \<Rightarrow>
          let uk = user_key_of_internal_key ik_bytes in
          (case ik_decode ik_bytes of
             Inl err \<Rightarrow> (Inl err, st)
           | Inr ik \<Rightarrow>
               let is_same_key_as_last = (os_last_user_key st = Some uk);
                   last_visible_to_snapshot = (os_last_seq st \<le> oldest);
                   delete_droppable = (t = Delete \<and> seq ik \<le> oldest
                     \<and> is_base_level_for_user_key c version uk);
                   drop = (is_same_key_as_last \<and> last_visible_to_snapshot \<or> delete_droppable);
                   st = st\<lparr>os_last_user_key := Some uk, os_last_seq := seq ik\<rparr>
               in if drop then (Inr (), st)
                  else write_entry c block_target bits_per_key ik uk ik_bytes v st))"

function compact_loop ::
    "compaction \<Rightarrow> version \<Rightarrow> u64 \<Rightarrow> nat \<Rightarrow> nat \<Rightarrow> merger \<Rightarrow> output_state \<Rightarrow> unit res \<times> output_state" where
  "compact_loop c version oldest block_target bits_per_key merger st =
     (case merger_next merger of
        Inl e \<Rightarrow> (Inl e, st)
      | Inr (None, _) \<Rightarrow> (Inr (), st)
      | Inr (Some e, merger') \<Rightarrow>
          then_do (compact_entry c version oldest block_target bits_per_key e st) (\<lambda>_ st.
          compact_loop c version oldest block_target bits_per_key merger' st))"
  by pat_completeness auto
termination
  by (relation "measure (\<lambda>(c, version, oldest, bt, bpk, merger, st). merger_size merger)")
     (auto dest!: merger_next_size)

declare compact_loop.simps [simp del]

record compaction_output =
  cp_new_files :: "file_meta list"
  cp_deleted_files :: "(nat \<times> file_number) list"

text \<open>The iterators over the input files, opened in order.\<close>

primrec open_inputs :: "fs \<Rightarrow> file_meta list \<Rightarrow> lsm_iter list \<Rightarrow> lsm_iter list res" where
  "open_inputs fs [] iters = Inr iters"
| "open_inputs fs (f # files) iters =
     bind_res (open_table fs (fm_number f)) (\<lambda>reader.
     bind_res (into_table_iter reader) (\<lambda>it.
     open_inputs fs files (iters @ [TableSource it])))"

definition output_start :: "id_generator \<Rightarrow> fs \<Rightarrow> output_state" where
  "output_start id_gen fs =
     \<lparr>os_new_files = [], os_builder = None, os_smallest = None, os_largest = None, os_overlap = 0,
      os_number = None, os_gp_idx = 0, os_last_user_key = None, os_last_seq = 0, os_id_gen = id_gen, os_fs = fs\<rparr>"

text \<open>The result, and the generator and directory as the call leaves them.\<close>

definition do_compaction ::
    "compaction \<Rightarrow> version \<Rightarrow> id_generator \<Rightarrow> u64 \<Rightarrow> nat \<Rightarrow> nat \<Rightarrow> fs \<Rightarrow> compaction_output res \<times> id_generator \<times> fs" where
  "do_compaction c version id_gen oldest block_target bits_per_key fs =
     (case bind_res (open_inputs fs (fst (co_inputs c) @ snd (co_inputs c)) []) merger_new of
        Inl e \<Rightarrow> (Inl e, id_gen, fs)
      | Inr merger \<Rightarrow>
          let (r, st) =
            then_do (compact_loop c version oldest block_target bits_per_key merger
              (output_start id_gen fs)) (\<lambda>_ st.
            if os_builder st \<noteq> None then
              then_do (finish_current st) (\<lambda>meta st. (Inr (), st\<lparr>os_new_files := os_new_files st @ [meta]\<rparr>))
            else (Inr (), st))
          in (bind_res r (\<lambda>_. Inr \<lparr>cp_new_files = os_new_files st, cp_deleted_files = input_file_numbers c\<rparr>),
              os_id_gen st, os_fs st))"

section \<open>Which versions survive\<close>

text \<open>
  The drop decision on the merged entries: \<open>base\<close> tells whether no deeper level holds the user key; the
  arguments carry the user key and sequence number of the previous entry.
\<close>

fun kept :: "u64 \<Rightarrow> (bytes \<Rightarrow> bool) \<Rightarrow> bytes option \<Rightarrow> u64 \<Rightarrow> entry list \<Rightarrow> entry list" where
  "kept oldest base last_uk last_seq [] = []"
| "kept oldest base last_uk last_seq ((k, v) # es) =
     (if last_uk = Some (user_key k) \<and> last_seq \<le> oldest \<or>
         vtype k = Delete \<and> seq k \<le> oldest \<and> base (user_key k)
      then [] else [(k, v)]) @ kept oldest base (Some (user_key k)) (seq k) es"

lemma set_kept: "set (kept oldest base luk lseq es) \<subseteq> set es"
  by (induction oldest base luk lseq es rule: kept.induct) auto

lemma kept_ascending: "ascending_entries es \<Longrightarrow> ascending_entries (kept oldest base luk lseq es)"
  unfolding ascending_entries_def
proof (induction oldest base luk lseq es rule: kept.induct)
  case (2 oldest base luk lseq k v es)
  then show ?case using set_kept [of oldest base "Some (user_key k)" "seq k" es] by auto
qed simp

lemma kept_bound: "entries_bound (encode_entries (kept oldest base luk lseq es)) \<le> entries_bound (encode_entries es)"
  by (induction oldest base luk lseq es rule: kept.induct) auto

lemma kept_length: "length (kept oldest base luk lseq es) \<le> length es"
  by (induction oldest base luk lseq es rule: kept.induct) auto

lemma ascending_entries_Cons:
  "ascending_entries ((k, v) # es) \<longleftrightarrow> ascending_entries es \<and>
     (\<forall>e \<in> set es. user_key k < user_key (fst e) \<or> user_key k = user_key (fst e) \<and> seq (fst e) < seq k)"
  by (auto simp: ascending_entries_def internal_key_cmp_encode cmp_def split: if_splits)

text \<open>Behind a version that every snapshot sees, all older versions of the key go.\<close>

lemma kept_none_older:
  assumes "ascending_entries es" and "s \<le> oldest" and "\<forall>e \<in> set es. uk \<le> user_key (fst e)"
    and "\<forall>e \<in> set es. user_key (fst e) = uk \<longrightarrow> seq (fst e) \<le> s"
  shows "visible (kept oldest base (Some uk) s es) uk snap = None"
  using assms
proof (induction es arbitrary: s)
  case (Cons e es)
  obtain k v where e: "e = (k, v)" by force
  have asc: "ascending_entries es"
    and later: "\<forall>f \<in> set es. user_key k < user_key (fst f) \<or> user_key k = user_key (fst f) \<and> seq (fst f) < seq k"
    using Cons.prems(1) by (auto simp: e ascending_entries_Cons)
  show ?case
  proof (cases "user_key k = uk")
    case True
    then have "seq k \<le> oldest" using Cons.prems(2,4) by (auto simp: e)
    moreover have "\<forall>f \<in> set es. user_key (fst f) = uk \<longrightarrow> seq (fst f) \<le> seq k" using later True by fastforce
    ultimately show ?thesis
      using Cons.IH [OF asc, of "seq k"] Cons.prems(2,3) True by (simp add: e)
  next
    case False
    then have "uk < user_key k" using Cons.prems(3) by (auto simp: e order.strict_iff_order)
    then have "\<forall>f \<in> set (e # es). user_key (fst f) \<noteq> uk" using later by (auto simp: e)
    then have "\<forall>f \<in> set (kept oldest base (Some uk) s (e # es)). user_key (fst f) \<noteq> uk" using set_kept by blast
    then show ?thesis by (auto simp: visible_def find_None_iff)
  qed
qed (simp add: visible_def)

text \<open>Below the bound, an older version of a key goes as soon as a newer one is at or below it, whoever still reads it.\<close>

lemma kept_hides_older:
  assumes "ascending_entries es" and "e \<in> set es" and "user_key (fst e) = uk" and "s < seq (fst e)"
    and "seq (fst e) \<le> oldest"
  shows "visible (kept oldest base luk lseq es) uk s = None"
  using assms
proof (induction es arbitrary: luk lseq)
  case (Cons f es)
  obtain k v where f: "f = (k, v)" by force
  have asc: "ascending_entries es"
    and later: "\<forall>f \<in> set es. user_key k < user_key (fst f) \<or> user_key k = user_key (fst f) \<and> seq (fst f) < seq k"
    using Cons.prems(1) by (auto simp: f ascending_entries_Cons)
  have "visible (kept oldest base (Some (user_key k)) (seq k) es) uk s = None"
  proof (cases "e = f")
    case True
    then have k: "user_key k = uk" "seq k \<le> oldest" using Cons.prems(3,5) by (auto simp: f)
    have "\<forall>f \<in> set es. uk \<le> user_key (fst f)" using later k(1) by (auto intro: order.strict_implies_order)
    moreover have "\<forall>f \<in> set es. user_key (fst f) = uk \<longrightarrow> seq (fst f) \<le> seq k" using later k(1) by fastforce
    ultimately show ?thesis unfolding k(1) by (rule kept_none_older [OF asc k(2)])
  next
    case False
    then show ?thesis using Cons.IH [OF asc] Cons.prems(2-) by simp
  qed
  moreover have "\<not> (user_key k = uk \<and> seq k \<le> s)"
  proof (cases "e = f")
    case True
    then show ?thesis using Cons.prems(4) by (simp add: f not_le)
  next
    case False
    then have "e \<in> set es" using Cons.prems(2) by simp
    then have "user_key k = uk \<Longrightarrow> seq (fst e) < seq k" using later Cons.prems(3) by fastforce
    then show ?thesis using Cons.prems(4) by (meson leD less_trans)
  qed
  ultimately show ?case by (simp add: f visible_skip)
qed simp

definition read_value :: "(value_type \<times> bytes) option \<Rightarrow> bytes option" where
  "read_value r = (case r of Some (Put, v) \<Rightarrow> Some v | _ \<Rightarrow> None)"

lemma visible_kept:
  assumes "ascending_entries es" and "oldest \<le> snap" and "luk \<noteq> Some uk \<or> snap < lseq"
  shows "visible (kept oldest base luk lseq es) uk snap =
    (case visible es uk snap of
       Some (Delete, v) \<Rightarrow> if base uk \<and> visible (kept oldest base luk lseq es) uk snap = None then None else Some (Delete, v)
     | r \<Rightarrow> r)"
  using assms
proof (induction es arbitrary: luk lseq)
  case (Cons e es)
  obtain k v where e: "e = (k, v)" by force
  have asc: "ascending_entries es"
    and later: "\<forall>f \<in> set es. user_key k < user_key (fst f) \<or> user_key k = user_key (fst f) \<and> seq (fst f) < seq k"
    using Cons.prems(1) by (auto simp: e ascending_entries_Cons)
  show ?case
  proof (cases "user_key k = uk \<and> seq k \<le> snap")
    case True
    then have keep: "\<not> (luk = Some (user_key k) \<and> lseq \<le> oldest)" using Cons.prems(2,3) by auto
    have vis: "visible (e # es) uk snap = Some (vtype k, v)" using True visible_take [of k snap v es] by (simp add: e)
    show ?thesis
    proof (cases "vtype k = Delete \<and> seq k \<le> oldest \<and> base uk")
      case dropped: True
      have "visible (kept oldest base (Some uk) (seq k) es) uk snap = None"
        using asc dropped later True by (intro kept_none_older) fastforce+
      then show ?thesis using dropped keep True vis by (simp add: e)
    next
      case False
      then have "kept oldest base luk lseq (e # es) = (k, v) # kept oldest base (Some uk) (seq k) es"
        using keep True by (auto simp: e)
      then show ?thesis using True vis visible_take [of k snap v] by (auto split: value_type.split)
    qed
  next
    case False
    have skip: "visible (e # es) uk snap = visible es uk snap" using False by (simp add: e visible_skip)
    have same: "visible (kept oldest base luk lseq (e # es)) uk snap = visible (kept oldest base (Some (user_key k)) (seq k) es) uk snap"
      using False by (simp add: e visible_skip)
    have "Some (user_key k) \<noteq> Some uk \<or> snap < seq k" using False by auto
    then show ?thesis unfolding same skip by (rule Cons.IH [OF asc Cons.prems(2)])
  qed
qed (simp add: visible_def)

lemma kept_reads:
  assumes "ascending_entries es" and "oldest \<le> snap"
  shows "read_value (visible (kept oldest base None s es) uk snap) = read_value (visible es uk snap)"
    and "\<not> base uk \<Longrightarrow> visible (kept oldest base None s es) uk snap = visible es uk snap"
  using visible_kept [OF assms, of None uk s base]
  by (auto simp: read_value_def split: option.splits value_type.splits if_splits)

section \<open>The tables a compaction writes\<close>

text \<open>The file of \<open>f\<close> is a table with the entries \<open>es\<close>, and \<open>f\<close> names its first and last key.\<close>

definition file_holds :: "fs \<Rightarrow> file_meta \<Rightarrow> entry list \<Rightarrow> bool" where
  "file_holds fs f es \<longleftrightarrow> es \<noteq> [] \<and> fm_smallest f = fst (List.hd es) \<and> fm_largest f = fst (List.last es) \<and>
     (\<exists>tr. open_table fs (fm_number f) = Inr tr \<and> table_rep tr es)"

lemma file_holds_other:
  "file_holds fs f es \<Longrightarrow> fmlookup fs' (sst_path (fm_number f)) = fmlookup fs (sst_path (fm_number f)) \<Longrightarrow>
   file_holds fs' f es"
  by (simp add: file_holds_def open_table_def fs_read_def)

lemma continue_with_entry_adding:
  assumes "os_builder st = Some tb" and "adding bt bpk tb cur"
  shows "\<exists>tb'. continue_with_entry (user_key k) (ik_encode k) v st =
      (Inr (), st\<lparr>os_builder := Some tb', os_largest := Some k\<rparr>) \<and> adding bt bpk tb' (cur @ [(k, v)])"
proof -
  obtain tb' where "table_add tb (user_key k) (ik_encode k) v = Inr tb'" "adding bt bpk tb' (cur @ [(k, v)])"
    using adding_add [OF assms(2)] by blast
  then show ?thesis using assms(1) by (intro exI [of _ tb']) (simp add: continue_with_entry_def)
qed

lemma finish_current_holds:
  assumes "os_builder st = Some tb" and "adding bt bpk tb cur" and "table_limits bt bpk cur"
    and "ascending_entries cur" and "cur \<noteq> []" and "os_number st = Some n"
    and "os_smallest st = Some (fst (List.hd cur))" and "os_largest st = Some (fst (List.last cur))"
  shows "\<exists>meta bs. finish_current st =
      (Inr meta, st\<lparr>os_builder := None, os_fs := fs_write (sst_path n) bs (os_fs st)\<rparr>) \<and>
    fm_number meta = n \<and> fm_allowed_seeks meta = 0 \<and> file_holds (fs_write (sst_path n) bs (os_fs st)) meta cur"
proof -
  obtain bs tr where bs: "table_finish tb = Inr bs" "table_open bs = Inr tr" "table_rep tr cur"
    using adding_finish [OF assms(2-4)] by blast
  have "fs_len (sst_path n) (fs_write (sst_path n) bs (os_fs st)) = Inr (of_nat (length bs))"
    by (simp add: fs_len_def fs_write_def)
  moreover have "open_table (fs_write (sst_path n) bs (os_fs st)) n = Inr tr"
    using bs(2) by (simp add: open_table_def fs_write_def)
  ultimately show ?thesis
    using assms bs by (intro exI [of _ bs] exI conjI) (auto simp: finish_current_def file_holds_def file_meta_new_def)
qed

definition sizes_from :: "file_meta list \<Rightarrow> nat \<Rightarrow> nat" where
  "sizes_from gps idx = sum_list (map (\<lambda>f. unat (fm_file_size f)) (drop idx gps))"

lemma sizes_from_step: "idx < length gps \<Longrightarrow> sizes_from gps idx = unat (fm_file_size (gps ! idx)) + sizes_from gps (idx + 1)"
  by (simp add: sizes_from_def Cons_nth_drop_Suc [symmetric])

lemma sizes_from_le: "sizes_from gps idx \<le> sizes_from gps 0"
proof -
  have "sizes_from gps 0 = sum_list (map (\<lambda>f. unat (fm_file_size f)) (take idx gps @ drop idx gps))"
    by (simp add: sizes_from_def)
  then show ?thesis unfolding map_append sum_list_append by (simp add: sizes_from_def)
qed

lemma grandparent_loop_total:
  "unat overlap + sizes_from gps idx < 2 ^ 64 \<Longrightarrow>
   \<exists>idx' overlap'. grandparent_loop gps uk idx overlap = Inr (idx', overlap') \<and>
     unat overlap' + sizes_from gps idx' \<le> unat overlap + sizes_from gps idx"
proof (induction gps uk idx overlap rule: grandparent_loop.induct)
  case (1 gps uk idx overlap)
  let ?gp = "gps ! idx"
  show ?case
  proof (cases "idx < length gps")
    case True
    note step = sizes_from_step [OF True]
    consider "user_key (fm_largest ?gp) < uk" | "\<not> user_key (fm_largest ?gp) < uk" "uk < user_key (fm_smallest ?gp)"
      | "\<not> user_key (fm_largest ?gp) < uk" "\<not> uk < user_key (fm_smallest ?gp)" by blast
    then show ?thesis
    proof cases
      case 1
      have "unat overlap + sizes_from gps (idx + 1) < 2 ^ 64" using "1.prems" step by simp
      from "1.IH"(1) [OF True refl 1 this] show ?thesis
        using True 1 step by (subst grandparent_loop.simps) (auto intro: le_trans)
    next
      case 2
      then show ?thesis using True by (subst grandparent_loop.simps) simp
    next
      case 3
      have lt: "unat overlap + unat (fm_file_size ?gp) < 2 ^ 64" using "1.prems" step by simp
      then have u: "unat (overlap + fm_file_size ?gp) = unat overlap + unat (fm_file_size ?gp)"
        by (simp add: unat_word_ariths)
      have "unat (overlap + fm_file_size ?gp) + sizes_from gps (idx + 1) < 2 ^ 64" using "1.prems" step u by simp
      from "1.IH"(2) [OF True refl 3 lt this] show ?thesis
        using True 3 lt step u by (subst grandparent_loop.simps) auto
    qed
  next
    case False
    then show ?thesis by (subst grandparent_loop.simps) simp
  qed
qed

text \<open>
  The state between two entries: \<open>shut\<close> are the entries of the finished files, \<open>cur\<close> those of the open one,
  which starts with the key \<open>start\<close>. All numbers were drawn at or behind \<open>g0\<close>, and no other file of the
  directory \<open>fs0\<close> was touched.
\<close>

definition files_rep :: "compaction \<Rightarrow> u64 \<Rightarrow> fs \<Rightarrow> entry list list \<Rightarrow> output_state \<Rightarrow> bool" where
  "files_rep c g0 fs0 shut st \<longleftrightarrow>
     list_all2 (file_holds (os_fs st)) (os_new_files st) shut \<and>
     (\<forall>f \<in> set (os_new_files st). g0 \<le> fm_number f \<and> fm_number f < id_next (os_id_gen st) \<and> fm_allowed_seeks f = 0) \<and>
     sorted_wrt (<) (map fm_number (os_new_files st)) \<and> g0 \<le> id_next (os_id_gen st) \<and>
     (\<forall>name. (\<forall>n. g0 \<le> n \<longrightarrow> n < id_next (os_id_gen st) \<longrightarrow> name \<noteq> sst_path n) \<longrightarrow>
        fmlookup (os_fs st) name = fmlookup fs0 name) \<and>
     unat (os_overlap st) + sizes_from (co_grandparents c) (os_gp_idx st) < 2 ^ 64"

definition open_rep :: "nat \<Rightarrow> nat \<Rightarrow> u64 \<Rightarrow> entry list \<Rightarrow> internal_key \<Rightarrow> output_state \<Rightarrow> bool" where
  "open_rep bt bpk g0 cur start st \<longleftrightarrow>
     (\<exists>tb n. os_builder st = Some tb \<and> adding bt bpk tb cur \<and> os_smallest st = Some start \<and>
        os_number st = Some n \<and> g0 \<le> n \<and> n < id_next (os_id_gen st) \<and> (\<forall>f \<in> set (os_new_files st). fm_number f < n))"

definition outputs_rep ::
    "compaction \<Rightarrow> nat \<Rightarrow> nat \<Rightarrow> u64 \<Rightarrow> fs \<Rightarrow> entry list list \<Rightarrow> entry list \<Rightarrow> output_state \<Rightarrow> bool" where
  "outputs_rep c bt bpk g0 fs0 shut cur st \<longleftrightarrow>
     files_rep c g0 fs0 shut st \<and>
     (if os_builder st = None then cur = []
      else cur \<noteq> [] \<and> open_rep bt bpk g0 cur (fst (List.hd cur)) st \<and> os_largest st = Some (fst (List.last cur)))"

lemma outputs_rep_start:
  assumes "sizes_from (co_grandparents c) 0 < 2 ^ 64"
  shows "outputs_rep c bt bpk (id_next g) fs [] [] (output_start g fs)"
  using assms by (simp add: outputs_rep_def files_rep_def output_start_def)

lemma outputs_rep_continue:
  assumes "files_rep c g0 fs0 shut st" and "open_rep bt bpk g0 cur start st"
    and "start = fst (List.hd (cur @ [(k, v)]))"
  shows "\<exists>st'. continue_with_entry (user_key k) (ik_encode k) v st = (Inr (), st') \<and>
    outputs_rep c bt bpk g0 fs0 shut (cur @ [(k, v)]) st' \<and> os_id_gen st' = os_id_gen st \<and>
    os_last_user_key st' = os_last_user_key st \<and> os_last_seq st' = os_last_seq st"
proof -
  obtain tb n where tb: "os_builder st = Some tb" "adding bt bpk tb cur"
    and n: "os_smallest st = Some start" "os_number st = Some n" "g0 \<le> n" "n < id_next (os_id_gen st)"
      "\<forall>f \<in> set (os_new_files st). fm_number f < n"
    using assms(2) unfolding open_rep_def by blast
  obtain tb' where cont: "continue_with_entry (user_key k) (ik_encode k) v st =
      (Inr (), st\<lparr>os_builder := Some tb', os_largest := Some k\<rparr>)" (is "_ = (_, ?st')")
    and add: "adding bt bpk tb' (cur @ [(k, v)])"
    using continue_with_entry_adding [OF tb] by blast
  have "files_rep c g0 fs0 shut ?st'" using assms(1) by (simp add: files_rep_def)
  moreover have "open_rep bt bpk g0 (cur @ [(k, v)]) start ?st'" using n add by (simp add: open_rep_def)
  ultimately have "outputs_rep c bt bpk g0 fs0 shut (cur @ [(k, v)]) ?st'"
    unfolding outputs_rep_def assms(3) [symmetric] by simp
  then show ?thesis using cont by (intro exI [of _ ?st']) simp
qed

lemma file_holds_write:
  assumes "list_all2 (file_holds fs) files shut" and "\<forall>f \<in> set files. fm_number f \<noteq> n"
  shows "list_all2 (file_holds (fs_write (sst_path n) bs fs)) files shut"
proof (rule list.rel_mono_strong [OF assms(1)])
  fix f es assume "f \<in> set files" "file_holds fs f es"
  then show "file_holds (fs_write (sst_path n) bs fs) f es"
    using assms(2) file_holds_other [of fs f es "fs_write (sst_path n) bs fs"] by (auto simp: fs_write_def)
qed

text \<open>Opening an output for an entry.\<close>

lemma open_output_rep:
  assumes rep: "files_rep c g0 fs0 shut st" and g: "unat (id_next (os_id_gen st)) + 1 < 2 ^ 64"
    and gp: "sizes_from (co_grandparents c) 0 < 2 ^ 64"
  shows "\<exists>st1. open_output bt bpk k st = (Inr (), st1) \<and> files_rep c g0 fs0 shut st1 \<and>
    open_rep bt bpk g0 [] k st1 \<and> os_overlap st1 = 0 \<and>
    unat (id_next (os_id_gen st1)) = unat (id_next (os_id_gen st)) + 1 \<and>
    os_last_user_key st1 = os_last_user_key st \<and> os_last_seq st1 = os_last_seq st"
proof -
  let ?n = "id_next (os_id_gen st)"
  have ne: "?n \<noteq> - 1" using g by (auto simp: unsigned_minus_1_eq_mask mask_eq_exp_minus_1)
  have u: "unat (?n + 1) = unat ?n + 1" using g by (simp add: unat_word_ariths)
  then have lt: "?n < ?n + 1" by (simp add: word_less_nat_alt)
  have fresh: "\<forall>f \<in> set (os_new_files st). fm_number f \<noteq> ?n" using rep by (auto simp: files_rep_def)
  have gp': "sizes_from (co_grandparents c) (os_gp_idx st) < 2 ^ 64"
    using gp sizes_from_le [of "co_grandparents c" "os_gp_idx st"] by linarith
  have all: "\<forall>f \<in> set (os_new_files st). g0 \<le> fm_number f \<and> fm_number f < ?n + 1 \<and> fm_allowed_seeks f = 0"
    "g0 \<le> ?n + 1" using rep lt by (auto simp: files_rep_def intro: less_trans order_trans)
  let ?st1 = "st\<lparr>os_id_gen := (os_id_gen st)\<lparr>id_next := ?n + 1\<rparr>, os_number := Some ?n,
      os_fs := fs_write (sst_path ?n) [] (os_fs st), os_builder := Some (table_with_options bt bpk),
      os_smallest := Some k, os_largest := Some k, os_overlap := 0\<rparr>"
  have "open_output bt bpk k st = (Inr (), ?st1)"
    using ne by (simp add: open_output_def new_file_number_def u64_succ_def)
  moreover have "files_rep c g0 fs0 shut ?st1"
  proof -
    have "list_all2 (file_holds (fs_write (sst_path ?n) [] (os_fs st))) (os_new_files st) shut"
      using rep fresh by (intro file_holds_write) (auto simp: files_rep_def)
    moreover have "fmlookup (fs_write (sst_path ?n) [] (os_fs st)) name = fmlookup fs0 name"
      if name: "\<forall>n. g0 \<le> n \<longrightarrow> n < ?n + 1 \<longrightarrow> name \<noteq> sst_path n" for name
    proof -
      have "name \<noteq> sst_path ?n" "\<forall>n. g0 \<le> n \<longrightarrow> n < ?n \<longrightarrow> name \<noteq> sst_path n"
        using name rep lt by (auto simp: files_rep_def dest: less_trans)
      then show ?thesis using rep by (simp add: files_rep_def fs_write_def)
    qed
    ultimately show ?thesis using rep all gp' by (simp add: files_rep_def)
  qed
  moreover have "open_rep bt bpk g0 [] k ?st1"
    using rep lt by (auto simp: open_rep_def adding_new files_rep_def)
  ultimately show ?thesis using u by (intro exI [of _ ?st1]) simp
qed

text \<open>Finishing the open file.\<close>

lemma finish_current_rep:
  assumes rep: "outputs_rep c bt bpk g0 fs0 shut cur st" and b: "os_builder st \<noteq> None"
    and limits: "table_limits bt bpk cur" and asc: "ascending_entries cur"
  shows "\<exists>meta st1. finish_current st = (Inr meta, st1) \<and>
    files_rep c g0 fs0 (shut @ [cur]) (st1\<lparr>os_new_files := os_new_files st1 @ [meta]\<rparr>) \<and> os_builder st1 = None \<and>
    os_id_gen st1 = os_id_gen st \<and> os_last_user_key st1 = os_last_user_key st \<and> os_last_seq st1 = os_last_seq st"
proof -
  have cur: "cur \<noteq> []" "os_largest st = Some (fst (List.last cur))" and files: "files_rep c g0 fs0 shut st"
    using rep b by (auto simp: outputs_rep_def)
  obtain tb n where tb: "os_builder st = Some tb" "adding bt bpk tb cur" "os_smallest st = Some (fst (List.hd cur))"
    "os_number st = Some n" "g0 \<le> n" "n < id_next (os_id_gen st)" "\<forall>f \<in> set (os_new_files st). fm_number f < n"
    using rep b by (auto simp: outputs_rep_def open_rep_def)
  obtain meta bs where m: "finish_current st = (Inr meta, st\<lparr>os_builder := None, os_fs := fs_write (sst_path n) bs (os_fs st)\<rparr>)"
    "fm_number meta = n" "fm_allowed_seeks meta = 0" "file_holds (fs_write (sst_path n) bs (os_fs st)) meta cur"
    using finish_current_holds [OF tb(1,2) limits asc cur(1) tb(4,3) cur(2)] by blast
  let ?st1 = "st\<lparr>os_builder := None, os_fs := fs_write (sst_path n) bs (os_fs st)\<rparr>"
  have "list_all2 (file_holds (fs_write (sst_path n) bs (os_fs st))) (os_new_files st) shut"
    using files tb(7) by (intro file_holds_write) (auto simp: files_rep_def)
  then have "list_all2 (file_holds (fs_write (sst_path n) bs (os_fs st))) (os_new_files st @ [meta]) (shut @ [cur])"
    using m(4) by (intro list_all2_appendI) simp_all
  then have "files_rep c g0 fs0 (shut @ [cur]) (?st1\<lparr>os_new_files := os_new_files ?st1 @ [meta]\<rparr>)"
    using files m(2,3) tb(5-7) by (simp add: files_rep_def sorted_wrt_append) (auto simp: fs_write_def)
  then show ?thesis using m(1) by (intro exI [of _ meta] exI [of _ ?st1]) simp
qed

lemma grandparents_rep:
  assumes "files_rep c g0 fs0 shut st"
  shows "\<exists>idx overlap. grandparent_loop (co_grandparents c) uk (os_gp_idx st) (os_overlap st) = Inr (idx, overlap) \<and>
    files_rep c g0 fs0 shut (st\<lparr>os_gp_idx := idx, os_overlap := overlap\<rparr>)"
proof -
  have "unat (os_overlap st) + sizes_from (co_grandparents c) (os_gp_idx st) < 2 ^ 64"
    using assms by (simp add: files_rep_def)
  then obtain idx overlap where "grandparent_loop (co_grandparents c) uk (os_gp_idx st) (os_overlap st) = Inr (idx, overlap)"
    "unat overlap + sizes_from (co_grandparents c) idx < 2 ^ 64"
    using grandparent_loop_total [of "os_overlap st" "co_grandparents c" "os_gp_idx st" uk] le_less_trans by blast
  then show ?thesis using assms by (auto simp: files_rep_def)
qed

lemma open_rep_update [simp]:
  "open_rep bt bpk g0 cur start (st\<lparr>os_gp_idx := i, os_overlap := v\<rparr>) = open_rep bt bpk g0 cur start st"
  "open_rep bt bpk g0 cur start (st\<lparr>os_gp_idx := i\<rparr>) = open_rep bt bpk g0 cur start st"
  by (simp_all add: open_rep_def)

section \<open>One merged entry, all merged entries\<close>

lemma files_rep_gp_0:
  assumes "files_rep c g0 fs0 shut st" and "os_overlap st = 0" and "sizes_from (co_grandparents c) 0 < 2 ^ 64"
  shows "files_rep c g0 fs0 shut (st\<lparr>os_gp_idx := 0\<rparr>)"
  using assms by (simp add: files_rep_def)

lemma write_entry_rep:
  assumes rep: "outputs_rep c bt bpk g0 fs0 shut cur st" and g: "unat (id_next (os_id_gen st)) + 1 < 2 ^ 64"
    and gp: "sizes_from (co_grandparents c) 0 < 2 ^ 64"
    and limits: "table_limits bt bpk cur" and asc: "ascending_entries cur"
  shows "\<exists>st' shut' cur'. write_entry c bt bpk k (user_key k) (ik_encode k) v st = (Inr (), st') \<and>
    outputs_rep c bt bpk g0 fs0 shut' cur' st' \<and> concat shut' @ cur' = concat shut @ cur @ [(k, v)] \<and>
    (cur' = cur @ [(k, v)] \<or> cur' = [(k, v)]) \<and>
    unat (id_next (os_id_gen st')) \<le> unat (id_next (os_id_gen st)) + 1 \<and>
    os_last_user_key st' = os_last_user_key st \<and> os_last_seq st' = os_last_seq st"
proof (cases "os_builder st = None")
  case True
  then have files: "files_rep c g0 fs0 shut st" and cur: "cur = []" using rep by (auto simp: outputs_rep_def)
  obtain st1 where 1: "open_output bt bpk k st = (Inr (), st1)" "files_rep c g0 fs0 shut st1" "open_rep bt bpk g0 [] k st1"
    "unat (id_next (os_id_gen st1)) = unat (id_next (os_id_gen st)) + 1"
    "os_last_user_key st1 = os_last_user_key st" "os_last_seq st1 = os_last_seq st"
    using open_output_rep [OF files g gp, of bt bpk k] by blast
  obtain st2 where 2: "continue_with_entry (user_key k) (ik_encode k) v st1 = (Inr (), st2)"
    "outputs_rep c bt bpk g0 fs0 shut ([] @ [(k, v)]) st2" "os_id_gen st2 = os_id_gen st1"
    "os_last_user_key st2 = os_last_user_key st1" "os_last_seq st2 = os_last_seq st1"
    using outputs_rep_continue [OF 1(2,3), of k v] by auto
  show ?thesis
    using True 1 2 cur by (intro exI [of _ st2] exI [of _ shut] exI [of _ "[(k, v)]"]) (simp add: write_entry_def)
next
  case False
  note b = this
  then obtain tb where tb: "os_builder st = Some tb" by blast
  show ?thesis
  proof (cases "should_split st")
    case True
    obtain meta st1 where 1: "finish_current st = (Inr meta, st1)"
      "files_rep c g0 fs0 (shut @ [cur]) (st1\<lparr>os_new_files := os_new_files st1 @ [meta]\<rparr>)"
      "os_id_gen st1 = os_id_gen st" "os_last_user_key st1 = os_last_user_key st" "os_last_seq st1 = os_last_seq st"
      using finish_current_rep [OF rep b limits asc] by blast
    let ?st1 = "st1\<lparr>os_new_files := os_new_files st1 @ [meta]\<rparr>"
    have g1: "unat (id_next (os_id_gen ?st1)) + 1 < 2 ^ 64" using g 1(3) by simp
    obtain st2 where 2: "open_output bt bpk k ?st1 = (Inr (), st2)" "files_rep c g0 fs0 (shut @ [cur]) st2"
      "open_rep bt bpk g0 [] k st2" "os_overlap st2 = 0"
      "unat (id_next (os_id_gen st2)) = unat (id_next (os_id_gen ?st1)) + 1"
      "os_last_user_key st2 = os_last_user_key ?st1" "os_last_seq st2 = os_last_seq ?st1"
      using open_output_rep [OF 1(2) g1 gp, of bt bpk k] by blast
    let ?st2 = "st2\<lparr>os_gp_idx := 0\<rparr>"
    obtain idx overlap where 3: "grandparent_loop (co_grandparents c) (user_key k) (os_gp_idx ?st2) (os_overlap ?st2) = Inr (idx, overlap)"
      "files_rep c g0 fs0 (shut @ [cur]) (?st2\<lparr>os_gp_idx := idx, os_overlap := overlap\<rparr>)"
      using grandparents_rep [OF files_rep_gp_0 [OF 2(2,4) gp]] by blast
    let ?st3 = "?st2\<lparr>os_gp_idx := idx, os_overlap := overlap\<rparr>"
    have "open_rep bt bpk g0 [] k ?st3" using 2(3) by simp
    from outputs_rep_continue [OF 3(2) this, of k v]
    obtain st4 where 4: "continue_with_entry (user_key k) (ik_encode k) v ?st3 = (Inr (), st4)"
      "outputs_rep c bt bpk g0 fs0 (shut @ [cur]) ([] @ [(k, v)]) st4" "os_id_gen st4 = os_id_gen ?st3"
      "os_last_user_key st4 = os_last_user_key ?st3" "os_last_seq st4 = os_last_seq ?st3"
      by auto
    have w: "write_entry c bt bpk k (user_key k) (ik_encode k) v st = (Inr (), st4)"
      using tb True 1(1) 2(1) 3(1) 4(1) by (simp add: write_entry_def)
    show ?thesis
      using w 1 2 4 by (intro exI [of _ st4] exI [of _ "shut @ [cur]"] exI [of _ "[(k, v)]"]) simp
  next
    case False
    have files: "files_rep c g0 fs0 shut st" and cur: "cur \<noteq> []" and op: "open_rep bt bpk g0 cur (fst (List.hd cur)) st"
      using rep b by (auto simp: outputs_rep_def)
    obtain idx overlap where 3: "grandparent_loop (co_grandparents c) (user_key k) (os_gp_idx st) (os_overlap st) = Inr (idx, overlap)"
      "files_rep c g0 fs0 shut (st\<lparr>os_gp_idx := idx, os_overlap := overlap\<rparr>)"
      using grandparents_rep [OF files] by blast
    let ?st3 = "st\<lparr>os_gp_idx := idx, os_overlap := overlap\<rparr>"
    have op3: "open_rep bt bpk g0 cur (fst (List.hd cur)) ?st3" and hd: "fst (List.hd cur) = fst (List.hd (cur @ [(k, v)]))"
      using op cur by simp_all
    from outputs_rep_continue [OF 3(2) op3 hd]
    obtain st4 where 4: "continue_with_entry (user_key k) (ik_encode k) v ?st3 = (Inr (), st4)"
      "outputs_rep c bt bpk g0 fs0 shut (cur @ [(k, v)]) st4" "os_id_gen st4 = os_id_gen ?st3"
      "os_last_user_key st4 = os_last_user_key ?st3" "os_last_seq st4 = os_last_seq ?st3"
      by auto
    have w: "write_entry c bt bpk k (user_key k) (ik_encode k) v st = (Inr (), st4)"
      using tb False 3(1) 4(1) by (simp add: write_entry_def)
    show ?thesis
      using w 4 by (intro exI [of _ st4] exI [of _ shut] exI [of _ "cur @ [(k, v)]"]) simp
  qed
qed

lemma outputs_rep_last [simp]:
  "outputs_rep c bt bpk g0 fs0 shut cur (st\<lparr>os_last_user_key := uk, os_last_seq := s\<rparr>) =
   outputs_rep c bt bpk g0 fs0 shut cur st"
  by (simp add: outputs_rep_def files_rep_def open_rep_def)

text \<open>The limits hold for every file when they hold for all the entries written.\<close>

lemma table_limits_part:
  "table_limits bt bpk (xs @ ys @ zs) \<Longrightarrow> table_limits bt bpk ys"
  by (simp add: table_limits_def)

lemma ascending_part: "ascending_entries (xs @ ys @ zs) \<Longrightarrow> ascending_entries ys"
  by (simp add: ascending_entries_def sorted_wrt_append)

abbreviation droppable_base :: "compaction \<Rightarrow> version \<Rightarrow> bytes \<Rightarrow> bool" where
  "droppable_base c v \<equiv> is_base_level_for_user_key c v"

lemma compact_loop_rep:
  assumes "merger_collect m = Inr (encode_entries es)"
    and "outputs_rep c bt bpk g0 fs0 shut cur st"
    and "unat (id_next (os_id_gen st)) + length es < 2 ^ 64"
    and gp: "sizes_from (co_grandparents c) 0 < 2 ^ 64"
    and "table_limits bt bpk (concat shut @ cur @ kept oldest (droppable_base c v) (os_last_user_key st) (os_last_seq st) es)"
    and "ascending_entries (concat shut @ cur @ kept oldest (droppable_base c v) (os_last_user_key st) (os_last_seq st) es)"
  shows "\<exists>st' shut' cur'. compact_loop c v oldest bt bpk m st = (Inr (), st') \<and>
    outputs_rep c bt bpk g0 fs0 shut' cur' st' \<and>
    concat shut' @ cur' = concat shut @ cur @ kept oldest (droppable_base c v) (os_last_user_key st) (os_last_seq st) es"
  using assms(1-3,5-6)
proof (induction es arbitrary: m st shut cur)
  case Nil
  then have "merger_next m = Inr (None, m)" using stream_Nil by simp
  then show ?case using Nil by (subst compact_loop.simps) auto
next
  case (Cons e es)
  obtain k x where e: "e = (k, x)" by force
  obtain m' where m': "merger_next m = Inr (Some (ik_encode k, x), m')" "merger_collect m' = Inr (encode_entries es)"
    using stream_Cons [of m] Cons.prems(1) by (auto simp: e)
  let ?base = "droppable_base c v"
  let ?drop = "os_last_user_key st = Some (user_key k) \<and> os_last_seq st \<le> oldest \<or>
      vtype k = Delete \<and> seq k \<le> oldest \<and> ?base (user_key k)"
  let ?st0 = "st\<lparr>os_last_user_key := Some (user_key k), os_last_seq := seq k\<rparr>"
  let ?rest = "kept oldest ?base (Some (user_key k)) (seq k) es"
  have body: "compact_entry c v oldest bt bpk (ik_encode k, x) st =
      (if ?drop then (Inr (), ?st0) else write_entry c bt bpk k (user_key k) (ik_encode k) x ?st0)"
    by (simp add: compact_entry_def Let_def)
  show ?case
  proof (cases ?drop)
    case True
    have k: "kept oldest ?base (os_last_user_key st) (os_last_seq st) (e # es) = ?rest" using True by (simp add: e)
    have 1: "outputs_rep c bt bpk g0 fs0 shut cur ?st0" using Cons.prems(2) by simp
    have 2: "unat (id_next (os_id_gen ?st0)) + length es < 2 ^ 64" using Cons.prems(3) by simp
    have 3: "table_limits bt bpk (concat shut @ cur @ kept oldest ?base (os_last_user_key ?st0) (os_last_seq ?st0) es)"
      "ascending_entries (concat shut @ cur @ kept oldest ?base (os_last_user_key ?st0) (os_last_seq ?st0) es)"
      using Cons.prems(4,5) unfolding k by simp_all
    from Cons.IH [OF m'(2) 1 2 3] show ?thesis
      using m'(1) body True unfolding k by (subst compact_loop.simps) simp
  next
    case False
    have k: "kept oldest ?base (os_last_user_key st) (os_last_seq st) (e # es) = (k, x) # ?rest"
      unfolding e kept.simps using False by (simp only: if_False append.simps)
    have 1: "outputs_rep c bt bpk g0 fs0 shut cur ?st0" using Cons.prems(2) by simp
    have 2: "unat (id_next (os_id_gen ?st0)) + 1 < 2 ^ 64" using Cons.prems(3) by simp
    have 3: "table_limits bt bpk cur" "ascending_entries cur"
      using Cons.prems(4,5) table_limits_part ascending_part by blast+
    obtain st' shut' cur' where w: "write_entry c bt bpk k (user_key k) (ik_encode k) x ?st0 = (Inr (), st')"
      "outputs_rep c bt bpk g0 fs0 shut' cur' st'" "concat shut' @ cur' = concat shut @ cur @ [(k, x)]"
      "unat (id_next (os_id_gen st')) \<le> unat (id_next (os_id_gen ?st0)) + 1"
      "os_last_user_key st' = os_last_user_key ?st0" "os_last_seq st' = os_last_seq ?st0"
      using write_entry_rep [OF 1 2 gp 3, of k x] by blast
    have l: "os_last_user_key st' = Some (user_key k)" "os_last_seq st' = seq k" using w(5,6) by simp_all
    have all: "concat shut' @ cur' @ kept oldest ?base (os_last_user_key st') (os_last_seq st') es =
        concat shut @ cur @ kept oldest ?base (os_last_user_key st) (os_last_seq st) (e # es)"
      unfolding k l using arg_cong [OF w(3), of "\<lambda>xs. xs @ ?rest"] by simp
    have 4: "unat (id_next (os_id_gen st')) + length es < 2 ^ 64" using w(4) Cons.prems(3) by simp
    have 5: "table_limits bt bpk (concat shut' @ cur' @ kept oldest ?base (os_last_user_key st') (os_last_seq st') es)"
      "ascending_entries (concat shut' @ cur' @ kept oldest ?base (os_last_user_key st') (os_last_seq st') es)"
      using Cons.prems(4,5) unfolding all by simp_all
    from Cons.IH [OF m'(2) w(2) 4 5] show ?thesis
      unfolding all using m'(1) body False w(1) by (subst compact_loop.simps) simp
  qed
qed

section \<open>The whole compaction\<close>

lemma open_inputs_rep:
  "list_all2 (file_holds fs) files Es \<Longrightarrow>
   \<exists>iters. open_inputs fs files acc = Inr (acc @ iters) \<and> list_all2 source_rep iters Es"
proof (induction files Es arbitrary: acc rule: list_all2_induct)
  case (Cons f files es Es)
  obtain tr where "open_table fs (fm_number f) = Inr tr" "table_rep tr es" using Cons.hyps(1) by (auto simp: file_holds_def)
  moreover obtain ti where "into_table_iter tr = Inr ti" "source_rep (TableSource ti) es"
    using source_rep_table calculation(2) by blast
  moreover obtain iters where "open_inputs fs files (acc @ [TableSource ti]) = Inr ((acc @ [TableSource ti]) @ iters)"
    "list_all2 source_rep iters Es" using Cons.IH by blast
  ultimately show ?case by (intro exI [of _ "TableSource ti # iters"]) simp
qed simp

lemma table_limits_mono:
  "table_limits bt bpk es \<Longrightarrow> entries_bound (encode_entries es') \<le> entries_bound (encode_entries es) \<Longrightarrow> table_limits bt bpk es'"
  by (simp add: table_limits_def)

lemma do_compaction_rep:
  assumes inputs: "list_all2 (file_holds fs) (fst (co_inputs c) @ snd (co_inputs c)) Es"
    and merged: "ascending_entries es" "mset es = mset (concat Es)"
    and g: "unat (id_next g) + length es < 2 ^ 64" and gp: "sizes_from (co_grandparents c) 0 < 2 ^ 64"
    and limits: "table_limits bt bpk es"
  shows "\<exists>out g' fs' Os. do_compaction c v g oldest bt bpk fs = (Inr out, g', fs') \<and>
    list_all2 (file_holds fs') (cp_new_files out) Os \<and> concat Os = kept oldest (droppable_base c v) None 0 es \<and>
    cp_deleted_files out = input_file_numbers c \<and>
    (\<forall>f \<in> set (cp_new_files out). id_next g \<le> fm_number f \<and> fm_number f < id_next g' \<and> fm_allowed_seeks f = 0) \<and>
    sorted_wrt (<) (map fm_number (cp_new_files out)) \<and> id_next g \<le> id_next g' \<and>
    (\<forall>name. (\<forall>n. id_next g \<le> n \<longrightarrow> n < id_next g' \<longrightarrow> name \<noteq> sst_path n) \<longrightarrow> fmlookup fs' name = fmlookup fs name)"
proof -
  let ?base = "droppable_base c v" and ?g0 = "id_next g"
  let ?K = "kept oldest ?base None 0 es"
  obtain iters where iters: "open_inputs fs (fst (co_inputs c) @ snd (co_inputs c)) [] = Inr iters" "list_all2 source_rep iters Es"
    using open_inputs_rep [OF inputs, of "[]"] by auto
  obtain m where m: "merger_new iters = Inr m" "merger_collect m = Inr (encode_entries es)"
    using merge_sources [OF iters(2) merged] by blast
  have K: "table_limits bt bpk ?K" "ascending_entries ?K"
    using table_limits_mono [OF limits kept_bound] kept_ascending [OF merged(1)] by blast+
  let ?st0 = "output_start g fs"
  have s0: "os_last_user_key ?st0 = None" "os_last_seq ?st0 = 0" "os_id_gen ?st0 = g" by (simp_all add: output_start_def)
  obtain st shut cur where l: "compact_loop c v oldest bt bpk m ?st0 = (Inr (), st)"
    "outputs_rep c bt bpk ?g0 fs shut cur st" "concat shut @ cur = ?K"
    using compact_loop_rep [OF m(2) outputs_rep_start [OF gp, of bt bpk g fs], of oldest v] g gp K s0 by auto
  have final: "\<exists>out st' Os. do_compaction c v g oldest bt bpk fs = (Inr out, os_id_gen st', os_fs st') \<and>
      cp_new_files out = os_new_files st' \<and> cp_deleted_files out = input_file_numbers c \<and>
      files_rep c ?g0 fs Os st' \<and> concat Os = ?K"
  proof (cases "os_builder st")
    case None
    then have "files_rep c ?g0 fs shut st" "cur = []" using l(2) by (auto simp: outputs_rep_def)
    then show ?thesis
      using None l iters(1) m(1)
      by (intro exI [of _ "\<lparr>cp_new_files = os_new_files st, cp_deleted_files = input_file_numbers c\<rparr>"]
          exI [of _ st] exI [of _ shut]) (simp add: do_compaction_def)
  next
    case (Some tb)
    have lim: "table_limits bt bpk cur" "ascending_entries cur"
      using K table_limits_part [of bt bpk "concat shut" cur "[]"] ascending_part [of "concat shut" cur "[]"]
      unfolding l(3) [symmetric] by simp_all
    obtain meta st1 where f: "finish_current st = (Inr meta, st1)"
      "files_rep c ?g0 fs (shut @ [cur]) (st1\<lparr>os_new_files := os_new_files st1 @ [meta]\<rparr>)"
      using finish_current_rep [OF l(2) _ lim] Some by blast
    let ?st' = "st1\<lparr>os_new_files := os_new_files st1 @ [meta]\<rparr>"
    show ?thesis
      using Some l f iters(1) m(1)
      by (intro exI [of _ "\<lparr>cp_new_files = os_new_files ?st', cp_deleted_files = input_file_numbers c\<rparr>"]
          exI [of _ ?st'] exI [of _ "shut @ [cur]"]) (simp add: do_compaction_def)
  qed
  then show ?thesis by (auto simp: files_rep_def)
qed

section \<open>When a compaction is due\<close>

lemma f64_exponent_le:
  assumes "0 < x"
  shows "2 powi (f64_exponent x) \<le> x"
proof -
  obtain p q where pq: "quotient_of x = (p, q)" by force
  have q: "0 < q" and x: "x = of_int p / of_int q" using quotient_of_denom_pos [OF pq] quotient_of_div [OF pq] by auto
  have p: "0 < p" using assms q unfolding x by (simp add: zero_less_divide_iff)
  let ?a = "floorlog 2 (nat p)" and ?b = "floorlog 2 (nat q)"
  have a: "2 ^ (?a - 1) \<le> nat p" and b: "nat q < 2 ^ ?b" and a1: "1 \<le> ?a"
    using floorlog_bounds [of "nat p" 2] floorlog_bounds [of "nat q" 2] p q by (auto simp: floorlog_def)
  have "(2 :: rat) ^ (?a - 1) \<le> of_int p" using a p
    by (metis of_int_of_nat_eq of_nat_le_iff of_nat_numeral of_nat_power nat_0_le less_imp_le)
  moreover have "(of_int q :: rat) \<le> 2 ^ ?b" using b q
    by (metis of_int_of_nat_eq of_nat_less_iff of_nat_numeral of_nat_power nat_0_le less_imp_le)
  ultimately have "2 ^ (?a - 1) / 2 ^ ?b \<le> x" unfolding x using q p by (intro frac_le) simp_all
  moreover have "(2 :: rat) powi (int ?a - int ?b - 1) = 2 ^ (?a - 1) / 2 ^ ?b"
  proof -
    have i: "int ?a - int ?b - 1 = int (?a - 1) - int ?b" using a1 by simp
    have "(2 :: rat) powi (int (?a - 1) - int ?b) = 2 powi (int (?a - 1)) / 2 powi (int ?b)"
      by (rule power_int_diff) simp
    then show ?thesis unfolding i by (simp only: power_int_of_nat)
  qed
  ultimately show ?thesis by (simp add: f64_exponent_def pq Let_def)
qed

lemma round_half_even_ge: "1 \<le> x \<Longrightarrow> 1 \<le> round_half_even x"
  by (auto simp: round_half_even_def Let_def le_floor_iff)

lemma f64_pos: "0 < x \<Longrightarrow> 0 < f64 x"
proof -
  assume x: "0 < x"
  let ?u = "2 powi (f64_exponent x - 52) :: rat"
  have u: "0 < ?u" by simp
  have "?u \<le> 2 powi (f64_exponent x)" by (rule power_int_increasing) simp_all
  then have "?u \<le> x" using f64_exponent_le [OF x] by linarith
  then have "1 \<le> x / ?u" using u by simp
  then have "1 \<le> round_half_even (x / ?u)" by (rule round_half_even_ge)
  then have "0 < of_int (round_half_even (x / ?u)) * ?u" using u by (intro mult_pos_pos) simp_all
  then show ?thesis using x by (simp add: f64_def Let_def)
qed

lemma f64_div_pos: "0 < b \<Longrightarrow> 0 < f64_div a b \<longleftrightarrow> 0 < a"
proof -
  assume b: "0 < b"
  have zero: "f64 0 = 0" by (simp add: f64_def)
  show ?thesis
  proof (cases "a = 0")
    case True
    then show ?thesis by (simp add: f64_div_def zero)
  next
    case False
    then have "0 < f64 (of_nat a) / f64 (of_nat b)" using b by (intro divide_pos_pos f64_pos) simp_all
    then show ?thesis using False f64_pos by (simp add: f64_div_def)
  qed
qed

text \<open>What the search for the best level returns.\<close>

definition better :: "(nat \<times> rat) option \<Rightarrow> nat \<times> rat \<Rightarrow> (nat \<times> rat) option" where
  "better best ls =
     (if 0 < snd ls \<and> (case best of None \<Rightarrow> True | Some (_, bs) \<Rightarrow> bs < snd ls) then Some ls else best)"

lemma score_loop_result:
  "\<forall>l \<in> set levels. level_score v l = Inr (sc l) \<Longrightarrow>
   score_loop v levels best = Inr (fold (\<lambda>l best. case sc l of None \<Rightarrow> best | Some s \<Rightarrow> better best (l, s)) levels best)"
  by (induction levels arbitrary: best) (auto simp: better_def split: option.split)

lemma fold_better:
  assumes "\<forall>p. best = Some p \<longrightarrow> 0 < snd p"
  shows "let r = fold (\<lambda>l best. case sc l of None \<Rightarrow> best | Some s \<Rightarrow> better best (l, s)) levels best in
    (r = None \<longleftrightarrow> best = None \<and> (\<forall>l \<in> set levels. \<forall>s. sc l = Some s \<longrightarrow> s \<le> 0)) \<and>
    (\<forall>l s. r = Some (l, s) \<longrightarrow> 0 < s \<and> (best = Some (l, s) \<or> l \<in> set levels \<and> sc l = Some s) \<and>
       (\<forall>p. best = Some p \<longrightarrow> snd p \<le> s) \<and> (\<forall>k \<in> set levels. \<forall>t. sc k = Some t \<longrightarrow> t \<le> s))"
  using assms
proof (induction levels arbitrary: best)
  case (Cons l ls)
  let ?best = "case sc l of None \<Rightarrow> best | Some s \<Rightarrow> better best (l, s)"
  have pos: "\<forall>p. ?best = Some p \<longrightarrow> 0 < snd p" using Cons.prems by (auto simp: better_def split: option.split)
  have none: "?best = None \<longleftrightarrow> best = None \<and> (\<forall>s. sc l = Some s \<longrightarrow> s \<le> 0)"
    by (auto simp: better_def split: option.split)
  have some: "?best = Some p \<Longrightarrow> (best = Some p \<or> fst p = l \<and> sc l = Some (snd p)) \<and>
      (\<forall>q. best = Some q \<longrightarrow> snd q \<le> snd p) \<and> (\<forall>t. sc l = Some t \<longrightarrow> t \<le> snd p)" for p
    using Cons.prems by (auto simp: better_def split: option.splits if_splits)
  have le: "\<forall>p. ?best = Some p \<longrightarrow> snd p \<le> s \<Longrightarrow> 0 < s \<Longrightarrow>
      (\<forall>q. best = Some q \<longrightarrow> snd q \<le> s) \<and> (\<forall>t. sc l = Some t \<longrightarrow> t \<le> s)" for s
    by (cases "sc l"; cases best) (auto simp: better_def split: if_splits)
  let ?r = "fold (\<lambda>l best. case sc l of None \<Rightarrow> best | Some s \<Rightarrow> better best (l, s)) ls ?best"
  note IH = Cons.IH [OF pos, unfolded Let_def]
  have 1: "?r = None \<longleftrightarrow> best = None \<and> (\<forall>k \<in> set (l # ls). \<forall>s. sc k = Some s \<longrightarrow> s \<le> 0)"
    using IH [THEN conjunct1] none by simp
  have 2: "0 < s \<and> (best = Some (k, s) \<or> k \<in> set (l # ls) \<and> sc k = Some s) \<and>
      (\<forall>p. best = Some p \<longrightarrow> snd p \<le> s) \<and> (\<forall>j \<in> set (l # ls). \<forall>t. sc j = Some t \<longrightarrow> t \<le> s)"
    if r: "?r = Some (k, s)" for k s
  proof -
    have a: "0 < s" "?best = Some (k, s) \<or> k \<in> set ls \<and> sc k = Some s" "\<forall>p. ?best = Some p \<longrightarrow> snd p \<le> s"
      "\<forall>j \<in> set ls. \<forall>t. sc j = Some t \<longrightarrow> t \<le> s"
      using IH [THEN conjunct2] r by blast+
    show ?thesis using le [OF a(3,1)] a some [of "(k, s)"] by (cases "?best = Some (k, s)") auto
  qed
  show ?case unfolding Let_def fold.simps comp_apply using 1 2 by blast
qed simp

lemma sum_u64_zero_iff: "sum_u64 acc xs = Inr 0 \<longleftrightarrow> acc = 0 \<and> (\<forall>x \<in> set xs. x = 0)"
proof (induction acc xs rule: sum_u64.induct)
  case (2 acc x xs)
  have "acc + x = 0 \<longleftrightarrow> acc = 0 \<and> x = 0" if "unat acc + unat x < 2 ^ 64"
  proof -
    have "unat (acc + x) = unat acc + unat x" using that by (simp add: unat_word_ariths)
    then show ?thesis by (metis add_is_0 unat_eq_zero)
  qed
  then show ?case using 2 by auto
qed simp

lemma level_cases:
  "level < NUM_LEVELS \<Longrightarrow>
   level = 0 \<or> level = 1 \<or> level = 2 \<or> level = 3 \<or> level = 4 \<or> level = 5 \<or> level = 6"
  by (simp add: NUM_LEVELS_def) arith

lemma max_bytes_pos:
  assumes "level < NUM_LEVELS"
  shows "0 < unat (max_bytes_for_level level)"
  using level_cases [OF assms]
  by (elim disjE) (simp_all add: max_bytes_for_level_def MAX_BYTES_FOR_LEVEL_BASE_def MAX_BYTES_FOR_LEVEL_MULTIPLIER_def)

lemma level_score_pos:
  assumes "l < NUM_LEVELS" and "0 < l \<Longrightarrow> total_size v l = Inr sz"
  shows "\<exists>s. level_score v l = Inr s \<and>
    ((\<forall>t. s = Some t \<longrightarrow> t \<le> 0) \<longleftrightarrow> (if l = 0 then num_files v 0 = 0 else sz = 0))"
proof (cases "l = 0")
  case True
  then show ?thesis
    using f64_div_pos [of L0_COMPACTION_TRIGGER "num_files v 0"] by (auto simp: level_score_def L0_COMPACTION_TRIGGER_def)
next
  case False
  show ?thesis
  proof (cases "sz = 0")
    case False
    have "0 < f64_div (unat sz) (unat (max_bytes_for_level l))"
      using f64_div_pos [OF max_bytes_pos [OF assms(1)]] False by (simp add: unat_gt_0)
    then show ?thesis using assms(2) \<open>l \<noteq> 0\<close> False by (simp add: level_score_def)
  qed (use assms(2) \<open>l \<noteq> 0\<close> in \<open>simp add: level_score_def\<close>)
qed

lemma compaction_score_result:
  assumes "\<forall>l. 0 < l \<and> l < NUM_LEVELS \<longrightarrow> (\<exists>size. total_size v l = Inr size)"
  shows "\<exists>best. compaction_score v = Inr best \<and>
    (best = None \<longleftrightarrow> num_files v 0 = 0 \<and> (\<forall>l. 0 < l \<and> l < NUM_LEVELS \<longrightarrow> total_size v l = Inr 0)) \<and>
    (\<forall>l s. best = Some (l, s) \<longrightarrow> l < NUM_LEVELS \<and> 0 < s \<and> level_score v l = Inr (Some s) \<and>
       (\<forall>k t. k < NUM_LEVELS \<and> level_score v k = Inr (Some t) \<longrightarrow> t \<le> s))"
proof -
  obtain size where size: "total_size v l = Inr (size l)" if "0 < l" "l < NUM_LEVELS" for l
    using assms by metis
  define sc where "sc l = (case level_score v l of Inr s \<Rightarrow> s | Inl _ \<Rightarrow> None)" for l
  have sc: "level_score v l = Inr (sc l)"
      "(\<forall>t. sc l = Some t \<longrightarrow> t \<le> 0) \<longleftrightarrow> (if l = 0 then num_files v 0 = 0 else size l = 0)"
    if "l < NUM_LEVELS" for l
    using level_score_pos [OF that, of v "size l"] size that by (auto simp: sc_def)
  let ?best = "fold (\<lambda>l best. case sc l of None \<Rightarrow> best | Some s \<Rightarrow> better best (l, s)) [0..<NUM_LEVELS] None"
  have r: "compaction_score v = Inr ?best"
    unfolding compaction_score_def by (rule score_loop_result) (simp add: sc(1))
  have b: "?best = None \<longleftrightarrow> (\<forall>l < NUM_LEVELS. \<forall>s. sc l = Some s \<longrightarrow> s \<le> 0)"
    "?best = Some (l, s) \<Longrightarrow> 0 < s \<and> l < NUM_LEVELS \<and> sc l = Some s \<and> (\<forall>k < NUM_LEVELS. \<forall>t. sc k = Some t \<longrightarrow> t \<le> s)" for l s
    using fold_better [of None sc "[0..<NUM_LEVELS]"] by (auto simp: Let_def)
  have "(\<forall>l < NUM_LEVELS. \<forall>s. sc l = Some s \<longrightarrow> s \<le> 0) \<longleftrightarrow>
      num_files v 0 = 0 \<and> (\<forall>l. 0 < l \<and> l < NUM_LEVELS \<longrightarrow> total_size v l = Inr 0)"
  proof -
    have "(\<forall>l < NUM_LEVELS. \<forall>s. sc l = Some s \<longrightarrow> s \<le> 0) \<longleftrightarrow>
        (\<forall>l < NUM_LEVELS. if l = 0 then num_files v 0 = 0 else size l = 0)" using sc(2) by simp
    also have "\<dots> \<longleftrightarrow> num_files v 0 = 0 \<and> (\<forall>l. 0 < l \<and> l < NUM_LEVELS \<longrightarrow> size l = 0)"
      by (auto simp: NUM_LEVELS_def split: if_splits)
    finally show ?thesis using size by auto
  qed
  then show ?thesis using r b sc(1) by (intro exI [of _ ?best]) auto
qed

text \<open>Only one level holds bytes and all its files end at or before its compaction pointer.\<close>

lemma pick_compaction_none_behind_pointer:
  assumes sizes: "\<forall>l. 0 < l \<and> l < NUM_LEVELS \<longrightarrow> (\<exists>size. total_size (vs_current vs) l = Inr size)"
    and only: "num_files (vs_current vs) 0 = 0" "\<forall>l. 0 < l \<and> l < NUM_LEVELS \<and> l \<noteq> level \<longrightarrow> total_size (vs_current vs) l = Inr 0"
    and level: "0 < level" "level < NUM_LEVELS" "total_size (vs_current vs) level \<noteq> Inr 0"
    and behind: "compact_pointer vs level \<noteq> []"
      "\<forall>f \<in> set (files_at (vs_current vs) level). user_key (fm_largest f) \<le> compact_pointer vs level"
  shows "\<exists>s. compaction_score (vs_current vs) = Inr (Some (level, s))" "pick_compaction vs = Inr None"
proof -
  obtain best where b: "compaction_score (vs_current vs) = Inr best" "best \<noteq> None"
    "\<forall>l s. best = Some (l, s) \<longrightarrow> l < NUM_LEVELS \<and> 0 < s \<and> level_score (vs_current vs) l = Inr (Some s)"
    using compaction_score_result [OF sizes] level by blast
  then obtain l s where ls: "best = Some (l, s)" "l < NUM_LEVELS" "0 < s" "level_score (vs_current vs) l = Inr (Some s)"
    by fastforce
  have "l = level"
  proof (rule ccontr)
    assume "l \<noteq> level"
    then have "(if l = 0 then num_files (vs_current vs) 0 = 0 else total_size (vs_current vs) l = Inr 0)"
      using only ls(2) by simp
    then show False using ls(3,4) f64_div_pos [of L0_COMPACTION_TRIGGER 0]
      by (auto simp: level_score_def L0_COMPACTION_TRIGGER_def split: if_splits)
  qed
  then show "\<exists>s. compaction_score (vs_current vs) = Inr (Some (level, s))" using b(1) ls(1) by blast
  have "find (\<lambda>f. compact_pointer vs level = [] \<or> compact_pointer vs level < user_key (fm_largest f))
      (files_at (vs_current vs) level) = None"
    using behind by (auto simp: find_None_iff not_less)
  then have "pick_level_inputs vs level = None" using level(1) by (simp add: pick_level_inputs_def)
  then show "pick_compaction vs = Inr None"
    using b(1) ls(1) \<open>l = level\<close> by (simp add: pick_compaction_def Let_def)
qed

section \<open>Two versions of one key in a table\<close>

lemma two_versions_table:
  defines "es \<equiv> [(InternalKey [1] 5 Put, [7]), (InternalKey [1] 3 Put, [9])]"
  shows "\<exists>fs f. file_holds fs f es \<and> ascending_entries es \<and> table_limits 64 10 es"
proof -
  have asc: "ascending_entries es" by (simp add: es_def ascending_entries_def internal_key_cmp_encode cmp_def)
  have lim: "table_limits 64 10 es" by (simp add: es_def table_limits_def filter_size_def div_ceil_def)
  obtain bs tr where bs: "build_table 64 10 es = Inr bs" "table_open bs = Inr tr" "table_rep tr es"
    using build_table_rep [OF lim asc] by blast
  have "file_holds (fmupd (sst_path 4) bs fmempty) (file_meta_new 4 0 (InternalKey [1] 5 Put) (InternalKey [1] 3 Put)) es"
    using bs by (simp add: es_def file_holds_def file_meta_new_def open_table_def)
  then show ?thesis using asc lim by blast
qed

section \<open>Properties\<close>

text \<open>C7: A compaction loses nothing a snapshot can see: it writes the merged entries into new, freshly numbered tables
  in ascending order, and at every snapshot from the oldest active one on, every user key reads the
  same value from the outputs as from the inputs; deletion markers disappear only where no deeper
  level can hold the key. All other files are as before. The inputs are within \<open>table_limits\<close> (entries below 4 GiB,
  filter below 512 MiB) and the file numbers and the summed sizes of the grandparents below 2^64.\<close>

theorem compaction_preserves_snapshot_reads:
  assumes "list_all2 (file_holds fs) (fst (co_inputs c) @ snd (co_inputs c)) Es"
    and "ascending_entries es" and "mset es = mset (concat Es)"
    and "unat (id_next g) + length es < 2 ^ 64" and "sizes_from (co_grandparents c) 0 < 2 ^ 64"
    and "table_limits block_target bits_per_key es"
  shows "\<exists>out g' fs' Os. do_compaction c v g oldest block_target bits_per_key fs = (Inr out, g', fs') \<and>
    list_all2 (file_holds fs') (cp_new_files out) Os \<and> ascending_entries (concat Os) \<and>
    (\<forall>uk snap. oldest \<le> snap \<longrightarrow>
       read_value (visible (concat Os) uk snap) = read_value (visible es uk snap) \<and>
       (is_base_level_for_user_key c v uk \<or> visible (concat Os) uk snap = visible es uk snap)) \<and>
    cp_deleted_files out = input_file_numbers c \<and> sorted_wrt (<) (map fm_number (cp_new_files out)) \<and>
    (\<forall>f \<in> set (cp_new_files out). id_next g \<le> fm_number f \<and> fm_number f < id_next g') \<and>
    (\<forall>name. (\<forall>n. id_next g \<le> n \<longrightarrow> n < id_next g' \<longrightarrow> name \<noteq> sst_path n) \<longrightarrow> fmlookup fs' name = fmlookup fs name)"
proof -
  obtain out g' fs' Os where o: "do_compaction c v g oldest block_target bits_per_key fs = (Inr out, g', fs')"
    "list_all2 (file_holds fs') (cp_new_files out) Os" "concat Os = kept oldest (droppable_base c v) None 0 es"
    "cp_deleted_files out = input_file_numbers c"
    "\<forall>f \<in> set (cp_new_files out). id_next g \<le> fm_number f \<and> fm_number f < id_next g' \<and> fm_allowed_seeks f = 0"
    "sorted_wrt (<) (map fm_number (cp_new_files out))"
    "\<forall>name. (\<forall>n. id_next g \<le> n \<longrightarrow> n < id_next g' \<longrightarrow> name \<noteq> sst_path n) \<longrightarrow> fmlookup fs' name = fmlookup fs name"
    using do_compaction_rep [OF assms, of v oldest] by blast
  have "ascending_entries (concat Os)" unfolding o(3) by (rule kept_ascending [OF assms(2)])
  moreover have "read_value (visible (concat Os) uk snap) = read_value (visible es uk snap) \<and>
      (is_base_level_for_user_key c v uk \<or> visible (concat Os) uk snap = visible es uk snap)"
    if "oldest \<le> snap" for uk snap
    unfolding o(3) using kept_reads [OF assms(2) that] by blast
  ultimately show ?thesis using o by blast
qed

theorem compaction_preserves_snapshot_reads_witness:
  "\<exists>fs f out g' fs' Os. file_holds fs f [(InternalKey [1] 5 Put, [7]), (InternalKey [1] 3 Put, [9])] \<and>
     do_compaction \<lparr>co_level = 0, co_inputs = ([f], []), co_grandparents = []\<rparr> version_empty (id_generator_new 8) 4 64 10 fs =
       (Inr out, g', fs') \<and> list_all2 (file_holds fs') (cp_new_files out) Os \<and>
     read_value (visible (concat Os) [1] 4) = Some [9]"
proof -
  let ?es = "[(InternalKey [1] 5 Put, [7]), (InternalKey [1] 3 Put, [9])]"
  obtain fs f where f: "file_holds fs f ?es" and asc: "ascending_entries ?es" and lim: "table_limits 64 10 ?es"
    using two_versions_table by blast
  let ?c = "\<lparr>co_level = 0, co_inputs = ([f], []), co_grandparents = []\<rparr>"
  have "\<exists>out g' fs' Os. do_compaction ?c version_empty (id_generator_new 8) 4 64 10 fs = (Inr out, g', fs') \<and>
      list_all2 (file_holds fs') (cp_new_files out) Os \<and>
      (\<forall>uk snap. 4 \<le> snap \<longrightarrow> read_value (visible (concat Os) uk snap) = read_value (visible ?es uk snap))"
    using compaction_preserves_snapshot_reads [of fs ?c "[?es]" ?es "id_generator_new 8" 64 10 version_empty 4] f asc lim
    by (simp add: id_generator_new_def sizes_from_def) blast
  moreover have "read_value (visible ?es [1] 4) = Some [9]" by (simp add: visible_def read_value_def)
  ultimately show ?thesis using f by (metis order_refl)
qed

text \<open>C35: Releasing a snapshot releases every snapshot with the same sequence number, and compaction then takes away what
  the surviving handle reads. Of two handles at \<open>s\<close>, the oldest snapshot, one is dropped: the bound of
  compaction, \<open>s\<close> before, jumps above \<open>s\<close>; for every key with a newer version at or below the new bound, a compaction
  under the old bound gives the reader at \<open>s\<close> what the inputs gave, and one under the new bound leaves nothing at
  \<open>s\<close>, whatever the inputs held. As in C7, the sizes are below the limits of \<open>table_limits\<close>.\<close>

theorem release_snapshot_drops_twins:
  assumes "s < MAX_SEQUENCE" and "\<forall>t \<in> set (vs_snapshots vs). s < t"
    and "twins = acquire_snapshot s (acquire_snapshot s vs)" and "newer = oldest_snapshot_seq (release_snapshot s twins)"
    and "list_all2 (file_holds fs) (fst (co_inputs c) @ snd (co_inputs c)) Es"
    and "ascending_entries es" and "mset es = mset (concat Es)"
    and "unat (id_next g) + length es < 2 ^ 64" and "sizes_from (co_grandparents c) 0 < 2 ^ 64"
    and "table_limits block_target bits_per_key es"
    and "e \<in> set es" and "user_key (fst e) = uk" and "s < seq (fst e)" and "seq (fst e) \<le> newer"
  shows "oldest_snapshot_seq twins = s \<and> s < newer \<and>
    (\<exists>out g' fs' Os. do_compaction c v g (oldest_snapshot_seq twins) block_target bits_per_key fs = (Inr out, g', fs') \<and>
       list_all2 (file_holds fs') (cp_new_files out) Os \<and>
       read_value (visible (concat Os) uk s) = read_value (visible es uk s)) \<and>
    (\<exists>out g' fs' Os. do_compaction c v g newer block_target bits_per_key fs = (Inr out, g', fs') \<and>
       list_all2 (file_holds fs') (cp_new_files out) Os \<and> visible (concat Os) uk s = None)"
proof -
  have old: "oldest_snapshot_seq twins = s"
    using assms(2) oldest_snapshot_le [of s twins] oldest_snapshot_in [of twins]
    by (fastforce simp: assms(3) acquire_snapshot_def)
  have "s < newer"
    unfolding assms(4) by (rule released_bound) (use assms(1,2) in \<open>auto simp: assms(3) acquire_snapshot_def intro: order.strict_implies_order\<close>)
  note rep = do_compaction_rep [OF assms(5-10), of v]
  obtain out g' fs' Os where o: "do_compaction c v g s block_target bits_per_key fs = (Inr out, g', fs')"
    "list_all2 (file_holds fs') (cp_new_files out) Os" "concat Os = kept s (droppable_base c v) None 0 es"
    using rep [of s] by blast
  then have "read_value (visible (concat Os) uk s) = read_value (visible es uk s)"
    using kept_reads(1) [OF assms(6)] by simp
  moreover obtain out2 g2 fs2 Os2 where o2: "do_compaction c v g newer block_target bits_per_key fs = (Inr out2, g2, fs2)"
    "list_all2 (file_holds fs2) (cp_new_files out2) Os2" "concat Os2 = kept newer (droppable_base c v) None 0 es"
    using rep [of newer] by blast
  moreover from o2(3) have "visible (concat Os2) uk s = None"
    using kept_hides_older [OF assms(6,11-14)] by simp
  ultimately show ?thesis using old \<open>s < newer\<close> o by metis
qed

theorem release_snapshot_drops_twins_witness:
  "\<exists>vs fs f g es. file_holds fs f es \<and> read_value (visible es [1] 4) = Some [9] \<and>
     oldest_snapshot_seq (acquire_snapshot 4 (acquire_snapshot 4 vs)) = 4 \<and>
     (\<exists>out g' fs' Os. do_compaction \<lparr>co_level = 0, co_inputs = ([f], []), co_grandparents = []\<rparr> version_empty g
         (oldest_snapshot_seq (release_snapshot 4 (acquire_snapshot 4 (acquire_snapshot 4 vs)))) 64 10 fs = (Inr out, g', fs') \<and>
       list_all2 (file_holds fs') (cp_new_files out) Os \<and> visible (concat Os) [1] 4 = None)"
proof -
  let ?es = "[(InternalKey [1] 5 Put, [7]), (InternalKey [1] 3 Put, [9])]"
  let ?vs = "acquire_snapshot 6 (fst (new_pending 1 fmempty))"
  let ?twins = "acquire_snapshot 4 (acquire_snapshot 4 ?vs)" and ?g = "id_generator_new 8"
  obtain fs f where f: "file_holds fs f ?es" and asc: "ascending_entries ?es" and lim: "table_limits 64 10 ?es"
    using two_versions_table by blast
  let ?c = "\<lparr>co_level = 0, co_inputs = ([f], []), co_grandparents = []\<rparr>"
  have bound: "oldest_snapshot_seq (release_snapshot 4 ?twins) = 6"
    by (simp add: release_snapshot_def acquire_snapshot_def oldest_snapshot_seq_def new_pending_def split: prod.split)
  have "oldest_snapshot_seq ?twins = 4 \<and>
      (\<exists>out g' fs' Os. do_compaction ?c version_empty ?g (oldest_snapshot_seq (release_snapshot 4 ?twins)) 64 10 fs =
         (Inr out, g', fs') \<and> list_all2 (file_holds fs') (cp_new_files out) Os \<and> visible (concat Os) [1] 4 = None)"
    using release_snapshot_drops_twins [of 4 ?vs ?twins "oldest_snapshot_seq (release_snapshot 4 ?twins)" fs ?c "[?es]" ?es ?g
        64 10 "(InternalKey [1] 5 Put, [7])" "[1]" version_empty] f asc lim bound
    by (auto simp: id_generator_new_def sizes_from_def MAX_SEQUENCE_def acquire_snapshot_def new_pending_def split: prod.splits)
  moreover have "read_value (visible ?es [1] 4) = Some [9]" by (simp add: visible_def read_value_def)
  ultimately show ?thesis using f by blast
qed

text \<open>C39: A compaction is due as soon as any level holds data: the score is \<open>None\<close> exactly when level 0 has no files and
  the other levels no bytes, and otherwise it names a level with the highest score. The limit of 1.0
  that the comment on the function speaks of plays no part.\<close>

theorem compaction_score_due:
  assumes "\<forall>l. 0 < l \<and> l < NUM_LEVELS \<longrightarrow> (\<exists>size. total_size v l = Inr size)"
  shows "\<exists>best. compaction_score v = Inr best \<and>
    (best = None \<longleftrightarrow> num_files v 0 = 0 \<and> (\<forall>l. 0 < l \<and> l < NUM_LEVELS \<longrightarrow> total_size v l = Inr 0)) \<and>
    (\<forall>l s. best = Some (l, s) \<longrightarrow> l < NUM_LEVELS \<and> 0 < s \<and> level_score v l = Inr (Some s) \<and>
       (\<forall>k t. k < NUM_LEVELS \<and> level_score v k = Inr (Some t) \<longrightarrow> t \<le> s))"
  by (rule compaction_score_result [OF assms])

theorem compaction_score_due_witness:
  "\<exists>best. compaction_score version_empty = Inr best \<and> best = None"
  using compaction_score_due [of version_empty]
  by (auto simp: total_size_def files_at_def version_empty_def num_files_def)

end
