(* ===== verification/Db.thy ===== *)
theory Db
  imports Compaction Mem_Table
begin

text \<open>
  \<^verbatim>\<open>src/src/db.rs\<close>: the database. Its state is what the mutex guards, with the directory, and the table cache.
  An operation that holds the lock from beginning to end is one transition; where the code waits on
  the condition variable it gives the lock up, and the model has a separate transition. The random
  heights of the skip list are the argument \<open>draws\<close>. Syncs have no effect on the bytes.
\<close>

section \<open>State\<close>

record options =
  memtable_flush_entries :: nat
  memtable_max_bytes :: nat
  opt_block_size :: nat
  bloom_bits_per_key :: nat
  table_cache_size :: nat
  sync_writes :: bool
  disable_auto_compaction :: bool

definition options_default :: options where
  "options_default = \<lparr>memtable_flush_entries = 1000, memtable_max_bytes = 4 * 1024 * 1024,
     opt_block_size = 4 * 1024, bloom_bits_per_key = 10, table_cache_size = 100, sync_writes = True,
     disable_auto_compaction = False\<rparr>"

text \<open>\<open>DbInner\<close>; the path of the directory is replaced by its contents.\<close>

record db_inner =
  db_fs :: fs
  db_version_set :: version_set
  db_memtable :: memtable
  db_wal :: log_handle
  db_id_gen :: id_generator
  db_wal_number :: file_number
  db_options :: options
  db_bg_scheduled :: bool
  db_shutting_down :: bool

record db =
  d_inner :: db_inner
  d_cache :: cache_inner

section \<open>Opening\<close>

definition initial_edit :: "file_number \<Rightarrow> id_generator \<Rightarrow> version_edit" where
  "initial_edit log_number id_gen =
     set_last_sequence 0 (set_next_file_number (id_next id_gen) (set_log_number log_number
       (set_comparator (string_bytes ''mulan.BytewiseComparator'') version_edit_new)))"

text \<open>The new database, and the directory as the call leaves it.\<close>

definition create_new :: "(bytes \<Rightarrow> u32) \<Rightarrow> options \<Rightarrow> fs \<Rightarrow> db_inner res \<times> fs" where
  "create_new crc opts fs =
     (let id_gen = id_generator_new 1 in
      then_do (new_file_number id_gen, fs) (\<lambda>(manifest_number, id_gen) fs.
      then_do (new_file_number id_gen, fs) (\<lambda>(log_number, id_gen) fs.
      let (version_set, fs) = new_pending manifest_number fs;
          initial = initial_edit log_number id_gen
      in case write_new_version crc initial version_set fs of
           (Inl e, _, fs) \<Rightarrow> (Inl e, fs)
         | (Inr _, version_set, fs) \<Rightarrow>
             (case write_current manifest_number fs of
                Inl e \<Rightarrow> (Inl e, fs)
              | Inr fs \<Rightarrow>
                  let (wal, fs) = log_open (log_path log_number) fs
                  in (Inr \<lparr>db_fs = fs, db_version_set = version_set, db_memtable = memtable_new, db_wal = wal,
                        db_id_gen = id_gen, db_wal_number = log_number, db_options = opts,
                        db_bg_scheduled = False, db_shutting_down = False\<rparr>, fs)))))"

definition live_ssts :: "version \<Rightarrow> file_number list" where
  "live_ssts v = concat (map (\<lambda>level. map fm_number (files_at v level)) [0..<NUM_LEVELS])"

text \<open>Whether \<open>remove_obsolete_files\<close> removes the file with this name.\<close>

definition is_obsolete :: "version_set \<Rightarrow> string \<Rightarrow> bool" where
  "is_obsolete vs name =
     (case parse_sst_name name of
        Some n \<Rightarrow> n \<notin> set (live_ssts (vs_current vs))
      | None \<Rightarrow>
          (case parse_log_name name of
             Some n \<Rightarrow> n \<noteq> vs_log_number vs
           | None \<Rightarrow>
               (case parse_manifest_name name of
                  Some n \<Rightarrow> n \<noteq> vs_manifest_number vs
                | None \<Rightarrow> if name = CURRENT_NAME then False else name = CURRENT_NAME @ ''.'' @ TMP_SUFFIX)))"

definition remove_obsolete_files :: "version_set \<Rightarrow> fs \<Rightarrow> fs" where
  "remove_obsolete_files vs fs = fmfilter (\<lambda>name. \<not> is_obsolete vs name) fs"

text \<open>The unused variant that only removes tables.\<close>

definition remove_obsolete_ssts :: "version_set \<Rightarrow> fs \<Rightarrow> fs" where
  "remove_obsolete_ssts vs fs =
     fmfilter (\<lambda>name. case parse_sst_name name of
       Some n \<Rightarrow> n \<in> set (live_ssts (vs_current vs)) | None \<Rightarrow> True) fs"

text \<open>The records of the log, applied to the memtable; the \<open>i\<close>-th uses the random draws \<open>draws i\<close>.\<close>

primrec replay_wal :: "(nat \<Rightarrow> nat \<Rightarrow> nat) \<Rightarrow> nat \<Rightarrow> bytes list \<Rightarrow> memtable \<Rightarrow> memtable res" where
  "replay_wal draws i [] mt = Inr mt"
| "replay_wal draws i (rec # recs) mt =
     bind_res (decode_entry rec) (\<lambda>e.
     bind_res (mt_apply (draws i) (we_vtype e) (we_seq e) (we_key e) (we_value e) mt) (\<lambda>mt.
     replay_wal draws (i + 1) recs mt))"

text \<open>
  The memtable's contents as a level-0 table with the next number: the metadata, with the directory and
  generator after the call. Both callers of \<open>flush_to_sstable_with_options\<close> share these lines. A table that cannot be
  finished is left empty here; the program leaves what it has written of it.
\<close>

definition flush_to_level0 ::
    "string \<Rightarrow> options \<Rightarrow> memtable \<Rightarrow> id_generator \<Rightarrow> fs \<Rightarrow> file_meta res \<times> id_generator \<times> fs" where
  "flush_to_level0 empty_msg opts mt id_gen fs =
     (case new_file_number id_gen of
        Inl e \<Rightarrow> (Inl e, id_gen, fs)
      | Inr (sst, id_gen) \<Rightarrow>
          let path = sst_path sst in
          (case mt_flush (opt_block_size opts) (bloom_bits_per_key opts) mt of
             Inl e \<Rightarrow> (Inl e, id_gen, fs_write path [] fs)
           | Inr (bs, r) \<Rightarrow>
               let fs = fs_write path bs fs in
               (bind_res (fs_len path fs) (\<lambda>sz.
                case (fr_smallest r, fr_largest r) of
                  (Some s, Some l) \<Rightarrow> Inr (file_meta_new sst sz s l)
                | _ \<Rightarrow> Inl (Corrupted empty_msg)), id_gen, fs)))"

definition flush_edit :: "file_meta \<Rightarrow> file_number \<Rightarrow> id_generator \<Rightarrow> u64 \<Rightarrow> version_edit" where
  "flush_edit meta new_log id_gen s =
     set_last_sequence s (set_next_file_number (id_next id_gen) (set_log_number new_log
       (add_file 0 meta version_edit_new)))"

text \<open>\<open>recover_open\<close> up to the branch: the version set and the memtable rebuilt from the log.\<close>

definition recover_memtable ::
    "(bytes \<Rightarrow> u32) \<Rightarrow> (nat \<Rightarrow> nat \<Rightarrow> nat) \<Rightarrow> version_set \<Rightarrow> fs \<Rightarrow> (memtable \<times> version_set) res" where
  "recover_memtable crc draws vs fs =
     (let memtable = memtable_with_initial_sequence (vs_last_sequence vs);
          p = log_path (vs_log_number vs)
      in if fs_exists p fs then
           bind_res (log_read crc p fs) (\<lambda>recs.
           bind_res (replay_wal draws 0 recs memtable) (\<lambda>memtable.
           Inr (memtable,
             if vs_last_sequence vs < mt_seq memtable then vs\<lparr>vs_last_sequence := mt_seq memtable\<rparr> else vs)))
         else Inr (memtable, vs))"

text \<open>The branch: the version set, memtable, generator and log number it ends with.\<close>

definition recover_commit ::
    "(bytes \<Rightarrow> u32) \<Rightarrow> options \<Rightarrow> version_set \<Rightarrow> memtable \<Rightarrow> fs \<Rightarrow>
     (version_set \<times> memtable \<times> id_generator \<times> file_number) res \<times> fs" where
  "recover_commit crc opts vs memtable fs =
     (let id_gen = id_generator_new (vs_next_file_number vs) in
      if 0 < mt_entries memtable then
        (case flush_to_level0 ''recovered memtable empty'' opts memtable id_gen fs of
           (Inl e, _, fs) \<Rightarrow> (Inl e, fs)
         | (Inr meta, id_gen, fs) \<Rightarrow>
             then_do (new_file_number id_gen, fs) (\<lambda>(new_log, id_gen) fs.
             let (_, fs) = log_open (log_path new_log) fs;
                 edit = flush_edit meta new_log id_gen (mt_seq memtable)
             in case write_new_version crc edit vs fs of
                  (Inl e, _, fs) \<Rightarrow> (Inl e, fs)
                | (Inr _, vs, fs) \<Rightarrow>
                    (Inr (vs, memtable_with_initial_sequence (mt_seq memtable), id_gen, new_log), fs)))
      else
        then_do (new_file_number id_gen, fs) (\<lambda>(wal_number, id_gen) fs.
        let edit = set_next_file_number (id_next id_gen) (set_log_number wal_number version_edit_new)
        in case write_new_version crc edit vs fs of
             (Inl e, _, fs) \<Rightarrow> (Inl e, fs)
           | (Inr _, vs, fs) \<Rightarrow> (Inr (vs, memtable, id_gen, wal_number), fs)))"

definition recover_open ::
    "(bytes \<Rightarrow> u32) \<Rightarrow> (nat \<Rightarrow> nat \<Rightarrow> nat) \<Rightarrow> options \<Rightarrow> fs \<Rightarrow> db_inner res \<times> fs" where
  "recover_open crc draws opts fs =
     (case vs_recover crc fs of
        Inl e \<Rightarrow> (Inl e, fs)
      | Inr (vs, fs) \<Rightarrow>
          then_do (recover_memtable crc draws vs fs, fs) (\<lambda>(memtable, vs) fs.
          then_do (recover_commit crc opts vs memtable fs) (\<lambda>(vs, memtable, id_gen, wal_number) fs.
          let (wal, fs) = log_open (log_path wal_number) fs;
              fs = remove_obsolete_files vs fs
          in (Inr \<lparr>db_fs = fs, db_version_set = vs, db_memtable = memtable, db_wal = wal, db_id_gen = id_gen,
                db_wal_number = wal_number, db_options = opts, db_bg_scheduled = False,
                db_shutting_down = False\<rparr>, fs))))"

definition db_open :: "(bytes \<Rightarrow> u32) \<Rightarrow> (nat \<Rightarrow> nat \<Rightarrow> nat) \<Rightarrow> options \<Rightarrow> fs \<Rightarrow> db res \<times> fs" where
  "db_open crc draws opts fs =
     then_do
       (if fs_exists current_path fs then recover_open crc draws opts fs
        else if fs \<noteq> fmempty then
          (Inl (InvalidArgument ''directory is not empty and has no CURRENT; refusing to initialize''), fs)
        else create_new crc opts fs) (\<lambda>inner fs.
     (Inr \<lparr>d_inner = inner, d_cache = cache_with_capacity (table_cache_size opts)\<rparr>, fs))"

section \<open>Writing\<close>

text \<open>
  The memtable is taken out first, so an error leaves an empty one behind. Running out of file numbers is a panic of
  the program that poisons the mutex, so that every later call panics too; here it is an error, and the state it
  leaves can be used further.
\<close>

definition flush_memtable :: "(bytes \<Rightarrow> u32) \<Rightarrow> db_inner \<Rightarrow> unit res \<times> db_inner" where
  "flush_memtable crc inner =
     (if mt_entries (db_memtable inner) = 0 then (Inr (), inner)
      else
        let frozen_seq = mt_seq (db_memtable inner);
            frozen = db_memtable inner;
            inner = inner\<lparr>db_memtable := memtable_with_initial_sequence frozen_seq\<rparr>
        in case flush_to_level0 ''flushed memtable had no entries'' (db_options inner) frozen (db_id_gen inner) (db_fs inner) of
             (Inl e, id_gen, fs) \<Rightarrow> (Inl e, inner\<lparr>db_id_gen := id_gen, db_fs := fs\<rparr>)
           | (Inr meta, id_gen, fs) \<Rightarrow>
               let inner = inner\<lparr>db_id_gen := id_gen, db_fs := fs\<rparr> in
               (case new_file_number id_gen of
                  Inl e \<Rightarrow> (Inl e, inner)
                | Inr (new_log, id_gen) \<Rightarrow>
                    let (new_wal, fs) = log_open (log_path new_log) fs;
                        edit = flush_edit meta new_log id_gen frozen_seq
                    in case write_new_version crc edit (db_version_set inner) fs of
                         (Inl e, vs, fs) \<Rightarrow>
                           (Inl e, inner\<lparr>db_id_gen := id_gen, db_version_set := vs, db_fs := fs\<rparr>)
                       | (Inr _, vs, fs) \<Rightarrow>
                           (Inr (), inner\<lparr>db_id_gen := id_gen, db_version_set := vs, db_fs := fs,
                              db_wal := new_wal, db_wal_number := new_log\<rparr>)))"

definition maybe_schedule_compaction :: "db_inner \<Rightarrow> unit res \<times> db_inner" where
  "maybe_schedule_compaction inner =
     (if disable_auto_compaction (db_options inner) \<or> db_bg_scheduled inner \<or> db_shutting_down inner
      then (Inr (), inner)
      else
        then_do (compaction_score (vs_current (db_version_set inner)), inner) (\<lambda>best inner.
        if best \<noteq> None then (Inr (), inner\<lparr>db_bg_scheduled := True\<rparr>) else (Inr (), inner)))"

text \<open>The condition of the loop at the start of \<open>write\<close>; its body gives up the lock.\<close>

definition write_must_wait :: "db_inner \<Rightarrow> bool" where
  "write_must_wait inner \<longleftrightarrow>
     level0_needs_slowdown (vs_current (db_version_set inner)) \<and> \<not> disable_auto_compaction (db_options inner)"

text \<open>\<open>write\<close> behind that loop.\<close>

definition db_write_locked ::
    "(bytes \<Rightarrow> u32) \<Rightarrow> (nat \<Rightarrow> nat) \<Rightarrow> bytes \<Rightarrow> bytes \<Rightarrow> value_type \<Rightarrow> db_inner \<Rightarrow> unit res \<times> db_inner" where
  "db_write_locked crc draws key v t inner =
     then_do (u64_succ (mt_seq (db_memtable inner)), inner) (\<lambda>s inner.
     let (wal, fs) = log_add crc (db_wal inner) (encode_entry t s key v) (db_fs inner);
         inner = inner\<lparr>db_wal := wal, db_fs := fs\<rparr>
     in then_do (mt_apply draws t s key v (db_memtable inner), inner) (\<lambda>mt inner.
        let inner = inner\<lparr>db_memtable := mt,
                      db_version_set := (db_version_set inner)\<lparr>vs_last_sequence := s\<rparr>\<rparr>;
            entries_full = (memtable_flush_entries (db_options inner) \<le> mt_entries mt);
            bytes_full = (0 < memtable_max_bytes (db_options inner) \<and>
              memtable_max_bytes (db_options inner) \<le> mt_approx_bytes mt)
        in then_do (if entries_full \<or> bytes_full then flush_memtable crc inner else (Inr (), inner)) (\<lambda>_ inner.
           maybe_schedule_compaction inner)))"

text \<open>A write that does not find the database blocked.\<close>

definition db_write ::
    "(bytes \<Rightarrow> u32) \<Rightarrow> (nat \<Rightarrow> nat) \<Rightarrow> bytes \<Rightarrow> bytes \<Rightarrow> value_type \<Rightarrow> db_inner \<Rightarrow> (unit res \<times> db_inner) option" where
  "db_write crc draws key v t inner =
     (if write_must_wait inner then None else Some (db_write_locked crc draws key v t inner))"

definition db_put ::
    "(bytes \<Rightarrow> u32) \<Rightarrow> (nat \<Rightarrow> nat) \<Rightarrow> bytes \<Rightarrow> bytes \<Rightarrow> db_inner \<Rightarrow> (unit res \<times> db_inner) option" where
  "db_put crc draws key v inner =
     (if key = [] then Some (Inl (InvalidArgument ''key must be non-empty''), inner)
      else db_write crc draws key v Put inner)"

definition db_delete ::
    "(bytes \<Rightarrow> u32) \<Rightarrow> (nat \<Rightarrow> nat) \<Rightarrow> bytes \<Rightarrow> db_inner \<Rightarrow> (unit res \<times> db_inner) option" where
  "db_delete crc draws key inner =
     (if key = [] then Some (Inl (InvalidArgument ''key must be non-empty''), inner)
      else db_write crc draws key [] Delete inner)"

section \<open>Reading\<close>

text \<open>\<open>slice::partition_point\<close> by bisection.\<close>

function partition_loop :: "('a \<Rightarrow> bool) \<Rightarrow> 'a list \<Rightarrow> nat \<Rightarrow> nat \<Rightarrow> nat" where
  "partition_loop p xs lo hi =
     (if lo < hi then
        let mid = lo + (hi - lo) div 2
        in if p (xs ! mid) then partition_loop p xs (mid + 1) hi else partition_loop p xs lo mid
      else lo)"
  by pat_completeness auto
termination by (relation "measure (\<lambda>(p, xs, lo, hi). hi - lo)") auto

declare partition_loop.simps [simp del]

definition partition_point :: "('a \<Rightarrow> bool) \<Rightarrow> 'a list \<Rightarrow> nat" where
  "partition_point p xs = partition_loop p xs 0 (length xs)"

definition find_file_for_key :: "file_meta list \<Rightarrow> bytes \<Rightarrow> file_meta option" where
  "find_file_for_key files key =
     (let idx = partition_point (\<lambda>f. user_key (fm_smallest f) \<le> key) files in
      if idx = 0 then None
      else
        let f = files ! (idx - 1)
        in if key \<le> user_key (fm_largest f) then Some f else None)"

text \<open>The value of the first answer: \<open>Put\<close> gives it, \<open>Delete\<close> and no answer give \<open>None\<close>.\<close>

definition answer_value :: "(value_type \<times> bytes) option res \<Rightarrow> bytes option res" where
  "answer_value r = bind_res r (\<lambda>a. Inr (case a of Some (Put, v) \<Rightarrow> Some v | _ \<Rightarrow> None))"

text \<open>The files asked on the levels from 1 on, at most one per level.\<close>

definition level_files :: "version \<Rightarrow> bytes \<Rightarrow> file_number list" where
  "level_files v key =
     concat (map (\<lambda>level. case find_file_for_key (files_at v level) key of
                    Some meta \<Rightarrow> [fm_number meta] | None \<Rightarrow> []) [1..<NUM_LEVELS])"

definition get_from_sstables ::
    "fs \<Rightarrow> bytes \<Rightarrow> u64 \<Rightarrow> version \<Rightarrow> cache_inner \<Rightarrow> bytes option res \<times> cache_inner" where
  "get_from_sstables fs key snapshot v cache =
     (let ask = (\<lambda>r. table_get_entry r key snapshot);
          (r, cache) = first_answer (cache_get (open_table fs)) ask (map fm_number (rev (files_at v 0))) cache
      in if r = Inr None
         then (let (r, cache) = first_answer (cache_get (open_table fs)) ask (level_files v key) cache
               in (answer_value r, cache))
         else (answer_value r, cache))"

text \<open>\<open>get_at\<close> with the sequence number of the snapshot handle.\<close>

definition db_get_at :: "u64 \<Rightarrow> bytes \<Rightarrow> db \<Rightarrow> bytes option res \<times> db" where
  "db_get_at snap_seq key db =
     (case mt_get_entry (db_memtable (d_inner db)) key snap_seq of
        Inl e \<Rightarrow> (Inl e, db)
      | Inr (Some (Put, v)) \<Rightarrow> (Inr (Some v), db)
      | Inr (Some (Delete, _)) \<Rightarrow> (Inr None, db)
      | Inr None \<Rightarrow>
          let version = vs_current (db_version_set (d_inner db));
              (r, cache) = get_from_sstables (db_fs (d_inner db)) key snap_seq version (d_cache db)
          in (r, db\<lparr>d_cache := cache\<rparr>))"

definition db_get :: "bytes \<Rightarrow> db \<Rightarrow> bytes option res \<times> db" where
  "db_get key db = db_get_at (vs_last_sequence (db_version_set (d_inner db))) key db"

definition new_snapshot :: "db_inner \<Rightarrow> u64 \<times> db_inner" where
  "new_snapshot inner =
     (let s = vs_last_sequence (db_version_set inner)
      in (s, inner\<lparr>db_version_set := acquire_snapshot s (db_version_set inner)\<rparr>))"

text \<open>What the database shows of its state.\<close>

definition db_current_version :: "db_inner \<Rightarrow> version" where
  "db_current_version inner = vs_current (db_version_set inner)"

definition db_oldest_snapshot_seq :: "db_inner \<Rightarrow> u64" where
  "db_oldest_snapshot_seq inner = oldest_snapshot_seq (db_version_set inner)"

text \<open>Dropping the handle.\<close>

definition drop_snapshot :: "u64 \<Rightarrow> db_inner \<Rightarrow> db_inner" where
  "drop_snapshot s inner = inner\<lparr>db_version_set := release_snapshot s (db_version_set inner)\<rparr>"

text \<open>The sources of a scan: the memtable's vector when it is not empty, then every table of every level.\<close>

definition scan_sources :: "u64 \<Rightarrow> db_inner \<Rightarrow> lsm_iter list res" where
  "scan_sources snap_seq inner =
     bind_res (snapshot_entries (db_memtable inner) snap_seq) (\<lambda>mem_items.
     let iters = (if mem_items \<noteq> [] then [VecSource (vec_iter_new mem_items)] else []);
         version = vs_current (db_version_set inner)
     in open_inputs (db_fs inner) (concat (map (files_at version) [0..<NUM_LEVELS])) iters)"

definition new_iterator_at :: "u64 \<Rightarrow> db_inner \<Rightarrow> db_iter res" where
  "new_iterator_at snap_seq inner =
     bind_res (scan_sources snap_seq inner) (\<lambda>iters.
     bind_res (merger_new iters) (\<lambda>merger. db_iter_new merger snap_seq))"

definition new_iterator :: "db_inner \<Rightarrow> (u64 \<times> db_iter) res \<times> db_inner" where
  "new_iterator inner =
     (let (snap, inner) = new_snapshot inner in
      (bind_res (new_iterator_at snap inner) (\<lambda>iter. Inr (snap, iter)), inner))"

section \<open>Compacting\<close>

definition compaction_edit :: "nat \<Rightarrow> compaction_output \<Rightarrow> id_generator \<Rightarrow> version_edit" where
  "compaction_edit level out id_gen =
     (let edit = foldl (\<lambda>e f. add_file (of_nat (level + 1)) f e) version_edit_new (cp_new_files out);
          edit = foldl (\<lambda>e (lvl, num). add_delete (of_nat lvl) num e) edit (cp_deleted_files out);
          edit = (if cp_new_files out = [] then edit
                  else set_compact_pointer (of_nat level) (user_key (fm_largest (List.last (cp_new_files out)))) edit)
      in set_next_file_number (id_next id_gen) edit)"

definition run_one_compaction :: "(bytes \<Rightarrow> u32) \<Rightarrow> db \<Rightarrow> bool res \<times> db" where
  "run_one_compaction crc db =
     (let inner = d_inner db in
      case pick_compaction (db_version_set inner) of
        Inl e \<Rightarrow> (Inl e, db)
      | Inr None \<Rightarrow> (Inr False, db)
      | Inr (Some c) \<Rightarrow>
          let version = vs_current (db_version_set inner);
              oldest = oldest_snapshot_seq (db_version_set inner);
              id_gen = id_generator_new (id_next (db_id_gen inner));
              (r, id_gen, fs) = do_compaction c version id_gen oldest (opt_block_size (db_options inner))
                (bloom_bits_per_key (db_options inner)) (db_fs inner);
              inner = inner\<lparr>db_fs := fs\<rparr>
          in (case r of
                Inl e \<Rightarrow> (Inl e, db\<lparr>d_inner := inner\<rparr>)
              | Inr out \<Rightarrow>
                  let edit = compaction_edit (co_level c) out id_gen in
                  (case write_new_version crc edit (db_version_set inner) (db_fs inner) of
                     (Inl e, vs, fs) \<Rightarrow> (Inl e, db\<lparr>d_inner := inner\<lparr>db_version_set := vs, db_fs := fs\<rparr>\<rparr>)
                   | (Inr _, vs, fs) \<Rightarrow>
                       let inner = inner\<lparr>db_version_set := vs, db_fs := fs,
                                     db_id_gen := bump_to (id_next id_gen) (db_id_gen inner)\<rparr>
                       in (Inr True, \<lparr>d_inner = inner,
                             d_cache = foldl (\<lambda>c (_, num). cache_evict num c) (d_cache db) (cp_deleted_files out)\<rparr>))))"

definition compact_once :: "(bytes \<Rightarrow> u32) \<Rightarrow> db \<Rightarrow> bool res \<times> db" where
  "compact_once crc db = run_one_compaction crc db"

text \<open>
  The background thread wakes when the flag is set or a score calls for it; an error of the compaction
  is printed and dropped.
\<close>

definition background_ready :: "db_inner \<Rightarrow> bool" where
  "background_ready inner \<longleftrightarrow> \<not> db_shutting_down inner \<and>
     (db_bg_scheduled inner \<or> compaction_score (vs_current (db_version_set inner)) \<noteq> Inr None)"

definition background_round :: "(bytes \<Rightarrow> u32) \<Rightarrow> db \<Rightarrow> db" where
  "background_round crc db =
     (let (_, db) = run_one_compaction crc db in db\<lparr>d_inner := (d_inner db)\<lparr>db_bg_scheduled := False\<rparr>\<rparr>)"

definition db_close :: "db_inner \<Rightarrow> db_inner" where
  "db_close inner = inner\<lparr>db_shutting_down := True\<rparr>"

section \<open>The database as a state machine\<close>

text \<open>One transition per section of the program that holds the lock.\<close>

inductive db_step :: "(bytes \<Rightarrow> u32) \<Rightarrow> db \<Rightarrow> db \<Rightarrow> bool" for crc :: "bytes \<Rightarrow> u32" where
  put: "db_put crc draws key v (d_inner db) = Some (r, inner) \<Longrightarrow> db_step crc db (db\<lparr>d_inner := inner\<rparr>)"
| delete: "db_delete crc draws key (d_inner db) = Some (r, inner) \<Longrightarrow> db_step crc db (db\<lparr>d_inner := inner\<rparr>)"
| wait: "write_must_wait (d_inner db) \<Longrightarrow> maybe_schedule_compaction (d_inner db) = (Inr (), inner) \<Longrightarrow>
    db_step crc db (db\<lparr>d_inner := inner\<rparr>)"
| get: "db_get_at snap key db = (r, db') \<Longrightarrow> db_step crc db db'"
| snapshot: "new_snapshot (d_inner db) = (s, inner) \<Longrightarrow> db_step crc db (db\<lparr>d_inner := inner\<rparr>)"
| release: "db_step crc db (db\<lparr>d_inner := drop_snapshot s (d_inner db)\<rparr>)"
| compact: "compact_once crc db = (r, db') \<Longrightarrow> db_step crc db db'"
| background: "background_ready (d_inner db) \<Longrightarrow> db_step crc db (background_round crc db)"
| close: "db_step crc db (db\<lparr>d_inner := db_close (d_inner db)\<rparr>)"

inductive_cases db_stepE: "db_step crc db db'"

end
