(* ===== verification/Store.thy ===== *)
theory Store
  imports Db
begin

text \<open>
  What the tables of a version hold, and how the read path finds it. \<open>F n\<close> stands for the entries of the table
  with number \<open>n\<close>. A lookup asks the tables of level 0 from the newest to the oldest and then at most one
  table of every deeper level; the lemmas show which table that is when a level is sorted, and that what the
  program returns is the first version found in this order, whatever the table cache holds.
\<close>

section \<open>The file of a level\<close>

lemma partition_loop_range:
  "lo \<le> hi \<Longrightarrow> lo \<le> partition_loop p xs lo hi \<and> partition_loop p xs lo hi \<le> hi"
proof (induction p xs lo hi rule: partition_loop.induct)
  case (1 p xs lo hi)
  show ?case
  proof (cases "lo < hi")
    case True
    let ?m = "lo + (hi - lo) div 2"
    have m: "lo \<le> ?m" "?m < hi" using True by auto
    show ?thesis
      using 1(1) [OF True refl] 1(2) [OF True refl] m True
      by (subst (1 2) partition_loop.simps) (auto simp: Let_def)
  next
    case False
    then show ?thesis using 1(3) by (subst (1 2) partition_loop.simps) simp
  qed
qed

lemma partition_point_le: "partition_point p xs \<le> length xs"
  using partition_loop_range [of 0 "length xs" p xs] by (simp add: partition_point_def)

lemma partition_loop_splits:
  assumes "\<And>i j. i < j \<Longrightarrow> j < length xs \<Longrightarrow> p (xs ! j) \<Longrightarrow> p (xs ! i)"
  shows "lo \<le> hi \<Longrightarrow> hi \<le> length xs \<Longrightarrow> (\<forall>i < lo. p (xs ! i)) \<Longrightarrow> (\<forall>i < length xs. hi \<le> i \<longrightarrow> \<not> p (xs ! i)) \<Longrightarrow>
    (\<forall>i < length xs. p (xs ! i) \<longleftrightarrow> i < partition_loop p xs lo hi)"
proof (induction "hi - lo" arbitrary: lo hi rule: less_induct)
  case less
  show ?case
  proof (cases "lo < hi")
    case True
    let ?m = "lo + (hi - lo) div 2"
    have m: "lo \<le> ?m" "?m < hi" using True by auto
    show ?thesis
    proof (cases "p (xs ! ?m)")
      case yes: True
      have "p (xs ! i)" if "i < ?m + 1" for i
        using assms [of i ?m] yes that m less.prems(2) by (cases "i = ?m") auto
      then have "\<forall>i < length xs. p (xs ! i) \<longleftrightarrow> i < partition_loop p xs (?m + 1) hi"
        using less.prems m by (intro less.hyps) auto
      then show ?thesis using True yes by (subst partition_loop.simps) (simp add: Let_def)
    next
      case no: False
      have "\<not> p (xs ! i)" if "?m \<le> i" "i < length xs" for i
        using assms [of ?m i] no that by (cases "i = ?m") auto
      then have "\<forall>i < length xs. p (xs ! i) \<longleftrightarrow> i < partition_loop p xs lo ?m"
        using less.prems m by (intro less.hyps) auto
      then show ?thesis using True no by (subst partition_loop.simps) (simp add: Let_def)
    qed
  next
    case False
    then have "partition_loop p xs lo hi = lo" by (subst partition_loop.simps) simp
    then show ?thesis using less.prems False by auto
  qed
qed

lemma partition_point_splits:
  assumes "\<And>i j. i < j \<Longrightarrow> j < length xs \<Longrightarrow> p (xs ! j) \<Longrightarrow> p (xs ! i)" and "i < length xs"
  shows "p (xs ! i) \<longleftrightarrow> i < partition_point p xs"
  using partition_loop_splits [of xs p 0 "length xs"] assms by (auto simp: partition_point_def)

text \<open>The tables of a level below the first are sorted by user keys and share none.\<close>

definition level_sorted :: "file_meta list \<Rightarrow> bool" where
  "level_sorted files \<longleftrightarrow>
     sorted_wrt (\<lambda>f g. user_key (fm_largest f) < user_key (fm_smallest g)) files \<and>
     (\<forall>f \<in> set files. user_key (fm_smallest f) \<le> user_key (fm_largest f))"

definition covers :: "bytes \<Rightarrow> file_meta \<Rightarrow> bool" where
  "covers key f \<longleftrightarrow> user_key (fm_smallest f) \<le> key \<and> key \<le> user_key (fm_largest f)"

lemma level_sorted_nth:
  "level_sorted files \<Longrightarrow> i < j \<Longrightarrow> j < length files \<Longrightarrow>
   user_key (fm_largest (files ! i)) < user_key (fm_smallest (files ! j))"
  by (simp add: level_sorted_def sorted_wrt_iff_nth_less)

lemma level_sorted_range: "level_sorted files \<Longrightarrow> f \<in> set files \<Longrightarrow> user_key (fm_smallest f) \<le> user_key (fm_largest f)"
  by (simp add: level_sorted_def)

lemma level_sorted_covers_unique:
  assumes "level_sorted files" and "f \<in> set files" and "g \<in> set files" and "covers key f" and "covers key g"
  shows "f = g"
proof -
  obtain i j where ij: "i < length files" "j < length files" "f = files ! i" "g = files ! j"
    using assms(2,3) by (auto simp: in_set_conv_nth)
  show ?thesis
  proof (cases i j rule: linorder_cases)
    case less
    then show ?thesis using level_sorted_nth [OF assms(1) less ij(2)] assms(4,5) by (auto simp: ij covers_def)
  next
    case greater
    then show ?thesis using level_sorted_nth [OF assms(1) greater ij(1)] assms(4,5) by (auto simp: ij covers_def)
  qed (simp add: ij)
qed

lemma find_file_in: "find_file_for_key files key = Some f \<Longrightarrow> f \<in> set files"
  using partition_point_le [of "\<lambda>f. user_key (fm_smallest f) \<le> key" files]
  by (auto simp: find_file_for_key_def Let_def split: if_splits)

lemma find_file_sorted:
  assumes sorted: "level_sorted files"
  shows "find_file_for_key files key = Some f \<longleftrightarrow> f \<in> set files \<and> covers key f"
proof -
  let ?p = "\<lambda>f. user_key (fm_smallest f) \<le> key"
  let ?k = "partition_point ?p files"
  have le: "user_key (fm_smallest (files ! i)) \<le> user_key (fm_smallest (files ! j))" if "i < j" "j < length files" for i j
    using level_sorted_nth [OF sorted that] level_sorted_range [OF sorted, of "files ! i"] that by fastforce
  then have mono: "?p (files ! i)" if "i < j" "j < length files" "?p (files ! j)" for i j
    using that order_trans by blast
  have split: "?p (files ! i) \<longleftrightarrow> i < ?k" if "i < length files" for i
    using mono that by (intro partition_point_splits) auto
  have k: "?k \<le> length files" by (rule partition_point_le)
  have last: "?p (files ! (?k - 1))" if "?k \<noteq> 0" using split [of "?k - 1"] that k by auto
  show ?thesis
  proof
    assume "find_file_for_key files key = Some f"
    then show "f \<in> set files \<and> covers key f"
      using k last by (auto simp: find_file_for_key_def Let_def covers_def split: if_splits)
  next
    assume f: "f \<in> set files \<and> covers key f"
    then obtain j where j: "j < length files" "f = files ! j" by (auto simp: in_set_conv_nth)
    have "j < ?k" using split [OF j(1)] f by (simp add: j covers_def)
    moreover have "?k \<le> Suc j"
    proof (rule ccontr)
      assume "\<not> ?k \<le> Suc j"
      then have "Suc j < ?k" by simp
      then have "?p (files ! Suc j)" using split [of "Suc j"] k by simp
      moreover have "key < user_key (fm_smallest (files ! Suc j))"
        using level_sorted_nth [OF sorted, of j "Suc j"] f \<open>Suc j < ?k\<close> k by (auto simp: j covers_def)
      ultimately show False by simp
    qed
    ultimately have "?k = Suc j" by simp
    then show "find_file_for_key files key = Some f"
      using f by (simp add: find_file_for_key_def covers_def j)
  qed
qed

section \<open>Lookups in a version\<close>

primrec first_some :: "'a option list \<Rightarrow> 'a option" where
  "first_some [] = None"
| "first_some (x # xs) = (case x of None \<Rightarrow> first_some xs | Some y \<Rightarrow> Some y)"

lemma first_some_append: "first_some (xs @ ys) = (case first_some xs of None \<Rightarrow> first_some ys | Some y \<Rightarrow> Some y)"
  by (induction xs) (auto split: option.split)

lemma first_some_None_iff: "first_some xs = None \<longleftrightarrow> (\<forall>x \<in> set xs. x = None)"
  by (induction xs) (auto split: option.split)

text \<open>The tables a lookup asks, in order.\<close>

definition store_files :: "version \<Rightarrow> bytes \<Rightarrow> file_number list" where
  "store_files v key = map fm_number (rev (files_at v 0)) @ level_files v key"

definition store_lookup :: "(file_number \<Rightarrow> entry list) \<Rightarrow> version \<Rightarrow> bytes \<Rightarrow> u64 \<Rightarrow> (value_type \<times> bytes) option" where
  "store_lookup F v key s = first_some (map (\<lambda>n. visible (F n) key s) (store_files v key))"

definition version_holds :: "fs \<Rightarrow> version \<Rightarrow> (file_number \<Rightarrow> entry list) \<Rightarrow> bool" where
  "version_holds fs v F \<longleftrightarrow> (\<forall>l < NUM_LEVELS. \<forall>f \<in> set (files_at v l). file_holds fs f (F (fm_number f)))"

definition live_number :: "version \<Rightarrow> file_number \<Rightarrow> bool" where
  "live_number v n \<longleftrightarrow> (\<exists>l < NUM_LEVELS. n \<in> level_numbers v l)"

lemma live_numberI: "l < NUM_LEVELS \<Longrightarrow> f \<in> set (files_at v l) \<Longrightarrow> live_number v (fm_number f)"
  by (auto simp: live_number_def level_numbers_def)

lemma level_files_live: "n \<in> set (level_files v key) \<Longrightarrow> live_number v n"
  by (auto simp: level_files_def split: option.splits intro!: live_numberI find_file_in)

lemma store_files_live: "n \<in> set (store_files v key) \<Longrightarrow> live_number v n"
  using level_files_live [of n v key] live_numberI [of 0 _ v]
  by (auto simp: store_files_def NUM_LEVELS_def)

lemma version_holds_table:
  "version_holds fs v F \<Longrightarrow> live_number v n \<Longrightarrow> \<exists>tr. open_table fs n = Inr tr \<and> table_rep tr (F n)"
  unfolding version_holds_def live_number_def level_numbers_def file_holds_def by auto

lemma first_in_files_lookup:
  "\<forall>n \<in> set ns. \<exists>tr. open_table fs n = Inr tr \<and> table_rep tr (F n) \<Longrightarrow>
   first_in_files (open_table fs) (\<lambda>r. table_get_entry r key s) ns = Inr (first_some (map (\<lambda>n. visible (F n) key s) ns))"
proof (induction ns)
  case (Cons n ns)
  then obtain tr where "open_table fs n = Inr tr" "table_rep tr (F n)" by auto
  then show ?case using Cons by (auto simp: table_rep_get_entry split: option.split)
qed simp

lemma get_from_sstables_lookup:
  assumes holds: "version_holds fs v F" and c: "cache_ok (open_table fs) c"
  shows "\<exists>c'. get_from_sstables fs key s v c = (Inr (read_value (store_lookup F v key s)), c') \<and>
    cache_ok (open_table fs) c'"
proof -
  let ?ask = "\<lambda>r. table_get_entry r key s" and ?L0 = "map fm_number (rev (files_at v 0))"
  have ok: "\<exists>tr. open_table fs n = Inr tr \<and> table_rep tr (F n)" if "n \<in> set (store_files v key)" for n
    using version_holds_table [OF holds store_files_live [OF that]] .
  obtain r c1 where 1: "first_answer (cache_get (open_table fs)) ?ask ?L0 c = (r, c1)" by force
  obtain r' c2 where 2: "first_answer (cache_get (open_table fs)) ?ask (level_files v key) c1 = (r', c2)" by force
  have r: "r = Inr (first_some (map (\<lambda>n. visible (F n) key s) ?L0))" "cache_ok (open_table fs) c1"
    using cache.first_answer_files [OF c, of ?ask ?L0] 1 first_in_files_lookup [of ?L0 fs F key s] ok
    by (simp_all add: store_files_def)
  have r': "r' = Inr (first_some (map (\<lambda>n. visible (F n) key s) (level_files v key)))" "cache_ok (open_table fs) c2"
    using cache.first_answer_files [OF r(2), of ?ask "level_files v key"] 2
      first_in_files_lookup [of "level_files v key" fs F key s] ok
    by (simp_all add: store_files_def)
  have v: "answer_value (Inr a) = Inr (read_value a)" for a by (simp add: answer_value_def read_value_def)
  show ?thesis
    using 1 2 r r'
    by (auto simp: get_from_sstables_def Let_def store_lookup_def store_files_def first_some_append v split: option.split)
qed

section \<open>A store of a history of writes\<close>

lemma last_write_append:
  "last_write (xs @ ys) key = (case last_write ys key of None \<Rightarrow> last_write xs key | Some y \<Rightarrow> Some y)"
  by (induction ys rule: rev_induct) (auto simp: last_write_snoc append_assoc [symmetric] simp del: append_assoc)

lemma visible_None_iff: "visible es key s = None \<longleftrightarrow> (\<forall>e \<in> set es. user_key (fst e) = key \<longrightarrow> s < seq (fst e))"
  by (auto simp: visible_def find_None_iff not_le)

text \<open>Every version of the key in \<open>es\<close> is newer than every one in \<open>es'\<close>.\<close>

definition newer :: "bytes \<Rightarrow> entry list \<Rightarrow> entry list \<Rightarrow> bool" where
  "newer key es es' \<longleftrightarrow> (\<forall>e \<in> set es. \<forall>e' \<in> set es'.
     user_key (fst e) = key \<longrightarrow> user_key (fst e') = key \<longrightarrow> seq (fst e') < seq (fst e))"

text \<open>
  The tables of the version hold writes of the history \<open>ws\<close>, newer layers hold newer versions of a key, and a
  lookup at a snapshot between \<open>low\<close> and the end of the history finds the last write before it.
\<close>

definition store_holds ::
    "fs \<Rightarrow> version \<Rightarrow> (file_number \<Rightarrow> entry list) \<Rightarrow> write_op list \<Rightarrow> nat \<Rightarrow> bool" where
  "store_holds fs v F ws low \<longleftrightarrow>
     version_wf v \<and> version_holds fs v F \<and> low \<le> length ws \<and>
     (\<forall>l. 1 \<le> l \<longrightarrow> l < NUM_LEVELS \<longrightarrow> level_sorted (files_at v l)) \<and>
     (\<forall>n. live_number v n \<longrightarrow> set (F n) \<subseteq> set (mem_entries 0 ws)) \<and>
     (\<forall>key. sorted_wrt (\<lambda>m n. newer key (F m) (F n)) (store_files v key)) \<and>
     (\<forall>key s. low \<le> s \<longrightarrow> s \<le> length ws \<longrightarrow>
        read_value (store_lookup F v key (of_nat s)) = read_value (last_write (take s ws) key))"

lemma store_holds_wf: "store_holds fs v F ws low \<Longrightarrow> version_wf v"
  by (simp add: store_holds_def)

lemma store_holds_version: "store_holds fs v F ws low \<Longrightarrow> version_holds fs v F"
  by (simp add: store_holds_def)

lemma store_holds_low: "store_holds fs v F ws low \<Longrightarrow> low \<le> length ws"
  by (simp add: store_holds_def)

lemma store_holds_sorted: "store_holds fs v F ws low \<Longrightarrow> 1 \<le> l \<Longrightarrow> l < NUM_LEVELS \<Longrightarrow> level_sorted (files_at v l)"
  by (simp add: store_holds_def)

lemma store_holds_entries: "store_holds fs v F ws low \<Longrightarrow> live_number v n \<Longrightarrow> set (F n) \<subseteq> set (mem_entries 0 ws)"
  by (simp add: store_holds_def)

lemma store_holds_reads:
  "store_holds fs v F ws low \<Longrightarrow> low \<le> s \<Longrightarrow> s \<le> length ws \<Longrightarrow>
   read_value (store_lookup F v key (of_nat s)) = read_value (last_write (take s ws) key)"
  by (simp add: store_holds_def)

lemma store_holds_seq:
  assumes "store_holds fs v F ws low" and "live_number v n" and "e \<in> set (F n)" and "length ws < 2 ^ 63"
  shows "seq (fst e) \<le> of_nat (length ws)"
  using mem_entries_seq(2) [of e 0 ws] store_holds_entries [OF assms(1,2)] assms(3,4) by auto

text \<open>Snapshots past the end of the history read the same.\<close>

lemma store_lookup_past:
  assumes "store_holds fs v F ws low" and "length ws < 2 ^ 63" and "of_nat (length ws) \<le> s"
  shows "store_lookup F v key s = store_lookup F v key (of_nat (length ws))"
proof -
  have "visible (F n) key s = visible (F n) key (of_nat (length ws))" if "n \<in> set (store_files v key)" for n
    using store_holds_seq [OF assms(1) store_files_live [OF that] _ assms(2)] assms(3) by (intro visible_newest) auto
  then have "map (\<lambda>n. visible (F n) key s) (store_files v key) =
      map (\<lambda>n. visible (F n) key (of_nat (length ws))) (store_files v key)"
    by (intro map_cong) auto
  then show ?thesis by (simp only: store_lookup_def)
qed

lemma store_holds_empty: "store_holds fs version_empty F [] 0"
proof -
  have files: "files_at version_empty l = []" if "l < NUM_LEVELS" for l
    using that by (simp add: files_at_def version_empty_def)
  have "find_file_for_key [] key = None" for key using find_file_in [of "[]" key] by (cases "find_file_for_key [] key") auto
  then have "store_files version_empty key = []" for key
    by (simp add: store_files_def level_files_def files NUM_LEVELS_def)
  then show ?thesis
    by (auto simp: store_holds_def version_wf_empty version_holds_def files level_sorted_def live_number_def
        level_numbers_def store_lookup_def)
qed

lemma version_holds_frame:
  assumes "version_holds fs v F" and "\<And>n. live_number v n \<Longrightarrow> fmlookup fs' (sst_path n) = fmlookup fs (sst_path n)"
  shows "version_holds fs' v F"
  using assms file_holds_other live_numberI by (fastforce simp: version_holds_def)

lemma store_holds_frame:
  assumes "store_holds fs v F ws low" and "\<And>n. live_number v n \<Longrightarrow> fmlookup fs' (sst_path n) = fmlookup fs (sst_path n)"
  shows "store_holds fs' v F ws low"
  using assms version_holds_frame [of fs v F fs'] by (simp add: store_holds_def)

section \<open>A table added to level 0\<close>

lemma level_files_cong: "(\<And>l. 1 \<le> l \<Longrightarrow> l < NUM_LEVELS \<Longrightarrow> files_at v' l = files_at v l) \<Longrightarrow> level_files v' key = level_files v key"
  by (auto simp: level_files_def intro!: arg_cong [where f = concat] map_cong)

lemma store_holds_flush:
  assumes store: "store_holds fs v F ws low" and room: "length ws + length ws' < 2 ^ 63"
    and v': "version_wf v'" "files_at v' 0 = files_at v 0 @ [f]"
      "\<And>l. 1 \<le> l \<Longrightarrow> l < NUM_LEVELS \<Longrightarrow> files_at v' l = files_at v l"
    and f: "file_holds fs' f (mem_entries (length ws) ws')" "\<not> live_number v (fm_number f)"
    and fs': "\<And>n. live_number v n \<Longrightarrow> fmlookup fs' (sst_path n) = fmlookup fs (sst_path n)"
  shows "store_holds fs' v' (F(fm_number f := mem_entries (length ws) ws')) (ws @ ws') low"
proof -
  let ?b = "length ws" and ?n = "fm_number f" and ?es = "mem_entries (length ws) ws'"
  let ?F = "F(fm_number f := mem_entries (length ws) ws')"
  have live': "live_number v' n \<longleftrightarrow> n = ?n \<or> live_number v n" for n
  proof -
    have "level_numbers v' l = (if l = 0 then insert ?n (level_numbers v 0) else level_numbers v l)" if "l < NUM_LEVELS" for l
      using v'(2,3) that by (cases l) (auto simp: level_numbers_def)
    then show ?thesis
      by (auto simp: live_number_def NUM_LEVELS_def split: if_splits intro: exI [of _ 0])
  qed
  have files: "store_files v' key = ?n # store_files v key" for key
    using level_files_cong [OF v'(3), of key] by (simp add: store_files_def v'(2))
  have F: "?F n = F n" if "live_number v n" for n using that f(2) by auto
  have lookup: "store_lookup ?F v' key s = (case visible ?es key s of None \<Rightarrow> store_lookup F v key s | Some y \<Rightarrow> Some y)" for key s
  proof -
    have "map (\<lambda>n. visible (?F n) key s) (store_files v key) = map (\<lambda>n. visible (F n) key s) (store_files v key)"
      using F store_files_live by (intro map_cong) auto
    then show ?thesis
      by (simp add: store_lookup_def files del: map_eq_conv fun_upd_apply) (simp add: store_lookup_def split: option.split)
  qed
  have "version_holds fs' v' ?F"
    unfolding version_holds_def
  proof (intro allI impI ballI)
    fix l g assume l: "l < NUM_LEVELS" and g: "g \<in> set (files_at v' l)"
    consider "g = f" "l = 0" | "g \<in> set (files_at v l)" using g l v'(2,3) by (cases "l = 0") auto
    then show "file_holds fs' g (?F (fm_number g))"
    proof cases
      case 1
      then show ?thesis using f(1) by simp
    next
      case 2
      then have "live_number v (fm_number g)" using l by (simp add: live_numberI)
      then show ?thesis
        using F fs' 2 l version_holds_frame [OF store_holds_version [OF store] fs'] by (simp add: version_holds_def)
    qed
  qed
  moreover have "\<forall>l. 1 \<le> l \<longrightarrow> l < NUM_LEVELS \<longrightarrow> level_sorted (files_at v' l)"
    using store_holds_sorted [OF store] v'(3) by simp
  moreover have "set (?F n) \<subseteq> set (mem_entries 0 (ws @ ws'))" if "live_number v' n" for n
  proof -
    have "set (mem_entries 0 ws) \<subseteq> set (mem_entries 0 (ws @ ws'))"
      by (auto simp: set_mem_entries nth_append intro!: image_eqI)
    moreover have "set ?es \<subseteq> set (mem_entries 0 (ws @ ws'))"
    proof
      fix e assume "e \<in> set ?es"
      then obtain i where "i < length ws'" "e = op_entry (?b + i) (ws' ! i)" by (auto simp: set_mem_entries)
      then show "e \<in> set (mem_entries 0 (ws @ ws'))"
        unfolding set_mem_entries by (intro image_eqI [where x = "?b + i"]) (auto simp: nth_append)
    qed
    ultimately show ?thesis using that live' store_holds_entries [OF store, of n] by (cases "n = ?n") (auto dest: subsetD)
  qed
  moreover have "sorted_wrt (\<lambda>m n. newer key (?F m) (?F n)) (store_files v' key)" for key
  proof -
    have "sorted_wrt (\<lambda>m n. newer key (F m) (F n)) (store_files v key)" using store by (simp add: store_holds_def)
    then have "sorted_wrt (\<lambda>m n. newer key (?F m) (?F n)) (store_files v key)"
      by (rule sorted_wrt_mono_rel [rotated]) (metis F store_files_live)
    moreover have "newer key (?F ?n) (?F n)" if "n \<in> set (store_files v key)" for n
    proof -
      have "seq (fst e') < seq (fst e)" if "e \<in> set ?es" "e' \<in> set (F n)" for e e'
      proof -
        have "seq (fst e') \<le> of_nat ?b"
          using store_holds_seq [OF store store_files_live] \<open>n \<in> _\<close> that(2) room by auto
        also have "of_nat ?b < seq (fst e)" using mem_entries_seq(1) [OF that(1)] room by simp
        finally show ?thesis .
      qed
      then show ?thesis using F [OF store_files_live [OF that]] by (simp add: newer_def)
    qed
    ultimately show ?thesis by (simp add: files)
  qed
  moreover have "read_value (store_lookup ?F v' key (of_nat s)) = read_value (last_write (take s (ws @ ws')) key)"
    if s: "low \<le> s" "s \<le> length (ws @ ws')" for key s
  proof -
    have vis: "visible ?es key (of_nat s) = last_write (take (s - ?b) ws') key"
      using s(2) room by (intro visible_mem_entries) auto
    show ?thesis
    proof (cases "s \<le> ?b")
      case True
      then show ?thesis using store_holds_reads [OF store s(1) True] vis by (simp add: lookup)
    next
      case False
      have "(of_nat ?b :: u64) \<le> of_nat s" using False s(2) room by (subst of_nat_u64_le) auto
      then have "store_lookup F v key (of_nat s) = store_lookup F v key (of_nat ?b)"
        using room by (intro store_lookup_past [OF store]) simp_all
      moreover have "read_value (store_lookup F v key (of_nat ?b)) = read_value (last_write ws key)"
        using store_holds_reads [OF store store_holds_low [OF store] order_refl, of key] by simp
      moreover have "take s ws = ws" using False by simp
      then have "last_write (take s (ws @ ws')) key =
          (case last_write (take (s - ?b) ws') key of None \<Rightarrow> last_write ws key | Some y \<Rightarrow> Some y)"
        by (simp only: take_append last_write_append)
      ultimately show ?thesis
        by (cases "last_write (take (s - ?b) ws') key") (simp_all add: lookup vis)
    qed
  qed
  ultimately show ?thesis
    using v'(1) store_holds_low [OF store] by (simp add: store_holds_def)
qed

end
