(* ===== verification/History.thy ===== *)
theory History
  imports Store
begin

text \<open>
  The database as a history of writes. The tables hold the first \<open>b\<close> writes, the memtable and the log the rest;
  the lemmas show that opening, writing, flushing and reopening keep it so.
\<close>

section \<open>Sizes\<close>

text \<open>A bound on the bytes a write adds to a table, and the histories whose tables stay below 4 GiB.\<close>

definition op_size :: "write_op \<Rightarrow> nat" where
  "op_size w = (case w of (t, key, v) \<Rightarrow> 73 + length key + length v)"

definition history_fits :: "options \<Rightarrow> write_op list \<Rightarrow> bool" where
  "history_fits opts ws \<longleftrightarrow>
     filter_size (opt_block_size opts) (bloom_bits_per_key opts) < 2 ^ 29 \<and> sum_list (map op_size ws) < 2 ^ 32"

lemma entries_bound_insort:
  "entries_bound (encode_entries (insort_key f e es)) = entries_bound (encode_entries (e # es))"
  by (induction es) auto

lemma entries_bound_mem_entries: "entries_bound (encode_entries (mem_entries b ws)) = sum_list (map op_size ws)"
proof (induction ws rule: rev_induct)
  case (snoc w ws)
  then show ?case
    by (cases w) (simp add: mem_entries_snoc entries_bound_insort op_entry_def op_size_def length_ik_encode)
qed simp

lemma mem_entries_eq_Nil [simp]: "mem_entries b ws = [] \<longleftrightarrow> ws = []"
  using length_mem_entries [of b ws] by (metis length_0_conv)

lemma history_fits_limits:
  "history_fits opts (xs @ ys) \<Longrightarrow> table_limits (opt_block_size opts) (bloom_bits_per_key opts) (mem_entries b ys)"
  by (simp add: history_fits_def table_limits_def entries_bound_mem_entries)

lemma sum_list_op_size: "73 * length ws \<le> sum_list (map op_size ws)"
  by (induction ws) (auto simp: op_size_def)

lemma history_fits_length: "history_fits opts ws \<Longrightarrow> length ws < 2 ^ 32"
  using sum_list_op_size [of ws] by (simp add: history_fits_def)

lemma history_fits_op:
  assumes "history_fits opts ws" and "(t, key, v) \<in> set ws"
  shows "length key + 9 < 2 ^ 32" "length v < 2 ^ 32"
proof -
  have "op_size (t, key, v) \<le> sum_list (map op_size ws)" using assms(2) by (intro member_le_sum_list) auto
  then show "length key + 9 < 2 ^ 32" "length v < 2 ^ 32" using assms(1) by (auto simp: history_fits_def op_size_def)
qed

lemma history_fits_append: "history_fits opts (xs @ ys) \<Longrightarrow> history_fits opts xs"
  by (simp add: history_fits_def)

lemma history_fits_take: "history_fits opts ws \<Longrightarrow> history_fits opts (take k ws)"
  using history_fits_append [of opts "take k ws" "drop k ws"] by simp

section \<open>The records of the log\<close>

definition log_record :: "nat \<Rightarrow> write_op \<Rightarrow> bytes" where
  "log_record i w = (case w of (t, key, v) \<Rightarrow> encode_entry t (of_nat (Suc i)) key v)"

definition log_records :: "nat \<Rightarrow> write_op list \<Rightarrow> bytes list" where
  "log_records b ws = map (\<lambda>(i, w). log_record i w) (enumerate b ws)"

lemma log_records_simps [simp]:
  "log_records b [] = []"
  "log_records b (w # ws) = log_record b w # log_records (Suc b) ws"
  "log_records b (ws @ [w]) = log_records b ws @ [log_record (b + length ws) w]"
  "length (log_records b ws) = length ws"
  by (simp_all add: log_records_def enumerate_append_eq)

lemma take_log_records: "take k (log_records b ws) = log_records b (take k ws)"
proof (induction ws arbitrary: b k)
  case (Cons w ws)
  then show ?case by (cases k) simp_all
qed simp

lemma replay_wal_records:
  assumes "mt_rep mt (mem_entries b ws)" and "mt_seq mt = of_nat (b + length ws)"
    and "b + length ws + length ws' < 2 ^ 63" and "\<forall>(t, key, v) \<in> set ws'. length key < 2 ^ 32 \<and> length v < 2 ^ 32"
  shows "\<exists>mt'. replay_wal draws i (log_records (b + length ws) ws') mt = Inr mt' \<and>
    mt_rep mt' (mem_entries b (ws @ ws')) \<and> mt_seq mt' = of_nat (b + length (ws @ ws'))"
  using assms
proof (induction ws' arbitrary: ws mt i)
  case (Cons w ws')
  obtain t key v where w: "w = (t, key, v)" by (cases w)
  have room: "Suc (b + length ws) < 2 ^ 63" using Cons.prems(3) by simp
  obtain mt1 where mt1: "mt_apply (draws i) t (of_nat (Suc (b + length ws))) key v mt = Inr mt1"
    "mt_rep mt1 (mem_entries b (ws @ [w]))" "mt_seq mt1 = of_nat (b + length (ws @ [w]))"
    using mt_rep_write [OF Cons.prems(1,2) room, of "draws i" t key v] by (auto simp: w)
  have dec: "decode_entry (log_record (b + length ws) w) =
      Inr \<lparr>we_vtype = t, we_seq = of_nat (Suc (b + length ws)), we_key = key, we_value = v\<rparr>"
    using Cons.prems(4) by (simp add: log_record_def w decode_encode_entry del: of_nat_Suc)
  obtain mt' where "replay_wal draws (i + 1) (log_records (b + length (ws @ [w])) ws') mt1 = Inr mt'"
    "mt_rep mt' (mem_entries b ((ws @ [w]) @ ws'))" "mt_seq mt' = of_nat (b + length ((ws @ [w]) @ ws'))"
    using Cons.IH [OF mt1(2,3), of "i + 1"] Cons.prems(3,4) by auto
  then show ?case using mt1(1) by (simp add: dec)
qed simp

section \<open>Committing an edit\<close>

lemma write_new_version_sequence:
  assumes "write_new_version crc e vs fs = (Inr v, vs', fs')"
  shows "write_new_version crc e (vs\<lparr>vs_last_sequence := x\<rparr>) fs =
    (Inr v, vs'\<lparr>vs_last_sequence := set_if_some (ve_last_sequence e) x\<rparr>, fs')"
  using assms by (auto simp: write_new_version_def Let_def split: prod.splits sum.splits)

lemma set_pointers_total:
  "\<forall>p \<in> set ps. unat (fst p) < NUM_LEVELS \<Longrightarrow> \<exists>cp'. set_pointers ps cp = (cp', Inr ())"
  by (induction ps arbitrary: cp) auto

lemma write_new_version_total:
  assumes "levels_ok e" and "\<forall>p \<in> set (ve_compact_pointers e). unat (fst p) < NUM_LEVELS"
  shows "\<exists>v vs' fs'. write_new_version crc e vs fs = (Inr v, vs', fs')"
proof -
  obtain v where "apply_edit (vs_current vs) e = Inr v" using assms(1) apply_edit_Inr_iff by blast
  moreover obtain cp where "set_pointers (ve_compact_pointers e) (vs_compact_pointer vs) = (cp, Inr ())"
    using set_pointers_total [OF assms(2)] by blast
  ultimately show ?thesis by (auto simp: write_new_version_def Let_def split: prod.splits)
qed

section \<open>Flushing into level 0\<close>

lemma table_limits_key:
  assumes "table_limits bt bpk es" and "e \<in> set es"
  shows "length (user_key (fst e)) + 9 < 2 ^ 32"
proof -
  have "64 + length (ik_encode (fst e)) \<le> entries_bound (encode_entries es)"
    using assms(2) by (induction es) auto
  then show ?thesis using assms(1) by (simp add: table_limits_def length_ik_encode)
qed

lemma file_holds_meta_ok:
  assumes "file_holds fs f es" and "fm_allowed_seeks f = 0" and "table_limits bt bpk es"
  shows "meta_ok f"
  using assms table_limits_key [OF assms(3), of "List.hd es"] table_limits_key [OF assms(3), of "List.last es"]
  by (simp add: file_holds_def meta_ok_def)

lemma flush_to_level0_holds:
  assumes rep: "mt_rep mt es" and es: "es \<noteq> []"
    and limits: "table_limits (opt_block_size opts) (bloom_bits_per_key opts) es" and g: "id_next g \<noteq> - 1"
  shows "\<exists>meta bs. flush_to_level0 msg opts mt g fs =
      (Inr meta, g\<lparr>id_next := id_next g + 1\<rparr>, fs_write (sst_path (id_next g)) bs fs) \<and>
    fm_number meta = id_next g \<and> fm_allowed_seeks meta = 0 \<and>
    file_holds (fs_write (sst_path (id_next g)) bs fs) meta es"
proof -
  let ?n = "id_next g"
  obtain bs tr fr where m: "mt_flush (opt_block_size opts) (bloom_bits_per_key opts) mt = Inr (bs, fr)"
    "table_open bs = Inr tr" "table_rep tr es"
    "fr_smallest fr = Some (fst (List.hd es))" "fr_largest fr = Some (fst (List.last es))"
    using mt_rep_flush [OF rep limits] es by auto
  have n: "new_file_number g = Inr (?n, g\<lparr>id_next := ?n + 1\<rparr>)" using g by simp
  have l: "fs_len (sst_path ?n) (fs_write (sst_path ?n) bs fs) = Inr (of_nat (length bs))"
    by (simp add: fs_len_def fs_write_def)
  have o: "open_table (fs_write (sst_path ?n) bs fs) ?n = Inr tr"
    using m(2) by (simp add: open_table_def fs_write_def)
  show ?thesis
    using m l o es unfolding flush_to_level0_def n
    by (intro exI [of _ "file_meta_new ?n (of_nat (length bs)) (fst (List.hd es)) (fst (List.last es))"] exI [of _ bs])
       (simp add: Let_def file_holds_def file_meta_new_def)
qed

lemma log_open_empty:
  assumes "fmlookup fs name = None \<or> fmlookup fs name = Some []" and "log_open name fs = (h, fs')"
  shows "log_holds crc h fs' []" "lh_name h = name" "fs' = fmupd name [] fs"
proof -
  have "log_holds crc h fs' [] \<and> lh_name h = name \<and> fs' = fmupd name [] fs"
  proof (cases "fmlookup fs name")
    case None
    then show ?thesis using log_holds_new [OF assms(2)] by simp
  next
    case (Some bs)
    then have bs: "fmlookup fs name = Some []" using assms(1) by simp
    then have "fs = fmupd name [] fs" by (intro fmap_ext) auto
    then show ?thesis using log_holds_reopen [OF assms(2) bs holds_records_nil] by simp
  qed
  then show "log_holds crc h fs' []" "lh_name h = name" "fs' = fmupd name [] fs" by auto
qed

text \<open>The manifest on disk determines the version set, up to the sequence number \<open>x\<close> that was last written to it.\<close>

definition manifest_matches :: "(bytes \<Rightarrow> u32) \<Rightarrow> version_edit list \<Rightarrow> u64 \<Rightarrow> version_set \<Rightarrow> fs \<Rightarrow> bool" where
  "manifest_matches crc eds x vs fs \<longleftrightarrow>
     vs_written crc eds (vs\<lparr>vs_last_sequence := x\<rparr>) fs \<and> (\<forall>e \<in> set eds. edit_ok e) \<and>
     fmlookup fs current_path = Some (current_content (vs_manifest_number vs))"

lemma manifest_matches_other:
  assumes "manifest_matches crc eds x vs fs" and "fmlookup fs' current_path = fmlookup fs current_path"
    and "fmlookup fs' (manifest_path (vs_manifest_number vs)) = fmlookup fs (manifest_path (vs_manifest_number vs))"
  shows "manifest_matches crc eds x vs fs'"
  using assms log_holds_other [of crc "mw_wal (vs_manifest_writer vs)" fs _ fs']
  by (auto simp: manifest_matches_def vs_written_def manifest_holds_def)

lemma manifest_matches_append:
  assumes m: "manifest_matches crc eds x vs fs" and ok: "edit_ok e"
    and w: "write_new_version crc e vs fs = (Inr v, vs', fs')"
  shows "manifest_matches crc (eds @ [e]) (set_if_some (ve_last_sequence e) x) vs' fs'"
    and "name \<noteq> manifest_path (vs_manifest_number vs) \<Longrightarrow> fmlookup fs' name = fmlookup fs name"
proof -
  have m': "vs_written crc eds (vs\<lparr>vs_last_sequence := x\<rparr>) fs" "\<forall>e \<in> set eds. edit_ok e"
    "fmlookup fs current_path = Some (current_content (vs_manifest_number vs))"
    using m by (auto simp: manifest_matches_def)
  note w' = write_new_version_sequence [OF w, of x]
  note a = vs_written_append [OF m'(1) w']
  have n: "vs_manifest_number vs' = vs_manifest_number vs" by (rule write_new_version_fields(4) [OF w])
  show "name \<noteq> manifest_path (vs_manifest_number vs) \<Longrightarrow> fmlookup fs' name = fmlookup fs name"
    using a(3) by simp
  then show "manifest_matches crc (eds @ [e]) (set_if_some (ve_last_sequence e) x) vs' fs'"
    using a(1) a(3) [of current_path] m'(2,3) ok n by (auto simp: manifest_matches_def)
qed

lemma write_new_version_result:
  assumes "write_new_version crc e vs fs = (Inr v, vs', fs')"
  shows "apply_edit (vs_current vs) e = Inr (vs_current vs')"
    "vs_log_number vs' = set_if_some (ve_log_number e) (vs_log_number vs)"
    "vs_next_file_number vs' = set_if_some (ve_next_file_number e) (vs_next_file_number vs)"
    "vs_last_sequence vs' = set_if_some (ve_last_sequence e) (vs_last_sequence vs)"
    "vs_manifest_number vs' = vs_manifest_number vs" "vs_snapshots vs' = vs_snapshots vs"
  using write_new_version_fields [OF assms]
  by (auto simp: replay_edit_def vs_fields_def bind_res_eq_Inr)

lemma apply_edit_none: "ve_new_files e = [] \<Longrightarrow> ve_deleted_files e = [] \<Longrightarrow> apply_edit v e = Inr v"
  by (cases v) (simp add: apply_edit_def)

lemma flush_edit_simps [simp]:
  "ve_new_files (flush_edit meta new_log g s) = [\<lparr>nf_level = 0, nf_meta = meta\<rparr>]"
  "ve_deleted_files (flush_edit meta new_log g s) = []" "ve_compact_pointers (flush_edit meta new_log g s) = []"
  "ve_log_number (flush_edit meta new_log g s) = Some new_log" "ve_comparator (flush_edit meta new_log g s) = None"
  "ve_next_file_number (flush_edit meta new_log g s) = Some (id_next g)"
  "ve_last_sequence (flush_edit meta new_log g s) = Some s"
  by (simp_all add: flush_edit_def edit_setter_defs version_edit_new_def)

lemma set_if_some_simps [simp]: "set_if_some (Some x) y = x" "set_if_some None y = y"
  by (simp_all add: set_if_some_def)

lemma flush_edit_applied:
  assumes wf: "version_wf v" and a: "apply_edit v (flush_edit meta new_log g s) = Inr v'"
    and fresh: "\<not> live_number v (fm_number meta)"
  shows "version_wf v'" "files_at v' 0 = files_at v 0 @ [meta]"
    "1 \<le> l \<Longrightarrow> l < NUM_LEVELS \<Longrightarrow> files_at v' l = files_at v l"
    "live_number v' n \<Longrightarrow> n = fm_number meta \<or> live_number v n"
proof -
  have len: "length (v_files v) = NUM_LEVELS" using wf by (simp add: version_wf_def)
  have f: "files_at v' l = files_at v l @ (if l = 0 then [meta] else [])" if "l < NUM_LEVELS" for l
    using apply_edit_files(2) [OF a, of l] that len by (simp add: deleted_at_def)
  show "version_wf v'"
    using fresh by (intro version_wf_apply_edit [OF wf a]) (simp_all add: live_number_def)
  show "files_at v' 0 = files_at v 0 @ [meta]" using f [of 0] by (simp add: NUM_LEVELS_def)
  show "1 \<le> l \<Longrightarrow> l < NUM_LEVELS \<Longrightarrow> files_at v' l = files_at v l" using f by simp
  show "live_number v' n \<Longrightarrow> n = fm_number meta \<or> live_number v n"
    using f by (force simp: live_number_def level_numbers_def split: if_splits)
qed

lemma commit_flush:
  assumes store: "store_holds fs (vs_current vs) F ws low" and fits: "history_fits opts (ws @ ws')"
    and fresh: "\<not> live_number (vs_current vs) n" and m: "manifest_matches crc eds x vs fs"
    and meta: "fm_number meta = n" "fm_allowed_seeks meta = 0" "file_holds fs1 meta (mem_entries (length ws) ws')"
    and fs1: "fs1 = fs_write (sst_path n) bs fs"
    and log: "fmlookup fs (log_path new_log) = None \<or> fmlookup fs (log_path new_log) = Some []"
      "log_open (log_path new_log) fs1 = (new_wal, fs2)"
  shows "\<exists>v vs' fs3 eds'. write_new_version crc (flush_edit meta new_log g s) vs fs2 = (Inr v, vs', fs3) \<and>
    store_holds fs3 (vs_current vs') (F(n := mem_entries (length ws) ws')) (ws @ ws') low \<and>
    manifest_matches crc eds' s vs' fs3 \<and>
    vs_log_number vs' = new_log \<and> vs_next_file_number vs' = id_next g \<and> vs_last_sequence vs' = s \<and>
    vs_snapshots vs' = vs_snapshots vs \<and> vs_manifest_number vs' = vs_manifest_number vs \<and>
    (\<forall>k. live_number (vs_current vs') k \<longrightarrow> k = n \<or> live_number (vs_current vs) k) \<and>
    (\<forall>l. 1 \<le> l \<longrightarrow> l < NUM_LEVELS \<longrightarrow> files_at (vs_current vs') l = files_at (vs_current vs) l) \<and>
    log_holds crc new_wal fs3 [] \<and> lh_name new_wal = log_path new_log \<and>
    (\<forall>name. name \<noteq> manifest_path (vs_manifest_number vs) \<longrightarrow> fmlookup fs3 name =
       (if name = log_path new_log then Some [] else if name = sst_path n then Some bs else fmlookup fs name))"
proof -
  let ?e = "flush_edit meta new_log g s" and ?es = "mem_entries (length ws) ws'"
  have limits: "table_limits (opt_block_size opts) (bloom_bits_per_key opts) ?es"
    by (rule history_fits_limits [OF fits])
  have room: "length ws + length ws' < 2 ^ 63" using history_fits_length [OF fits] by simp
  have log': "fmlookup fs1 (log_path new_log) = None \<or> fmlookup fs1 (log_path new_log) = Some []"
    using log(1) by (simp add: fs1 fs_write_def)
  note opened = log_open_empty [OF log' log(2)]
  have ok: "edit_ok ?e" using file_holds_meta_ok [OF meta(3,2) limits] by (simp add: edit_ok_def)
  have "levels_ok ?e" by (simp add: levels_ok_def NUM_LEVELS_def)
  then obtain v vs' fs3 where w: "write_new_version crc ?e vs fs2 = (Inr v, vs', fs3)"
    using write_new_version_total [of ?e crc vs fs2] by auto
  note r = write_new_version_result [OF w]
  have m2: "manifest_matches crc eds x vs fs2"
    by (rule manifest_matches_other [OF m]) (simp_all add: opened(3) fs1 fs_write_def)
  note a = manifest_matches_append [OF m2 ok w]
  have look: "fmlookup fs3 name =
      (if name = log_path new_log then Some [] else if name = sst_path n then Some bs else fmlookup fs name)"
    if "name \<noteq> manifest_path (vs_manifest_number vs)" for name
    using a(2) [OF that] by (auto simp: opened(3) fs1 fs_write_def)
  have fresh': "\<not> live_number (vs_current vs) (fm_number meta)" using fresh meta(1) by simp
  note applied = flush_edit_applied [OF store_holds_wf [OF store] r(1) fresh']
  have "fmlookup fs3 (sst_path (fm_number meta)) = fmlookup fs1 (sst_path (fm_number meta))"
    using look by (simp add: fs1 fs_write_def meta(1))
  then have holds3: "file_holds fs3 meta ?es" by (rule file_holds_other [OF meta(3)])
  have same: "fmlookup fs3 (sst_path k) = fmlookup fs (sst_path k)" if "live_number (vs_current vs) k" for k
    using look that fresh by auto
  have "store_holds fs3 (vs_current vs') (F(n := ?es)) (ws @ ws') low"
    using store_holds_flush [OF store room applied(1-3) holds3 fresh' same] meta(1) by simp
  moreover have "log_holds crc new_wal fs3 []"
    by (rule log_holds_other [OF opened(1)]) (simp add: opened look)
  ultimately show ?thesis
    using w r a(1) look applied(3,4) opened(2) meta(1)
    by (intro exI [of _ v] exI [of _ vs'] exI [of _ fs3] exI [of _ "eds @ [?e]"]) auto
qed

section \<open>The state between calls\<close>

definition memory_holds :: "nat \<Rightarrow> write_op list \<Rightarrow> db_inner \<Rightarrow> bool" where
  "memory_holds b ops inner \<longleftrightarrow> mt_rep (db_memtable inner) (mem_entries b (drop b ops)) \<and>
     mt_seq (db_memtable inner) = of_nat (length ops) \<and>
     vs_last_sequence (db_version_set inner) = of_nat (length ops)"

definition log_matches :: "(bytes \<Rightarrow> u32) \<Rightarrow> nat \<Rightarrow> write_op list \<Rightarrow> db_inner \<Rightarrow> bool" where
  "log_matches crc b ops inner \<longleftrightarrow>
     log_holds crc (db_wal inner) (db_fs inner) (log_records b (drop b ops)) \<and>
     fmlookup (db_fs inner) (lh_name (db_wal inner)) = Some (foldl (log_append crc) [] (log_records b (drop b ops))) \<and>
     lh_name (db_wal inner) = log_path (vs_log_number (db_version_set inner)) \<and>
     db_wal_number inner = vs_log_number (db_version_set inner)"

definition numbers_fresh :: "db_inner \<Rightarrow> bool" where
  "numbers_fresh inner \<longleftrightarrow> vs_next_file_number (db_version_set inner) = id_next (db_id_gen inner) \<and>
     (\<forall>n. id_next (db_id_gen inner) \<le> n \<longrightarrow>
        fmlookup (db_fs inner) (sst_path n) = None \<and> fmlookup (db_fs inner) (log_path n) = None)"

definition snapshots_within :: "nat \<Rightarrow> nat \<Rightarrow> version_set \<Rightarrow> bool" where
  "snapshots_within low n vs \<longleftrightarrow> (\<forall>s \<in> set (vs_snapshots vs). low \<le> unat s \<and> unat s \<le> n)"

text \<open>The tables hold the first \<open>b\<close> of the writes \<open>ops\<close>, the memtable and the log the others.\<close>

definition inner_holds :: "(bytes \<Rightarrow> u32) \<Rightarrow> write_op list \<Rightarrow> nat \<Rightarrow> db_inner \<Rightarrow> bool" where
  "inner_holds crc ops b inner \<longleftrightarrow> b \<le> length ops \<and> history_fits (db_options inner) ops \<and>
     (\<exists>F low. store_holds (db_fs inner) (vs_current (db_version_set inner)) F (take b ops) low \<and>
        snapshots_within low (length ops) (db_version_set inner)) \<and>
     memory_holds b ops inner \<and> log_matches crc b ops inner \<and>
     (\<exists>eds. manifest_matches crc eds (of_nat b) (db_version_set inner) (db_fs inner)) \<and> numbers_fresh inner"

text \<open>No table changes or disappears.\<close>

definition keeps_tables :: "fs \<Rightarrow> fs \<Rightarrow> bool" where
  "keeps_tables fs fs' \<longleftrightarrow>
     (\<forall>n. fmlookup fs (sst_path n) \<noteq> None \<longrightarrow> fmlookup fs' (sst_path n) = fmlookup fs (sst_path n))"

lemma keeps_tables_refl [simp]: "keeps_tables fs fs"
  by (simp add: keeps_tables_def)

lemma keeps_tables_trans: "keeps_tables fs fs' \<Longrightarrow> keeps_tables fs' fs'' \<Longrightarrow> keeps_tables fs fs''"
  by (fastforce simp: keeps_tables_def)

lemma open_table_exists: "open_table fs n = Inr r \<Longrightarrow> \<exists>bs. fmlookup fs (sst_path n) = Some bs"
  by (cases "fmlookup fs (sst_path n)") (simp_all add: open_table_def fs_read_def)

lemma cache_ok_keeps:
  assumes "cache_ok (open_table fs) c" and "keeps_tables fs fs'"
  shows "cache_ok (open_table fs') c"
proof -
  have "open_table fs' n = Inr r" if "open_table fs n = Inr r" for n r
  proof -
    from open_table_exists [OF that] show ?thesis using that assms(2) by (simp add: open_table_def fs_read_def keeps_tables_def)
  qed
  then show ?thesis using assms(1) by (fastforce simp: cache_ok_def)
qed

lemma store_holds_live_exists:
  assumes "store_holds fs v F ws low" and "live_number v n"
  shows "fmlookup fs (sst_path n) \<noteq> None"
  using version_holds_table [OF store_holds_version [OF assms(1)] assms(2)] open_table_exists by fastforce

section \<open>Flushing the memtable\<close>

lemma succ_u64: "n \<noteq> - 1 \<Longrightarrow> n < n + 1 \<and> unat (n + 1) = Suc (unat n)" for n :: u64
  using u64_succ_less [of n "n + 1"] by (simp add: u64_succ_def) (metis Suc_eq_plus1 add.commute add_eq_0_iff unatSuc)

lemma inner_holds_not_live:
  assumes "store_holds (db_fs inner) (vs_current (db_version_set inner)) F ws low" and "numbers_fresh inner"
    and "live_number (vs_current (db_version_set inner)) n"
  shows "n < id_next (db_id_gen inner)"
  using store_holds_live_exists [OF assms(1,3)] assms(2) by (meson numbers_fresh_def not_le)

text \<open>The levels below the first, whose sizes the scores depend on.\<close>

definition same_below :: "db_inner \<Rightarrow> db_inner \<Rightarrow> bool" where
  "same_below inner inner' \<longleftrightarrow> (\<forall>l. 1 \<le> l \<longrightarrow> l < NUM_LEVELS \<longrightarrow>
     files_at (vs_current (db_version_set inner')) l = files_at (vs_current (db_version_set inner)) l)"

lemma inner_holds_le: "inner_holds crc ops b inner \<Longrightarrow> b \<le> length ops"
  by (simp add: inner_holds_def)

lemma flush_memtable_step:
  assumes H: "inner_holds crc ops b inner" and e: "mt_entries (db_memtable inner) \<noteq> 0"
    and g: "id_next (db_id_gen inner) \<noteq> - 1" "id_next (db_id_gen inner) + 1 \<noteq> - 1"
  shows "\<exists>inner'. flush_memtable crc inner = (Inr (), inner') \<and> inner_holds crc ops (length ops) inner' \<and>
    keeps_tables (db_fs inner) (db_fs inner') \<and> db_options inner' = db_options inner \<and>
    same_below inner inner'"
proof -
  let ?vs = "db_version_set inner" and ?g = "db_id_gen inner" and ?fs = "db_fs inner" and ?mt = "db_memtable inner"
  let ?ws = "take b ops" and ?ws' = "drop b ops" and ?opts = "db_options inner"
  let ?n = "id_next ?g"
  define g1 where g1: "g1 = ?g\<lparr>id_next := id_next ?g + 1\<rparr>"
  let ?log = "id_next g1"
  define g2 where g2: "g2 = g1\<lparr>id_next := ?log + 1\<rparr>"
  obtain F low eds where I: "b \<le> length ops" "history_fits ?opts (?ws @ ?ws')"
    "store_holds ?fs (vs_current ?vs) F ?ws low" "snapshots_within low (length ops) ?vs"
    "mt_rep ?mt (mem_entries b ?ws')" "mt_seq ?mt = of_nat (length ops)" "manifest_matches crc eds (of_nat b) ?vs ?fs"
    "numbers_fresh inner"
    using H by (auto simp: inner_holds_def memory_holds_def)
  have b: "length ?ws = b" using I(1) by simp
  have es: "mem_entries b ?ws' \<noteq> []" using e I(5) by (auto simp: mt_rep_def)
  have n: "?n < ?log" and log: "?log < id_next g2"
    using succ_u64 [OF g(1)] succ_u64 [OF g(2)] by (simp_all add: g1 g2)
  obtain meta bs where f: "flush_to_level0 ''flushed memtable had no entries'' ?opts ?mt ?g ?fs =
      (Inr meta, g1, fs_write (sst_path ?n) bs ?fs)"
    "fm_number meta = ?n" "fm_allowed_seeks meta = 0"
    "file_holds (fs_write (sst_path ?n) bs ?fs) meta (mem_entries (length ?ws) ?ws')"
    using flush_to_level0_holds [OF I(5) es history_fits_limits [OF I(2)] g(1)] unfolding b g1 by blast
  have n2: "new_file_number g1 = Inr (?log, g2)" using g(2) by (simp add: g1 g2)
  obtain new_wal fs2 where wal: "log_open (log_path ?log) (fs_write (sst_path ?n) bs ?fs) = (new_wal, fs2)" by force
  have none: "fmlookup ?fs (log_path ?log) = None \<or> fmlookup ?fs (log_path ?log) = Some []"
    using I(8) n less_imp_le by (auto simp: numbers_fresh_def)
  have fresh: "\<not> live_number (vs_current ?vs) ?n" using inner_holds_not_live [OF I(3,8)] by blast
  obtain v vs' fs3 eds' where w: "write_new_version crc (flush_edit meta ?log g2 (of_nat (length ops))) ?vs fs2 = (Inr v, vs', fs3)"
    and c: "store_holds fs3 (vs_current vs') (F(?n := mem_entries (length ?ws) ?ws')) (?ws @ ?ws') low"
      "manifest_matches crc eds' (of_nat (length ops)) vs' fs3" "vs_log_number vs' = ?log"
      "vs_next_file_number vs' = id_next g2" "vs_last_sequence vs' = of_nat (length ops)" "vs_snapshots vs' = vs_snapshots ?vs"
      "log_holds crc new_wal fs3 []" "lh_name new_wal = log_path ?log"
      "\<forall>name. name \<noteq> manifest_path (vs_manifest_number ?vs) \<longrightarrow> fmlookup fs3 name =
         (if name = log_path ?log then Some [] else if name = sst_path ?n then Some bs else fmlookup ?fs name)"
      "\<forall>l. 1 \<le> l \<longrightarrow> l < NUM_LEVELS \<longrightarrow> files_at (vs_current vs') l = files_at (vs_current ?vs) l"
    using commit_flush [OF I(3,2) fresh I(7) f(2-4) refl none wal, of g2 "of_nat (length ops)"] by blast
  let ?inner = "inner\<lparr>db_memtable := memtable_with_initial_sequence (of_nat (length ops)), db_id_gen := g2,
      db_version_set := vs', db_fs := fs3, db_wal := new_wal, db_wal_number := ?log\<rparr>"
  have "flush_memtable crc inner = (Inr (), ?inner)"
    using e f(1) n2 wal w I(6) by (simp add: flush_memtable_def Let_def del: new_file_number_Inr)
  moreover have "inner_holds crc ops (length ops) ?inner"
    unfolding inner_holds_def
  proof (intro conjI)
    show "\<exists>F low. store_holds (db_fs ?inner) (vs_current (db_version_set ?inner)) F (take (length ops) ops) low \<and>
        snapshots_within low (length ops) (db_version_set ?inner)"
      using c(1,6) I(4) by (intro exI [of _ low] exI conjI) (simp_all add: snapshots_within_def)
    show "memory_holds (length ops) ops ?inner"
      using c(5) by (simp add: memory_holds_def) (simp add: memtable_with_initial_sequence_def)
    show "log_matches crc (length ops) ops ?inner"
      using c(3,7,8,9) by (simp add: log_matches_def)
    show "\<exists>eds. manifest_matches crc eds (of_nat (length ops)) (db_version_set ?inner) (db_fs ?inner)"
      using c(2) by auto
    have later: "?n \<noteq> k \<and> ?n \<le> k \<and> ?log \<noteq> k" if "id_next g2 \<le> k" for k using that n log by auto
    show "numbers_fresh ?inner"
      using c(4,9) I(8) by (auto simp: numbers_fresh_def dest: later)
  qed (use I in simp_all)
  moreover have "keeps_tables ?fs fs3" using c(9) I(8) by (auto simp: keeps_tables_def numbers_fresh_def)
  ultimately show ?thesis using c(10) by (auto simp: same_below_def)
qed

lemma flush_memtable_holds:
  assumes H: "inner_holds crc ops b inner" and f: "flush_memtable crc inner = (Inr (), inner')"
  shows "\<exists>b' \<ge> b. inner_holds crc ops b' inner' \<and> keeps_tables (db_fs inner) (db_fs inner') \<and> db_options inner' = db_options inner"
proof (cases "mt_entries (db_memtable inner) = 0")
  case True
  then show ?thesis using f H by (auto simp: flush_memtable_def)
next
  case False
  let ?g = "db_id_gen inner" and ?opts = "db_options inner" and ?mt = "db_memtable inner"
  have g: "id_next ?g \<noteq> - 1"
    using f False by (auto simp: flush_memtable_def flush_to_level0_def new_file_number_def u64_succ_def Let_def)
  have "mt_rep ?mt (mem_entries b (drop b ops))" "mem_entries b (drop b ops) \<noteq> []"
    "history_fits ?opts (take b ops @ drop b ops)" "b \<le> length ops"
    using H False by (auto simp: inner_holds_def memory_holds_def mt_rep_def)
  then obtain meta bs where "flush_to_level0 ''flushed memtable had no entries'' ?opts ?mt ?g (db_fs inner) =
      (Inr meta, ?g\<lparr>id_next := id_next ?g + 1\<rparr>, fs_write (sst_path (id_next ?g)) bs (db_fs inner))"
    using flush_to_level0_holds [OF _ _ history_fits_limits g] by blast
  then have "id_next ?g + 1 \<noteq> - 1"
    using f False by (auto simp: flush_memtable_def new_file_number_def u64_succ_def Let_def)
  then show ?thesis
    using flush_memtable_step [OF H False g] f inner_holds_le [OF H] by auto
qed

section \<open>Writing\<close>

lemma inner_holds_scheduled [simp]: "inner_holds crc ops b (inner\<lparr>db_bg_scheduled := x\<rparr>) = inner_holds crc ops b inner"
  by (simp add: inner_holds_def memory_holds_def log_matches_def numbers_fresh_def)

lemma inner_holds_shutting_down [simp]: "inner_holds crc ops b (inner\<lparr>db_shutting_down := x\<rparr>) = inner_holds crc ops b inner"
  by (simp add: inner_holds_def memory_holds_def log_matches_def numbers_fresh_def)

lemma maybe_schedule_holds:
  "maybe_schedule_compaction inner = (r, inner') \<Longrightarrow> inner' = inner \<or> inner' = inner\<lparr>db_bg_scheduled := True\<rparr>"
  by (cases "compaction_score (vs_current (db_version_set inner))")
     (auto simp: maybe_schedule_compaction_def split: if_splits)

lemma write_logged:
  assumes H: "inner_holds crc ops b inner" and fits: "history_fits (db_options inner) (ops @ [(t, key, v)])"
    and add: "log_add crc (db_wal inner) (encode_entry t (of_nat (Suc (length ops))) key v) (db_fs inner) = (wal, fs)"
  shows "\<exists>mt. mt_apply draws t (of_nat (Suc (length ops))) key v (db_memtable inner) = Inr mt \<and>
    inner_holds crc (ops @ [(t, key, v)]) b (inner\<lparr>db_wal := wal, db_fs := fs, db_memtable := mt,
      db_version_set := (db_version_set inner)\<lparr>vs_last_sequence := of_nat (Suc (length ops))\<rparr>\<rparr>) \<and>
    keeps_tables (db_fs inner) fs"
proof -
  let ?w = "(t, key, v)" and ?vs = "db_version_set inner" and ?n = "length ops"
  obtain F low eds where I: "b \<le> ?n" "store_holds (db_fs inner) (vs_current ?vs) F (take b ops) low"
    "snapshots_within low ?n ?vs" "mt_rep (db_memtable inner) (mem_entries b (drop b ops))"
    "mt_seq (db_memtable inner) = of_nat ?n" "log_matches crc b ops inner"
    "manifest_matches crc eds (of_nat b) ?vs (db_fs inner)" "numbers_fresh inner"
    using H by (auto simp: inner_holds_def memory_holds_def)
  have n: "b + length (drop b ops) = ?n" "drop b (ops @ [?w]) = drop b ops @ [?w]" "take b (ops @ [?w]) = take b ops"
    using I(1) by simp_all
  have "Suc (b + length (drop b ops)) < 2 ^ 63" using history_fits_length [OF fits] n(1) by simp
  then obtain mt where mt: "mt_apply draws t (of_nat (Suc ?n)) key v (db_memtable inner) = Inr mt"
    "mt_rep mt (mem_entries b (drop b ops @ [?w]))" "mt_seq mt = of_nat (length (ops @ [?w]))"
    using mt_rep_write [OF I(4), of draws t key v] I(5) n(1) by auto
  let ?recs = "log_records b (drop b ops)"
  have log: "log_holds crc (db_wal inner) (db_fs inner) ?recs" "lh_name (db_wal inner) = log_path (vs_log_number ?vs)"
    "fmlookup (db_fs inner) (lh_name (db_wal inner)) = Some (foldl (log_append crc) [] ?recs)"
    "db_wal_number inner = vs_log_number ?vs"
    using I(6) by (auto simp: log_matches_def)
  have rec: "log_records b (drop b (ops @ [?w])) = ?recs @ [encode_entry t (of_nat (Suc ?n)) key v]"
    unfolding n(2) using I(1) by (simp add: log_record_def)
  have fs: "fs = fmupd (lh_name (db_wal inner)) (log_append crc (foldl (log_append crc) [] ?recs)
      (encode_entry t (of_nat (Suc ?n)) key v)) (db_fs inner)"
    "log_holds crc wal fs (?recs @ [encode_entry t (of_nat (Suc ?n)) key v])" "lh_name wal = lh_name (db_wal inner)"
    using log_add_lookup [OF log(1) add] log(3) by auto
  have other: "fmlookup fs name = fmlookup (db_fs inner) name" if "name \<noteq> log_path (vs_log_number ?vs)" for name
    using that by (simp add: fs(1) log(2))
  let ?inner = "inner\<lparr>db_wal := wal, db_fs := fs, db_memtable := mt,
      db_version_set := ?vs\<lparr>vs_last_sequence := of_nat (Suc ?n)\<rparr>\<rparr>"
  have "inner_holds crc (ops @ [?w]) b ?inner"
    unfolding inner_holds_def
  proof (intro conjI)
    show "\<exists>F low. store_holds (db_fs ?inner) (vs_current (db_version_set ?inner)) F (take b (ops @ [?w])) low \<and>
        snapshots_within low (length (ops @ [?w])) (db_version_set ?inner)"
      using store_holds_frame [OF I(2), of fs] other I(3) unfolding n(3)
      by (intro exI [of _ F] exI [of _ low]) (auto simp: snapshots_within_def)
    show "memory_holds b (ops @ [?w]) ?inner" using mt(2,3) by (simp add: memory_holds_def n(2) I(1))
    show "log_matches crc b (ops @ [?w]) ?inner"
      unfolding log_matches_def rec using fs log by simp
    have "manifest_matches crc eds (of_nat b) ?vs fs" by (rule manifest_matches_other [OF I(7)]) (simp_all add: other)
    then show "\<exists>eds. manifest_matches crc eds (of_nat b) (db_version_set ?inner) (db_fs ?inner)"
      by (auto simp: manifest_matches_def)
    have "vs_log_number ?vs < id_next (db_id_gen inner)"
      using I(8) log(2,3) by (metis numbers_fresh_def not_le option.distinct(1))
    then show "numbers_fresh ?inner" using I(8) by (auto simp: numbers_fresh_def other)
  qed (use I(1) fits in simp_all)
  moreover have "keeps_tables (db_fs inner) fs" by (simp add: keeps_tables_def other)
  ultimately show ?thesis using mt(1) by auto
qed

text \<open>The checked sums of the sizes of the levels, on which every score rests, do not overflow.\<close>

definition sizes_ok :: "version \<Rightarrow> bool" where
  "sizes_ok v \<longleftrightarrow> (\<forall>l. 1 \<le> l \<longrightarrow> l < NUM_LEVELS \<longrightarrow> (\<exists>size. total_size v l = Inr size))"

lemma score_loop_total:
  "\<forall>l \<in> set levels. l = 0 \<or> (\<exists>size. total_size v l = Inr size) \<Longrightarrow> \<exists>s. score_loop v levels best = Inr s"
  by (induction levels arbitrary: best) (auto simp: level_score_def)

lemma compaction_score_total: "sizes_ok v \<Longrightarrow> \<exists>s. compaction_score v = Inr s"
  unfolding compaction_score_def by (intro score_loop_total) (metis One_nat_def Suc_leI atLeastLessThan_iff gr0I set_upt sizes_ok_def)

lemma sizes_ok_same:
  "same_below inner inner' \<Longrightarrow> sizes_ok (vs_current (db_version_set inner)) \<Longrightarrow> sizes_ok (vs_current (db_version_set inner'))"
  by (simp add: sizes_ok_def same_below_def total_size_def)

definition flush_due :: "options \<Rightarrow> memtable \<Rightarrow> bool" where
  "flush_due opts mt \<longleftrightarrow> memtable_flush_entries opts \<le> mt_entries mt \<or>
     0 < memtable_max_bytes opts \<and> memtable_max_bytes opts \<le> mt_approx_bytes mt"

lemma write_splits:
  assumes H: "inner_holds crc ops b inner" and fits: "history_fits (db_options inner) (ops @ [(t, key, v)])"
  shows "\<exists>inner1. inner_holds crc (ops @ [(t, key, v)]) b inner1 \<and> keeps_tables (db_fs inner) (db_fs inner1) \<and>
    db_options inner1 = db_options inner \<and> db_id_gen inner1 = db_id_gen inner \<and>
    vs_current (db_version_set inner1) = vs_current (db_version_set inner) \<and> same_below inner inner1 \<and>
    db_write_locked crc draws key v t inner =
      then_do (if flush_due (db_options inner) (db_memtable inner1) then flush_memtable crc inner1 else (Inr (), inner1))
        (\<lambda>_ inner. maybe_schedule_compaction inner)"
proof -
  have s: "mt_seq (db_memtable inner) = of_nat (length ops)" using H by (simp add: inner_holds_def memory_holds_def)
  have len: "Suc (length ops) < 2 ^ 63" using history_fits_length [OF fits] by simp
  have "(of_nat (length ops) :: u64) < of_nat (Suc (length ops))" using len by (intro of_nat_u64_mono) auto
  then have "(of_nat (length ops) :: u64) \<noteq> - 1" by (metis add.commute add_neg_numeral_special(8) of_nat_Suc word_not_simps(1))
  then have succ: "u64_succ (mt_seq (db_memtable inner)) = Inr (of_nat (Suc (length ops)))"
    by (simp add: s u64_succ_def add.commute)
  obtain wal fs where add: "log_add crc (db_wal inner) (encode_entry t (of_nat (Suc (length ops))) key v) (db_fs inner) = (wal, fs)"
    by force
  obtain mt where w: "mt_apply draws t (of_nat (Suc (length ops))) key v (db_memtable inner) = Inr mt"
    "inner_holds crc (ops @ [(t, key, v)]) b (inner\<lparr>db_wal := wal, db_fs := fs, db_memtable := mt,
      db_version_set := (db_version_set inner)\<lparr>vs_last_sequence := of_nat (Suc (length ops))\<rparr>\<rparr>)"
    "keeps_tables (db_fs inner) fs"
    using write_logged [OF H fits add, of draws] by blast
  then show ?thesis
    using add succ unfolding db_write_locked_def
    by (intro exI [of _ "inner\<lparr>db_wal := wal, db_fs := fs, db_memtable := mt,
      db_version_set := (db_version_set inner)\<lparr>vs_last_sequence := of_nat (Suc (length ops))\<rparr>\<rparr>"])
       (simp add: Let_def flush_due_def same_below_def del: of_nat_Suc)
qed

lemma db_write_holds:
  assumes H: "inner_holds crc ops b inner" and fits: "history_fits (db_options inner) (ops @ [(t, key, v)])"
    and w: "db_write_locked crc draws key v t inner = (Inr (), inner')"
  shows "\<exists>b' \<ge> b. inner_holds crc (ops @ [(t, key, v)]) b' inner' \<and> keeps_tables (db_fs inner) (db_fs inner')"
proof -
  obtain inner1 where 1: "inner_holds crc (ops @ [(t, key, v)]) b inner1" "keeps_tables (db_fs inner) (db_fs inner1)"
    "db_write_locked crc draws key v t inner =
      then_do (if flush_due (db_options inner) (db_memtable inner1) then flush_memtable crc inner1 else (Inr (), inner1))
        (\<lambda>_ inner. maybe_schedule_compaction inner)"
    using write_splits [OF H fits, of draws] by blast
  then obtain inner2 where 2: "flush_memtable crc inner1 = (Inr (), inner2) \<or> inner2 = inner1"
    "maybe_schedule_compaction inner2 = (Inr (), inner')"
    using w unfolding 1(3) then_do_eq_Inr by (auto split: if_splits)
  obtain b' where "b \<le> b'" "inner_holds crc (ops @ [(t, key, v)]) b' inner2" "keeps_tables (db_fs inner1) (db_fs inner2)"
    using 2(1) flush_memtable_holds [OF 1(1)] 1(1) by fastforce
  then show ?thesis
    using maybe_schedule_holds [OF 2(2)] keeps_tables_trans [OF 1(2)] by (intro exI [of _ b']) auto
qed

lemma db_write_succeeds:
  assumes H: "inner_holds crc ops b inner" and fits: "history_fits (db_options inner) (ops @ [(t, key, v)])"
    and ids: "unat (id_next (db_id_gen inner)) + 2 < 2 ^ 64" and sizes: "sizes_ok (vs_current (db_version_set inner))"
  shows "\<exists>inner'. db_write_locked crc draws key v t inner = (Inr (), inner')"
proof -
  obtain inner1 where 1: "inner_holds crc (ops @ [(t, key, v)]) b inner1" "same_below inner inner1"
    "db_id_gen inner1 = db_id_gen inner"
    "db_write_locked crc draws key v t inner =
      then_do (if flush_due (db_options inner) (db_memtable inner1) then flush_memtable crc inner1 else (Inr (), inner1))
        (\<lambda>_ inner. maybe_schedule_compaction inner)"
    using write_splits [OF H fits, of draws] by blast
  have g: "id_next (db_id_gen inner1) \<noteq> - 1" "id_next (db_id_gen inner1) + 1 \<noteq> - 1"
  proof -
    have u: "unat (- 1 :: u64) = 2 ^ 64 - 1" by (simp add: unsigned_minus_1_eq_mask mask_eq_exp_minus_1)
    then show 0: "id_next (db_id_gen inner1) \<noteq> - 1" using ids 1(3) by auto
    have "unat (id_next (db_id_gen inner1) + 1) \<noteq> unat (- 1 :: u64)" using ids 1(3) u succ_u64 [OF 0] by simp
    then show "id_next (db_id_gen inner1) + 1 \<noteq> - 1" by metis
  qed
  obtain inner2 where 2: "(if flush_due (db_options inner) (db_memtable inner1) then flush_memtable crc inner1 else (Inr (), inner1))
      = (Inr (), inner2)" "same_below inner1 inner2"
  proof (cases "mt_entries (db_memtable inner1) = 0 \<or> \<not> flush_due (db_options inner) (db_memtable inner1)")
    case True
    then show ?thesis using that [of inner1] by (auto simp: flush_memtable_def same_below_def)
  next
    case False
    then show ?thesis using flush_memtable_step [OF 1(1) _ g] that by auto
  qed
  obtain s where "compaction_score (vs_current (db_version_set inner2)) = Inr s"
    using compaction_score_total sizes_ok_same [OF 2(2)] sizes_ok_same [OF 1(2) sizes] by blast
  then show ?thesis by (auto simp: 1(4) 2(1) maybe_schedule_compaction_def)
qed

section \<open>Opening\<close>

lemma remove_obsolete_lookup:
  "fmlookup (remove_obsolete_files vs fs) name = (if is_obsolete vs name then None else fmlookup fs name)"
  by (simp add: remove_obsolete_files_def)

lemma live_ssts_iff: "n \<in> set (live_ssts v) \<longleftrightarrow> live_number v n"
  by (auto simp: live_ssts_def live_number_def level_numbers_def)

lemma is_obsolete_simps [simp]:
  "is_obsolete vs (sst_path n) \<longleftrightarrow> \<not> live_number (vs_current vs) n"
  "is_obsolete vs (log_path n) \<longleftrightarrow> n \<noteq> vs_log_number vs"
  "is_obsolete vs (manifest_path n) \<longleftrightarrow> n \<noteq> vs_manifest_number vs"
  "\<not> is_obsolete vs current_path" "is_obsolete vs current_tmp_path"
  by (simp_all add: is_obsolete_def live_ssts_iff) (simp_all add: current_path_def current_tmp_path_def)

text \<open>The end of opening: the log is opened and the directory cleaned.\<close>

definition opened_inner :: "options \<Rightarrow> version_set \<Rightarrow> memtable \<Rightarrow> id_generator \<Rightarrow> log_handle \<Rightarrow> fs \<Rightarrow> db_inner" where
  "opened_inner opts vs mt g wal fs =
     \<lparr>db_fs = fs, db_version_set = vs, db_memtable = mt, db_wal = wal, db_id_gen = g,
      db_wal_number = vs_log_number vs, db_options = opts, db_bg_scheduled = False, db_shutting_down = False\<rparr>"

lemma opened_inner_simps [simp]:
  "db_fs (opened_inner opts vs mt g wal fs) = fs" "db_version_set (opened_inner opts vs mt g wal fs) = vs"
  "db_memtable (opened_inner opts vs mt g wal fs) = mt" "db_wal (opened_inner opts vs mt g wal fs) = wal"
  "db_id_gen (opened_inner opts vs mt g wal fs) = g" "db_options (opened_inner opts vs mt g wal fs) = opts"
  "db_wal_number (opened_inner opts vs mt g wal fs) = vs_log_number vs"
  by (simp_all add: opened_inner_def)

lemma opened_inner_holds:
  assumes store: "store_holds fs (vs_current vs) F ops low" and fits: "history_fits opts ops"
    and m: "manifest_matches crc eds (of_nat (length ops)) vs fs" and s: "vs_last_sequence vs = of_nat (length ops)"
    and snaps: "vs_snapshots vs = []" and mt: "mt_rep mt []" "mt_seq mt = of_nat (length ops)"
    and log: "fmlookup fs (log_path (vs_log_number vs)) = None \<or> fmlookup fs (log_path (vs_log_number vs)) = Some []"
    and open': "log_open (log_path (vs_log_number vs)) fs = (wal, fs1)"
    and fs': "fs' = remove_obsolete_files vs fs1 \<or> fs' = fs1 \<and> (\<forall>n. id_next g \<le> n \<longrightarrow>
        fmlookup fs (sst_path n) = None \<and> fmlookup fs (log_path n) = None)"
    and next': "vs_next_file_number vs = id_next g" "vs_log_number vs < id_next g"
      "\<And>n. live_number (vs_current vs) n \<Longrightarrow> n < id_next g"
  shows "inner_holds crc ops (length ops) (opened_inner opts vs mt g wal fs')"
proof -
  let ?log = "log_path (vs_log_number vs)" and ?inner = "opened_inner opts vs mt g wal fs'"
  note o = log_open_empty [OF log open']
  have look: "fmlookup fs' name = (if name = ?log then Some [] else fmlookup fs name)"
    if "\<not> is_obsolete vs name" for name
    using fs' that by (auto simp: remove_obsolete_lookup o(3))
  have none: "fmlookup fs' (sst_path n) = None \<and> fmlookup fs' (log_path n) = None" if "id_next g \<le> n" for n
  proof -
    have "\<not> live_number (vs_current vs) n" "n \<noteq> vs_log_number vs" using next'(2,3) that by (auto simp: not_le [symmetric])
    then show ?thesis using fs' that by (auto simp: remove_obsolete_lookup o(3))
  qed
  show ?thesis
    unfolding inner_holds_def opened_inner_simps
  proof (intro conjI)
    have "store_holds fs' (vs_current vs) F ops low" by (rule store_holds_frame [OF store]) (simp add: look)
    then show "\<exists>F low. store_holds fs' (vs_current vs) F (take (length ops) ops) low \<and> snapshots_within low (length ops) vs"
      by (auto simp: snapshots_within_def snaps)
    show "memory_holds (length ops) ops ?inner" using mt s by (simp add: memory_holds_def)
    have "log_holds crc wal fs' []" by (rule log_holds_other [OF o(1)]) (simp add: o look)
    then show "log_matches crc (length ops) ops ?inner" by (simp add: log_matches_def o(2) look)
    have "manifest_matches crc eds (of_nat (length ops)) vs fs'"
      by (rule manifest_matches_other [OF m]) (simp_all add: look)
    then show "\<exists>eds. manifest_matches crc eds (of_nat (length ops)) vs fs'" by blast
    show "numbers_fresh ?inner" using next'(1) none by (simp add: numbers_fresh_def)
  qed (use fits in simp_all)
qed

lemma new_numbers: "id_next g \<noteq> - 1 \<Longrightarrow> new_file_number g = Inr (id_next g, g\<lparr>id_next := id_next g + 1\<rparr>)"
  by simp

lemma comparator_name_ascii: "utf8_valid (string_bytes ''mulan.BytewiseComparator'')"
  by (rule ascii_string) simp

lemma create_new_holds:
  assumes fits: "history_fits opts []"
  shows "\<exists>inner. create_new crc opts fmempty = (Inr inner, db_fs inner) \<and> inner_holds crc [] 0 inner \<and>
    db_options inner = opts \<and> id_next (db_id_gen inner) = 3 \<and> vs_current (db_version_set inner) = version_empty"
proof -
  let ?g = "id_generator_new 1" and ?g3 = "\<lparr>id_next = 3\<rparr>"
  have n: "new_file_number ?g = Inr (1, \<lparr>id_next = 2\<rparr>)" "new_file_number \<lparr>id_next = 2\<rparr> = Inr (2, ?g3)"
    by (simp_all add: id_generator_new_def)
  obtain vs0 fs0 where p: "new_pending 1 fmempty = (vs0, fs0)" by force
  have new: "vs_written crc [] vs0 fs0" "vs_manifest_number vs0 = 1" "fs0 = fmupd (manifest_path 1) [] fmempty" "vs_snapshots vs0 = []"
    using vs_written_new [of fmempty 1 vs0 fs0] p by simp_all
  have v0: "vs_current vs0 = version_empty" using p by (auto simp: new_pending_def split: prod.splits)
  let ?e = "initial_edit 2 ?g3"
  have e: "ve_new_files ?e = []" "ve_deleted_files ?e = []" "ve_compact_pointers ?e = []" "ve_log_number ?e = Some 2"
    "ve_next_file_number ?e = Some 3" "ve_last_sequence ?e = Some 0"
    "ve_comparator ?e = Some (string_bytes ''mulan.BytewiseComparator'')"
    by (simp_all add: initial_edit_def edit_setter_defs version_edit_new_def)
  have ok: "edit_ok ?e" using comparator_name_ascii by (simp add: edit_ok_def e string_bytes_def)
  obtain v vs1 fs1 where w: "write_new_version crc ?e vs0 fs0 = (Inr v, vs1, fs1)"
    using write_new_version_total [of ?e crc vs0 fs0] by (auto simp: levels_ok_def e)
  note r = write_new_version_result [OF w]
  have v1: "vs_current vs1 = version_empty" using r(1) by (simp add: apply_edit_none e v0)
  note a = vs_written_append [OF new(1) w]
  obtain fs2 where c: "write_current 1 fs1 = Inr fs2" "fmlookup fs2 current_path = Some (current_content 1)"
    "\<forall>name. name \<noteq> current_path \<longrightarrow> fmlookup fs2 name = (if name = current_tmp_path then None else fmlookup fs1 name)"
    using write_current_Inr by blast
  obtain wal fs3 where l: "log_open (log_path 2) fs2 = (wal, fs3)" by force
  have s: "vs_last_sequence vs1 = 0" using r(4) by (simp add: e)
  then have same: "vs1\<lparr>vs_last_sequence := 0\<rparr> = vs1" by simp
  have h: "log_holds crc (mw_wal (vs_manifest_writer vs1)) fs1 (map edit_encode [?e])"
    "lh_name (mw_wal (vs_manifest_writer vs1)) = manifest_path 1"
    using a(1) unfolding vs_written_def manifest_holds_def a(2) new(2) append_Nil by simp_all
  have "log_holds crc (mw_wal (vs_manifest_writer vs1)) fs2 (map edit_encode [?e])"
    by (rule log_holds_other [OF h(1)]) (simp add: h(2) c(3))
  then have m: "manifest_matches crc [?e] (of_nat (length [])) vs1 fs2"
    using a(1,2) c(2) ok by (simp add: manifest_matches_def same new(2)) (simp add: vs_written_def manifest_holds_def)
  have log: "fmlookup fs2 (log_path (vs_log_number vs1)) = None \<or> fmlookup fs2 (log_path (vs_log_number vs1)) = Some []"
    using c(3) a(3) by (simp add: new(2,3))
  have fresh: "fmlookup fs2 (sst_path k) = None \<and> fmlookup fs2 (log_path k) = None" for k
    using c(3) a(3) by (simp add: new(2,3))
  have vs1: "vs_log_number vs1 = 2" "vs_next_file_number vs1 = 3" "vs_snapshots vs1 = []" using r new(4) by (simp_all add: e)
  have dead: "\<not> live_number version_empty k" for k
    by (auto simp: live_number_def level_numbers_def files_at_def version_empty_def)
  let ?inner = "opened_inner opts vs1 memtable_new ?g3 wal fs3"
  have "inner_holds crc [] (length ([] :: write_op list)) ?inner"
    by (rule opened_inner_holds [OF _ fits m _ vs1(3) _ _ log, where F = "\<lambda>_. []" and low = 0 and ?fs1.0 = fs3])
       (use l fresh store_holds_empty dead in \<open>simp_all add: v1 s vs1\<close>, simp add: memtable_new_def)
  moreover have "create_new crc opts fmempty = (Inr ?inner, fs3)"
    using n p w c(1) l vs1 by (simp add: create_new_def Let_def opened_inner_def new(2) del: new_file_number_Inr)
  moreover have "db_options ?inner = opts" "id_next (db_id_gen ?inner) = 3" "db_version_set ?inner = vs1" "db_fs ?inner = fs3"
    by (simp_all add: opened_inner_def)
  ultimately show ?thesis using v1 by (intro exI [of _ ?inner]) simp
qed

section \<open>Reopening\<close>

lemma recover_memtable_holds:
  assumes log: "fmlookup fs (log_path (vs_log_number vs)) = Some (take k (foldl (log_append crc) [] (log_records b ws))) \<or>
      k = 0 \<and> fmlookup fs (log_path (vs_log_number vs)) = None"
    and room: "b + length ws < 2 ^ 63" and ok: "\<forall>(t, key, v) \<in> set ws. length key < 2 ^ 32 \<and> length v < 2 ^ 32"
    and s: "vs_last_sequence vs = of_nat b"
  shows "\<exists>j \<le> length ws. \<exists>mt. recover_memtable crc draws vs fs = Inr (mt, vs\<lparr>vs_last_sequence := of_nat (b + j)\<rparr>) \<and>
    mt_rep mt (mem_entries b (take j ws)) \<and> mt_seq mt = of_nat (b + j) \<and>
    (length (foldl (log_append crc) [] (log_records b ws)) \<le> k \<longrightarrow> j = length ws) \<and> (k = 0 \<longrightarrow> j = 0) \<and>
    (\<forall>i \<le> length ws. length (foldl (log_append crc) [] (take i (log_records b ws))) \<le> k \<longrightarrow> i \<le> j)"
proof -
  let ?recs = "log_records b ws"
  let ?f = "foldl (log_append crc) [] ?recs"
  obtain j where j: "j \<le> length ws" "read_records crc (take k ?f) = take j ?recs"
    and kept: "\<forall>i \<le> length ws. length (foldl (log_append crc) [] (take i ?recs)) \<le> k \<longrightarrow> i \<le> j"
    using wal.read_crash_kept [where crc = crc and ds = ?recs and f = "[]" and n = k, OF holds_records_nil] by auto
  have full: "j = length ws" if "length ?f \<le> k" using kept [rule_format, of "length ws"] that j(1) by simp
  have none: "j = 0" if "k = 0"
  proof -
    have "take j ?recs = []" using j(2) that holds_records_read [OF holds_records_nil] by simp
    then have "length (log_records b (take j ws)) = 0" using j(1) by (simp add: take_log_records)
    then show ?thesis using j(1) by simp
  qed
  let ?mt = "memtable_with_initial_sequence (of_nat b)"
  have s0: "mt_seq ?mt = of_nat b" by (simp add: memtable_with_initial_sequence_def)
  have "\<forall>(t, key, v) \<in> set (take j ws). length key < 2 ^ 32 \<and> length v < 2 ^ 32" using ok by (auto dest: in_set_takeD)
  then obtain mt where mt: "replay_wal draws 0 (log_records b (take j ws)) ?mt = Inr mt"
    "mt_rep mt (mem_entries b (take j ws))" "mt_seq mt = of_nat (b + j)"
    using replay_wal_records [of ?mt b "[]" "take j ws" draws 0] s0 room j(1) by (auto simp: min_absorb2)
  have "(of_nat b < (of_nat (b + j) :: u64)) = (0 < j)"
    using of_nat_u64_mono [of b "b + j"] room j(1) by (cases "j = 0") auto
  then have lift: "(if vs_last_sequence vs < mt_seq mt then vs\<lparr>vs_last_sequence := mt_seq mt\<rparr> else vs) =
      vs\<lparr>vs_last_sequence := of_nat (b + j)\<rparr>"
    using s mt(3) by (cases "j = 0") auto
  have "recover_memtable crc draws vs fs = Inr (mt, vs\<lparr>vs_last_sequence := of_nat (b + j)\<rparr>)"
    using log
  proof
    assume "fmlookup fs (log_path (vs_log_number vs)) = Some (take k ?f)"
    then show ?thesis
      using lift j(2) mt(1) s by (simp add: recover_memtable_def fs_exists_def log_read_def fs_read_Some take_log_records)
  next
    assume 0: "k = 0 \<and> fmlookup fs (log_path (vs_log_number vs)) = None"
    then show ?thesis using none mt(1) s by (simp add: recover_memtable_def fs_exists_def)
  qed
  then show ?thesis using j mt kept none full by blast
qed

lemma recover_commit_holds:
  assumes store: "store_holds fs (vs_current vs) F ws low" and fits: "history_fits opts (ws @ ws')"
    and m: "manifest_matches crc eds (of_nat (length ws)) vs fs" and s: "vs_last_sequence vs = of_nat (length (ws @ ws'))"
    and snaps: "vs_snapshots vs = []" and mt: "mt_rep mt (mem_entries (length ws) ws')" "mt_seq mt = of_nat (length (ws @ ws'))"
    and live: "\<And>n. live_number (vs_current vs) n \<Longrightarrow> n < vs_next_file_number vs"
    and free: "\<And>n. vs_next_file_number vs \<le> n \<Longrightarrow> fmlookup fs (log_path n) = None \<or> fmlookup fs (log_path n) = Some []"
    and g: "vs_next_file_number vs \<noteq> - 1" "vs_next_file_number vs + 1 \<noteq> - 1"
  shows "\<exists>vs' mt' g fs1 wal fs2. recover_commit crc opts vs mt fs = (Inr (vs', mt', g, vs_log_number vs'), fs1) \<and>
    log_open (log_path (vs_log_number vs')) fs1 = (wal, fs2) \<and>
    inner_holds crc (ws @ ws') (length (ws @ ws')) (opened_inner opts vs' mt' g wal (remove_obsolete_files vs' fs2))"
proof (cases "ws' = []")
  case True
  let ?n = "vs_next_file_number vs"
  define g1 where g1: "g1 = (id_generator_new ?n)\<lparr>id_next := ?n + 1\<rparr>"
  let ?e = "set_next_file_number (id_next g1) (set_log_number ?n version_edit_new)"
  have n1: "new_file_number (id_generator_new ?n) = Inr (?n, g1)" using g(1) by (simp add: g1 id_generator_new_def)
  have lt: "?n < id_next g1" using succ_u64 [OF g(1)] by (simp add: g1)
  have e: "ve_new_files ?e = []" "ve_deleted_files ?e = []" "ve_compact_pointers ?e = []" "ve_log_number ?e = Some ?n"
    "ve_next_file_number ?e = Some (id_next g1)" "ve_last_sequence ?e = None" "ve_comparator ?e = None"
    by (simp_all add: edit_setter_defs version_edit_new_def)
  have ok: "edit_ok ?e" by (simp add: edit_ok_def e)
  obtain v vs1 fs1 where w: "write_new_version crc ?e vs fs = (Inr v, vs1, fs1)"
    using write_new_version_total [of ?e crc vs fs] by (auto simp: levels_ok_def e)
  note r = write_new_version_result [OF w]
  have cur: "vs_current vs1 = vs_current vs" using r(1) by (simp add: apply_edit_none e)
  note a = manifest_matches_append [OF m ok w]
  obtain wal fs2 where l: "log_open (log_path ?n) fs1 = (wal, fs2)" by force
  have "store_holds fs1 (vs_current vs1) F ws low" unfolding cur by (rule store_holds_frame [OF store]) (simp add: a(2))
  then have "inner_holds crc ws (length ws) (opened_inner opts vs1 mt g1 wal (remove_obsolete_files vs1 fs2))"
    by (rule opened_inner_holds [where eds = "eds @ [?e]" and ?fs1.0 = fs2])
       (use fits a r snaps mt True l free [of ?n] live lt s in \<open>auto simp: e cur intro: less_trans\<close>)
  moreover have "recover_commit crc opts vs mt fs = (Inr (vs1, mt, g1, vs_log_number vs1), fs1)"
    using mt(1) True n1 w r(2) by (simp add: recover_commit_def Let_def mt_rep_def e del: new_file_number_Inr)
  ultimately show ?thesis using l r(2) True by (auto simp: e)
next
  case False
  let ?n = "vs_next_file_number vs" and ?N = "of_nat (length (ws @ ws')) :: u64"
  define g1 where g1: "g1 = (id_generator_new ?n)\<lparr>id_next := ?n + 1\<rparr>"
  let ?log = "id_next g1"
  define g2 where g2: "g2 = g1\<lparr>id_next := ?log + 1\<rparr>"
  have lt: "?n < ?log" "?log < id_next g2" using succ_u64 [OF g(1)] succ_u64 [OF g(2)] by (simp_all add: g1 g2)
  have n2: "new_file_number g1 = Inr (?log, g2)" using g(2) by (simp add: g1 g2)
  have gn: "id_next (id_generator_new ?n) = ?n" by (simp add: id_generator_new_def)
  obtain meta bs where f: "flush_to_level0 ''recovered memtable empty'' opts mt (id_generator_new ?n) fs =
      (Inr meta, g1, fs_write (sst_path ?n) bs fs)" "fm_number meta = ?n" "fm_allowed_seeks meta = 0"
    "file_holds (fs_write (sst_path ?n) bs fs) meta (mem_entries (length ws) ws')"
    using flush_to_level0_holds [OF mt(1) _ history_fits_limits [OF fits], of "id_generator_new ?n"
        "''recovered memtable empty''" fs] False g(1)
    unfolding gn g1 by auto
  obtain new_wal fs2 where o: "log_open (log_path ?log) (fs_write (sst_path ?n) bs fs) = (new_wal, fs2)" by force
  have none: "fmlookup fs (log_path ?log) = None \<or> fmlookup fs (log_path ?log) = Some []"
    using free lt(1) by (simp add: less_imp_le)
  have fresh: "\<not> live_number (vs_current vs) ?n" using live by blast
  obtain v vs' fs3 eds' where w: "write_new_version crc (flush_edit meta ?log g2 ?N) vs fs2 = (Inr v, vs', fs3)"
    and c: "store_holds fs3 (vs_current vs') (F(?n := mem_entries (length ws) ws')) (ws @ ws') low"
      "manifest_matches crc eds' ?N vs' fs3" "vs_log_number vs' = ?log" "vs_next_file_number vs' = id_next g2"
      "vs_last_sequence vs' = ?N" "vs_snapshots vs' = vs_snapshots vs"
      "\<forall>k. live_number (vs_current vs') k \<longrightarrow> k = ?n \<or> live_number (vs_current vs) k"
      "\<forall>name. name \<noteq> manifest_path (vs_manifest_number vs) \<longrightarrow> fmlookup fs3 name =
         (if name = log_path ?log then Some [] else if name = sst_path ?n then Some bs else fmlookup fs name)"
    using commit_flush [OF store fits fresh m f(2-4) refl none o, of g2 ?N] by blast
  let ?mt = "memtable_with_initial_sequence ?N"
  obtain wal fs4 where l: "log_open (log_path ?log) fs3 = (wal, fs4)" by force
  have below: "k < id_next g2" if "live_number (vs_current vs') k" for k
    using c(7) that live [of k] lt by (auto intro: less_trans)
  have "inner_holds crc (ws @ ws') (length (ws @ ws')) (opened_inner opts vs' ?mt g2 wal (remove_obsolete_files vs' fs4))"
    by (rule opened_inner_holds [OF c(1) fits c(2,5), where ?fs1.0 = fs4])
       (use c(3,4,6,8) snaps l lt below in \<open>simp_all\<close>, simp add: memtable_with_initial_sequence_def)
  moreover have "recover_commit crc opts vs mt fs = (Inr (vs', ?mt, g2, vs_log_number vs'), fs3)"
    using mt False f(1) n2 o w c(3) by (simp add: recover_commit_def Let_def mt_rep_def del: new_file_number_Inr)
  ultimately show ?thesis using l c(3) by auto
qed

text \<open>
  What a crash may leave of the directory: the files of the committed state, the first \<open>k\<close> bytes of the log
  (perhaps not even the file when that is nothing), and any other files, as long as a log with a number that was
  not yet given out is empty (a flush that did not commit may have created it).
\<close>

definition crash_image :: "db_inner \<Rightarrow> nat \<Rightarrow> fs \<Rightarrow> bool" where
  "crash_image inner k fs' \<longleftrightarrow>
     (let fs = db_fs inner; vs = db_version_set inner in
      fmlookup fs' current_path = fmlookup fs current_path \<and>
      fmlookup fs' (manifest_path (vs_manifest_number vs)) = fmlookup fs (manifest_path (vs_manifest_number vs)) \<and>
      (\<forall>n. live_number (vs_current vs) n \<longrightarrow> fmlookup fs' (sst_path n) = fmlookup fs (sst_path n)) \<and>
      (fmlookup fs' (lh_name (db_wal inner)) = map_option (take k) (fmlookup fs (lh_name (db_wal inner))) \<or>
       k = 0 \<and> fmlookup fs' (lh_name (db_wal inner)) = None) \<and>
      (\<forall>n. id_next (db_id_gen inner) \<le> n \<longrightarrow> fmlookup fs' (log_path n) = None \<or> fmlookup fs' (log_path n) = Some []))"

definition log_bytes :: "db_inner \<Rightarrow> bytes" where
  "log_bytes inner = (case fmlookup (db_fs inner) (lh_name (db_wal inner)) of Some bs \<Rightarrow> bs | None \<Rightarrow> [])"

definition numbers_left :: "db_inner \<Rightarrow> bool" where
  "numbers_left inner \<longleftrightarrow> unat (id_next (db_id_gen inner)) + 2 < 2 ^ 64"

lemma numbers_left_ne: "numbers_left inner \<Longrightarrow> id_next (db_id_gen inner) \<noteq> - 1 \<and> id_next (db_id_gen inner) + 1 \<noteq> - 1"
proof -
  assume n: "numbers_left inner"
  have u: "unat (- 1 :: u64) = 2 ^ 64 - 1" by (simp add: unsigned_minus_1_eq_mask mask_eq_exp_minus_1)
  then have 0: "id_next (db_id_gen inner) \<noteq> - 1" using n by (auto simp: numbers_left_def)
  have "unat (id_next (db_id_gen inner) + 1) \<noteq> unat (- 1 :: u64)" using n u succ_u64 [OF 0] by (simp add: numbers_left_def)
  then show ?thesis using 0 by metis
qed

lemma reopen_holds:
  assumes H: "inner_holds crc ops b inner" and crash: "crash_image inner k fs'" and fits: "history_fits opts ops"
    and left: "numbers_left inner"
  shows "\<exists>j inner'. b \<le> j \<and> j \<le> length ops \<and> recover_open crc draws opts fs' = (Inr inner', db_fs inner') \<and>
    inner_holds crc (take j ops) j inner' \<and> vs_last_sequence (db_version_set inner') = of_nat j \<and>
    (length (log_bytes inner) \<le> k \<longrightarrow> j = length ops) \<and> (k = 0 \<longrightarrow> j = b) \<and>
    (\<forall>i \<le> length (drop b ops). length (foldl (log_append crc) [] (take i (log_records b (drop b ops)))) \<le> k \<longrightarrow> b + i \<le> j)"
proof -
  let ?vs = "db_version_set inner" and ?fs = "db_fs inner" and ?ws = "drop b ops" and ?stored = "take b ops"
  obtain F low eds where I: "b \<le> length ops" "store_holds ?fs (vs_current ?vs) F ?stored low"
    "log_matches crc b ops inner" "manifest_matches crc eds (of_nat b) ?vs ?fs" "numbers_fresh inner"
    using H by (auto simp: inner_holds_def)
  have C: "fmlookup fs' current_path = fmlookup ?fs current_path"
    "fmlookup fs' (manifest_path (vs_manifest_number ?vs)) = fmlookup ?fs (manifest_path (vs_manifest_number ?vs))"
    "\<And>n. live_number (vs_current ?vs) n \<Longrightarrow> fmlookup fs' (sst_path n) = fmlookup ?fs (sst_path n)"
    "fmlookup fs' (lh_name (db_wal inner)) = map_option (take k) (fmlookup ?fs (lh_name (db_wal inner))) \<or>
      k = 0 \<and> fmlookup fs' (lh_name (db_wal inner)) = None"
    "\<And>n. id_next (db_id_gen inner) \<le> n \<Longrightarrow> fmlookup fs' (log_path n) = None \<or> fmlookup fs' (log_path n) = Some []"
    using crash by (simp_all add: crash_image_def Let_def)
  let ?bs = "foldl (log_append crc) [] (log_records b ?ws)"
  have log: "fmlookup fs' (log_path (vs_log_number ?vs)) = Some (take k ?bs) \<or>
      k = 0 \<and> fmlookup fs' (log_path (vs_log_number ?vs)) = None" "log_bytes inner = ?bs"
    using I(3) C(4) by (auto simp: log_matches_def log_bytes_def)
  have m': "manifest_matches crc eds (of_nat b) ?vs fs'" using manifest_matches_other [OF I(4) C(1,2)] .
  let ?vsb = "?vs\<lparr>vs_last_sequence := of_nat b\<rparr>"
  obtain vs1 where r: "vs_recover crc fs' = Inr (vs1, fs')" "vs_written crc eds vs1 fs'" "vs_fields vs1 = vs_fields ?vsb"
    "vs_manifest_number vs1 = vs_manifest_number ?vs" "vs_snapshots vs1 = []"
    using vs_written_recover [of crc eds ?vsb fs'] m' by (auto simp: manifest_matches_def)
  have fields: "vs_current vs1 = vs_current ?vs" "vs_log_number vs1 = vs_log_number ?vs"
    "vs_next_file_number vs1 = id_next (db_id_gen inner)" "vs_last_sequence vs1 = of_nat b"
    using r(3) I(5) by (auto simp: vs_fields_def numbers_fresh_def)
  have room: "b + length ?ws < 2 ^ 63" using history_fits_length [OF fits] I(1) by simp
  have ok: "\<forall>(t, key, v) \<in> set ?ws. length key < 2 ^ 32 \<and> length v < 2 ^ 32"
    using history_fits_op [OF fits] by (fastforce dest: in_set_dropD)
  obtain j mt where j: "j \<le> length ?ws" "recover_memtable crc draws vs1 fs' = Inr (mt, vs1\<lparr>vs_last_sequence := of_nat (b + j)\<rparr>)"
    "mt_rep mt (mem_entries b (take j ?ws))" "mt_seq mt = of_nat (b + j)" "length ?bs \<le> k \<longrightarrow> j = length ?ws"
    "\<forall>i \<le> length ?ws. length (foldl (log_append crc) [] (take i (log_records b ?ws))) \<le> k \<longrightarrow> i \<le> j" "k = 0 \<longrightarrow> j = 0"
    using recover_memtable_holds [of fs' vs1 k crc b ?ws draws] log(1) room ok fields by auto
  let ?vs2 = "vs1\<lparr>vs_last_sequence := of_nat (b + j)\<rparr>" and ?ws' = "take j ?ws"
  have len: "length ?stored = b" "length ?ws' = j" "?stored @ ?ws' = take (b + j) ops" using I(1) j(1) by (auto simp: take_add)
  have m2: "manifest_matches crc eds (of_nat (length ?stored)) ?vs2 fs'"
  proof -
    have "?vs2\<lparr>vs_last_sequence := of_nat b\<rparr> = vs1" using fields(4) by simp
    then show ?thesis using m' r(2,4) len(1) by (simp add: manifest_matches_def)
  qed
  have store': "store_holds fs' (vs_current ?vs2) F ?stored low"
    using store_holds_frame [OF I(2), of fs'] C(3) fields(1) by simp
  have live: "n < vs_next_file_number ?vs2" if "live_number (vs_current ?vs2) n" for n
    using inner_holds_not_live [OF I(2,5)] that fields by simp
  have fits': "history_fits opts (?stored @ ?ws')" unfolding len(3) by (rule history_fits_take [OF fits])
  have last': "vs_last_sequence ?vs2 = of_nat (length (?stored @ ?ws'))" unfolding length_append len(1,2) by simp
  have snaps': "vs_snapshots ?vs2 = []" using r(5) by simp
  have mem': "mt_rep mt (mem_entries (length ?stored) ?ws')" "mt_seq mt = of_nat (length (?stored @ ?ws'))"
    unfolding length_append len(1,2) using j(3,4) by simp_all
  have free': "fmlookup fs' (log_path n) = None \<or> fmlookup fs' (log_path n) = Some []" if "vs_next_file_number ?vs2 \<le> n" for n
    using C(5) that fields(3) by simp
  have numbers': "vs_next_file_number ?vs2 \<noteq> - 1" "vs_next_file_number ?vs2 + 1 \<noteq> - 1"
    using numbers_left_ne [OF left] fields(3) by simp_all
  obtain vs' mt' g fs1 wal fs2 where c: "recover_commit crc opts ?vs2 mt fs' = (Inr (vs', mt', g, vs_log_number vs'), fs1)"
    "log_open (log_path (vs_log_number vs')) fs1 = (wal, fs2)"
    "inner_holds crc (take (b + j) ops) (length (take (b + j) ops)) (opened_inner opts vs' mt' g wal (remove_obsolete_files vs' fs2))"
    using recover_commit_holds [OF store' fits' m2 last' snaps' mem' live free' numbers'] unfolding len(3) by blast
  let ?inner = "opened_inner opts vs' mt' g wal (remove_obsolete_files vs' fs2)"
  have n: "length (take (b + j) ops) = b + j" using I(1) j(1) by simp
  have "recover_open crc draws opts fs' = (Inr ?inner, db_fs ?inner)"
    using r(1) j(2) c(1,2) by (simp add: recover_open_def opened_inner_def Let_def)
  moreover have "vs_last_sequence (db_version_set ?inner) = of_nat (b + j)"
    using c(3) n by (simp add: inner_holds_def memory_holds_def)
  ultimately show ?thesis
    using c(3) j(1,5,6,7) I(1) n log(2) by (intro exI [of _ "b + j"] exI [of _ ?inner]) simp
qed

section \<open>Reading\<close>

text \<open>The memtable in front of the tables answers for the whole history, at every sequence number that is kept.\<close>

definition readable :: "write_op list \<Rightarrow> version_set \<Rightarrow> u64 set" where
  "readable ops vs = insert (of_nat (length ops)) (set (vs_snapshots vs))"

lemma readable_range:
  assumes "snapshots_within low (length ops) vs" and "s \<in> readable ops vs" and "low \<le> length ops" and "length ops < 2 ^ 63"
  shows "low \<le> unat s" "unat s \<le> length ops"
  using assms by (auto simp: readable_def snapshots_within_def unat_of_nat)

lemma layers_read:
  assumes store: "store_holds fs v F (take b ops) low" and b: "b \<le> length ops" and n63: "length ops < 2 ^ 63"
    and i: "low \<le> unat s" "unat s \<le> length ops"
  shows "read_value (case visible (mem_entries b (drop b ops)) key s of None \<Rightarrow> store_lookup F v key s | Some y \<Rightarrow> Some y) =
    read_value (last_write (take (unat s) ops) key)"
proof -
  let ?i = "unat s" and ?ws = "drop b ops"
  have lenb: "length (take b ops) = b" using b by simp
  have s: "s = of_nat ?i" by simp
  have m: "visible (mem_entries b ?ws) key s = last_write (take (?i - b) ?ws) key"
    using visible_mem_entries [of b ?ws ?i key] i b n63 by simp
  have "store_lookup F v key s = store_lookup F v key (of_nat (min ?i b))"
  proof (cases "?i \<le> b")
    case False
    then have "of_nat (length (take b ops)) \<le> s"
      using lenb n63 i(2) by (subst s, subst of_nat_u64_le) auto
    then show ?thesis using store_lookup_past [OF store, of s key] lenb n63 b False by (simp add: min_absorb2)
  qed (simp add: min_absorb1)
  then have "read_value (store_lookup F v key s) = read_value (last_write (take (min ?i b) (take b ops)) key)"
    using store_holds_reads [OF store, of "min ?i b" key] i(1) store_holds_low [OF store] lenb by simp
  moreover have "take ?i ops = take (min ?i b) (take b ops) @ take (?i - b) ?ws"
  proof -
    have "take ?i ops = take ?i (take b ops @ ?ws)" by simp
    also have "\<dots> = take ?i (take b ops) @ take (?i - b) ?ws" by (simp only: take_append lenb)
    finally show ?thesis by simp
  qed
  ultimately show ?thesis by (simp only: m last_write_append) (simp split: option.split)
qed

lemma db_get_at_holds:
  assumes H: "inner_holds crc ops b (d_inner db)" and c: "cache_ok (open_table (db_fs (d_inner db))) (d_cache db)"
  shows "\<exists>r c'. db_get_at s key db = (Inr r, db\<lparr>d_cache := c'\<rparr>) \<and> cache_ok (open_table (db_fs (d_inner db))) c' \<and>
    (s \<in> readable ops (db_version_set (d_inner db)) \<longrightarrow> r = read_value (last_write (take (unat s) ops) key))"
proof -
  let ?inner = "d_inner db" and ?n = "length ops"
  let ?vs = "db_version_set ?inner"
  let ?v = "vs_current ?vs"
  obtain F low where I: "b \<le> ?n" "history_fits (db_options ?inner) ops" "store_holds (db_fs ?inner) ?v F (take b ops) low"
    "snapshots_within low ?n ?vs" "mt_rep (db_memtable ?inner) (mem_entries b (drop b ops))"
    using H by (auto simp: inner_holds_def memory_holds_def)
  have n63: "?n < 2 ^ 63" using history_fits_length [OF I(2)] by simp
  obtain c' where get: "get_from_sstables (db_fs ?inner) key s ?v (d_cache db) = (Inr (read_value (store_lookup F ?v key s)), c')"
    "cache_ok (open_table (db_fs ?inner)) c'"
    using get_from_sstables_lookup [OF store_holds_version [OF I(3)] c] by blast
  let ?m = "visible (mem_entries b (drop b ops)) key s"
  define r where "r = read_value (case ?m of None \<Rightarrow> store_lookup F ?v key s | Some y \<Rightarrow> Some y)"
  have "\<exists>c'. db_get_at s key db = (Inr r, db\<lparr>d_cache := c'\<rparr>) \<and> cache_ok (open_table (db_fs ?inner)) c'"
  proof (cases ?m)
    case None
    then show ?thesis
      using get by (intro exI [of _ c']) (simp add: db_get_at_def mt_rep_get_entry [OF I(5)] r_def Let_def)
  next
    case (Some y)
    have "db = db\<lparr>d_cache := d_cache db\<rparr>" by simp
    then show ?thesis
      using Some c by (cases y; cases "fst y") (auto simp: db_get_at_def mt_rep_get_entry [OF I(5)] r_def read_value_def
          intro!: exI [of _ "d_cache db"])
  qed
  moreover have "r = read_value (last_write (take (unat s) ops) key)" if "s \<in> readable ops ?vs"
    unfolding r_def using readable_range [OF I(4) that _ n63] store_holds_low [OF I(3)] I(1)
    by (intro layers_read [OF I(3,1) n63]) auto
  ultimately show ?thesis by blast
qed

end
