(* ===== verification/Compacting.thy ===== *)
theory Compacting
  imports History
begin

text \<open>
  A compaction of a live database. The inputs of a compaction hold, for every user key, a run of consecutive
  layers of the store; replacing them by what \<open>do_compaction\<close> keeps of their merge changes no read at a
  registered snapshot, as long as the levels of the new version are sorted.
\<close>

section \<open>The newest version among layers\<close>

lemma ascending_entries_unique:
  assumes "ascending_entries es" and "e \<in> set es" and "e' \<in> set es" and "version_of e = version_of e'"
  shows "e = e'"
  using assms
proof (induction es)
  case (Cons f es)
  obtain k v where f: "f = (k, v)" by force
  have asc: "ascending_entries es"
    and later: "g \<in> set es \<Longrightarrow> user_key k < user_key (fst g) \<or> user_key k = user_key (fst g) \<and> seq (fst g) < seq k" for g
    using Cons.prems(1) by (auto simp: f ascending_entries_Cons)
  have ne: "version_of g \<noteq> version_of f" if "g \<in> set es" for g using later [OF that] by (auto simp: f version_of_def)
  then show ?case using Cons.IH [OF asc] Cons.prems(2-4) by (metis set_ConsD)
qed simp

lemma ascending_entries_distinct: "ascending_entries es \<Longrightarrow> distinct es"
proof (induction es)
  case (Cons e es)
  then show ?case by (cases e) (fastforce simp: ascending_entries_Cons)
qed simp

lemma visible_SomeD:
  assumes "ascending_entries es" and "visible es key s = Some y"
  shows "\<exists>e \<in> set es. user_key (fst e) = key \<and> seq (fst e) \<le> s \<and> y = (vtype (fst e), snd e) \<and>
    (\<forall>e' \<in> set es. user_key (fst e') = key \<longrightarrow> seq (fst e') \<le> s \<longrightarrow> seq (fst e') \<le> seq (fst e))"
  using assms
proof (induction es)
  case (Cons f es)
  obtain k v where f: "f = (k, v)" by force
  have asc: "ascending_entries es"
    and later: "\<And>e. e \<in> set es \<Longrightarrow> user_key k < user_key (fst e) \<or> user_key k = user_key (fst e) \<and> seq (fst e) < seq k"
    using Cons.prems(1) by (auto simp: f ascending_entries_Cons)
  show ?case
  proof (cases "user_key k = key \<and> seq k \<le> s")
    case True
    then have "y = (vtype k, v)" using Cons.prems(2) visible_take [of k s v es] by (auto simp: f)
    then show ?thesis using True later by (intro bexI [of _ f]) (auto simp: f dest!: later)
  next
    case False
    then have "visible es key s = Some y" using Cons.prems(2) by (simp add: f visible_skip)
    then obtain e where "e \<in> set es" "user_key (fst e) = key" "seq (fst e) \<le> s" "y = (vtype (fst e), snd e)"
      "\<forall>e' \<in> set es. user_key (fst e') = key \<longrightarrow> seq (fst e') \<le> s \<longrightarrow> seq (fst e') \<le> seq (fst e)"
      using Cons.IH [OF asc] by blast
    then show ?thesis using False by (intro bexI [of _ e]) (auto simp: f)
  qed
qed (simp add: visible_def)

lemma visible_SomeI:
  assumes asc: "ascending_entries es" and e: "e \<in> set es" "user_key (fst e) = key" "seq (fst e) \<le> s"
    and newest: "\<And>e'. e' \<in> set es \<Longrightarrow> user_key (fst e') = key \<Longrightarrow> seq (fst e') \<le> s \<Longrightarrow> seq (fst e') \<le> seq (fst e)"
  shows "visible es key s = Some (vtype (fst e), snd e)"
proof -
  have "visible es key s \<noteq> None" using e by (auto simp: visible_None_iff)
  then obtain y where y: "visible es key s = Some y" by blast
  obtain f where f: "f \<in> set es" "user_key (fst f) = key" "seq (fst f) \<le> s" "y = (vtype (fst f), snd f)"
    "\<forall>e' \<in> set es. user_key (fst e') = key \<longrightarrow> seq (fst e') \<le> s \<longrightarrow> seq (fst e') \<le> seq (fst f)"
    using visible_SomeD [OF asc y] by blast
  have "seq (fst f) = seq (fst e)" using f(5) newest [OF f(1-3)] e by (simp add: order_antisym)
  then have "f = e" using ascending_entries_unique [OF asc f(1) e(1)] f(2) e(2) by (simp add: version_of_def)
  then show ?thesis using y f(4) by simp
qed

lemma first_some_SomeD:
  "first_some (map g xs) = Some y \<Longrightarrow> \<exists>ys x zs. xs = ys @ x # zs \<and> (\<forall>z \<in> set ys. g z = None) \<and> g x = Some y"
proof (induction xs)
  case (Cons x xs)
  show ?case
  proof (cases "g x")
    case None
    then obtain ys x' zs where "xs = ys @ x' # zs" "\<forall>z \<in> set ys. g z = None" "g x' = Some y" using Cons by auto
    then show ?thesis using None by (intro exI [of _ "x # ys"] exI [of _ x'] exI [of _ zs]) simp
  next
    case (Some z)
    then show ?thesis using Cons.prems by (intro exI [of _ "[]"]) simp
  qed
qed simp

text \<open>Asking layer after layer, newest first, finds the newest version of all of them.\<close>

lemma visible_layers:
  assumes asc: "ascending_entries es" "\<And>x. x \<in> set xs \<Longrightarrow> ascending_entries x"
    and union: "\<And>e. user_key (fst e) = key \<Longrightarrow> e \<in> set es \<longleftrightarrow> (\<exists>x \<in> set xs. e \<in> set x)"
    and layers: "sorted_wrt (newer key) xs"
  shows "visible es key s = first_some (map (\<lambda>x. visible x key s) xs)"
proof (cases "first_some (map (\<lambda>x. visible x key s) xs)")
  case None
  then have "\<forall>x \<in> set xs. visible x key s = None" by (simp add: first_some_None_iff)
  then have old: "s < seq (fst e)" if "x \<in> set xs" "e \<in> set x" "user_key (fst e) = key" for x e
    using that by (auto simp: visible_None_iff)
  have "visible es key s = None" unfolding visible_None_iff
  proof (intro ballI impI)
    fix e assume e: "e \<in> set es" "user_key (fst e) = key"
    then obtain x where "x \<in> set xs" "e \<in> set x" using union [OF e(2)] by blast
    then show "s < seq (fst e)" using old e(2) by blast
  qed
  then show ?thesis using None by simp
next
  case (Some y)
  from first_some_SomeD [OF this]
  obtain ys x zs where xs: "xs = ys @ x # zs" "\<forall>z \<in> set ys. visible z key s = None" "visible x key s = Some y" by blast
  have "ascending_entries x" by (rule asc(2)) (simp add: xs)
  from visible_SomeD [OF this xs(3)] obtain e where e: "e \<in> set x" "user_key (fst e) = key" "seq (fst e) \<le> s"
    "y = (vtype (fst e), snd e)"
    "\<forall>e' \<in> set x. user_key (fst e') = key \<longrightarrow> seq (fst e') \<le> s \<longrightarrow> seq (fst e') \<le> seq (fst e)" by blast
  have "visible es key s = Some (vtype (fst e), snd e)"
  proof (rule visible_SomeI [OF asc(1) _ e(2,3)])
    show "e \<in> set es" using union [OF e(2)] e(1) xs(1) by auto
    fix e' assume e': "e' \<in> set es" "user_key (fst e') = key" "seq (fst e') \<le> s"
    then obtain z where z: "z \<in> set xs" "e' \<in> set z" using union [OF e'(2)] by blast
    have "z \<notin> set ys"
    proof
      assume "z \<in> set ys"
      then have "s < seq (fst e')" using xs(2) z(2) e'(2) unfolding visible_None_iff by blast
      then show False using e'(3) by simp
    qed
    then consider "z = x" | "z \<in> set zs" using z(1) xs(1) by auto
    then show "seq (fst e') \<le> seq (fst e)"
    proof cases
      case 1
      then show ?thesis using e(5) e' z(2) by blast
    next
      case 2
      then have "newer key x z" using layers by (simp add: xs(1) sorted_wrt_append)
      then have "seq (fst e') < seq (fst e)" using e(1,2) e'(2) z(2) unfolding newer_def by blast
      then show ?thesis by simp
    qed
  qed
  then show ?thesis using Some e(4) by simp
qed

lemma newer_subset:
  assumes "newer key x y" and "\<And>e. e \<in> set x' \<Longrightarrow> user_key (fst e) = key \<Longrightarrow> e \<in> set x"
    and "\<And>e. e \<in> set y' \<Longrightarrow> user_key (fst e) = key \<Longrightarrow> e \<in> set y"
  shows "newer key x' y'"
  using assms unfolding newer_def by blast

section \<open>Which table holds a key\<close>

lemma file_holds_ascending: "file_holds fs f es \<Longrightarrow> ascending_entries es"
  by (auto simp: file_holds_def table_rep_def)

lemma file_holds_covers:
  assumes "file_holds fs f es" and "e \<in> set es"
  shows "covers (user_key (fst e)) f"
proof -
  have asc: "ascending_entries es" by (rule file_holds_ascending [OF assms(1)])
  have ne: "es \<noteq> []" "fm_smallest f = fst (List.hd es)" "fm_largest f = fst (List.last es)"
    using assms(1) by (auto simp: file_holds_def)
  obtain i where i: "i < length es" "e = es ! i" using assms(2) by (auto simp: in_set_conv_nth)
  have le: "user_key (fst (es ! j)) \<le> user_key (fst (es ! k))" if "j < k" "k < length es" for j k
  proof -
    have "internal_key_cmp (ik_encode (fst (es ! j))) (ik_encode (fst (es ! k))) = Less"
      using asc that unfolding ascending_entries_def sorted_wrt_iff_nth_less by blast
    then show ?thesis by (auto simp: internal_key_cmp_encode cmp_def split: if_splits)
  qed
  have "user_key (fst (es ! 0)) \<le> user_key (fst e)" using le [of 0 i] i by (cases "i = 0") auto
  moreover have "user_key (fst e) \<le> user_key (fst (es ! (length es - 1)))"
    using le [of i "length es - 1"] i by (cases "i = length es - 1") auto
  ultimately show ?thesis using ne by (simp add: covers_def hd_conv_nth last_conv_nth)
qed

text \<open>The tables of one level that a lookup asks.\<close>

definition layer :: "version \<Rightarrow> nat \<Rightarrow> bytes \<Rightarrow> file_number list" where
  "layer v l key =
     (if l = 0 then map fm_number (rev (files_at v 0))
      else (case find_file_for_key (files_at v l) key of Some f \<Rightarrow> [fm_number f] | None \<Rightarrow> []))"

lemma store_files_layers: "store_files v key = concat (map (\<lambda>l. layer v l key) [0..<NUM_LEVELS])"
proof -
  have n: "[0..<NUM_LEVELS] = 0 # [1..<NUM_LEVELS]" by (simp add: NUM_LEVELS_def upt_rec)
  have "map (\<lambda>l. layer v l key) [1..<NUM_LEVELS] = map (\<lambda>level. case find_file_for_key (files_at v level) key of
      Some meta \<Rightarrow> [fm_number meta] | None \<Rightarrow> []) [1..<NUM_LEVELS]"
    by (rule map_cong) (auto simp: layer_def)
  then have "concat (map (\<lambda>l. layer v l key) [1..<NUM_LEVELS]) = level_files v key" by (simp only: level_files_def)
  moreover have "layer v 0 key = map fm_number (rev (files_at v 0))" by (simp add: layer_def)
  ultimately show ?thesis by (simp only: store_files_def n list.map concat.simps)
qed

lemma layer_sorted:
  assumes "level_sorted (files_at v l)" and "l \<noteq> 0"
  shows "n \<in> set (layer v l key) \<longleftrightarrow> (\<exists>f \<in> set (files_at v l). covers key f \<and> n = fm_number f)"
    and "length (layer v l key) \<le> 1"
proof -
  show "n \<in> set (layer v l key) \<longleftrightarrow> (\<exists>f \<in> set (files_at v l). covers key f \<and> n = fm_number f)"
  proof (cases "find_file_for_key (files_at v l) key")
    case None
    then have "\<not> (f \<in> set (files_at v l) \<and> covers key f)" for f
      using find_file_sorted [OF assms(1), of key f] by simp
    then show ?thesis using None assms(2) by (auto simp: layer_def)
  next
    case (Some g)
    then have "g \<in> set (files_at v l)" "covers key g" using find_file_sorted [OF assms(1)] by blast+
    moreover have "f = g" if "f \<in> set (files_at v l)" "covers key f" for f
      using find_file_sorted [OF assms(1), of key f] that Some by simp
    ultimately have "(\<exists>f \<in> set (files_at v l). covers key f \<and> n = fm_number f) \<longleftrightarrow> n = fm_number g" by blast
    then show ?thesis using Some assms(2) by (simp add: layer_def)
  qed
  show "length (layer v l key) \<le> 1" using assms(2) by (simp add: layer_def split: option.split)
qed

lemma layer_cong: "files_at v' l = files_at v l \<Longrightarrow> layer v' l key = layer v l key"
  by (cases "l = 0") (simp_all add: layer_def)

lemma version_holds_covers:
  assumes "version_holds fs v F" and "l < NUM_LEVELS" and "f \<in> set (files_at v l)" and "e \<in> set (F (fm_number f))"
  shows "covers (user_key (fst e)) f"
proof -
  have "file_holds fs f (F (fm_number f))" using assms(1-3) by (simp add: version_holds_def)
  then show ?thesis using assms(4) by (rule file_holds_covers)
qed

lemma layer_holds_entry:
  assumes store: "store_holds fs v F ws low" and l: "l < NUM_LEVELS"
    and f: "f \<in> set (files_at v l)" "e \<in> set (F (fm_number f))"
  shows "fm_number f \<in> set (layer v l (user_key (fst e)))"
proof (cases "l = 0")
  case False
  then show ?thesis
    using layer_sorted(1) [OF store_holds_sorted [OF store _ l] False] f
      version_holds_covers [OF store_holds_version [OF store] l f] by auto
qed (use f in \<open>simp add: layer_def\<close>)

lemma layer_in_store_files: "l < NUM_LEVELS \<Longrightarrow> n \<in> set (layer v l key) \<Longrightarrow> n \<in> set (store_files v key)"
  by (force simp: store_files_layers)

text \<open>No version is stored twice.\<close>

lemma live_ascending: "store_holds fs v F ws low \<Longrightarrow> live_number v n \<Longrightarrow> ascending_entries (F n)"
  using version_holds_table [OF store_holds_version] by (fastforce simp: table_rep_def)

lemma live_entry_in_files:
  "store_holds fs v F ws low \<Longrightarrow> live_number v n \<Longrightarrow> e \<in> set (F n) \<Longrightarrow> n \<in> set (store_files v (user_key (fst e)))"
  by (auto simp: live_number_def level_numbers_def intro: layer_in_store_files layer_holds_entry)

lemma live_versions_distinct:
  assumes store: "store_holds fs v F ws low" and "live_number v m" and "live_number v n" and "m \<noteq> n"
    and e: "e \<in> set (F m)" "e' \<in> set (F n)"
  shows "version_of e \<noteq> version_of e'"
proof
  assume eq: "version_of e = version_of e'"
  let ?key = "user_key (fst e)"
  have k: "user_key (fst e') = ?key" "seq (fst e') = seq (fst e)" using eq by (simp_all add: version_of_def)
  obtain i where i: "i < length (store_files v ?key)" "store_files v ?key ! i = m"
    using live_entry_in_files [OF store assms(2) e(1)] by (auto simp: in_set_conv_nth)
  obtain j where j: "j < length (store_files v ?key)" "store_files v ?key ! j = n"
    using live_entry_in_files [OF store assms(3) e(2)] k(1) by (auto simp: in_set_conv_nth)
  have newer: "newer ?key (F (store_files v ?key ! a)) (F (store_files v ?key ! b))"
    if "a < b" "b < length (store_files v ?key)" for a b
    using store that by (simp add: store_holds_def sorted_wrt_iff_nth_less)
  have "newer ?key (F m) (F n) \<or> newer ?key (F n) (F m)"
    using newer [of i j] newer [of j i] i j \<open>m \<noteq> n\<close> by (cases i j rule: linorder_cases) auto
  then have "seq (fst e') < seq (fst e) \<or> seq (fst e) < seq (fst e')" using e k(1) unfolding newer_def by blast
  then show False using k(2) by simp
qed

lemma distinct_contents:
  assumes store: "store_holds fs v F ws low" and "\<forall>n \<in> set ns. live_number v n" and "distinct ns"
  shows "distinct (map version_of (concat (map F ns)))"
  using assms(2,3)
proof (induction ns)
  case (Cons n ns)
  have "ascending_entries (F n)" using live_ascending [OF store] Cons.prems(1) by simp
  then have "inj_on version_of (set (F n))" using ascending_entries_unique by (auto intro: inj_onI)
  moreover have "distinct (F n)" by (rule ascending_entries_distinct) fact
  ultimately show ?case using Cons live_versions_distinct [OF store] by (fastforce simp: distinct_map)
qed simp

section \<open>What a compaction replaces\<close>

text \<open>
  What the choice of the inputs guarantees: all of level 0 or tables of the level, and every table of the next level
  that may share a key with them.
\<close>

definition picked :: "version \<Rightarrow> compaction \<Rightarrow> bool" where
  "picked v c \<longleftrightarrow> co_level c + 1 < NUM_LEVELS \<and>
     set (fst (co_inputs c)) \<subseteq> set (files_at v (co_level c)) \<and>
     set (snd (co_inputs c)) \<subseteq> set (files_at v (co_level c + 1)) \<and>
     distinct (map fm_number (fst (co_inputs c))) \<and> distinct (map fm_number (snd (co_inputs c))) \<and>
     (co_level c = 0 \<longrightarrow> fst (co_inputs c) = files_at v 0) \<and>
     (\<forall>key. \<forall>f \<in> set (fst (co_inputs c)). \<forall>g \<in> set (files_at v (co_level c + 1)).
        covers key f \<longrightarrow> covers key g \<longrightarrow> g \<in> set (snd (co_inputs c)))"

text \<open>The version after a compaction of \<open>c\<close> into \<open>news\<close>.\<close>

definition compacted :: "compaction \<Rightarrow> file_meta list \<Rightarrow> version \<Rightarrow> version \<Rightarrow> bool" where
  "compacted c news v v' \<longleftrightarrow> version_wf v' \<and>
     (\<forall>l < NUM_LEVELS. files_at v' l =
        (if l = co_level c then filter (\<lambda>f. f \<notin> set (fst (co_inputs c))) (files_at v l)
         else if l = co_level c + 1 then filter (\<lambda>f. f \<notin> set (snd (co_inputs c))) (files_at v l) @ news
         else files_at v l)) \<and>
     (\<forall>l. 1 \<le> l \<longrightarrow> l < NUM_LEVELS \<longrightarrow> level_sorted (files_at v' l))"

lemma singleton_list: "x \<in> set xs \<Longrightarrow> length xs \<le> 1 \<Longrightarrow> xs = [x]"
  by (cases xs) auto

text \<open>Only the layers of two levels change, and there the tables \<open>xs\<close> are replaced by \<open>ys\<close>.\<close>

lemma compacted_layers:
  assumes p: "picked v c" and sorted: "\<And>l. 1 \<le> l \<Longrightarrow> l < NUM_LEVELS \<Longrightarrow> level_sorted (files_at v l)" and c: "compacted c news v v'"
  shows "\<exists>N xs R ys. layer v (co_level c) key @ layer v (co_level c + 1) key = N @ xs @ R \<and>
    layer v' (co_level c) key @ layer v' (co_level c + 1) key = N @ ys @ R \<and>
    (\<forall>n \<in> set (N @ R). live_number v n) \<and>
    set xs \<subseteq> fm_number ` (set (fst (co_inputs c)) \<union> set (snd (co_inputs c))) \<and>
    (\<forall>f \<in> set (fst (co_inputs c)) \<union> set (snd (co_inputs c)). covers key f \<longrightarrow> fm_number f \<in> set xs) \<and>
    length ys \<le> 1 \<and> set ys \<subseteq> fm_number ` set news \<and>
    (R = [] \<longrightarrow> (\<forall>f \<in> set news. covers key f \<longrightarrow> fm_number f \<in> set ys)) \<and>
    (R \<noteq> [] \<longrightarrow> (\<forall>f \<in> set (fst (co_inputs c)) \<union> set (snd (co_inputs c)). \<not> covers key f))"
proof -
  let ?L = "co_level c" and ?I0 = "set (fst (co_inputs c))" and ?I1 = "set (snd (co_inputs c))"
  have L: "?L + 1 < NUM_LEVELS" and sub: "?I0 \<subseteq> set (files_at v ?L)" "?I1 \<subseteq> set (files_at v (?L + 1))"
    and all: "?L = 0 \<Longrightarrow> fst (co_inputs c) = files_at v 0"
    and overlap: "\<And>f g. f \<in> ?I0 \<Longrightarrow> covers key f \<Longrightarrow> g \<in> set (files_at v (?L + 1)) \<Longrightarrow> covers key g \<Longrightarrow> g \<in> ?I1"
    using p by (auto simp: picked_def)
  have v0: "files_at v' ?L = filter (\<lambda>f. f \<notin> ?I0) (files_at v ?L)"
    and v1: "files_at v' (?L + 1) = filter (\<lambda>f. f \<notin> ?I1) (files_at v (?L + 1)) @ news"
    and sorted': "\<And>l. 1 \<le> l \<Longrightarrow> l < NUM_LEVELS \<Longrightarrow> level_sorted (files_at v' l)"
    using c L by (auto simp: compacted_def)
  let ?A = "layer v ?L key" and ?B = "layer v (?L + 1) key" and ?A' = "layer v' ?L key" and ?B' = "layer v' (?L + 1) key"
  note B = layer_sorted [OF sorted [of "?L + 1"], where key = key] and B' = layer_sorted [OF sorted' [of "?L + 1"], where key = key]
  have unique: "f = g" if "f \<in> set (files_at v (?L + 1))" "g \<in> set (files_at v (?L + 1))" "covers key f" "covers key g" for f g
    using level_sorted_covers_unique [OF sorted [of "?L + 1"]] that L by simp
  have liveA: "live_number v n" if "n \<in> set ?A" for n
    using that L store_files_live layer_in_store_files [of ?L n v key] by simp
  have liveB: "live_number v n" if "n \<in> set ?B" for n
    using that L store_files_live layer_in_store_files [of "?L + 1" n v key] by simp
  obtain N xs where A: "?A = N @ xs" "?A' = N" "set xs \<subseteq> fm_number ` ?I0" "\<forall>f \<in> ?I0. covers key f \<longrightarrow> fm_number f \<in> set xs"
  proof (cases "?L = 0")
    case True
    then have "?A' = []" using v0 all by (simp add: layer_def)
    then show ?thesis using that [of "[]" ?A] True all by (auto simp: layer_def)
  next
    case False
    note a = layer_sorted [OF sorted [of ?L], where key = key] and a' = layer_sorted [OF sorted' [of ?L], where key = key]
    show ?thesis
    proof (cases "\<exists>f \<in> ?I0. covers key f")
      case True
      then obtain f where f: "f \<in> ?I0" "covers key f" by blast
      then have "fm_number f \<in> set ?A" using a(1) False L sub(1) by auto
      then have A: "?A = [fm_number f]" using a(2) False L by (auto intro: singleton_list)
      have one: "g = f" if "g \<in> set (files_at v ?L)" "covers key g" for g
        using level_sorted_covers_unique [OF sorted [of ?L] that(1) _ that(2) f(2)] False L sub(1) f(1) by auto
      then have "n \<notin> set ?A'" for n using a'(1) [of n] False L f(1) by (auto simp: v0)
      then have "?A' = []" by (cases ?A') auto
      then show ?thesis using that [of "[]" ?A] A f one sub(1) by auto
    next
      case none: False
      have "set ?A' = set ?A" using a(1) a'(1) False L none by (auto simp: v0)
      then have "?A' = ?A" using a(2) a'(2) False L by (cases ?A; cases ?A') auto
      then show ?thesis using that [of ?A "[]"] none by auto
    qed
  qed
  show ?thesis
  proof (cases "\<exists>m \<in> set (files_at v (?L + 1)). covers key m \<and> m \<notin> ?I1")
    case True
    then obtain m where m: "m \<in> set (files_at v (?L + 1))" "covers key m" "m \<notin> ?I1" by blast
    have none: "\<not> covers key f" if "f \<in> ?I0 \<union> ?I1" for f
      using that overlap [of f m] unique [of f m] m sub(2) by auto
    have "fm_number m \<in> set ?B" "fm_number m \<in> set ?B'" using B(1) B'(1) [unfolded v1] L m by auto
    then have "?B = [fm_number m]" "?B' = [fm_number m]" using B(2) B'(2) L by (auto intro: singleton_list)
    then show ?thesis
      using A none liveA liveB by (intro exI [of _ N] exI [of _ xs] exI [of _ ?B] exI [of _ "[]"]) auto
  next
    case False
    have b: "set ?B \<subseteq> fm_number ` ?I1" "\<forall>f \<in> ?I1. covers key f \<longrightarrow> fm_number f \<in> set ?B"
      using B(1) L False sub(2) by auto
    have b': "set ?B' \<subseteq> fm_number ` set news" "\<forall>f \<in> set news. covers key f \<longrightarrow> fm_number f \<in> set ?B'"
      using B'(1) [unfolded v1] L False by auto
    show ?thesis
    proof (intro exI conjI)
      show "?A @ ?B = N @ (xs @ ?B) @ []" by (simp add: A(1))
      show "?A' @ ?B' = N @ ?B' @ []" by (simp add: A(2))
      show "\<forall>n \<in> set (N @ []). live_number v n" using liveA A(1) by simp
      show "set (xs @ ?B) \<subseteq> fm_number ` (?I0 \<union> ?I1)"
        unfolding set_append image_Un using A(3) b(1) by (rule Un_mono)
      show "\<forall>f \<in> ?I0 \<union> ?I1. covers key f \<longrightarrow> fm_number f \<in> set (xs @ ?B)" using A(4) b(2) by simp blast
      show "length ?B' \<le> 1" using B'(2) L by simp
    qed (use b' in simp_all)
  qed
qed

section \<open>Reads across a compaction\<close>

lemma sorted_layers_replace:
  assumes "sorted_wrt (newer key) (P @ xs @ Q)" and "length ys \<le> 1"
    and "\<And>y e. y \<in> set ys \<Longrightarrow> e \<in> set y \<Longrightarrow> user_key (fst e) = key \<Longrightarrow> \<exists>x \<in> set xs. e \<in> set x"
  shows "sorted_wrt (newer key) (P @ ys @ Q)"
proof (cases ys)
  case Nil
  then show ?thesis using assms(1) by (simp add: sorted_wrt_append)
next
  case (Cons y zs)
  then have ys: "ys = [y]" using assms(2) by simp
  have old: "\<forall>x \<in> set xs. \<forall>q \<in> set Q. newer key x q" "\<forall>p \<in> set P. \<forall>x \<in> set xs. newer key p x"
    using assms(1) unfolding sorted_wrt_append set_append by blast+
  have from_xs: "\<exists>x \<in> set xs. e \<in> set x" if "e \<in> set y" "user_key (fst e) = key" for e
    using assms(3) that by (simp add: ys)
  have below: "newer key y q" if "q \<in> set Q" for q
    using old(1) from_xs that unfolding newer_def by meson
  have above: "newer key p y" if "p \<in> set P" for p
    using old(2) from_xs that unfolding newer_def by meson
  show ?thesis using assms(1) above below by (simp add: ys sorted_wrt_append)
qed

lemma kept_same_bound:
  assumes "\<forall>e \<in> set es. seq (fst e) \<le> o1 \<longleftrightarrow> seq (fst e) \<le> o2" and "lseq \<le> o1 \<longleftrightarrow> lseq \<le> o2"
  shows "kept o1 base luk lseq es = kept o2 base luk lseq es"
  using assms
proof (induction es arbitrary: luk lseq)
  case (Cons e es)
  then show ?case by (cases e) simp
qed simp

lemma kept_above_rest:
  assumes asc: "ascending_entries es" and s: "oldest \<le> s"
    and rest: "base key \<Longrightarrow> visible es key s \<noteq> None \<Longrightarrow> rest = None"
  shows "read_value (case visible (kept oldest base None 0 es) key s of None \<Rightarrow> rest | Some y \<Rightarrow> Some y) =
    read_value (case visible es key s of None \<Rightarrow> rest | Some y \<Rightarrow> Some y)"
proof -
  let ?K = "visible (kept oldest base None 0 es) key s"
  note r = kept_reads [OF asc s, where base = base and uk = key and s = 0]
  show ?thesis
  proof (cases "visible es key s")
    case None
    then have "?K = None" using set_kept [of oldest base None 0 es] unfolding visible_None_iff by blast
    then show ?thesis using None by simp
  next
    case (Some y)
    show ?thesis
    proof (cases "base key")
      case True
      then have "rest = None" using rest Some by simp
      then show ?thesis using r(1) Some by (cases ?K) (simp_all add: read_value_def)
    next
      case False
      then show ?thesis using r(2) Some by simp
    qed
  qed
qed

lemma overlap_covers: "user_key_overlap f key key \<longleftrightarrow> covers key f"
  by (auto simp: user_key_overlap_def covers_def not_less)

lemma base_level_no_entries:
  assumes store: "store_holds fs v F ws low" and "is_base_level_for_user_key c v key"
    and l: "co_level c + 2 \<le> l" "l < NUM_LEVELS"
  shows "layer v l key = []"
proof -
  have "get_overlaps v l key key = []" using assms(2) l by (simp add: is_base_level_for_user_key_def list_all_iff)
  then have "\<not> covers key f" if "f \<in> set (files_at v l)" for f
    using that by (auto simp: get_overlaps_def filter_empty_conv overlap_covers)
  moreover have "level_sorted (files_at v l)" using store_holds_sorted [OF store] l by simp
  ultimately have "n \<notin> set (layer v l key)" for n using layer_sorted(1) [of v l n key] l by auto
  then show ?thesis by (cases "layer v l key") auto
qed

lemma levels_split: "L + 1 < NUM_LEVELS \<Longrightarrow> [0..<NUM_LEVELS] = [0..<L] @ [L, L + 1] @ [L + 2..<NUM_LEVELS]"
  by (rule nth_equalityI) (auto simp: nth_append nth_Cons' not_less)

text \<open>The inputs of a compaction.\<close>

definition input_files :: "compaction \<Rightarrow> file_meta list" where
  "input_files c = fst (co_inputs c) @ snd (co_inputs c)"

lemma compacted_store_files:
  assumes p: "picked v c" and sorted: "\<And>l. 1 \<le> l \<Longrightarrow> l < NUM_LEVELS \<Longrightarrow> level_sorted (files_at v l)" and c: "compacted c news v v'"
  shows "\<exists>P xs R ys B. store_files v key = P @ xs @ R @ B \<and> store_files v' key = P @ ys @ R @ B \<and>
    B = concat (map (\<lambda>l. layer v l key) [co_level c + 2..<NUM_LEVELS]) \<and>
    (\<forall>n \<in> set (P @ R @ B). live_number v n) \<and>
    set xs \<subseteq> fm_number ` set (input_files c) \<and>
    (\<forall>f \<in> set (input_files c). covers key f \<longrightarrow> fm_number f \<in> set xs) \<and>
    length ys \<le> 1 \<and> set ys \<subseteq> fm_number ` set news \<and>
    (R = [] \<longrightarrow> (\<forall>f \<in> set news. covers key f \<longrightarrow> fm_number f \<in> set ys)) \<and>
    (R \<noteq> [] \<longrightarrow> (\<forall>f \<in> set (input_files c). \<not> covers key f))"
proof -
  let ?L = "co_level c"
  have L: "?L + 1 < NUM_LEVELS" using p by (simp add: picked_def)
  let ?A = "concat (map (\<lambda>l. layer v l key) [0..<?L])" and ?B = "concat (map (\<lambda>l. layer v l key) [?L + 2..<NUM_LEVELS])"
  have same: "layer v' l key = layer v l key" if "l < NUM_LEVELS" "l \<noteq> ?L" "l \<noteq> ?L + 1" for l
    using c that by (intro layer_cong) (simp add: compacted_def)
  have "map (\<lambda>l. layer v' l key) [0..<?L] = map (\<lambda>l. layer v l key) [0..<?L]"
    "map (\<lambda>l. layer v' l key) [?L + 2..<NUM_LEVELS] = map (\<lambda>l. layer v l key) [?L + 2..<NUM_LEVELS]"
    using same L by (auto intro!: map_cong)
  note same' = this
  have f: "store_files v key = ?A @ (layer v ?L key @ layer v (?L + 1) key) @ ?B"
    "store_files v' key = ?A @ (layer v' ?L key @ layer v' (?L + 1) key) @ ?B"
    unfolding store_files_layers levels_split [OF L] map_append concat_append list.map concat.simps append_Nil2 same'
    by (rule refl)+
  obtain N xs R ys where l: "layer v ?L key @ layer v (?L + 1) key = N @ xs @ R"
    "layer v' ?L key @ layer v' (?L + 1) key = N @ ys @ R" "\<forall>n \<in> set (N @ R). live_number v n"
    "set xs \<subseteq> fm_number ` (set (fst (co_inputs c)) \<union> set (snd (co_inputs c)))"
    "\<forall>f \<in> set (fst (co_inputs c)) \<union> set (snd (co_inputs c)). covers key f \<longrightarrow> fm_number f \<in> set xs"
    "length ys \<le> 1" "set ys \<subseteq> fm_number ` set news"
    "R = [] \<longrightarrow> (\<forall>f \<in> set news. covers key f \<longrightarrow> fm_number f \<in> set ys)"
    "R \<noteq> [] \<longrightarrow> (\<forall>f \<in> set (fst (co_inputs c)) \<union> set (snd (co_inputs c)). \<not> covers key f)"
    using compacted_layers [OF p sorted c, of key] by auto
  have live: "live_number v n" if "n \<in> set ?A \<or> n \<in> set ?B" for n
    using that f(1) store_files_live [of n v key] by auto
  have inputs: "set (input_files c) = set (fst (co_inputs c)) \<union> set (snd (co_inputs c))" by (simp add: input_files_def)
  show ?thesis
    unfolding inputs
  proof (intro exI conjI)
    show "store_files v key = (?A @ N) @ xs @ R @ ?B" by (simp only: f(1) l(1) append_assoc)
    show "store_files v' key = (?A @ N) @ ys @ R @ ?B" by (simp only: f(2) l(2) append_assoc)
    show "\<forall>n \<in> set ((?A @ N) @ R @ ?B). live_number v n" using l(3) live by auto
  qed (rule refl l(4-9))+
qed

section \<open>A compaction keeps the store\<close>

lemma picked_level:
  assumes "picked v c" and "f \<in> set (input_files c)"
  shows "\<exists>l < NUM_LEVELS. f \<in> set (files_at v l)"
proof -
  have "co_level c + 1 < NUM_LEVELS" "set (fst (co_inputs c)) \<subseteq> set (files_at v (co_level c))"
    "set (snd (co_inputs c)) \<subseteq> set (files_at v (co_level c + 1))" using assms(1) unfolding picked_def by blast+
  moreover from this(1) have "co_level c < NUM_LEVELS" by simp
  ultimately show ?thesis using assms(2) unfolding input_files_def set_append by blast
qed

lemma picked_live: "picked v c \<Longrightarrow> f \<in> set (input_files c) \<Longrightarrow> live_number v (fm_number f)"
  using picked_level live_numberI by blast

lemma picked_file_holds:
  "picked v c \<Longrightarrow> version_holds fs v F \<Longrightarrow> f \<in> set (input_files c) \<Longrightarrow> file_holds fs f (F (fm_number f))"
  using picked_level unfolding version_holds_def by blast

lemma compacted_files_from:
  "compacted c news v v' \<Longrightarrow> l < NUM_LEVELS \<Longrightarrow> f \<in> set (files_at v' l) \<Longrightarrow> f \<in> set (files_at v l) \<or> f \<in> set news"
  by (auto simp: compacted_def split: if_splits)

lemma compacted_key:
  assumes store: "store_holds fs v F ws low" and p: "picked v c" and c: "compacted c news v v'"
    and merged: "ascending_entries es" "set es = (\<Union>f \<in> set (input_files c). set (F (fm_number f)))"
    and outs: "\<And>f. f \<in> set news \<Longrightarrow> file_holds fs' f (F' (fm_number f))"
      "set (kept o1 (droppable_base c v) None 0 es) = (\<Union>f \<in> set news. set (F' (fm_number f)))"
    and F': "\<And>n. live_number v n \<Longrightarrow> F' n = F n" and s: "o1 \<le> s"
  shows "read_value (store_lookup F' v' key s) = read_value (store_lookup F v key s) \<and>
    sorted_wrt (\<lambda>m n. newer key (F' m) (F' n)) (store_files v' key)"
proof -
  let ?K = "kept o1 (droppable_base c v) None 0 es"
  obtain P xs R ys B where l: "store_files v key = P @ xs @ R @ B" "store_files v' key = P @ ys @ R @ B"
    "B = concat (map (\<lambda>l. layer v l key) [co_level c + 2..<NUM_LEVELS])" "\<forall>n \<in> set (P @ R @ B). live_number v n"
    and xs: "set xs \<subseteq> fm_number ` set (input_files c)" "\<forall>f \<in> set (input_files c). covers key f \<longrightarrow> fm_number f \<in> set xs"
    and ys: "length ys \<le> 1" "set ys \<subseteq> fm_number ` set news"
      "R = [] \<Longrightarrow> \<forall>f \<in> set news. covers key f \<longrightarrow> fm_number f \<in> set ys"
    and R: "R \<noteq> [] \<Longrightarrow> \<forall>f \<in> set (input_files c). \<not> covers key f"
    using compacted_store_files [OF p store_holds_sorted [OF store] c, of key] by blast
  have FP: "map F' P = map F P" "map F' R = map F R" "map F' B = map F B" using l(4) F' by auto
  have asc: "ascending_entries (F n)" if "n \<in> set xs" for n
    using that xs(1) picked_live [OF p] live_ascending [OF store] by auto
  have in_es: "e \<in> set es \<longleftrightarrow> (\<exists>x \<in> set (map F xs). e \<in> set x)" if e: "user_key (fst e) = key" for e
  proof
    assume "e \<in> set es"
    then obtain f where f: "f \<in> set (input_files c)" "e \<in> set (F (fm_number f))" using merged(2) by auto
    have "covers key f"
      using file_holds_covers [OF picked_file_holds [OF p store_holds_version [OF store] f(1)] f(2)] e by simp
    then show "\<exists>x \<in> set (map F xs). e \<in> set x" using xs(2) f by auto
  next
    assume "\<exists>x \<in> set (map F xs). e \<in> set x"
    then show "e \<in> set es" using xs(1) merged(2) by auto
  qed
  have in_K: "e \<in> set ?K \<longleftrightarrow> (\<exists>y \<in> set (map F' ys). e \<in> set y)" if e: "user_key (fst e) = key" for e
  proof
    assume K: "e \<in> set ?K"
    then obtain f where f: "f \<in> set news" "e \<in> set (F' (fm_number f))" using outs(2) by auto
    have "e \<in> set es" using K set_kept by blast
    then obtain g where g: "g \<in> set (input_files c)" "e \<in> set (F (fm_number g))" using merged(2) by auto
    have "covers key g"
      using file_holds_covers [OF picked_file_holds [OF p store_holds_version [OF store] g(1)] g(2)] e by simp
    then have "R = []" using R g(1) by blast
    moreover have "covers key f" using file_holds_covers [OF outs(1) [OF f(1)] f(2)] e by simp
    ultimately show "\<exists>y \<in> set (map F' ys). e \<in> set y" using ys(3) f by auto
  next
    assume "\<exists>y \<in> set (map F' ys). e \<in> set y"
    then show "e \<in> set ?K" using ys(2) outs(2) by auto
  qed
  have sorted: "sorted_wrt (newer key) (map F P @ map F xs @ map F (R @ B))"
  proof -
    have "sorted_wrt (newer key) (map F (store_files v key))" using store by (simp add: store_holds_def sorted_wrt_map)
    then show ?thesis by (simp only: l(1) map_append)
  qed
  then have sorted_xs: "sorted_wrt (newer key) (map F xs)" by (simp add: sorted_wrt_append)
  have "sorted_wrt (newer key) (map F P @ map F' ys @ map F (R @ B))"
  proof (rule sorted_layers_replace [OF sorted])
    fix y e assume y: "y \<in> set (map F' ys)" "e \<in> set y" "user_key (fst e) = key"
    then have "e \<in> set ?K" using in_K [OF y(3)] by blast
    then show "\<exists>x \<in> set (map F xs). e \<in> set x" using in_es [OF y(3)] set_kept by blast
  qed (use ys(1) in simp)
  then have newer': "sorted_wrt (\<lambda>m n. newer key (F' m) (F' n)) (store_files v' key)"
    unfolding l(2) sorted_wrt_map [symmetric] map_append FP .
  have es: "visible es key s = first_some (map (\<lambda>n. visible (F n) key s) xs)"
    using visible_layers [OF merged(1) _ in_es sorted_xs] asc by (auto simp: comp_def)
  have K: "visible ?K key s = first_some (map (\<lambda>n. visible (F' n) key s) ys)"
  proof -
    have one: "sorted_wrt (newer key) (map F' ys)" using ys(1) by (cases ys) auto
    have "ascending_entries (F' n)" if "n \<in> set ys" for n
      using that ys(2) outs(1) file_holds_ascending by fastforce
    then show ?thesis
      using visible_layers [OF kept_ascending [OF merged(1)] _ in_K one] by (auto simp: comp_def)
  qed
  let ?rest = "first_some (map (\<lambda>n. visible (F n) key s) (R @ B))"
  have rest: "?rest = None" if "droppable_base c v key" "visible es key s \<noteq> None"
  proof -
    note some = that(2)
    have "B = []" unfolding l(3) using base_level_no_entries [OF store that(1)] by simp
    moreover have "R = []"
    proof (rule ccontr)
      assume "R \<noteq> []"
      obtain e where e: "e \<in> set es" "user_key (fst e) = key" using some by (auto simp: visible_None_iff)
      then obtain g where g: "g \<in> set (input_files c)" "e \<in> set (F (fm_number g))" using merged(2) by auto
      have "covers key g"
        using file_holds_covers [OF picked_file_holds [OF p store_holds_version [OF store] g(1)] g(2)] e(2) by simp
      then show False using R [OF \<open>R \<noteq> []\<close>] g(1) by blast
    qed
    ultimately show ?thesis by simp
  qed
  have P: "map (\<lambda>n. visible (F' n) key s) P = map (\<lambda>n. visible (F n) key s) P"
    "map (\<lambda>n. visible (F' n) key s) (R @ B) = map (\<lambda>n. visible (F n) key s) (R @ B)"
    using l(4) F' by auto
  have "store_lookup F v key s = (case first_some (map (\<lambda>n. visible (F n) key s) P) of
      None \<Rightarrow> (case visible es key s of None \<Rightarrow> ?rest | Some y \<Rightarrow> Some y) | Some y \<Rightarrow> Some y)"
    unfolding store_lookup_def l(1) map_append [of _ P] map_append [of _ xs] first_some_append es by (rule refl)
  moreover have "store_lookup F' v' key s = (case first_some (map (\<lambda>n. visible (F n) key s) P) of
      None \<Rightarrow> (case visible ?K key s of None \<Rightarrow> ?rest | Some y \<Rightarrow> Some y) | Some y \<Rightarrow> Some y)"
    unfolding store_lookup_def l(2) map_append [of _ P] map_append [of _ ys] first_some_append K P by (rule refl)
  moreover have "read_value (case visible ?K key s of None \<Rightarrow> ?rest | Some y \<Rightarrow> Some y) =
      read_value (case visible es key s of None \<Rightarrow> ?rest | Some y \<Rightarrow> Some y)"
    by (rule kept_above_rest [OF merged(1) s rest])
  ultimately show ?thesis using newer' by (simp split: option.split)
qed

text \<open>The contents of the tables after the compaction: \<open>Os\<close> for the new ones.\<close>

definition with_contents :: "file_meta list \<Rightarrow> entry list list \<Rightarrow> (file_number \<Rightarrow> entry list) \<Rightarrow> file_number \<Rightarrow> entry list" where
  "with_contents news Os F n = (case map_of (zip (map fm_number news) Os) n of Some es \<Rightarrow> es | None \<Rightarrow> F n)"

lemma with_contents_new:
  assumes "distinct (map fm_number news)" and "i < length news" and "length Os = length news"
  shows "with_contents news Os F (fm_number (news ! i)) = Os ! i"
  using map_of_zip_nth [of "map fm_number news" Os i] assms by (simp add: with_contents_def)

lemma with_contents_old: "n \<notin> fm_number ` set news \<Longrightarrow> with_contents news Os F n = F n"
  by (auto simp: with_contents_def split: option.split dest!: map_of_SomeD set_zip_leftD)

lemma store_holds_compact:
  assumes store: "store_holds fs v F ws low" and p: "picked v c" and c: "compacted c news v v'" and room: "length ws < 2 ^ 63"
    and merged: "ascending_entries es" "set es = (\<Union>f \<in> set (input_files c). set (F (fm_number f)))"
    and outs: "list_all2 (file_holds fs') news Os" "concat Os = kept oldest (droppable_base c v) None 0 es"
    and fresh: "distinct (map fm_number news)" "\<And>f. f \<in> set news \<Longrightarrow> \<not> live_number v (fm_number f)"
    and frame: "\<And>n. live_number v n \<Longrightarrow> fmlookup fs' (sst_path n) = fmlookup fs (sst_path n)"
  shows "store_holds fs' v' (with_contents news Os F) ws (max low (unat (min oldest (of_nat (length ws)))))"
proof -
  let ?F = "with_contents news Os F" and ?o = "min oldest (of_nat (length ws))"
  let ?K = "kept ?o (droppable_base c v) None 0 es"
  have len: "length Os = length news" using outs(1) by (simp add: list_all2_lengthD)
  have F: "?F n = F n" if "live_number v n" for n using that fresh(2) by (intro with_contents_old) auto
  have holds: "file_holds fs' f (?F (fm_number f))" if f: "f \<in> set news" for f
  proof -
    obtain i where i: "i < length news" "f = news ! i" using f by (auto simp: in_set_conv_nth)
    then show ?thesis using list_all2_nthD [OF outs(1) i(1)] with_contents_new [OF fresh(1) i(1) len, of F] by simp
  qed
  have live_es: "seq (fst e) \<le> of_nat (length ws)" if e: "e \<in> set es" for e
  proof -
    obtain f where "f \<in> set (input_files c)" "e \<in> set (F (fm_number f))" using e merged(2) by blast
    then show ?thesis using store_holds_seq [OF store picked_live [OF p] _ room] by blast
  qed
  have K: "?K = concat Os"
    unfolding outs(2) using live_es by (intro kept_same_bound) auto
  have set_Os: "set (concat Os) = (\<Union>f \<in> set news. set (?F (fm_number f)))"
  proof -
    have Os: "map (\<lambda>f. ?F (fm_number f)) news = Os"
      using with_contents_new [OF fresh(1) _ len, of _ F] len by (intro nth_equalityI) auto
    have "set (concat (map (\<lambda>f. ?F (fm_number f)) news)) = (\<Union>f \<in> set news. set (?F (fm_number f)))" by simp
    then show ?thesis unfolding Os .
  qed
  have set_K: "set ?K = (\<Union>f \<in> set news. set (?F (fm_number f)))" unfolding K set_Os ..
  have key: "read_value (store_lookup ?F v' key s) = read_value (store_lookup F v key s) \<and>
      sorted_wrt (\<lambda>m n. newer key (?F m) (?F n)) (store_files v' key)" if "?o \<le> s" for key s
    by (rule compacted_key [OF store p c merged holds set_K F that])
  have "version_holds fs' v' ?F"
    unfolding version_holds_def
  proof (intro allI impI ballI)
    fix l f assume l: "l < NUM_LEVELS" and f: "f \<in> set (files_at v' l)"
    show "file_holds fs' f (?F (fm_number f))"
    proof (cases "f \<in> set news")
      case False
      then have "f \<in> set (files_at v l)" using compacted_files_from [OF c l f] by simp
      then show ?thesis
        using version_holds_frame [OF store_holds_version [OF store] frame] F live_numberI [OF l] l
        by (simp add: version_holds_def)
    qed (rule holds)
  qed
  moreover have "set (?F n) \<subseteq> set (mem_entries 0 ws)" if live: "live_number v' n" for n
  proof -
    obtain l f where f: "l < NUM_LEVELS" "f \<in> set (files_at v' l)" "n = fm_number f"
      using live by (auto simp: live_number_def level_numbers_def)
    show ?thesis
    proof (cases "f \<in> set news")
      case True
      then have "set (?F n) \<subseteq> set es" using set_Os K set_kept [of ?o "droppable_base c v" None 0 es] f(3) by auto
      also have "\<dots> \<subseteq> set (mem_entries 0 ws)" using merged(2) store_holds_entries [OF store picked_live [OF p]] by auto
      finally show ?thesis .
    next
      case False
      then have "live_number v n" using compacted_files_from [OF c f(1,2)] live_numberI f by auto
      then show ?thesis using F store_holds_entries [OF store] by simp
    qed
  qed
  moreover have "read_value (store_lookup ?F v' key (of_nat s)) = read_value (last_write (take s ws) key)"
    if s: "max low (unat ?o) \<le> s" "s \<le> length ws" for key s
  proof -
    have "unat (of_nat s :: u64) = s" using s(2) room by (simp add: unat_of_nat)
    then have "?o \<le> of_nat s" using s(1) by (simp add: word_le_nat_alt)
    then show ?thesis using key store_holds_reads [OF store _ s(2)] s(1) by simp
  qed
  moreover have "unat ?o \<le> length ws"
  proof -
    have "unat ?o \<le> unat (of_nat (length ws) :: u64)" by (simp add: word_le_nat_alt [symmetric])
    then show ?thesis using room by (simp add: unat_of_nat)
  qed
  moreover have "version_wf v'" "\<forall>l. 1 \<le> l \<longrightarrow> l < NUM_LEVELS \<longrightarrow> level_sorted (files_at v' l)"
    using c unfolding compacted_def by blast+
  moreover have "sorted_wrt (\<lambda>m n. newer key (?F m) (?F n)) (store_files v' key)" for key
    using key [OF order_refl] by blast
  ultimately show ?thesis
    using store_holds_low [OF store] unfolding store_holds_def by (simp only: max.bounded_iff) blast
qed

end
