(* ===== verification/Compact_Step.thy ===== *)
theory Compact_Step
  imports Compacting
begin

text \<open>
  \<open>run_one_compaction\<close> on a database that holds a history: the choice of the inputs, the edit, the new version
  and the state it leaves.
\<close>

section \<open>The choice of the inputs\<close>

lemma fold_min_le: "x \<in> set (y # ys) \<Longrightarrow> fold min ys y \<le> (x :: bytes)"
proof -
  assume x: "x \<in> set (y # ys)"
  have "fold min ys y = Min (set (y # ys))" by (rule Min.set_eq_fold [symmetric])
  then show ?thesis using x by (simp only:) (rule Min_le, simp_all)
qed

lemma fold_max_ge: "x \<in> set (y # ys) \<Longrightarrow> (x :: bytes) \<le> fold max ys y"
proof -
  assume x: "x \<in> set (y # ys)"
  have "fold max ys y = Max (set (y # ys))" by (rule Max.set_eq_fold [symmetric])
  then show ?thesis using x by (simp only:) (rule Max_ge, simp_all)
qed

lemma key_min_le: "k \<in> set ks \<Longrightarrow> key_min ks \<le> k"
  using fold_min_le [of k "List.hd ks" "tl ks"] by (cases ks) (simp_all add: key_min_def)

lemma key_max_ge: "k \<in> set ks \<Longrightarrow> k \<le> key_max ks"
  using fold_max_ge [of k "List.hd ks" "tl ks"] by (cases ks) (simp_all add: key_max_def)

lemma pick_compaction_result:
  assumes "pick_compaction vs = Inr (Some c)"
  shows "\<exists>best. compaction_score (vs_current vs) = Inr (Some (co_level c, best))" "co_level c + 1 < NUM_LEVELS"
    "pick_level_inputs vs (co_level c) = Some (fst (co_inputs c))"
    "snd (co_inputs c) = (if fst (co_inputs c) \<noteq> [] then get_overlaps (vs_current vs) (co_level c + 1)
       (key_min (map (\<lambda>f. user_key (fm_smallest f)) (fst (co_inputs c))))
       (key_max (map (\<lambda>f. user_key (fm_largest f)) (fst (co_inputs c)))) else [])"
    "co_grandparents c = [] \<or> (\<exists>lo hi. co_level c + 2 < NUM_LEVELS \<and>
       co_grandparents c = get_overlaps (vs_current vs) (co_level c + 2) lo hi)"
proof -
  let ?v = "vs_current vs"
  define inputs1 where "inputs1 level inputs0 = (if inputs0 \<noteq> [] then get_overlaps ?v (level + 1)
       (key_min (map (\<lambda>f. user_key (fm_smallest f)) inputs0)) (key_max (map (\<lambda>f. user_key (fm_largest f)) inputs0)) else [])"
    for level and inputs0 :: "file_meta list"
  define gps where "gps level inputs0 = (if level + 2 < NUM_LEVELS \<and> inputs0 \<noteq> [] then
       let all_files = inputs0 @ inputs1 level inputs0 in get_overlaps ?v (level + 2)
         (key_min (map (\<lambda>f. user_key (fm_smallest f)) all_files)) (key_max (map (\<lambda>f. user_key (fm_largest f)) all_files)) else [])"
    for level and inputs0 :: "file_meta list"
  have pick: "pick_compaction vs = bind_res (compaction_score ?v) (\<lambda>best. case best of None \<Rightarrow> Inr None
      | Some (level, _) \<Rightarrow> if NUM_LEVELS - 1 \<le> level then Inr None
          else (case pick_level_inputs vs level of None \<Rightarrow> Inr None
            | Some inputs0 \<Rightarrow> Inr (Some \<lparr>co_level = level, co_inputs = (inputs0, inputs1 level inputs0),
                co_grandparents = gps level inputs0\<rparr>)))"
    by (simp only: pick_compaction_def Let_def inputs1_def gps_def)
  obtain level best inputs0 where b: "compaction_score ?v = Inr (Some (level, best))" "\<not> NUM_LEVELS - 1 \<le> level"
    "pick_level_inputs vs level = Some inputs0"
    and c: "c = \<lparr>co_level = level, co_inputs = (inputs0, inputs1 level inputs0), co_grandparents = gps level inputs0\<rparr>"
  proof -
    obtain best where best: "compaction_score ?v = Inr best" and r: "(case best of None \<Rightarrow> Inr None
      | Some (level, _) \<Rightarrow> if NUM_LEVELS - 1 \<le> level then Inr None
          else (case pick_level_inputs vs level of None \<Rightarrow> Inr None
            | Some inputs0 \<Rightarrow> Inr (Some \<lparr>co_level = level, co_inputs = (inputs0, inputs1 level inputs0),
                co_grandparents = gps level inputs0\<rparr>))) = (Inr (Some c) :: compaction option res)"
      using assms unfolding pick bind_res_eq_Inr by blast
    then obtain level b where p: "best = Some (level, b)" by (cases best) auto
    then have "\<not> NUM_LEVELS - 1 \<le> level" using r by (auto split: if_splits)
    moreover from this obtain inputs0 where "pick_level_inputs vs level = Some inputs0" using r p by (auto split: option.splits)
    ultimately show thesis using that [of level b inputs0] best r p by simp
  qed
  show "\<exists>best. compaction_score ?v = Inr (Some (co_level c, best))" using b(1) by (simp add: c)
  show "co_level c + 1 < NUM_LEVELS" using b(2) by (simp add: c)
  show "pick_level_inputs vs (co_level c) = Some (fst (co_inputs c))" using b(3) by (simp add: c)
  show "snd (co_inputs c) = (if fst (co_inputs c) \<noteq> [] then get_overlaps ?v (co_level c + 1)
       (key_min (map (\<lambda>f. user_key (fm_smallest f)) (fst (co_inputs c))))
       (key_max (map (\<lambda>f. user_key (fm_largest f)) (fst (co_inputs c)))) else [])"
    by (simp add: c inputs1_def)
  show "co_grandparents c = [] \<or> (\<exists>lo hi. co_level c + 2 < NUM_LEVELS \<and>
       co_grandparents c = get_overlaps ?v (co_level c + 2) lo hi)"
    by (auto simp: c gps_def Let_def)
qed

lemma get_overlaps_sub: "set (get_overlaps v l a b) \<subseteq> set (files_at v l)"
  by (auto simp: get_overlaps_def)

lemma pick_level_inputs_sub:
  "pick_level_inputs vs l = Some fs \<Longrightarrow> set fs \<subseteq> set (files_at (vs_current vs) l) \<and> (l = 0 \<longrightarrow> fs = files_at (vs_current vs) 0) \<and>
   (l \<noteq> 0 \<longrightarrow> length fs = 1)"
  by (auto simp: pick_level_inputs_def Let_def find_Some_iff split: if_splits)

lemma pick_compaction_picked:
  assumes "pick_compaction vs = Inr (Some c)" and wf: "version_wf (vs_current vs)"
  shows "picked (vs_current vs) c"
proof -
  let ?v = "vs_current vs" and ?L = "co_level c" and ?I = "fst (co_inputs c)"
  note p = pick_compaction_result(2-4) [OF assms(1)]
  note i = pick_level_inputs_sub [OF p(2)]
  have d: "distinct (map fm_number (files_at ?v l))" if "l < NUM_LEVELS" for l using wf that by (simp add: version_wf_def)
  have "distinct (map fm_number ?I)"
  proof (cases "?L = 0")
    case True
    then show ?thesis using i d [of 0] by (simp add: NUM_LEVELS_def)
  next
    case False
    then show ?thesis using i by (cases ?I) auto
  qed
  moreover have "distinct (map fm_number (snd (co_inputs c)))"
    using d [OF p(1)] by (simp add: p(3) get_overlaps_def distinct_map_filter)
  moreover have "g \<in> set (snd (co_inputs c))"
    if f: "f \<in> set ?I" "covers key f" and g: "g \<in> set (files_at ?v (?L + 1))" "covers key g" for f g key
  proof -
    have "key_min (map (\<lambda>f. user_key (fm_smallest f)) ?I) \<le> user_key (fm_smallest f)" using f(1) by (intro key_min_le) simp
    moreover have "user_key (fm_largest f) \<le> key_max (map (\<lambda>f. user_key (fm_largest f)) ?I)" using f(1) by (intro key_max_ge) simp
    ultimately have "user_key_overlap g (key_min (map (\<lambda>f. user_key (fm_smallest f)) ?I)) (key_max (map (\<lambda>f. user_key (fm_largest f)) ?I))"
      using f(2) g(2) by (auto simp: covers_def user_key_overlap_def not_less intro: order_trans)
    moreover have "?I \<noteq> []" using f(1) by auto
    ultimately show ?thesis using g(1) by (simp add: p(3) get_overlaps_def)
  qed
  moreover have "set (snd (co_inputs c)) \<subseteq> set (files_at ?v (?L + 1))" unfolding p(3) by (simp only: get_overlaps_sub list.set(1) empty_subsetI split: if_split) blast
  ultimately show ?thesis using i p(1) unfolding picked_def by blast
qed

text \<open>The scores were computed, so no sum of sizes overflows.\<close>

lemma score_loop_sizes:
  "score_loop v ls best = Inr r \<Longrightarrow> l \<in> set ls \<Longrightarrow> l \<noteq> 0 \<Longrightarrow> \<exists>size. total_size v l = Inr size"
  by (induction ls arbitrary: best) (fastforce simp: bind_res_eq_Inr level_score_def split: if_splits)+

lemma sum_u64_Inr: "sum_u64 acc xs = Inr r \<Longrightarrow> unat acc + sum_list (map unat xs) < 2 ^ 64"
proof (induction acc xs rule: sum_u64.induct)
  case (1 acc)
  then show ?case using unsigned_less [of acc] by simp
next
  case (2 acc x xs)
  then have r: "unat acc + unat x < 2 ^ 64" "sum_u64 (acc + x) xs = Inr r" by (auto split: if_splits)
  then have "unat (acc + x) = unat acc + unat x" by (simp add: unat_word_ariths)
  then show ?case using 2(1) [OF r] by simp
qed

lemma pick_compaction_grandparents:
  assumes "pick_compaction vs = Inr (Some c)"
  shows "sizes_from (co_grandparents c) 0 < 2 ^ 64"
proof (cases "co_grandparents c = []")
  case False
  then obtain lo hi where l: "co_level c + 2 < NUM_LEVELS"
    and g: "co_grandparents c = get_overlaps (vs_current vs) (co_level c + 2) lo hi"
    using pick_compaction_result(5) [OF assms] by blast
  let ?fs = "files_at (vs_current vs) (co_level c + 2)" and ?size = "\<lambda>f. unat (fm_file_size f)"
  obtain best where s: "compaction_score (vs_current vs) = Inr (Some (co_level c, best))"
    using pick_compaction_result(1) [OF assms] by blast
  obtain size where "total_size (vs_current vs) (co_level c + 2) = Inr size"
    using score_loop_sizes [OF s [unfolded compaction_score_def], of "co_level c + 2"] l by auto
  then have "sum_list (map ?size ?fs) < 2 ^ 64"
    using sum_u64_Inr [of 0 "map fm_file_size ?fs"] by (simp add: total_size_def comp_def)
  moreover have "sum_list (map ?size (filter P ?fs)) \<le> sum_list (map ?size ?fs)" for P
    by (rule sum_list_filter_le_nat)
  ultimately show ?thesis unfolding g sizes_from_def get_overlaps_def drop_0 by (meson le_less_trans)
qed (simp add: sizes_from_def)

section \<open>The edit of a compaction\<close>

lemma fold_add_file:
  "foldl (\<lambda>e f. add_file l f e) e fs = e\<lparr>ve_new_files := ve_new_files e @ map (\<lambda>f. \<lparr>nf_level = l, nf_meta = f\<rparr>) fs\<rparr>"
  by (induction fs arbitrary: e) (simp_all add: add_file_def)

lemma fold_add_delete:
  "foldl (\<lambda>e (lvl, num). add_delete (of_nat lvl) num e) e ds =
   e\<lparr>ve_deleted_files := ve_deleted_files e @ map (\<lambda>(lvl, num). \<lparr>df_level = of_nat lvl, df_number = num\<rparr>) ds\<rparr>"
  by (induction ds arbitrary: e) (auto simp: add_delete_def)

lemma compaction_edit_simps [simp]:
  "ve_new_files (compaction_edit l out g) = map (\<lambda>f. \<lparr>nf_level = of_nat (l + 1), nf_meta = f\<rparr>) (cp_new_files out)"
  "ve_deleted_files (compaction_edit l out g) = map (\<lambda>(lvl, num). \<lparr>df_level = of_nat lvl, df_number = num\<rparr>) (cp_deleted_files out)"
  "ve_compact_pointers (compaction_edit l out g) =
     (if cp_new_files out = [] then [] else [(of_nat l, user_key (fm_largest (List.last (cp_new_files out))))])"
  "ve_log_number (compaction_edit l out g) = None" "ve_comparator (compaction_edit l out g) = None"
  "ve_next_file_number (compaction_edit l out g) = Some (id_next g)" "ve_last_sequence (compaction_edit l out g) = None"
  unfolding compaction_edit_def Let_def fold_add_file fold_add_delete
  by (simp_all add: set_next_file_number_def set_compact_pointer_def version_edit_new_def)

lemma unat_level [simp]: "l < NUM_LEVELS \<Longrightarrow> unat (of_nat l :: u32) = l"
  by (simp add: unat_of_nat NUM_LEVELS_def)

lemma compaction_deleted_at:
  assumes p: "picked v c" and wf: "version_wf v" and l: "l < NUM_LEVELS" and f: "f \<in> set (files_at v l)"
  shows "deleted_at (map (\<lambda>(lvl, num). \<lparr>df_level = of_nat lvl, df_number = num\<rparr>) (input_file_numbers c)) l f \<longleftrightarrow>
    l = co_level c \<and> f \<in> set (fst (co_inputs c)) \<or> l = co_level c + 1 \<and> f \<in> set (snd (co_inputs c))"
proof -
  let ?L = "co_level c"
  have L: "?L + 1 < NUM_LEVELS" and sub: "set (fst (co_inputs c)) \<subseteq> set (files_at v ?L)"
    "set (snd (co_inputs c)) \<subseteq> set (files_at v (?L + 1))" using p unfolding picked_def by blast+
  have "inj_on fm_number (set (files_at v l))" using wf l by (simp add: version_wf_def distinct_map)
  then have same: "g \<in> set (files_at v l) \<Longrightarrow> fm_number g = fm_number f \<Longrightarrow> g = f" for g using f by (auto dest: inj_onD)
  have "deleted_at (map (\<lambda>(lvl, num). \<lparr>df_level = of_nat lvl, df_number = num\<rparr>) (input_file_numbers c)) l f \<longleftrightarrow>
      (\<exists>g \<in> set (fst (co_inputs c)). ?L = l \<and> fm_number g = fm_number f) \<or>
      (\<exists>g \<in> set (snd (co_inputs c)). ?L + 1 = l \<and> fm_number g = fm_number f)"
    using unat_level [OF L] L by (auto simp: deleted_at_def input_file_numbers_def bex_Un)
  also have "\<dots> \<longleftrightarrow> l = ?L \<and> f \<in> set (fst (co_inputs c)) \<or> l = ?L + 1 \<and> f \<in> set (snd (co_inputs c))"
    using same sub by blast
  finally show ?thesis .
qed

lemma compaction_applied:
  assumes p: "picked v c" and wf: "version_wf v" and dels: "cp_deleted_files out = input_file_numbers c"
    and fresh: "distinct (map fm_number (cp_new_files out))" "\<And>f. f \<in> set (cp_new_files out) \<Longrightarrow> \<not> live_number v (fm_number f)"
    and a: "apply_edit v (compaction_edit (co_level c) out g) = Inr v'"
    and sorted: "\<forall>l. 1 \<le> l \<longrightarrow> l < NUM_LEVELS \<longrightarrow> level_sorted (files_at v' l)"
  shows "compacted c (cp_new_files out) v v'"
proof -
  let ?L = "co_level c" and ?news = "cp_new_files out"
  have L: "?L + 1 < NUM_LEVELS" using p by (simp add: picked_def)
  have wf': "version_wf v'"
    using fresh by (intro version_wf_apply_edit [OF wf a]) (auto simp: comp_def live_number_def)
  have files: "files_at v' l = (if l = ?L then filter (\<lambda>f. f \<notin> set (fst (co_inputs c))) (files_at v l)
      else if l = ?L + 1 then filter (\<lambda>f. f \<notin> set (snd (co_inputs c))) (files_at v l) @ ?news else files_at v l)"
    if l: "l < NUM_LEVELS" for l
  proof -
    have len: "l < length (v_files v)" using l wf by (simp add: version_wf_def)
    have new: "map nf_meta (filter (\<lambda>f. unat (nf_level f) = l) (map (\<lambda>f. \<lparr>nf_level = of_nat (?L + 1), nf_meta = f\<rparr>) ?news)) =
        (if l = ?L + 1 then ?news else [])"
      using unat_level [OF L] by (auto simp: filter_map comp_def simp del: of_nat_add of_nat_Suc)
    have del: "filter (\<lambda>f. \<not> deleted_at (ve_deleted_files (compaction_edit ?L out g)) l f) (files_at v l) =
        filter (\<lambda>f. \<not> (l = ?L \<and> f \<in> set (fst (co_inputs c)) \<or> l = ?L + 1 \<and> f \<in> set (snd (co_inputs c)))) (files_at v l)"
      using compaction_deleted_at [OF p wf l] by (intro filter_cong) (simp_all add: dels)
    show ?thesis
      unfolding apply_edit_files(2) [OF a len] del using new by auto
  qed
  show ?thesis unfolding compacted_def using wf' files sorted by blast
qed

section \<open>The merged entries\<close>

lemma merged_entries:
  assumes store: "store_holds fs v F ws low" and p: "picked v c" and wf: "version_wf v"
  shows "\<exists>es. ascending_entries es \<and> mset es = mset (concat (map (\<lambda>f. F (fm_number f)) (input_files c))) \<and>
    set es = (\<Union>f \<in> set (input_files c). set (F (fm_number f))) \<and> set es \<subseteq> set (mem_entries 0 ws) \<and> distinct es"
proof -
  let ?all = "concat (map (\<lambda>f. F (fm_number f)) (input_files c))" and ?ns = "map fm_number (input_files c)"
  have "set (map fm_number (fst (co_inputs c))) \<inter> set (map fm_number (snd (co_inputs c))) = {}"
  proof -
    have "co_level c + 1 < NUM_LEVELS" "set (fst (co_inputs c)) \<subseteq> set (files_at v (co_level c))"
      "set (snd (co_inputs c)) \<subseteq> set (files_at v (co_level c + 1))" using p unfolding picked_def by blast+
    moreover from this(1) have "level_numbers v (co_level c) \<inter> level_numbers v (co_level c + 1) = {}"
      using wf by (simp add: version_wf_def)
    ultimately show ?thesis unfolding level_numbers_def by auto
  qed
  then have ns: "distinct ?ns" using p by (simp add: picked_def input_files_def)
  have live: "\<forall>n \<in> set ?ns. live_number v n" using picked_live [OF p] by auto
  have "distinct (map version_of (concat (map F ?ns)))" by (rule distinct_contents [OF store live ns])
  then have d: "distinct (map version_of ?all)" by (simp add: comp_def)
  let ?es = "sort_key fst ?all"
  have m: "mset ?es = mset ?all" by simp
  have d': "distinct (map version_of ?es)"
    using d mset_eq_imp_distinct_iff [of "map version_of ?es" "map version_of ?all"] m by (simp only: mset_map)
  have "ascending_entries ?es" using sorted_distinct_ascending [OF _ d'] by simp
  moreover have s: "set ?es = (\<Union>f \<in> set (input_files c). set (F (fm_number f)))" by simp
  moreover have "set ?es \<subseteq> set (mem_entries 0 ws)"
    unfolding s using picked_live [OF p] store_holds_entries [OF store] by blast
  moreover have "distinct ?es" using d' by (simp add: distinct_map)
  ultimately show ?thesis using m by blast
qed

lemma sum_set_le_sum_list: "sum f (set ys) \<le> (\<Sum>y\<leftarrow>ys. f y :: nat)"
  by (induction ys) (auto simp: sum.insert_if)

lemma sum_list_distinct_subset:
  assumes "distinct xs" and "set xs \<subseteq> set ys"
  shows "(\<Sum>x\<leftarrow>xs. f x) \<le> (\<Sum>y\<leftarrow>ys. f y :: nat)"
proof -
  have "(\<Sum>x\<leftarrow>xs. f x) = sum f (set xs)" using assms(1) by (rule sum_list_distinct_conv_sum_set)
  also have "\<dots> \<le> sum f (set ys)" using assms(2) by (intro sum_mono2) auto
  also have "\<dots> \<le> (\<Sum>y\<leftarrow>ys. f y)" by (rule sum_set_le_sum_list)
  finally show ?thesis .
qed

lemma table_limits_subset:
  assumes "table_limits bt bpk ys" and "distinct xs" and "set xs \<subseteq> set ys"
  shows "table_limits bt bpk xs"
proof -
  have e: "entries_bound (encode_entries zs) = (\<Sum>z\<leftarrow>zs. 64 + length (ik_encode (fst z)) + length (snd z))" for zs
    by (induction zs) auto
  have "entries_bound (encode_entries xs) \<le> entries_bound (encode_entries ys)"
    unfolding e by (rule sum_list_distinct_subset [OF assms(2,3)])
  then show ?thesis using assms(1) by (simp add: table_limits_def)
qed

section \<open>The step\<close>

lemma list_all2_concat_sub: "list_all2 P xs yss \<Longrightarrow> x \<in> set xs \<Longrightarrow> \<exists>ys. P x ys \<and> set ys \<subseteq> set (concat yss)"
  by (induction rule: list_all2_induct) auto

lemma do_compaction_store:
  assumes store: "store_holds fs v F ws low" and p: "picked v c" and limits: "table_limits bt bpk (mem_entries 0 ws)"
    and room: "unat (id_next g) + length ws < 2 ^ 64" and gp: "sizes_from (co_grandparents c) 0 < 2 ^ 64"
    and live: "\<And>n. live_number v n \<Longrightarrow> n < id_next g"
  shows "\<exists>out g' fs' Os es. do_compaction c v g oldest bt bpk fs = (Inr out, g', fs') \<and>
    ascending_entries es \<and> set es = (\<Union>f \<in> set (input_files c). set (F (fm_number f))) \<and>
    list_all2 (file_holds fs') (cp_new_files out) Os \<and> concat Os = kept oldest (droppable_base c v) None 0 es \<and>
    cp_deleted_files out = input_file_numbers c \<and> distinct (map fm_number (cp_new_files out)) \<and>
    (\<forall>f \<in> set (cp_new_files out). \<not> live_number v (fm_number f) \<and> meta_ok f) \<and> id_next g \<le> id_next g' \<and>
    (\<forall>name. (\<forall>n. id_next g \<le> n \<longrightarrow> n < id_next g' \<longrightarrow> name \<noteq> sst_path n) \<longrightarrow> fmlookup fs' name = fmlookup fs name)"
proof -
  obtain es where es: "ascending_entries es" "mset es = mset (concat (map (\<lambda>f. F (fm_number f)) (input_files c)))"
    "set es = (\<Union>f \<in> set (input_files c). set (F (fm_number f)))" "set es \<subseteq> set (mem_entries 0 ws)" "distinct es"
    using merged_entries [OF store p store_holds_wf [OF store]] by blast
  have lim: "table_limits bt bpk es" by (rule table_limits_subset [OF limits es(5,4)])
  have "length es \<le> length (mem_entries 0 ws)"
    using sum_list_distinct_subset [OF es(5,4), of "\<lambda>_. 1"] by (simp add: sum_list_triv)
  also have "\<dots> = length ws" by (induction ws rule: rev_induct) (auto simp: mem_entries_snoc split: prod.split)
  finally have room': "unat (id_next g) + length es < 2 ^ 64" using room by simp
  have inputs: "list_all2 (file_holds fs) (fst (co_inputs c) @ snd (co_inputs c)) (map (\<lambda>f. F (fm_number f)) (input_files c))"
    using picked_file_holds [OF p store_holds_version [OF store]]
    by (simp add: list_all2_conv_all_nth flip: input_files_def)
  obtain out g' fs' Os where d: "do_compaction c v g oldest bt bpk fs = (Inr out, g', fs')"
    "list_all2 (file_holds fs') (cp_new_files out) Os" "concat Os = kept oldest (droppable_base c v) None 0 es"
    "cp_deleted_files out = input_file_numbers c"
    "\<forall>f \<in> set (cp_new_files out). id_next g \<le> fm_number f \<and> fm_number f < id_next g' \<and> fm_allowed_seeks f = 0"
    "sorted_wrt (<) (map fm_number (cp_new_files out))" "id_next g \<le> id_next g'"
    "\<forall>name. (\<forall>n. id_next g \<le> n \<longrightarrow> n < id_next g' \<longrightarrow> name \<noteq> sst_path n) \<longrightarrow> fmlookup fs' name = fmlookup fs name"
    using do_compaction_rep [OF inputs es(1,2) room' gp lim, of v oldest] by blast
  have "\<not> live_number v (fm_number f) \<and> meta_ok f" if f: "f \<in> set (cp_new_files out)" for f
  proof
    show "\<not> live_number v (fm_number f)" using live [of "fm_number f"] d(5) f by (meson not_le)
    obtain ys where ys: "file_holds fs' f ys" "set ys \<subseteq> set (concat Os)" using list_all2_concat_sub [OF d(2) f] by blast
    have "set ys \<subseteq> set es" using ys(2) set_kept unfolding d(3) by blast
    moreover have "distinct ys" by (rule ascending_entries_distinct [OF file_holds_ascending [OF ys(1)]])
    ultimately have "table_limits bt bpk ys" using table_limits_subset [OF lim] by blast
    then show "meta_ok f" using file_holds_meta_ok [OF ys(1)] d(5) f by blast
  qed
  moreover have "distinct (map fm_number (cp_new_files out))" using d(6) by (simp add: strict_sorted_iff)
  ultimately show ?thesis using d(1-4,7,8) es(1,3) by blast
qed

lemma compaction_edit_levels:
  assumes L: "co_level c + 1 < NUM_LEVELS" and "cp_deleted_files out = input_file_numbers c"
  shows "levels_ok (compaction_edit (co_level c) out g)"
    "\<forall>p \<in> set (ve_compact_pointers (compaction_edit (co_level c) out g)). unat (fst p) < NUM_LEVELS"
proof -
  have u: "unat (of_nat (co_level c + 1) :: u32) = co_level c + 1" "unat (of_nat (co_level c) :: u32) = co_level c"
    using L by (rule unat_level, intro unat_level) (use L in simp)
  show "levels_ok (compaction_edit (co_level c) out g)"
    using u assms by (auto simp: levels_ok_def input_file_numbers_def)
  show "\<forall>p \<in> set (ve_compact_pointers (compaction_edit (co_level c) out g)). unat (fst p) < NUM_LEVELS"
    using u L by simp
qed

lemma compaction_edit_ok: "\<forall>f \<in> set (cp_new_files out). meta_ok f \<Longrightarrow> edit_ok (compaction_edit l out g)"
  using last_in_set [of "cp_new_files out"] by (fastforce simp: edit_ok_def meta_ok_def)

lemma cache_ok_evict_all: "cache_ok opens c \<Longrightarrow> cache_ok opens (foldl (\<lambda>c (_, num). cache_evict num c) c ds)"
  by (induction ds arbitrary: c) (auto intro: cache_ok_evict)

definition levels_sorted :: "version \<Rightarrow> bool" where
  "levels_sorted v \<longleftrightarrow> (\<forall>l. 1 \<le> l \<longrightarrow> l < NUM_LEVELS \<longrightarrow> level_sorted (files_at v l))"

text \<open>
  A round of compaction always succeeds while file numbers last; the database holds the history still if the
  levels of the new version are sorted.
\<close>

lemma compaction_step:
  assumes H: "inner_holds crc ops b (d_inner db)" and c: "cache_ok (open_table (db_fs (d_inner db))) (d_cache db)"
    and pick: "pick_compaction (db_version_set (d_inner db)) = Inr (Some c)"
    and room: "unat (id_next (db_id_gen (d_inner db))) + length ops < 2 ^ 64"
  shows "\<exists>db'. run_one_compaction crc db = (Inr True, db') \<and> keeps_tables (db_fs (d_inner db)) (db_fs (d_inner db')) \<and>
    db_options (d_inner db') = db_options (d_inner db) \<and>
    (levels_sorted (vs_current (db_version_set (d_inner db'))) \<longrightarrow>
       inner_holds crc ops b (d_inner db') \<and> cache_ok (open_table (db_fs (d_inner db'))) (d_cache db'))"
proof -
  let ?inner = "d_inner db"
  let ?vs = "db_version_set ?inner" and ?opts = "db_options ?inner" and ?fs = "db_fs ?inner" and ?n = "id_next (db_id_gen ?inner)"
  let ?v = "vs_current ?vs" and ?o = "oldest_snapshot_seq ?vs" and ?ws = "take b ops"
  obtain F low eds where I: "b \<le> length ops" "history_fits ?opts ops" "store_holds ?fs ?v F ?ws low"
    "snapshots_within low (length ops) ?vs" "memory_holds b ops ?inner" "log_matches crc b ops ?inner"
    "manifest_matches crc eds (of_nat b) ?vs ?fs" "numbers_fresh ?inner"
    using H unfolding inner_holds_def by blast
  have p: "picked ?v c" by (rule pick_compaction_picked [OF pick store_holds_wf [OF I(3)]])
  have L: "co_level c + 1 < NUM_LEVELS" using p by (simp add: picked_def)
  have lim: "table_limits (opt_block_size ?opts) (bloom_bits_per_key ?opts) (mem_entries 0 ?ws)"
    using history_fits_limits [of ?opts "[]" ?ws] history_fits_take [OF I(2)] by simp
  have room': "unat (id_next (id_generator_new ?n)) + length ?ws < 2 ^ 64" using room by (simp add: id_generator_new_def)
  have live: "n < id_next (id_generator_new ?n)" if "live_number ?v n" for n
    using inner_holds_not_live [OF I(3,8) that] by (simp add: id_generator_new_def)
  obtain out g' fs1 Os es where d: "do_compaction c ?v (id_generator_new ?n) ?o (opt_block_size ?opts) (bloom_bits_per_key ?opts) ?fs =
      (Inr out, g', fs1)" "ascending_entries es" "set es = (\<Union>f \<in> set (input_files c). set (F (fm_number f)))"
    "list_all2 (file_holds fs1) (cp_new_files out) Os" "concat Os = kept ?o (droppable_base c ?v) None 0 es"
    "cp_deleted_files out = input_file_numbers c" "distinct (map fm_number (cp_new_files out))"
    "\<forall>f \<in> set (cp_new_files out). \<not> live_number ?v (fm_number f) \<and> meta_ok f" "?n \<le> id_next g'"
    and frame: "\<forall>name. (\<forall>n. ?n \<le> n \<longrightarrow> n < id_next g' \<longrightarrow> name \<noteq> sst_path n) \<longrightarrow> fmlookup fs1 name = fmlookup ?fs name"
    using do_compaction_store [OF I(3) p lim room' pick_compaction_grandparents [OF pick] live, of ?o]
    by (simp add: id_generator_new_def) blast
  let ?e = "compaction_edit (co_level c) out g'"
  have "\<forall>f \<in> set (cp_new_files out). meta_ok f" using d(8) by blast
  then have ok: "edit_ok ?e" by (rule compaction_edit_ok)
  obtain v2 vs2 fs2 where w: "write_new_version crc ?e ?vs fs1 = (Inr v2, vs2, fs2)"
    using write_new_version_total [OF compaction_edit_levels [OF L d(6)]] by blast
  note r = write_new_version_result [OF w, simplified]
  have m1: "manifest_matches crc eds (of_nat b) ?vs fs1" by (rule manifest_matches_other [OF I(7)]) (simp_all add: frame)
  note m2 = manifest_matches_append [OF m1 ok w, simplified]
  have look: "fmlookup fs2 name = fmlookup ?fs name"
    if "name \<noteq> manifest_path (vs_manifest_number ?vs)" "\<forall>n. ?n \<le> n \<longrightarrow> n < id_next g' \<longrightarrow> name \<noteq> sst_path n" for name
    using m2(2) that frame by simp
  let ?g = "bump_to (id_next g') (db_id_gen ?inner)"
  have g: "id_next ?g = id_next g'" using d(9) by (auto simp: bump_to_def)
  let ?db' = "\<lparr>d_inner = ?inner\<lparr>db_version_set := vs2, db_fs := fs2, db_id_gen := ?g\<rparr>,
      d_cache = foldl (\<lambda>c (_, num). cache_evict num c) (d_cache db) (cp_deleted_files out)\<rparr>"
  have run: "run_one_compaction crc db = (Inr True, ?db')"
    using pick d(1) w by (simp add: run_one_compaction_def Let_def)
  have keeps: "keeps_tables ?fs fs2"
    using I(8) by (auto simp: keeps_tables_def numbers_fresh_def intro!: look)
  have "inner_holds crc ops b (d_inner ?db')" if sorted: "levels_sorted (vs_current vs2)"
    unfolding inner_holds_def
  proof (intro conjI)
    have comp: "compacted c (cp_new_files out) ?v (vs_current vs2)"
      using sorted d(8) by (intro compaction_applied [OF p store_holds_wf [OF I(3)] d(6,7) _ r(1)]) (auto simp: levels_sorted_def)
    have b: "length ?ws = b" using I(1) by simp
    have small: "length ?ws < 2 ^ 63" using history_fits_length [OF I(2)] by simp
    have outs: "list_all2 (file_holds fs2) (cp_new_files out) Os"
      by (rule list.rel_mono_strong [OF d(4)]) (simp add: file_holds_other m2(2))
    have "store_holds fs2 (vs_current vs2) (with_contents (cp_new_files out) Os F) ?ws (max low (unat (min ?o (of_nat (length ?ws)))))"
    proof (rule store_holds_compact [OF I(3) p comp small d(2,3) outs d(5,7)])
      fix n assume "live_number ?v n"
      then show "fmlookup fs2 (sst_path n) = fmlookup ?fs (sst_path n)"
        using inner_holds_not_live [OF I(3,8)] by (intro look) (auto simp: not_less [symmetric])
    qed (use d(8) in blast)
    moreover have "snapshots_within (max low (unat (min ?o (of_nat b)))) (length ops) vs2"
    proof -
      have "unat (min ?o (of_nat b)) \<le> unat s" if "s \<in> set (vs_snapshots ?vs)" for s
        using oldest_snapshot_le [OF that] by (simp add: word_le_nat_alt [symmetric] min.coboundedI1)
      then show ?thesis using I(4) r by (auto simp: snapshots_within_def)
    qed
    ultimately show "\<exists>F low. store_holds (db_fs (d_inner ?db')) (vs_current (db_version_set (d_inner ?db'))) F ?ws low \<and>
        snapshots_within low (length ops) (db_version_set (d_inner ?db'))" unfolding b by auto
    show "memory_holds b ops (d_inner ?db')" using I(5) r by (simp add: memory_holds_def)
    have "fmlookup fs2 (lh_name (db_wal ?inner)) = fmlookup ?fs (lh_name (db_wal ?inner))"
      using I(6) by (intro look) (auto simp: log_matches_def)
    then show "log_matches crc b ops (d_inner ?db')"
      using I(6) r log_holds_other [of crc "db_wal ?inner" ?fs _ fs2] by (auto simp: log_matches_def)
    show "\<exists>eds. manifest_matches crc eds (of_nat b) (db_version_set (d_inner ?db')) (db_fs (d_inner ?db'))"
      using m2(1) by auto
    have "fmlookup fs2 (sst_path n) = None \<and> fmlookup fs2 (log_path n) = None" if n: "id_next g' \<le> n" for n
    proof -
      have "?n \<le> n" using d(9) n by (rule order_trans)
      moreover have "fmlookup fs2 (sst_path n) = fmlookup ?fs (sst_path n)" using n by (intro look) auto
      moreover have "fmlookup fs2 (log_path n) = fmlookup ?fs (log_path n)" by (rule look) simp_all
      ultimately show ?thesis using I(8) by (simp add: numbers_fresh_def)
    qed
    then show "numbers_fresh (d_inner ?db')" using r(3) g by (simp add: numbers_fresh_def)
  qed (use I(1,2) in simp_all)
  moreover have "cache_ok (open_table fs2) (d_cache ?db')"
    using cache_ok_keeps [OF c keeps] by (simp add: cache_ok_evict_all)
  ultimately show ?thesis using run keeps by (intro exI [of _ ?db']) simp
qed

end
