(* ===== verification/Scanning.thy ===== *)
theory Scanning
  imports Compacting
begin

text \<open>
  Scans of a database that holds a history: the sources \<open>new_iterator_at\<close> merges hold exactly the layers that a
  read asks, so that the iterator shows what reads of all keys would.
\<close>

lemma newer_memory:
  assumes store: "store_holds fs v F ws low" and room: "length ws + length ws' < 2 ^ 63" and n: "live_number v n"
    and sub: "set es \<subseteq> set (mem_entries (length ws) ws')"
  shows "newer key es (F n)"
  unfolding newer_def
proof (intro ballI impI)
  fix e e' assume e: "e \<in> set es" "e' \<in> set (F n)"
  have "seq (fst e') \<le> of_nat (length ws)" using store_holds_seq [OF store n e(2)] room by simp
  also have "\<dots> < seq (fst e)" using mem_entries_seq(1) [of e "length ws" ws'] sub e(1) room by auto
  finally show "seq (fst e') < seq (fst e)" .
qed

lemma visible_filter_seq: "visible (filter (\<lambda>(k, _). seq k \<le> s) es) key s = visible es key s"
  by (induction es) (auto simp: visible_def)

lemma ascending_filter: "ascending_entries es \<Longrightarrow> ascending_entries (filter P es)"
  by (simp add: ascending_entries_def sorted_wrt_filter)

definition live_files :: "version \<Rightarrow> file_meta list" where
  "live_files v = concat (map (files_at v) [0..<NUM_LEVELS])"

lemma live_files_iff: "live_number v n \<longleftrightarrow> n \<in> fm_number ` set (live_files v)"
  by (simp add: live_number_def level_numbers_def live_files_def image_UN Bex_def)

lemma live_files_distinct:
  assumes "version_wf v"
  shows "distinct (map fm_number (live_files v))"
proof -
  have "distinct (map fm_number (concat (map (files_at v) [0..<n])))" if "n \<le> NUM_LEVELS" for n
    using that
  proof (induction n)
    case (Suc n)
    have "level_numbers v l \<inter> level_numbers v n = {}" if "l < n" for l
      using assms Suc.prems that by (simp add: version_wf_def)
    then have "(\<Union>l \<in> {0..<n}. level_numbers v l) \<inter> level_numbers v n = {}" by fastforce
    then have "set (map fm_number (concat (map (files_at v) [0..<n]))) \<inter> level_numbers v n = {}"
      by (simp add: level_numbers_def image_UN)
    then show ?case using Suc assms by (simp add: version_wf_def level_numbers_def)
  qed simp
  then show ?thesis by (simp add: live_files_def)
qed

text \<open>The merge of a part \<open>mem\<close> of the memtable and all tables answers like the layers asked one by one.\<close>

lemma merged_layers:
  assumes store: "store_holds fs v F ws low" and room: "length ws + length ws' < 2 ^ 63"
    and mem: "ascending_entries mem" "set mem \<subseteq> set (mem_entries (length ws) ws')"
  shows "\<exists>es. ascending_entries es \<and> mset es = mset (mem @ concat (map (\<lambda>f. F (fm_number f)) (live_files v))) \<and>
    (\<forall>key s. visible es key s = (case visible mem key s of None \<Rightarrow> store_lookup F v key s | Some y \<Rightarrow> Some y))"
proof -
  let ?ns = "map fm_number (live_files v)"
  let ?all = "mem @ concat (map F ?ns)"
  have live: "live_number v n \<longleftrightarrow> n \<in> set ?ns" for n by (simp add: live_files_iff)
  have "distinct (map version_of (concat (map F ?ns)))"
    by (rule distinct_contents [OF store _ live_files_distinct [OF store_holds_wf [OF store]]]) (use live in blast)
  moreover have "distinct (map version_of mem)"
    using mem(1) ascending_entries_distinct ascending_entries_unique by (auto simp: distinct_map intro!: inj_onI)
  moreover have "version_of e \<noteq> version_of e'" if "e \<in> set mem" "e' \<in> set (concat (map F ?ns))" for e e'
  proof -
    obtain n where n: "live_number v n" "e' \<in> set (F n)" using \<open>e' \<in> _\<close> live by auto
    have "newer (user_key (fst e)) mem (F n)" by (rule newer_memory [OF store room n(1) mem(2)])
    then have "user_key (fst e') = user_key (fst e) \<longrightarrow> seq (fst e') < seq (fst e)"
      using \<open>e \<in> set mem\<close> n(2) unfolding newer_def by blast
    then show ?thesis by (auto simp: version_of_def)
  qed
  ultimately have d: "distinct (map version_of ?all)" by fastforce
  let ?es = "sort_key fst ?all"
  have m: "mset ?es = mset ?all" by simp
  have "distinct (map version_of ?es)"
    using d mset_eq_imp_distinct_iff [of "map version_of ?es" "map version_of ?all"] m by (simp only: mset_map)
  then have asc: "ascending_entries ?es" using sorted_distinct_ascending [of ?es] by simp
  have "visible ?es key s = first_some (map (\<lambda>x. visible x key s) (mem # map F (store_files v key)))" for key s
  proof (rule visible_layers [OF asc])
    show "ascending_entries x" if "x \<in> set (mem # map F (store_files v key))" for x
      using that mem(1) live_ascending [OF store store_files_live] by auto
    show "e \<in> set ?es \<longleftrightarrow> (\<exists>x \<in> set (mem # map F (store_files v key)). e \<in> set x)" if "user_key (fst e) = key" for e
    proof -
      have "(\<exists>n \<in> set ?ns. e \<in> set (F n)) \<longleftrightarrow> (\<exists>n \<in> set (store_files v key). e \<in> set (F n))"
        using live_entry_in_files [OF store, of _ e] store_files_live [of _ v key] live that by blast
      then show ?thesis by simp
    qed
    have "sorted_wrt (newer key) (map F (store_files v key))" using store by (simp add: store_holds_def sorted_wrt_map)
    then show "sorted_wrt (newer key) (mem # map F (store_files v key))"
      using newer_memory [OF store room store_files_live mem(2)] by auto
  qed
  then show ?thesis using asc m
    by (intro exI [of _ ?es]) (simp add: store_lookup_def comp_def split: option.split)
qed

lemma scan_sources_holds:
  assumes H: "inner_holds crc ops b inner"
  shows "\<exists>iters Es es. scan_sources s inner = Inr iters \<and> list_all2 source_rep iters Es \<and> ascending_entries es \<and>
    mset es = mset (concat Es) \<and> (s \<in> readable ops (db_version_set inner) \<longrightarrow>
      (\<forall>key. read_value (visible es key s) = read_value (last_write (take (unat s) ops) key)))"
proof -
  let ?vs = "db_version_set inner" and ?n = "length ops"
  let ?v = "vs_current ?vs"
  obtain F low where I: "b \<le> ?n" "history_fits (db_options inner) ops" "store_holds (db_fs inner) ?v F (take b ops) low"
    "snapshots_within low ?n ?vs" "mt_rep (db_memtable inner) (mem_entries b (drop b ops))"
    using H by (auto simp: inner_holds_def memory_holds_def)
  have n63: "?n < 2 ^ 63" using history_fits_length [OF I(2)] by simp
  have lenb: "length (take b ops) = b" using I(1) by simp
  let ?mem = "filter (\<lambda>(k, _). seq k \<le> s) (mem_entries b (drop b ops))"
  have asc: "ascending_entries ?mem" by (rule ascending_filter [OF mt_rep_ascending [OF I(5)]])
  obtain es where es: "ascending_entries es" "mset es = mset (?mem @ concat (map (\<lambda>f. F (fm_number f)) (live_files ?v)))"
    "\<And>key s. visible es key s = (case visible ?mem key s of None \<Rightarrow> store_lookup F ?v key s | Some y \<Rightarrow> Some y)"
    using merged_layers [OF I(3) _ asc, of "drop b ops"] n63 I(1) unfolding lenb by auto
  have files: "list_all2 (file_holds (db_fs inner)) (live_files ?v) (map (\<lambda>f. F (fm_number f)) (live_files ?v))"
    using store_holds_version [OF I(3)] by (auto simp: version_holds_def live_files_def list_all2_map2 intro!: list.rel_refl_strong)
  define iters0 Es0 where "iters0 = (if encode_entries ?mem \<noteq> [] then [VecSource (vec_iter_new (encode_entries ?mem))] else [])"
    and "Es0 = (if encode_entries ?mem \<noteq> [] then [?mem] else [])"
  obtain iters where i: "open_inputs (db_fs inner) (live_files ?v) iters0 = Inr (iters0 @ iters)"
    "list_all2 source_rep iters (map (\<lambda>f. F (fm_number f)) (live_files ?v))"
    using open_inputs_rep [OF files, of iters0] by blast
  have "scan_sources s inner = Inr (iters0 @ iters)"
    using i(1) by (simp add: scan_sources_def mt_rep_snapshot_entries [OF I(5)] Let_def live_files_def iters0_def)
  moreover have "list_all2 source_rep (iters0 @ iters) (Es0 @ map (\<lambda>f. F (fm_number f)) (live_files ?v))"
    using i(2) source_rep_vec [OF asc] by (intro list_all2_appendI) (simp_all add: iters0_def Es0_def)
  moreover have "concat Es0 = ?mem" by (simp add: Es0_def encode_entries_def)
  then have "mset es = mset (concat (Es0 @ map (\<lambda>f. F (fm_number f)) (live_files ?v)))" using es(2) by simp
  moreover have "read_value (visible es key s) = read_value (last_write (take (unat s) ops) key)" if "s \<in> readable ops ?vs" for key
    unfolding es(3) visible_filter_seq using readable_range [OF I(4) that _ n63] store_holds_low [OF I(3)] I(1)
    by (intro layers_read [OF I(3,1) n63]) auto
  ultimately show ?thesis using es(1) by blast
qed

text \<open>What the iterator shows.\<close>

lemma new_iterator_at_holds:
  assumes H: "inner_holds crc ops b inner" and s: "s \<in> readable ops (db_version_set inner)"
  shows "\<exists>shown. bind_res (new_iterator_at s inner) di_collect = Inr shown \<and> sorted_wrt (<) (map fst shown) \<and>
    (\<forall>key v. (key, v) \<in> set shown \<longleftrightarrow> read_value (last_write (take (unat s) ops) key) = Some v)"
proof -
  obtain iters Es es where i: "scan_sources s inner = Inr iters" "list_all2 source_rep iters Es" "ascending_entries es"
    "mset es = mset (concat Es)" "\<And>key. read_value (visible es key s) = read_value (last_write (take (unat s) ops) key)"
    using scan_sources_holds [OF H, of s] s by blast
  obtain m where m: "merger_new iters = Inr m" "merger_collect m = Inr (encode_entries es)"
    using merge_sources [OF i(2-4)] by blast
  obtain shown where "bind_res (db_iter_new m s) di_collect = Inr shown" "sorted_wrt (<) (map fst shown)"
    "\<And>uk v. (uk, v) \<in> set shown \<longleftrightarrow> visible es uk s = Some (Put, v)"
    using di_collect_stream [OF m(2)] scan_list_visible [OF i(3), of s] by auto
  moreover have "visible es uk s = Some (Put, v) \<longleftrightarrow> read_value (visible es uk s) = Some v" for uk v
    by (auto simp: read_value_def split: option.splits value_type.splits)
  ultimately show ?thesis using i(1,5) m(1) by (simp add: new_iterator_at_def)
qed

end
