(* ===== verification/Numbers.thy ===== *)
theory Numbers
  imports Compact_Step
begin

text \<open>
  File numbers in any interleaving of calls, failing ones included: the version stays well formed and every table
  it names has a number the generator has already passed.
\<close>

section \<open>Numbers drawn by a compaction\<close>

lemma new_file_number_less: "new_file_number g = Inr (n, g') \<Longrightarrow> n = id_next g \<and> n < id_next g' \<and> unat (id_next g') = Suc (unat n)"
  by (auto simp: new_file_number_def u64_succ_def bind_res_eq_Inr succ_u64 split: if_splits)

definition numbered :: "u64 \<Rightarrow> output_state \<Rightarrow> bool" where
  "numbered g0 st \<longleftrightarrow> g0 \<le> id_next (os_id_gen st) \<and> sorted_wrt (<) (map fm_number (os_new_files st)) \<and>
     (\<forall>f \<in> set (os_new_files st). g0 \<le> fm_number f \<and> fm_number f < id_next (os_id_gen st)) \<and>
     (os_builder st \<noteq> None \<longrightarrow> (\<exists>n. os_number st = Some n \<and> g0 \<le> n \<and> n < id_next (os_id_gen st) \<and>
        (\<forall>f \<in> set (os_new_files st). fm_number f < n)))"

lemma numbered_start: "numbered (id_next g) (output_start g fs)"
  by (simp add: numbered_def output_start_def)

lemma numbered_open:
  assumes "open_output bt bpk ik st = (Inr (), st')" and "numbered g0 st"
  shows "numbered g0 st'"
proof -
  let ?n = "id_next (os_id_gen st)"
  obtain n g where g: "new_file_number (os_id_gen st) = Inr (n, g)"
    "st' = st\<lparr>os_id_gen := g, os_number := Some n, os_fs := fs_write (sst_path n) [] (os_fs st),
       os_builder := Some (table_with_options bt bpk), os_smallest := Some ik, os_largest := Some ik, os_overlap := 0\<rparr>"
    using assms(1) by (auto simp: open_output_def split: sum.splits)
  have n: "n = ?n" "?n < id_next g" using new_file_number_less [OF g(1)] by auto
  have "fm_number f < id_next g" if "f \<in> set (os_new_files st)" for f
    using assms(2) that n(2) by (auto simp: numbered_def intro: less_trans)
  moreover have "g0 \<le> id_next g" using assms(2) n(2) by (auto simp: numbered_def)
  ultimately show ?thesis using assms(2) n by (auto simp: numbered_def g(2))
qed

lemma numbered_finish:
  assumes "finish_current st = (Inr meta, st')" and "numbered g0 st"
  shows "numbered g0 (st'\<lparr>os_new_files := os_new_files st' @ [meta]\<rparr>) \<and> os_builder st' = None"
  using assms
  by (auto simp: finish_current_def numbered_def bind_res_eq_Inr ok_or_def file_meta_new_def Let_def sorted_wrt_append
      split: option.splits sum.splits)

lemma numbered_continue:
  assumes "continue_with_entry uk ik_bytes v st = (r, st')" and "numbered g0 st"
  shows "numbered g0 st'"
  using assms by (auto simp: continue_with_entry_def numbered_def Let_def split: option.splits sum.splits)

lemma numbered_update [simp]:
  "numbered g0 (st\<lparr>os_gp_idx := i\<rparr>) = numbered g0 st" "numbered g0 (st\<lparr>os_gp_idx := i, os_overlap := w\<rparr>) = numbered g0 st"
  "numbered g0 (st\<lparr>os_last_user_key := k, os_last_seq := s\<rparr>) = numbered g0 st"
  by (simp_all add: numbered_def)

lemma numbered_write:
  assumes "write_entry c bt bpk ik uk ik_bytes v st = (Inr (), st')" and "numbered g0 st"
  shows "numbered g0 st'"
proof (cases "os_builder st = None")
  case True
  then obtain st1 where "open_output bt bpk ik st = (Inr (), st1)" "continue_with_entry uk ik_bytes v st1 = (Inr (), st')"
    using assms(1) by (auto simp: write_entry_def then_do_def split: sum.splits prod.splits)
  then show ?thesis using numbered_open [OF _ assms(2)] numbered_continue by blast
next
  case False
  obtain st1 where 1: "numbered g0 st1" and rest: "(case grandparent_loop (co_grandparents c) uk (os_gp_idx st1) (os_overlap st1) of
      Inl e \<Rightarrow> (Inl e, st1)
    | Inr (idx, overlap) \<Rightarrow> continue_with_entry uk ik_bytes v (st1\<lparr>os_gp_idx := idx, os_overlap := overlap\<rparr>)) = (Inr (), st')"
  proof (cases "should_split st")
    case True
    then obtain meta st2 st3 where "finish_current st = (Inr meta, st2)"
      "open_output bt bpk ik (st2\<lparr>os_new_files := os_new_files st2 @ [meta]\<rparr>) = (Inr (), st3)"
      "(case grandparent_loop (co_grandparents c) uk (os_gp_idx (st3\<lparr>os_gp_idx := 0\<rparr>)) (os_overlap (st3\<lparr>os_gp_idx := 0\<rparr>)) of
          Inl e \<Rightarrow> (Inl e, st3\<lparr>os_gp_idx := 0\<rparr>)
        | Inr (idx, overlap) \<Rightarrow> continue_with_entry uk ik_bytes v (st3\<lparr>os_gp_idx := 0, os_gp_idx := idx, os_overlap := overlap\<rparr>)) = (Inr (), st')"
      using assms(1) \<open>os_builder st \<noteq> None\<close> by (auto simp: write_entry_def then_do_def split: sum.splits prod.splits)
    then show ?thesis
      using that [of "st3\<lparr>os_gp_idx := 0\<rparr>"] numbered_finish [OF _ assms(2)] numbered_open by auto
  next
    case no: False
    then show ?thesis using that [of st] assms False by (simp add: write_entry_def)
  qed
  then obtain idx overlap where "continue_with_entry uk ik_bytes v (st1\<lparr>os_gp_idx := idx, os_overlap := overlap\<rparr>) = (Inr (), st')"
    by (auto split: sum.splits)
  then show ?thesis using numbered_continue 1 by fastforce
qed

lemma numbered_entry:
  assumes "compact_entry c v oldest bt bpk e st = (Inr (), st')" and "numbered g0 st"
  shows "numbered g0 st'"
  using assms numbered_write [of c bt bpk]
  by (auto simp: compact_entry_def Let_def split: option.splits sum.splits prod.splits if_splits)

lemma numbered_loop:
  "compact_loop c v oldest bt bpk m st = (Inr (), st') \<Longrightarrow> numbered g0 st \<Longrightarrow> numbered g0 st'"
proof (induction c v oldest bt bpk m st rule: compact_loop.induct)
  case (1 c v oldest bt bpk m st)
  note run = 1(2)
  obtain item m' where m': "merger_next m = Inr (item, m')"
    using run by (subst (asm) compact_loop.simps) (auto split: sum.splits prod.splits)
  show ?case
  proof (cases item)
    case None
    then show ?thesis using run m' 1(3) by (subst (asm) compact_loop.simps) simp
  next
    case (Some e)
    obtain st1 where st1: "compact_entry c v oldest bt bpk e st = (Inr (), st1)" "compact_loop c v oldest bt bpk m' st1 = (Inr (), st')"
      using run m' Some by (subst (asm) compact_loop.simps) (auto simp: then_do_def split: sum.splits prod.splits)
    show ?thesis
      by (rule 1(1) [OF m' refl Some st1(1) st1(2) numbered_entry [OF st1(1) 1(3)]])
  qed
qed

lemma do_compaction_numbers:
  assumes "do_compaction c v g oldest bt bpk fs = (Inr out, g', fs')"
  shows "sorted_wrt (<) (map fm_number (cp_new_files out)) \<and> id_next g \<le> id_next g' \<and> cp_deleted_files out = input_file_numbers c \<and>
    (\<forall>f \<in> set (cp_new_files out). id_next g \<le> fm_number f \<and> fm_number f < id_next g')"
proof -
  obtain m where "bind_res (open_inputs fs (fst (co_inputs c) @ snd (co_inputs c)) []) merger_new = Inr m"
    using assms by (auto simp: do_compaction_def split: sum.splits)
  then obtain st where st: "then_do (compact_loop c v oldest bt bpk m (output_start g fs)) (\<lambda>_ st.
        if os_builder st \<noteq> None then
          then_do (finish_current st) (\<lambda>meta st. (Inr (), st\<lparr>os_new_files := os_new_files st @ [meta]\<rparr>))
        else (Inr (), st)) = (Inr (), st)"
    and out: "out = \<lparr>cp_new_files = os_new_files st, cp_deleted_files = input_file_numbers c\<rparr>" "g' = os_id_gen st"
    using assms by (auto simp: do_compaction_def bind_res_eq_Inr split: prod.splits)
  then obtain st1 where l: "compact_loop c v oldest bt bpk m (output_start g fs) = (Inr (), st1)"
    by (auto simp: then_do_def split: sum.splits prod.splits)
  have n1: "numbered (id_next g) st1" by (rule numbered_loop [OF l numbered_start])
  have "numbered (id_next g) st"
  proof (cases "os_builder st1 = None")
    case True
    then show ?thesis using st l n1 by simp
  next
    case False
    then obtain meta st2 where "finish_current st1 = (Inr meta, st2)" "st = st2\<lparr>os_new_files := os_new_files st2 @ [meta]\<rparr>"
      using st l by (auto simp: then_do_def split: sum.splits prod.splits)
    then show ?thesis using numbered_finish [OF _ n1] by blast
  qed
  then show ?thesis by (auto simp: numbered_def out)
qed

section \<open>Numbers drawn by a flush\<close>

lemma flush_to_level0_drawn:
  assumes "flush_to_level0 msg opts mt g fs = (r, g', fs')"
  shows "unat (id_next g') \<le> unat (id_next g) + 1"
proof (cases "new_file_number g")
  case (Inl e)
  then show ?thesis using assms by (auto simp: flush_to_level0_def)
next
  case (Inr p)
  then have "g' = snd p"
    using assms by (cases p) (auto simp: flush_to_level0_def Let_def simp del: new_file_number_Inr split: sum.splits prod.splits)
  then show ?thesis using new_file_number_less [of g "fst p" g'] Inr by simp
qed

lemma flush_memtable_cases:
  assumes f: "flush_memtable crc inner = (r, inner')" and e: "mt_entries (db_memtable inner) \<noteq> 0"
    and 1: "flush_to_level0 ''flushed memtable had no entries'' (db_options inner) (db_memtable inner) (db_id_gen inner) (db_fs inner) =
      (r1, g1, fs1)"
  shows "db_version_set inner' = db_version_set inner \<and> db_id_gen inner' = g1 \<or>
    (\<exists>meta log g2 fs2 v vs' fs3. r1 = Inr meta \<and> new_file_number g1 = Inr (log, g2) \<and>
       write_new_version crc (flush_edit meta log g2 (mt_seq (db_memtable inner))) (db_version_set inner) fs2 = (Inr v, vs', fs3) \<and>
       db_version_set inner' = vs' \<and> db_id_gen inner' = g2)"
proof (cases r1)
  case (Inl e)
  then show ?thesis using f e 1 by (auto simp: flush_memtable_def Let_def)
next
  case (Inr meta)
  show ?thesis
  proof (cases "new_file_number g1")
    case (Inl err)
    then show ?thesis using f e 1 \<open>r1 = Inr meta\<close> by (auto simp: flush_memtable_def Let_def)
  next
    case log: (Inr p)
    obtain log g2 where p: "p = (log, g2)" by force
    obtain new_wal fs2 where wal: "log_open (log_path log) fs1 = (new_wal, fs2)" by force
    let ?e = "flush_edit meta log g2 (mt_seq (db_memtable inner))"
    obtain v vs' fs3 where w: "write_new_version crc ?e (db_version_set inner) fs2 = (Inr v, vs', fs3)"
      using write_new_version_total [of ?e crc "db_version_set inner" fs2] by (auto simp: levels_ok_def NUM_LEVELS_def)
    then have "db_version_set inner' = vs'" "db_id_gen inner' = g2"
      using f e 1 Inr log p wal by (auto simp: flush_memtable_def Let_def)
    then show ?thesis using Inr log p w by blast
  qed
qed

lemma flush_to_level0_result: "\<exists>r1 g1 fs1. flush_to_level0 msg opts mt g fs = (r1, g1, fs1)"
  by (metis surj_pair)

lemma flush_memtable_drawn:
  assumes "flush_memtable crc inner = (r, inner')"
  shows "unat (id_next (db_id_gen inner')) \<le> unat (id_next (db_id_gen inner)) + 2"
proof (cases "mt_entries (db_memtable inner) = 0")
  case True
  then show ?thesis using assms by (simp add: flush_memtable_def)
next
  case False
  obtain r1 g1 fs1 where 1: "flush_to_level0 ''flushed memtable had no entries'' (db_options inner) (db_memtable inner)
      (db_id_gen inner) (db_fs inner) = (r1, g1, fs1)"
    using flush_to_level0_result by blast
  note le = flush_to_level0_drawn [OF 1]
  from flush_memtable_cases [OF assms False 1] show ?thesis
  proof (elim disjE exE conjE)
    fix log g2
    assume g2: "new_file_number g1 = Inr (log, g2)" "db_id_gen inner' = g2"
    then show ?thesis using le new_file_number_less [OF g2(1)] by simp
  qed (use le in simp)
qed

section \<open>Numbers drawn by a write\<close>

lemma db_write_locked_cases:
  assumes w: "db_write_locked crc draws key v t inner = (r, inner')"
  shows "\<exists>inner1 inner2. db_id_gen inner1 = db_id_gen inner \<and>
    vs_current (db_version_set inner1) = vs_current (db_version_set inner) \<and>
    vs_snapshots (db_version_set inner1) = vs_snapshots (db_version_set inner) \<and>
    (inner2 = inner1 \<or> (\<exists>r2. flush_memtable crc inner1 = (r2, inner2))) \<and>
    (inner' = inner2 \<or> inner' = inner2\<lparr>db_bg_scheduled := True\<rparr>)"
proof (cases "u64_succ (mt_seq (db_memtable inner))")
  case (Inl e)
  then have "inner' = inner" using w by (simp add: db_write_locked_def)
  then show ?thesis by blast
next
  case (Inr s)
  obtain wal fs where log: "log_add crc (db_wal inner) (encode_entry t s key v) (db_fs inner) = (wal, fs)" by force
  show ?thesis
  proof (cases "mt_apply draws t s key v (db_memtable inner)")
    case (Inl e)
    then have "inner' = inner\<lparr>db_wal := wal, db_fs := fs\<rparr>" using w Inr log by (simp add: db_write_locked_def Let_def)
    then show ?thesis by (intro exI [of _ inner'] exI [of _ inner']) simp
  next
    case mt: (Inr mt)
    let ?inner = "inner\<lparr>db_wal := wal, db_fs := fs, db_memtable := mt, db_version_set := (db_version_set inner)\<lparr>vs_last_sequence := s\<rparr>\<rparr>"
    have "(r, inner') = then_do (flush_memtable crc ?inner) (\<lambda>_ inner. maybe_schedule_compaction inner) \<or>
        (r, inner') = maybe_schedule_compaction ?inner"
      using w Inr log mt by (auto simp: db_write_locked_def Let_def split: if_splits)
    then have "\<exists>inner2. (inner2 = ?inner \<or> (\<exists>r2. flush_memtable crc ?inner = (r2, inner2))) \<and>
        (inner' = inner2 \<or> inner' = inner2\<lparr>db_bg_scheduled := True\<rparr>)"
    proof
      assume r: "(r, inner') = then_do (flush_memtable crc ?inner) (\<lambda>_ inner. maybe_schedule_compaction inner)"
      obtain r2 inner2 where 2: "flush_memtable crc ?inner = (r2, inner2)" by force
      have "inner' = inner2 \<or> inner' = inner2\<lparr>db_bg_scheduled := True\<rparr>"
        using r 2 maybe_schedule_holds [of inner2 r inner'] by (cases r2) auto
      then show ?thesis using 2 by blast
    next
      assume "(r, inner') = maybe_schedule_compaction ?inner"
      from maybe_schedule_holds [OF this [symmetric]] show ?thesis by blast
    qed
    moreover have "db_id_gen ?inner = db_id_gen inner" "vs_current (db_version_set ?inner) = vs_current (db_version_set inner)"
      "vs_snapshots (db_version_set ?inner) = vs_snapshots (db_version_set inner)" by simp_all
    ultimately show ?thesis by blast
  qed
qed

lemma db_put_cases: "db_put crc draws key v inner = Some (r, inner') \<Longrightarrow> inner' = inner \<or> db_write_locked crc draws key v Put inner = (r, inner')"
  by (auto simp: db_put_def db_write_def split: if_splits)

lemma db_put_drawn:
  assumes "db_put crc draws key v inner = Some (r, inner')"
  shows "unat (id_next (db_id_gen inner')) \<le> unat (id_next (db_id_gen inner)) + 2"
  using db_put_cases [OF assms]
proof
  assume "db_write_locked crc draws key v Put inner = (r, inner')"
  from db_write_locked_cases [OF this] show ?thesis
    using flush_memtable_drawn by (elim exE conjE disjE) fastforce+
qed simp

section \<open>The invariant\<close>

definition numbers_ok :: "db_inner \<Rightarrow> bool" where
  "numbers_ok inner \<longleftrightarrow> version_wf (vs_current (db_version_set inner)) \<and>
     (\<forall>n. live_number (vs_current (db_version_set inner)) n \<longrightarrow> n < id_next (db_id_gen inner))"

lemma numbers_ok_same:
  assumes "numbers_ok inner" and "vs_current (db_version_set inner') = vs_current (db_version_set inner)"
    and "id_next (db_id_gen inner) \<le> id_next (db_id_gen inner')"
  shows "numbers_ok inner'"
  using assms by (auto simp: numbers_ok_def intro: less_le_trans)

lemma flush_to_level0_numbers:
  assumes f: "flush_to_level0 msg opts mt g fs = (r, g', fs')"
  shows "id_next g \<le> id_next g'" "r = Inr meta \<Longrightarrow> fm_number meta = id_next g \<and> id_next g < id_next g'"
proof -
  have "id_next g \<le> id_next g' \<and> (r = Inr meta \<longrightarrow> fm_number meta = id_next g \<and> id_next g < id_next g')"
  proof (cases "new_file_number g")
    case (Inl e)
    then show ?thesis using f by (auto simp: flush_to_level0_def)
  next
    case (Inr p)
    then obtain sst g1 where p: "new_file_number g = Inr (sst, g1)" by (cases p) auto
    note n = new_file_number_less [OF p]
    have "g' = g1" using f p by (auto simp: flush_to_level0_def Let_def split: sum.splits prod.splits)
    moreover have "fm_number meta = sst" if r: "r = Inr meta"
    proof -
      obtain bs fr where m: "mt_flush (opt_block_size opts) (bloom_bits_per_key opts) mt = Inr (bs, fr)"
        using f p r by (auto simp: flush_to_level0_def Let_def split: sum.splits)
      show ?thesis
        using f p r m by (cases "fr_smallest fr"; cases "fr_largest fr")
          (auto simp: flush_to_level0_def Let_def file_meta_new_def bind_res_eq_Inr)
    qed
    ultimately show ?thesis using n by auto
  qed
  then show "id_next g \<le> id_next g'" "r = Inr meta \<Longrightarrow> fm_number meta = id_next g \<and> id_next g < id_next g'" by blast+
qed

lemma flush_memtable_numbers:
  assumes f: "flush_memtable crc inner = (r, inner')" and ok: "numbers_ok inner"
  shows "numbers_ok inner'"
proof (cases "mt_entries (db_memtable inner) = 0")
  case True
  then show ?thesis using f ok by (simp add: flush_memtable_def)
next
  case False
  let ?vs = "db_version_set inner" and ?g = "db_id_gen inner"
  obtain r1 g1 fs1 where 1: "flush_to_level0 ''flushed memtable had no entries'' (db_options inner) (db_memtable inner) ?g
      (db_fs inner) = (r1, g1, fs1)"
    using flush_to_level0_result by blast
  note n1 = flush_to_level0_numbers [OF 1]
  from flush_memtable_cases [OF f False 1] show ?thesis
  proof (elim disjE exE conjE)
    fix meta log g2 fs2 v vs' fs3
    assume r1: "r1 = Inr meta" and log: "new_file_number g1 = Inr (log, g2)"
      and w: "write_new_version crc (flush_edit meta log g2 (mt_seq (db_memtable inner))) ?vs fs2 = (Inr v, vs', fs3)"
      and inner': "db_version_set inner' = vs'" "db_id_gen inner' = g2"
    have meta: "fm_number meta = id_next ?g" "id_next ?g < id_next g1" using n1(2) r1 by auto
    have wf: "version_wf (vs_current ?vs)" and fresh: "\<not> live_number (vs_current ?vs) (fm_number meta)"
      using ok meta(1) by (auto simp: numbers_ok_def)
    note a = flush_edit_applied [OF wf write_new_version_result(1) [OF w] fresh]
    have lt: "id_next ?g < id_next g2" using meta(2) new_file_number_less [OF log] by (auto intro: less_trans)
    have "n < id_next g2" if "live_number (vs_current vs') n" for n
      using a(4) [OF that] ok lt meta(1) by (auto simp: numbers_ok_def intro: less_trans)
    then show ?thesis using a(1) by (simp add: numbers_ok_def inner')
  next
    assume "db_version_set inner' = ?vs" "db_id_gen inner' = g1"
    then show ?thesis using numbers_ok_same [OF ok] n1(1) by simp
  qed
qed

lemma live_number_applied:
  assumes "version_wf v" and "apply_edit v e = Inr v'" and "live_number v' n"
  shows "live_number v n \<or> n \<in> fm_number ` nf_meta ` set (ve_new_files e)"
proof -
  obtain l f where f: "l < NUM_LEVELS" "f \<in> set (files_at v' l)" "n = fm_number f"
    using assms(3) by (auto simp: live_number_def level_numbers_def)
  have "l < length (v_files v)" using f(1) assms(1) by (simp add: version_wf_def)
  from f(2) [unfolded apply_edit_files(2) [OF assms(2) this]] show ?thesis
    using live_numberI [OF f(1)] f(3) by auto
qed

lemma run_one_compaction_numbers:
  assumes run: "run_one_compaction crc db = (r, db')" and ok: "numbers_ok (d_inner db)"
  shows "numbers_ok (d_inner db')"
proof -
  let ?inner = "d_inner db"
  let ?vs = "db_version_set ?inner" and ?n = "id_next (db_id_gen ?inner)"
  let ?v = "vs_current ?vs"
  have same: "numbers_ok (d_inner db')"
    if "db_version_set (d_inner db') = ?vs" "db_id_gen (d_inner db') = db_id_gen ?inner"
    using numbers_ok_same [OF ok] that by simp
  show ?thesis
  proof (cases "pick_compaction ?vs")
    case (Inl e)
    then show ?thesis using run same by (simp add: run_one_compaction_def)
  next
    case (Inr choice)
    note pick = this
    show ?thesis
    proof (cases choice)
      case None
      then show ?thesis using run pick same by (simp add: run_one_compaction_def)
    next
      case (Some c)
      obtain r1 g' fs1 where d: "do_compaction c ?v (id_generator_new ?n) (oldest_snapshot_seq ?vs) (opt_block_size (db_options ?inner))
          (bloom_bits_per_key (db_options ?inner)) (db_fs ?inner) = (r1, g', fs1)"
        by (cases "do_compaction c ?v (id_generator_new ?n) (oldest_snapshot_seq ?vs) (opt_block_size (db_options ?inner))
          (bloom_bits_per_key (db_options ?inner)) (db_fs ?inner)") auto
      show ?thesis
      proof (cases r1)
        case (Inl e)
        then show ?thesis using run pick Some d same by (auto simp: run_one_compaction_def Let_def)
      next
        case (Inr out)
        note n = do_compaction_numbers [OF d [unfolded Inr]]
        let ?e = "compaction_edit (co_level c) out g'"
        have L: "co_level c + 1 < NUM_LEVELS" using pick_compaction_result(2) pick Some by blast
        obtain v2 vs' fs2 where w: "write_new_version crc ?e ?vs fs1 = (Inr v2, vs', fs2)"
          using write_new_version_total [OF compaction_edit_levels [OF L]] n by blast
        have db': "db_version_set (d_inner db') = vs'" "db_id_gen (d_inner db') = bump_to (id_next g') (db_id_gen ?inner)"
          using run pick Some d Inr w by (auto simp: run_one_compaction_def Let_def)
        have g: "id_next (bump_to (id_next g') (db_id_gen ?inner)) = id_next g'"
          using n by (auto simp: bump_to_def id_generator_new_def)
        have news: "?n \<le> fm_number f \<and> fm_number f < id_next g'" if "f \<in> set (cp_new_files out)" for f
          using n that by (simp add: id_generator_new_def)
        note a = write_new_version_result(1) [OF w]
        have wf: "version_wf ?v" and live: "live_number ?v k \<Longrightarrow> k < ?n" for k using ok by (auto simp: numbers_ok_def)
        have "version_wf (vs_current vs')"
        proof (rule version_wf_apply_edit [OF wf a])
          show "distinct (map (\<lambda>f. fm_number (nf_meta f)) (ve_new_files ?e))"
            using n by (simp add: comp_def strict_sorted_iff)
          show "\<forall>f \<in> set (ve_new_files ?e). \<forall>l < NUM_LEVELS. fm_number (nf_meta f) \<notin> level_numbers ?v l"
            using news live by (fastforce simp: live_number_def not_less [symmetric])
        qed
        moreover have "k < id_next g'" if "live_number (vs_current vs') k" for k
          using live_number_applied [OF wf a that] live [of k] n news by (auto simp: id_generator_new_def image_iff intro: less_le_trans)
        ultimately show ?thesis by (simp add: numbers_ok_def db' g)
      qed
    qed
  qed
qed

lemma maybe_schedule_numbers:
  "maybe_schedule_compaction inner = (r, inner') \<Longrightarrow> numbers_ok inner' = numbers_ok inner"
  by (auto simp: numbers_ok_def dest!: maybe_schedule_holds)

lemma write_numbers:
  assumes "db_write_locked crc draws key v t inner = (r, inner')" and ok: "numbers_ok inner"
  shows "numbers_ok inner'"
proof -
  obtain inner1 inner2 where 1: "db_id_gen inner1 = db_id_gen inner" "vs_current (db_version_set inner1) = vs_current (db_version_set inner)"
    and 2: "inner2 = inner1 \<or> (\<exists>r2. flush_memtable crc inner1 = (r2, inner2))"
    and 3: "inner' = inner2 \<or> inner' = inner2\<lparr>db_bg_scheduled := True\<rparr>"
    using db_write_locked_cases [OF assms(1)] by blast
  have "numbers_ok inner1" using 1 numbers_ok_same [OF ok] by simp
  then have "numbers_ok inner2" using 2 flush_memtable_numbers by blast
  then show ?thesis using 3 by (auto simp: numbers_ok_def)
qed

lemma db_step_numbers:
  assumes "db_step crc db db'" and ok: "numbers_ok (d_inner db)"
  shows "numbers_ok (d_inner db')"
  using assms(1)
proof (cases rule: db_step.cases)
  case (put draws key v r inner)
  then show ?thesis using write_numbers ok by (auto simp: db_put_def db_write_def split: if_splits)
next
  case (delete draws key r inner)
  then show ?thesis using write_numbers ok by (auto simp: db_delete_def db_write_def split: if_splits)
next
  case (wait inner)
  then show ?thesis using maybe_schedule_numbers ok by simp
next
  case (get snap key r)
  then have "d_inner db' = d_inner db"
    by (auto simp: db_get_at_def Let_def split: sum.splits option.splits prod.splits value_type.splits)
  then show ?thesis using ok by simp
next
  case (compact r)
  then show ?thesis using run_one_compaction_numbers ok by (simp add: compact_once_def)
next
  case background
  obtain r db1 where run: "run_one_compaction crc db = (r, db1)" by force
  then show ?thesis
    using run_one_compaction_numbers [OF run ok] background by (simp add: background_round_def numbers_ok_def)
qed (use ok in \<open>auto simp: numbers_ok_def new_snapshot_def acquire_snapshot_def drop_snapshot_def release_snapshot_def db_close_def Let_def\<close>)

end
