(* ===== verification/Runs.thy ===== *)
theory Runs
  imports Numbers Scanning
begin

text \<open>
  Runs of a database: opening, writing, reading, snapshots, compactions, closing, crashing and reopening in any
  order, and the invariant they keep.
\<close>

section \<open>Runs of a database\<close>

text \<open>
  The writes a run has acknowledged, in order, and the database it has reached. A run starts in an empty
  directory; writes count when they are acknowledged; reads change the cache only; a crash or a close is a
  reopening of what is left of the directory, with other options if the caller likes, and the run goes on with as many
  writes as the recovered last sequence number counts; C2 says how many those are. A compaction belongs to a
  run only when it leaves every level below the first sorted, which the code does not see to.
\<close>

inductive db_history :: "(bytes \<Rightarrow> u32) \<Rightarrow> write_op list \<Rightarrow> db \<Rightarrow> bool" for crc :: "bytes \<Rightarrow> u32" where
  created: "db_open crc draws opts fmempty = (Inr db, fs) \<Longrightarrow> history_fits opts [] \<Longrightarrow> db_history crc [] db"
| put: "db_history crc ops db \<Longrightarrow> db_put crc levels key v (d_inner db) = Some (Inr (), inner) \<Longrightarrow>
    history_fits (db_options (d_inner db)) (ops @ [(Put, key, v)]) \<Longrightarrow>
    db_history crc (ops @ [(Put, key, v)]) (db\<lparr>d_inner := inner\<rparr>)"
| delete: "db_history crc ops db \<Longrightarrow> db_delete crc levels key (d_inner db) = Some (Inr (), inner) \<Longrightarrow>
    history_fits (db_options (d_inner db)) (ops @ [(Delete, key, [])]) \<Longrightarrow>
    db_history crc (ops @ [(Delete, key, [])]) (db\<lparr>d_inner := inner\<rparr>)"
| wait: "db_history crc ops db \<Longrightarrow> write_must_wait (d_inner db) \<Longrightarrow>
    maybe_schedule_compaction (d_inner db) = (r, inner) \<Longrightarrow> db_history crc ops (db\<lparr>d_inner := inner\<rparr>)"
| get: "db_history crc ops db \<Longrightarrow> db_get_at s key db = (r, db') \<Longrightarrow> db_history crc ops db'"
| snapshot: "db_history crc ops db \<Longrightarrow> new_snapshot (d_inner db) = (s, inner) \<Longrightarrow>
    db_history crc ops (db\<lparr>d_inner := inner\<rparr>)"
| release: "db_history crc ops db \<Longrightarrow> db_history crc ops (db\<lparr>d_inner := drop_snapshot s (d_inner db)\<rparr>)"
| compact: "db_history crc ops db \<Longrightarrow> compact_once crc db = (r, db') \<Longrightarrow>
    unat (id_next (db_id_gen (d_inner db))) + length ops < 2 ^ 64 \<Longrightarrow>
    levels_sorted (vs_current (db_version_set (d_inner db'))) \<Longrightarrow> db_history crc ops db'"
| background: "db_history crc ops db \<Longrightarrow> background_ready (d_inner db) \<Longrightarrow> background_round crc db = db' \<Longrightarrow>
    unat (id_next (db_id_gen (d_inner db))) + length ops < 2 ^ 64 \<Longrightarrow>
    levels_sorted (vs_current (db_version_set (d_inner db'))) \<Longrightarrow> db_history crc ops db'"
| close: "db_history crc ops db \<Longrightarrow> db_history crc ops (db\<lparr>d_inner := db_close (d_inner db)\<rparr>)"
| reopen: "db_history crc ops db \<Longrightarrow> crash_image (d_inner db) k fs \<Longrightarrow> history_fits opts ops \<Longrightarrow>
    numbers_left (d_inner db) \<Longrightarrow> db_open crc draws opts fs = (Inr db', fs') \<Longrightarrow>
    db_history crc (take (unat (vs_last_sequence (db_version_set (d_inner db')))) ops) db'"

definition db_holds :: "(bytes \<Rightarrow> u32) \<Rightarrow> write_op list \<Rightarrow> nat \<Rightarrow> db \<Rightarrow> bool" where
  "db_holds crc ops b db \<longleftrightarrow> inner_holds crc ops b (d_inner db) \<and> cache_ok (open_table (db_fs (d_inner db))) (d_cache db)"

lemma db_holds_write:
  assumes "db_holds crc ops b db" and "db_write crc draws key v t (d_inner db) = Some (Inr (), inner)"
    and "history_fits (db_options (d_inner db)) (ops @ [(t, key, v)])"
  shows "\<exists>b' \<ge> b. db_holds crc (ops @ [(t, key, v)]) b' (db\<lparr>d_inner := inner\<rparr>)"
  using assms db_write_holds [of crc ops b "d_inner db" t key v draws inner]
  by (auto simp: db_holds_def db_write_def split: if_splits intro: cache_ok_keeps)

lemma inner_holds_snapshots:
  assumes H: "inner_holds crc ops b inner"
    and s: "set ss \<subseteq> insert (of_nat (length ops)) (set (vs_snapshots (db_version_set inner)))"
  shows "inner_holds crc ops b (inner\<lparr>db_version_set := (db_version_set inner)\<lparr>vs_snapshots := ss\<rparr>\<rparr>)"
proof -
  let ?vs = "db_version_set inner"
  obtain F low eds where I: "store_holds (db_fs inner) (vs_current ?vs) F (take b ops) low" "snapshots_within low (length ops) ?vs"
    "manifest_matches crc eds (of_nat b) ?vs (db_fs inner)"
    using H by (auto simp: inner_holds_def)
  have "unat (of_nat (length ops) :: u64) = length ops"
    using history_fits_length [of "db_options inner" ops] H by (simp add: inner_holds_def unat_of_nat)
  moreover have "low \<le> length ops" using store_holds_low [OF I(1)] by simp
  ultimately have "snapshots_within low (length ops) (?vs\<lparr>vs_snapshots := ss\<rparr>)"
    using I(2) s by (auto simp: snapshots_within_def)
  moreover have "manifest_matches crc eds (of_nat b) (?vs\<lparr>vs_snapshots := ss\<rparr>) (db_fs inner)"
    using I(3) by (simp add: manifest_matches_def vs_written_def vs_fields_def)
  ultimately show ?thesis
    using H I(1) unfolding inner_holds_def memory_holds_def log_matches_def numbers_fresh_def by auto
qed

lemma db_open_empty:
  assumes "history_fits opts []"
  shows "\<exists>db. db_open crc draws opts fmempty = (Inr db, db_fs (d_inner db)) \<and> db_holds crc [] 0 db \<and>
    db_options (d_inner db) = opts \<and> id_next (db_id_gen (d_inner db)) = 3 \<and>
    vs_current (db_version_set (d_inner db)) = version_empty"
proof -
  obtain inner where "create_new crc opts fmempty = (Inr inner, db_fs inner)" "inner_holds crc [] 0 inner"
    "db_options inner = opts" "id_next (db_id_gen inner) = 3" "vs_current (db_version_set inner) = version_empty"
    using create_new_holds [OF assms] by blast
  then show ?thesis
    by (intro exI [of _ "\<lparr>d_inner = inner, d_cache = cache_with_capacity (table_cache_size opts)\<rparr>"])
       (simp add: db_open_def fs_exists_def db_holds_def)
qed

lemma db_reopen_holds:
  assumes H: "db_holds crc ops b db" and crash: "crash_image (d_inner db) k fs" and fits: "history_fits opts ops"
    and left: "numbers_left (d_inner db)"
  shows "\<exists>j db'. b \<le> j \<and> j \<le> length ops \<and> db_open crc draws opts fs = (Inr db', db_fs (d_inner db')) \<and>
    db_holds crc (take j ops) j db' \<and> unat (vs_last_sequence (db_version_set (d_inner db'))) = j \<and>
    (length (log_bytes (d_inner db)) \<le> k \<longrightarrow> j = length ops)"
proof -
  have I: "inner_holds crc ops b (d_inner db)" using H by (simp add: db_holds_def)
  obtain j inner where j: "b \<le> j" "j \<le> length ops" "recover_open crc draws opts fs = (Inr inner, db_fs inner)"
    "inner_holds crc (take j ops) j inner" "vs_last_sequence (db_version_set inner) = of_nat j"
    "length (log_bytes (d_inner db)) \<le> k \<longrightarrow> j = length ops"
    using reopen_holds [OF I crash fits left] by blast
  have "fs_exists current_path fs"
    using I crash by (auto simp: fs_exists_def crash_image_def Let_def inner_holds_def manifest_matches_def)
  moreover have "unat (of_nat j :: u64) = j" using history_fits_length [OF fits] j(2) by (simp add: unat_of_nat)
  ultimately show ?thesis
    using j by (intro exI [of _ j] exI [of _ "\<lparr>d_inner = inner, d_cache = cache_with_capacity (table_cache_size opts)\<rparr>"])
      (simp add: db_open_def db_holds_def)
qed

lemma run_one_compaction_holds:
  assumes H: "db_holds crc ops b db" and run: "run_one_compaction crc db = (r, db')"
    and room: "unat (id_next (db_id_gen (d_inner db))) + length ops < 2 ^ 64"
    and sorted: "levels_sorted (vs_current (db_version_set (d_inner db')))"
  shows "db_holds crc ops b db'"
proof (cases "pick_compaction (db_version_set (d_inner db))")
  case (Inl e)
  then show ?thesis using run H by (simp add: run_one_compaction_def)
next
  case (Inr picked)
  show ?thesis
  proof (cases picked)
    case None
    then show ?thesis using Inr run H by (simp add: run_one_compaction_def)
  next
    case (Some c)
    then show ?thesis
      using compaction_step [of crc ops b db c] H run room sorted Inr by (auto simp: db_holds_def)
  qed
qed

lemma db_history_holds:
  assumes "db_history crc ops db"
  shows "\<exists>b. db_holds crc ops b db"
  using assms
proof (induction rule: db_history.induct)
  case (created draws opts db fs)
  then show ?case using db_open_empty [of opts crc draws] by auto
next
  case (put ops db levels key v inner)
  then show ?case using db_holds_write by (fastforce simp: db_put_def split: if_splits)
next
  case (delete ops db levels key inner)
  then show ?case using db_holds_write by (fastforce simp: db_delete_def split: if_splits)
next
  case (wait ops db r inner)
  then show ?case using maybe_schedule_holds [of "d_inner db" r inner] by (auto simp: db_holds_def)
next
  case (get ops db s key r db')
  then obtain b where "db_holds crc ops b db" by blast
  then show ?case using db_get_at_holds [of crc ops b db s key] get.hyps(2) by (auto simp: db_holds_def)
next
  case (snapshot ops db s inner)
  then obtain b where b: "db_holds crc ops b db" by blast
  have "vs_last_sequence (db_version_set (d_inner db)) = of_nat (length ops)"
    using b by (simp add: db_holds_def inner_holds_def memory_holds_def)
  then show ?case
    using b snapshot.hyps(2) inner_holds_snapshots [of crc ops b "d_inner db"
        "vs_snapshots (db_version_set (d_inner db)) @ [of_nat (length ops)]"]
    by (auto simp: new_snapshot_def acquire_snapshot_def db_holds_def Let_def)
next
  case (release ops db s)
  then obtain b where "db_holds crc ops b db" by blast
  then show ?case
    using inner_holds_snapshots [of crc ops b "d_inner db" "filter (\<lambda>t. t \<noteq> s) (vs_snapshots (db_version_set (d_inner db)))"]
    by (auto simp: drop_snapshot_def release_snapshot_def db_holds_def)
next
  case (compact ops db r db')
  then obtain b where b: "db_holds crc ops b db" by blast
  show ?case using run_one_compaction_holds [OF b compact.hyps(2) [unfolded compact_once_def] compact.hyps(3,4)] by blast
next
  case (background ops db db')
  then obtain b where b: "db_holds crc ops b db" by blast
  obtain r db1 where run: "run_one_compaction crc db = (r, db1)" by force
  have db': "db' = db1\<lparr>d_inner := (d_inner db1)\<lparr>db_bg_scheduled := False\<rparr>\<rparr>"
    using background.hyps(3) run by (simp add: background_round_def)
  have "db_holds crc ops b db1"
    by (rule run_one_compaction_holds [OF b run background.hyps(4)]) (use background.hyps(5) db' in simp)
  then show ?case unfolding db' by (auto simp: db_holds_def)
next
  case (close ops db)
  then show ?case by (auto simp: db_close_def db_holds_def)
next
  case (reopen ops db k fs opts draws db' fs')
  then obtain b where b: "db_holds crc ops b db" by blast
  show ?case using db_reopen_holds [OF b reopen.hyps(2-4), of draws] reopen.hyps(5) by auto
qed

section \<open>What the runs show\<close>

lemma db_get_current:
  assumes "db_holds crc ops b db"
  shows "db_get key db = db_get_at (of_nat (length ops)) key db"
  using assms by (simp add: db_get_def db_holds_def inner_holds_def memory_holds_def)

lemma db_holds_length: "db_holds crc ops b db \<Longrightarrow> unat (of_nat (length ops) :: u64) = length ops"
  using history_fits_length [of "db_options (d_inner db)" ops] by (auto simp: db_holds_def inner_holds_def unat_of_nat)

lemma db_holds_reads:
  assumes H: "db_holds crc ops b db"
  shows "fst (db_get key db) = Inr (read_value (last_write ops key))"
    and "s \<in> readable ops (db_version_set (d_inner db)) \<Longrightarrow>
      fst (db_get_at s key db) = Inr (read_value (last_write (take (unat s) ops) key))"
proof -
  show at: "fst (db_get_at s key db) = Inr (read_value (last_write (take (unat s) ops) key))"
    if "s \<in> readable ops (db_version_set (d_inner db))" for s
    using db_get_at_holds [of crc ops b db s key] H that by (auto simp: db_holds_def)
  show "fst (db_get key db) = Inr (read_value (last_write ops key))"
    using at [of "of_nat (length ops)"] db_holds_length [OF H] by (simp add: db_get_current [OF H] readable_def)
qed

lemma db_put_succeeds:
  assumes "db_holds crc ops b db" and "key \<noteq> []" and "history_fits (db_options (d_inner db)) (ops @ [(Put, key, v)])"
    and "numbers_left (d_inner db)" and "sizes_ok (vs_current (db_version_set (d_inner db)))"
    and "\<not> write_must_wait (d_inner db)"
  shows "\<exists>inner. db_put crc draws key v (d_inner db) = Some (Inr (), inner)"
  using db_write_succeeds [of crc ops b "d_inner db" Put key v draws] assms
  by (auto simp: db_holds_def numbers_left_def db_put_def db_write_def)

section \<open>A sample run\<close>

lemma write_new_version_snapshots:
  "write_new_version crc e vs fs = (r, vs', fs') \<Longrightarrow> vs_snapshots vs' = vs_snapshots vs"
  by (auto simp: write_new_version_def Let_def split: prod.splits sum.splits)

lemma flush_memtable_snapshots:
  "flush_memtable crc inner = (r, inner') \<Longrightarrow> vs_snapshots (db_version_set inner') = vs_snapshots (db_version_set inner)"
  by (auto simp: flush_memtable_def Let_def dest!: write_new_version_snapshots split: if_splits sum.splits prod.splits)

lemma db_put_snapshots:
  assumes "db_put crc draws key v inner = Some (r, inner')"
  shows "vs_snapshots (db_version_set inner') = vs_snapshots (db_version_set inner)"
  using db_put_cases [OF assms]
proof
  assume "db_write_locked crc draws key v Put inner = (r, inner')"
  from db_write_locked_cases [OF this] show ?thesis using flush_memtable_snapshots by fastforce
qed simp

text \<open>An empty database with a snapshot, and a put into it.\<close>

lemma sample_fits: "history_fits options_default [(Put, [1], [7])]" "history_fits options_default []"
  by (simp_all add: history_fits_def options_default_def filter_size_def div_ceil_def op_size_def)

lemma sample_start:
  "\<exists>db. db_history crc [] db \<and> 0 \<in> set (vs_snapshots (db_version_set (d_inner db))) \<and>
     db_options (d_inner db) = options_default \<and> id_next (db_id_gen (d_inner db)) = 3 \<and> numbers_left (d_inner db) \<and>
     sizes_ok (vs_current (db_version_set (d_inner db))) \<and> \<not> write_must_wait (d_inner db)"
proof -
  let ?opts = options_default
  obtain db where db: "db_open crc (\<lambda>_ _. 0) ?opts fmempty = (Inr db, db_fs (d_inner db))" "db_options (d_inner db) = ?opts"
    "id_next (db_id_gen (d_inner db)) = 3" "vs_current (db_version_set (d_inner db)) = version_empty" "db_holds crc [] 0 db"
    using db_open_empty [OF sample_fits(2), of crc "\<lambda>_ _. 0"] by blast
  have h0: "db_history crc [] db" by (rule db_history.created [OF db(1) sample_fits(2)])
  have s0: "vs_last_sequence (db_version_set (d_inner db)) = 0" using db(5) by (simp add: db_holds_def inner_holds_def memory_holds_def)
  obtain inner where inner: "new_snapshot (d_inner db) = (0, inner)" using s0 by (simp add: new_snapshot_def Let_def)
  have 1: "db_options inner = ?opts" "id_next (db_id_gen inner) = 3" "vs_current (db_version_set inner) = version_empty"
    "0 \<in> set (vs_snapshots (db_version_set inner))"
    using inner db s0 by (auto simp: new_snapshot_def acquire_snapshot_def Let_def)
  have "numbers_left inner" by (simp add: numbers_left_def 1)
  moreover have "sizes_ok version_empty" by (simp add: sizes_ok_def total_size_def files_at_def version_empty_def)
  moreover have "\<not> write_must_wait inner"
    by (simp add: write_must_wait_def 1 level0_needs_slowdown_def num_files_def files_at_def version_empty_def NUM_LEVELS_def
        LEVEL0_STOP_WRITES_TRIGGER_def)
  ultimately show ?thesis
    using db_history.snapshot [OF h0 inner] 1 by (intro exI [of _ "db\<lparr>d_inner := inner\<rparr>"]) simp
qed

lemma sample_run:
  "\<exists>db. db_history crc [(Put, [1], [7])] db \<and> 0 \<in> set (vs_snapshots (db_version_set (d_inner db))) \<and>
     numbers_left (d_inner db) \<and> unat (id_next (db_id_gen (d_inner db))) \<le> 5"
proof -
  obtain db where db: "db_history crc [] db" "0 \<in> set (vs_snapshots (db_version_set (d_inner db)))"
    "db_options (d_inner db) = options_default" "numbers_left (d_inner db)"
    "sizes_ok (vs_current (db_version_set (d_inner db)))" "\<not> write_must_wait (d_inner db)" "id_next (db_id_gen (d_inner db)) = 3"
    using sample_start by blast
  obtain b where b: "db_holds crc [] b db" using db_history_holds [OF db(1)] by blast
  obtain inner where put: "db_put crc (\<lambda>_. 0) [1] [7] (d_inner db) = Some (Inr (), inner)"
    using db_put_succeeds [OF b _ _ db(4-6), of "[1]" "[7]" "\<lambda>_. 0"] sample_fits(1) db(3) by auto
  have "db_history crc ([] @ [(Put, [1], [7])]) (db\<lparr>d_inner := inner\<rparr>)"
    using put sample_fits(1) db(3) by (intro db_history.put [OF db(1)]) simp_all
  moreover have "numbers_left inner" "unat (id_next (db_id_gen inner)) \<le> 5"
    using db_put_drawn [OF put] db(7) by (simp_all add: numbers_left_def)
  ultimately show ?thesis using db_put_snapshots [OF put] db(2) by (intro exI [of _ "db\<lparr>d_inner := inner\<rparr>"]) simp
qed

lemma crash_image_whole:
  assumes "db_holds crc ops b db" and "length (log_bytes (d_inner db)) \<le> k"
  shows "crash_image (d_inner db) k (db_fs (d_inner db))"
  using assms
  by (auto simp: crash_image_def Let_def db_holds_def inner_holds_def numbers_fresh_def log_bytes_def split: option.splits)

lemma inner_holds_numbers: "inner_holds crc ops b inner \<Longrightarrow> numbers_ok inner"
  using store_holds_wf inner_holds_not_live by (fastforce simp: inner_holds_def numbers_ok_def)

section \<open>Properties\<close>

text \<open>C1: Reads return what was written. In every run of the database, through flushes, compactions that leave the
  levels sorted, closings, crashes and recoveries, a get returns the value of the last acknowledged write
  of its key (none if that was a deletion), and a read at a registered snapshot returns the last write
  of the key among the writes the snapshot saw; no read fails. All the bytes a run writes are below 4 GiB
  (\<open>history_fits\<close>), and a reopening continues with the writes it recovered; how many those are is C2.\<close>

theorem db_reads_history:
  assumes "db_history crc ops db"
  shows "fst (db_get key db) = Inr (read_value (last_write ops key)) \<and>
    (s \<in> set (vs_snapshots (db_version_set (d_inner db))) \<longrightarrow>
       fst (db_get_at s key db) = Inr (read_value (last_write (take (unat s) ops) key)))"
  using db_history_holds [OF assms] db_holds_reads by (auto simp: readable_def)

theorem db_reads_history_witness:
  "\<exists>db. db_history (\<lambda>_. 0) [(Put, [1], [7])] db \<and> fst (db_get [1] db) = Inr (Some [7]) \<and> fst (db_get_at 0 [1] db) = Inr None"
proof -
  obtain db where "db_history (\<lambda>_. 0) [(Put, [1], [7])] db" "0 \<in> set (vs_snapshots (db_version_set (d_inner db)))"
    using sample_run by blast
  then show ?thesis
    using db_reads_history [of "\<lambda>_. 0" "[(Put, [1], [7])]" db "[1]" 0] by (auto simp: last_write_def read_value_def)
qed

text \<open>C5: A scan at the present or at a registered snapshot shows exactly the pairs that gets at that sequence number
  would return, each key once and in ascending order; building and driving the iterator never fails.\<close>

theorem db_scan_reads_history:
  assumes "db_history crc ops db"
    and "s = vs_last_sequence (db_version_set (d_inner db)) \<or> s \<in> set (vs_snapshots (db_version_set (d_inner db)))"
  shows "\<exists>shown. bind_res (new_iterator_at s (d_inner db)) di_collect = Inr shown \<and> sorted_wrt (<) (map fst shown) \<and>
    (\<forall>k v. (k, v) \<in> set shown \<longleftrightarrow> fst (db_get_at s k db) = Inr (Some v))"
proof -
  obtain b where b: "db_holds crc ops b db" using db_history_holds [OF assms(1)] by blast
  have s: "s \<in> readable ops (db_version_set (d_inner db))"
    using assms(2) b by (auto simp: readable_def db_holds_def inner_holds_def memory_holds_def)
  show ?thesis
    using new_iterator_at_holds [of crc ops b "d_inner db" s] s b db_holds_reads(2) [OF b s] by (simp add: db_holds_def)
qed

theorem db_scan_reads_history_witness:
  "\<exists>db shown. db_history (\<lambda>_. 0) [(Put, [1], [7])] db \<and> bind_res (new_iterator_at 1 (d_inner db)) di_collect = Inr shown \<and>
     ([1], [7]) \<in> set shown"
proof -
  obtain db where db: "db_history (\<lambda>_. 0) [(Put, [1], [7])] db" using sample_run by blast
  obtain b where b: "db_holds (\<lambda>_. 0) [(Put, [1], [7])] b db" using db_history_holds [OF db] by blast
  have "vs_last_sequence (db_version_set (d_inner db)) = 1" using b by (simp add: db_holds_def inner_holds_def memory_holds_def)
  moreover have "fst (db_get_at 1 [1] db) = Inr (Some [7])"
    using db_holds_reads(2) [OF b, of 1 "[1]"] by (simp add: readable_def last_write_def read_value_def)
  ultimately show ?thesis using db db_scan_reads_history [OF db, of 1] by auto
qed

text \<open>C2: No acknowledged write is lost by a close or crash that leaves the synced log whole, and a crash that cuts the
  log keeps a prefix of the history that holds at least every flushed write: whatever of the directory
  the crash leaves, the database opens again, and the state is again that of a run of exactly those writes.
  The manifest is whole (\<open>crash_image\<close>), the history within 4 GiB, and two file numbers are left.\<close>

theorem db_reopen_durable:
  assumes "db_history crc ops db" and "crash_image (d_inner db) k fs" and "history_fits opts ops" and "numbers_left (d_inner db)"
  shows "\<exists>j db'. db_open crc draws opts fs = (Inr db', db_fs (d_inner db')) \<and> db_history crc (take j ops) db' \<and>
    j \<le> length ops \<and> length ops - mt_entries (db_memtable (d_inner db)) \<le> j \<and>
    (length (log_bytes (d_inner db)) \<le> k \<longrightarrow> j = length ops)"
proof -
  obtain b where b: "db_holds crc ops b db" using db_history_holds [OF assms(1)] by blast
  obtain j db' where j: "b \<le> j" "j \<le> length ops" "db_open crc draws opts fs = (Inr db', db_fs (d_inner db'))"
    "unat (vs_last_sequence (db_version_set (d_inner db'))) = j" "length (log_bytes (d_inner db)) \<le> k \<longrightarrow> j = length ops"
    using db_reopen_holds [OF b assms(2-4), of draws] by blast
  have "db_history crc (take j ops) db'" using db_history.reopen [OF assms j(3)] by (simp only: j(4))
  moreover have "mt_entries (db_memtable (d_inner db)) = length ops - b"
    using b by (simp add: db_holds_def inner_holds_def memory_holds_def mt_rep_def)
  ultimately show ?thesis using j by (intro exI [of _ j] exI [of _ db']) auto
qed

theorem db_reopen_durable_witness:
  "\<exists>db db'. db_history (\<lambda>_. 0) [(Put, [1], [7])] db \<and>
     db_open (\<lambda>_. 0) (\<lambda>_ _. 0) options_default (db_fs (d_inner db)) = (Inr db', db_fs (d_inner db')) \<and>
     db_history (\<lambda>_. 0) [(Put, [1], [7])] db'"
proof -
  obtain db where db: "db_history (\<lambda>_. 0) [(Put, [1], [7])] db" "numbers_left (d_inner db)" using sample_run by blast
  obtain b where b: "db_holds (\<lambda>_. 0) [(Put, [1], [7])] b db" using db_history_holds [OF db(1)] by blast
  show ?thesis
    using db_reopen_durable [OF db(1) crash_image_whole [OF b order_refl] sample_fits(1) db(2), of "\<lambda>_ _. 0"] db(1) by auto
qed

text \<open>C10: Writes come back: in every run, a put of a non-empty key returns as soon as level 0 has room, and succeeds,
  flushing the memtable when it is full, as long as the history fits the format's 4 GiB, two file
  numbers are left and the sizes of the levels can be added.\<close>

theorem db_put_returns:
  assumes "db_history crc ops db" and "key \<noteq> []" and "history_fits (db_options (d_inner db)) (ops @ [(Put, key, v)])"
    and "numbers_left (d_inner db)" and "sizes_ok (vs_current (db_version_set (d_inner db)))"
    and "\<not> write_must_wait (d_inner db)"
  shows "\<exists>inner. db_put crc draws key v (d_inner db) = Some (Inr (), inner) \<and>
    db_history crc (ops @ [(Put, key, v)]) (db\<lparr>d_inner := inner\<rparr>)"
proof -
  obtain b where b: "db_holds crc ops b db" using db_history_holds [OF assms(1)] by blast
  then obtain inner where "db_put crc draws key v (d_inner db) = Some (Inr (), inner)"
    using db_put_succeeds [OF _ assms(2-6)] by blast
  then show ?thesis using db_history.put [OF assms(1) _ assms(3)] by blast
qed

theorem db_put_returns_witness:
  "\<exists>db inner. db_history (\<lambda>_. 0) [] db \<and> db_put (\<lambda>_. 0) (\<lambda>_. 0) [1] [7] (d_inner db) = Some (Inr (), inner) \<and>
     db_history (\<lambda>_. 0) [(Put, [1], [7])] (db\<lparr>d_inner := inner\<rparr>)"
proof -
  obtain db where db: "db_history (\<lambda>_. 0) [] db" "db_options (d_inner db) = options_default" "numbers_left (d_inner db)"
    "sizes_ok (vs_current (db_version_set (d_inner db)))" "\<not> write_must_wait (d_inner db)"
    using sample_start by blast
  show ?thesis
    using db_put_returns [OF db(1) _ _ db(3-5), of "[1]" "[7]" "\<lambda>_. 0"] sample_fits(1) db(1,2) by auto
qed

text \<open>C9: In every interleaving of the database's operations, the failing ones included, the version keeps its form (seven
  levels, no file number on two of them or twice on one), and every table it names has a number
  below the generator's next one, so that no new file is written over a live table.\<close>

theorem db_numbers_invariant:
  assumes "(db_step crc)\<^sup>*\<^sup>* db db'" and "numbers_ok (d_inner db)"
  shows "numbers_ok (d_inner db')"
  using assms by (induction rule: rtranclp_induct) (auto intro: db_step_numbers)

theorem db_numbers_invariant_witness:
  "\<exists>db inner. db_history (\<lambda>_. 0) [] db \<and> db_put (\<lambda>_. 0) (\<lambda>_. 0) [1] [7] (d_inner db) = Some (Inr (), inner) \<and> numbers_ok inner"
proof -
  obtain db where db: "db_history (\<lambda>_. 0) [] db" "db_options (d_inner db) = options_default" "numbers_left (d_inner db)"
    "sizes_ok (vs_current (db_version_set (d_inner db)))" "\<not> write_must_wait (d_inner db)"
    using sample_start by blast
  obtain b where b: "db_holds (\<lambda>_. 0) [] b db" using db_history_holds [OF db(1)] by blast
  obtain inner where put: "db_put (\<lambda>_. 0) (\<lambda>_. 0) [1] [7] (d_inner db) = Some (Inr (), inner)"
    using db_put_succeeds [OF b _ _ db(3-5), of "[1]" "[7]" "\<lambda>_. 0"] sample_fits(1) db(2) by auto
  have "(db_step (\<lambda>_. 0))\<^sup>*\<^sup>* db (db\<lparr>d_inner := inner\<rparr>)" using db_step.put [OF put] by blast
  then have "numbers_ok (d_inner (db\<lparr>d_inner := inner\<rparr>))"
    by (rule db_numbers_invariant) (use b inner_holds_numbers in \<open>auto simp: db_holds_def\<close>)
  then show ?thesis using put db(1) by auto
qed

text \<open>C14: A compaction can hide a table: it appends its outputs to the next level behind the tables that are there, and
  when an output's keys lie before those of such a table, the binary search of a get no longer finds
  any key of that table, which it found before.\<close>

theorem compaction_hides_table:
  assumes "version_wf v" and "co_level c + 1 < NUM_LEVELS" and "files_at v (co_level c + 1) = [f]"
    and "cp_new_files out = [g]" and "cp_deleted_files out = [(co_level c, n)]"
    and "user_key (fm_smallest g) \<le> user_key (fm_largest g)" and "user_key (fm_largest g) < user_key (fm_smallest f)"
    and "covers key f" and "apply_edit v (compaction_edit (co_level c) out gen) = Inr v'"
  shows "find_file_for_key (files_at v (co_level c + 1)) key = Some f \<and> files_at v' (co_level c + 1) = [f, g] \<and>
    find_file_for_key (files_at v' (co_level c + 1)) key = None"
proof -
  let ?l = "co_level c + 1"
  have k: "user_key (fm_smallest f) \<le> key" "user_key (fm_smallest g) \<le> key" "user_key (fm_largest g) < key"
    "key \<le> user_key (fm_largest f)"
    using assms(6-8) by (auto simp: covers_def intro: order_trans less_le_trans)
  have "find_file_for_key [f] key = Some f"
    using find_file_sorted [of "[f]" key f] assms(8) by (auto simp: level_sorted_def covers_def intro: order_trans)
  moreover have "files_at v' ?l = [f, g]"
  proof -
    have len: "?l < length (v_files v)" using assms(1,2) by (simp add: version_wf_def)
    have u: "unat (of_nat ?l :: u32) = ?l" "unat (of_nat (co_level c) :: u32) = co_level c"
      using assms(2) by (rule unat_level, intro unat_level) (use assms(2) in simp)
    show ?thesis
      unfolding apply_edit_files(2) [OF assms(9) len] assms(3) using u assms(4,5) by (simp add: deleted_at_def)
  qed
  moreover have "find_file_for_key [f, g] key = None"
  proof -
    let ?p = "\<lambda>f. user_key (fm_smallest f) \<le> key"
    have all: "?p ([f, g] ! i)" if "i < 2" for i using that k(1,2) by (cases i) auto
    then have "\<not> partition_point ?p [f, g] < 2"
      using partition_point_splits [of "[f, g]" ?p "partition_point ?p [f, g]"] by auto
    then have "partition_point ?p [f, g] = 2" using partition_point_le [of ?p "[f, g]"] by simp
    then show ?thesis using k(3) by (simp add: find_file_for_key_def Let_def)
  qed
  ultimately show ?thesis using assms(3) by simp
qed

theorem compaction_hides_table_witness:
  "\<exists>v'. apply_edit \<lparr>v_files = [[file_meta_new 2 9 (InternalKey [97] 4 Put) (InternalKey [99] 3 Put)],
       [file_meta_new 1 9 (InternalKey [109] 1 Put) (InternalKey [122] 2 Put)], [], [], [], [], []]\<rparr>
     (compaction_edit 0 \<lparr>cp_new_files = [file_meta_new 3 9 (InternalKey [97] 4 Put) (InternalKey [99] 3 Put)],
        cp_deleted_files = [(0, 2)]\<rparr> \<lparr>id_next = 4\<rparr>) = Inr v' \<and>
     find_file_for_key (files_at v' 1) [110] = None"
proof -
  let ?f = "file_meta_new 1 9 (InternalKey [109] 1 Put) (InternalKey [122] 2 Put)"
    and ?g = "file_meta_new 3 9 (InternalKey [97] 4 Put) (InternalKey [99] 3 Put)"
  let ?v = "\<lparr>v_files = [[file_meta_new 2 9 (InternalKey [97] 4 Put) (InternalKey [99] 3 Put)], [?f], [], [], [], [], []]\<rparr>"
    and ?out = "\<lparr>cp_new_files = [?g], cp_deleted_files = [(0, 2)]\<rparr>"
    and ?c = "\<lparr>co_level = 0, co_inputs = ([], []), co_grandparents = []\<rparr>"
  have wf: "version_wf ?v"
    by (auto simp: version_wf_def NUM_LEVELS_def files_at_def level_numbers_def file_meta_new_def nth_Cons' numeral_eq_Suc)
  have L: "co_level ?c + 1 < NUM_LEVELS" by (simp add: NUM_LEVELS_def)
  have "levels_ok (compaction_edit (co_level ?c) ?out \<lparr>id_next = 4\<rparr>)" by (simp add: levels_ok_def NUM_LEVELS_def)
  then obtain v' where v': "apply_edit ?v (compaction_edit (co_level ?c) ?out \<lparr>id_next = 4\<rparr>) = Inr v'"
    using apply_edit_Inr_iff by blast
  have "find_file_for_key (files_at v' (co_level ?c + 1)) [110] = None"
    by (rule conjunct2 [OF conjunct2 [OF compaction_hides_table [OF wf L _ _ _ _ _ _ v', where f = ?f and g = ?g and n = 2]]])
      (simp_all add: files_at_def file_meta_new_def covers_def)
  then show ?thesis using v' by auto
qed

text \<open>Cleaning the directory after a recovery removes the tables the version does not name, all logs and manifests but
  the current ones, and the temporary file, and keeps the live tables, the current log and manifest
  and CURRENT.\<close>

lemma remove_obsolete_keeps_live:
  "fmlookup (remove_obsolete_files vs fs) (sst_path n) = (if live_number (vs_current vs) n then fmlookup fs (sst_path n) else None) \<and>
   fmlookup (remove_obsolete_files vs fs) (log_path n) = (if n = vs_log_number vs then fmlookup fs (log_path n) else None) \<and>
   fmlookup (remove_obsolete_files vs fs) (manifest_path n) =
     (if n = vs_manifest_number vs then fmlookup fs (manifest_path n) else None) \<and>
   fmlookup (remove_obsolete_files vs fs) current_path = fmlookup fs current_path \<and>
   fmlookup (remove_obsolete_files vs fs) current_tmp_path = None"
  by (simp add: remove_obsolete_lookup)

end
