(* ===== verification/Frames.thy ===== *)
theory Frames
  imports Numbers
begin

text \<open>
  What every call leaves alone, failing ones included: no call changes a table file whose number the generator
  has passed, and every reader in the cache is the one that opening its file returns.
\<close>

section \<open>Compactions write new files only\<close>

definition older_kept :: "u64 \<Rightarrow> fs \<Rightarrow> fs \<Rightarrow> bool" where
  "older_kept g fs fs' \<longleftrightarrow> (\<forall>n < g. fmlookup fs' (sst_path n) = fmlookup fs (sst_path n))"

lemma older_kept_refl [simp]: "older_kept g fs fs"
  by (simp add: older_kept_def)

lemma older_kept_trans: "older_kept g fs fs' \<Longrightarrow> older_kept g' fs' fs'' \<Longrightarrow> g \<le> g' \<Longrightarrow> older_kept g fs fs''"
  unfolding older_kept_def by (metis less_le_trans)

lemma older_kept_write: "g \<le> n \<Longrightarrow> older_kept g fs (fs_write (sst_path n) bs fs')  = older_kept g fs fs'"
proof -
  assume "g \<le> n"
  then have "m \<noteq> n" if "m < g" for m using that by auto
  then have "m < g \<Longrightarrow> fmlookup (fs_write (sst_path n) bs fs') (sst_path m) = fmlookup fs' (sst_path m)" for m
    by (auto simp: fs_write_def)
  then show ?thesis by (simp add: older_kept_def)
qed

definition new_tables_only :: "u64 \<Rightarrow> fs \<Rightarrow> fs \<Rightarrow> bool" where
  "new_tables_only g fs fs' \<longleftrightarrow>
     (\<forall>name. (\<forall>n. g \<le> n \<longrightarrow> name \<noteq> sst_path n) \<longrightarrow> fmlookup fs' name = fmlookup fs name)"

lemma new_tables_only_refl [simp]: "new_tables_only g fs fs"
  by (simp add: new_tables_only_def)

lemma new_tables_only_write: "g \<le> n \<Longrightarrow> new_tables_only g fs fs' \<Longrightarrow> new_tables_only g fs (fs_write (sst_path n) bs fs')"
  by (auto simp: new_tables_only_def fs_write_def)

lemma new_tables_only_older:
  assumes "new_tables_only g fs fs'"
  shows "older_kept g fs fs'"
proof -
  have "fmlookup fs' (sst_path m) = fmlookup fs (sst_path m)" if "m < g" for m
  proof -
    have "\<forall>n. g \<le> n \<longrightarrow> sst_path m \<noteq> sst_path n" using that by auto
    then show ?thesis using assms unfolding new_tables_only_def by blast
  qed
  then show ?thesis by (simp add: older_kept_def)
qed

definition writes_new :: "u64 \<Rightarrow> fs \<Rightarrow> output_state \<Rightarrow> bool" where
  "writes_new g fs st \<longleftrightarrow> new_tables_only g fs (os_fs st) \<and> g \<le> id_next (os_id_gen st) \<and>
     (\<forall>n. os_number st = Some n \<longrightarrow> g \<le> n)"

lemma writes_new_start: "writes_new (id_next g) fs (output_start g fs)"
  by (simp add: writes_new_def output_start_def)

lemma writes_new_update [simp]:
  "writes_new g fs (st\<lparr>os_gp_idx := i\<rparr>) = writes_new g fs st"
  "writes_new g fs (st\<lparr>os_gp_idx := i, os_overlap := w\<rparr>) = writes_new g fs st"
  "writes_new g fs (st\<lparr>os_last_user_key := k, os_last_seq := s\<rparr>) = writes_new g fs st"
  "writes_new g fs (st\<lparr>os_new_files := ms\<rparr>) = writes_new g fs st"
  by (simp_all add: writes_new_def)

lemma writes_new_open: "open_output bt bpk ik st = (r, st') \<Longrightarrow> writes_new g fs st \<Longrightarrow> writes_new g fs st'"
  by (auto simp: open_output_def writes_new_def new_tables_only_write dest!: new_file_number_less split: sum.splits)

lemma writes_new_finish: "finish_current st = (r, st') \<Longrightarrow> writes_new g fs st \<Longrightarrow> writes_new g fs st'"
  by (auto simp: finish_current_def writes_new_def new_tables_only_write Let_def split: option.splits sum.splits)

lemma writes_new_continue: "continue_with_entry uk bs v st = (r, st') \<Longrightarrow> writes_new g fs st \<Longrightarrow> writes_new g fs st'"
  by (auto simp: continue_with_entry_def writes_new_def Let_def split: option.splits sum.splits)

text \<open>A condition on the state that two calls keep, their sequence keeps.\<close>

lemma then_do_keeps:
  assumes "then_do r f = (x, s')" and "P (snd r)" and "\<And>y s. P s \<Longrightarrow> f y s = (x, s') \<Longrightarrow> P s'"
  shows "P s'"
  using assms by (cases r; cases "fst r") auto

lemma writes_new_write:
  assumes "write_entry c bt bpk ik uk bs v st = (r, st')" and st: "writes_new g fs st"
  shows "writes_new g fs st'"
proof (cases "os_builder st = None")
  case True
  then have "then_do (open_output bt bpk ik st) (\<lambda>_ st. continue_with_entry uk bs v st) = (r, st')"
    using assms(1) by (simp add: write_entry_def)
  then show ?thesis
  proof (rule then_do_keeps)
    show "writes_new g fs (snd (open_output bt bpk ik st))" using writes_new_open st by (metis prod.collapse)
  qed (rule writes_new_continue)
next
  case False
  let ?split = "if should_split st then
      then_do (finish_current st) (\<lambda>meta st.
      then_do (open_output bt bpk ik (st\<lparr>os_new_files := os_new_files st @ [meta]\<rparr>)) (\<lambda>_ st.
      (Inr (), st\<lparr>os_gp_idx := 0\<rparr>)))
    else (Inr (), st)"
  obtain r1 st1 where s: "?split = (r1, st1)" by force
  have 1: "writes_new g fs st1"
  proof (cases "should_split st")
    case True
    then have t: "then_do (finish_current st) (\<lambda>meta st.
      then_do (open_output bt bpk ik (st\<lparr>os_new_files := os_new_files st @ [meta]\<rparr>)) (\<lambda>_ st.
      (Inr (), st\<lparr>os_gp_idx := 0\<rparr>))) = (r1, st1)" using s by simp
    show ?thesis
    proof (rule then_do_keeps [OF t])
      show "writes_new g fs (snd (finish_current st))" using writes_new_finish st by (metis prod.collapse)
      fix meta st2
      assume 2: "writes_new g fs st2"
        "then_do (open_output bt bpk ik (st2\<lparr>os_new_files := os_new_files st2 @ [meta]\<rparr>)) (\<lambda>_ st. (Inr (), st\<lparr>os_gp_idx := 0\<rparr>)) = (r1, st1)"
      show "writes_new g fs st1"
      proof (rule then_do_keeps [OF 2(2)])
        show "writes_new g fs (snd (open_output bt bpk ik (st2\<lparr>os_new_files := os_new_files st2 @ [meta]\<rparr>)))"
          using writes_new_open 2(1) by (metis prod.collapse writes_new_update(4))
      qed auto
    qed
  qed (use s st in auto)
  have "then_do ?split (\<lambda>_ st. case grandparent_loop (co_grandparents c) uk (os_gp_idx st) (os_overlap st) of
        Inl e \<Rightarrow> (Inl e, st)
      | Inr (idx, overlap) \<Rightarrow> continue_with_entry uk bs v (st\<lparr>os_gp_idx := idx, os_overlap := overlap\<rparr>)) = (r, st')"
    using assms(1) False by (simp add: write_entry_def)
  then show ?thesis
  proof (rule then_do_keeps)
    show "writes_new g fs (snd ?split)" using 1 s by simp
  qed (auto split: sum.splits prod.splits intro: writes_new_continue)
qed

lemma writes_new_entry: "compact_entry c v oldest bt bpk e st = (r, st') \<Longrightarrow> writes_new g fs st \<Longrightarrow> writes_new g fs st'"
  using writes_new_write [of c bt bpk]
  by (auto simp: compact_entry_def Let_def split: option.splits sum.splits prod.splits if_splits)

lemma writes_new_loop:
  "compact_loop c v oldest bt bpk m st = (r, st') \<Longrightarrow> writes_new g fs st \<Longrightarrow> writes_new g fs st'"
proof (induction c v oldest bt bpk m st rule: compact_loop.induct)
  case (1 c v oldest bt bpk m st)
  note run = 1(2) [unfolded compact_loop.simps [of c v oldest bt bpk m st]]
  show ?case
  proof (cases "merger_next m")
    case (Inl e)
    then show ?thesis using run 1(3) by simp
  next
    case (Inr p)
    obtain item m' where p: "p = (item, m')" by force
    show ?thesis
    proof (cases item)
      case None
      then show ?thesis using run Inr p 1(3) by simp
    next
      case (Some e)
      then have t: "then_do (compact_entry c v oldest bt bpk e st) (\<lambda>_ st. compact_loop c v oldest bt bpk m' st) = (r, st')"
        using run Inr p by simp
      obtain r1 st1 where e: "compact_entry c v oldest bt bpk e st = (r1, st1)" by force
      note st1 = writes_new_entry [OF e 1(3)]
      show ?thesis
      proof (cases r1)
        case (Inl err)
        then show ?thesis using t e st1 by simp
      next
        case r1: (Inr x)
        show ?thesis
          by (rule 1(1) [OF Inr [unfolded p] refl Some e [unfolded r1] _ st1]) (use t e r1 in simp)
      qed
    qed
  qed
qed

lemma do_compaction_new:
  assumes "do_compaction c v g oldest bt bpk fs = (r, g', fs')"
  shows "new_tables_only (id_next g) fs fs'" "id_next g \<le> id_next g'"
proof -
  have "new_tables_only (id_next g) fs fs' \<and> id_next g \<le> id_next g'"
  proof (cases "bind_res (open_inputs fs (fst (co_inputs c) @ snd (co_inputs c)) []) merger_new")
    case (Inl e)
    then show ?thesis using assms by (simp add: do_compaction_def)
  next
    case (Inr m)
    let ?loop = "compact_loop c v oldest bt bpk m (output_start g fs)"
    obtain r1 st where st: "then_do ?loop (\<lambda>_ st.
        if os_builder st \<noteq> None then
          then_do (finish_current st) (\<lambda>meta st. (Inr (), st\<lparr>os_new_files := os_new_files st @ [meta]\<rparr>))
        else (Inr (), st)) = (r1, st)"
      by (meson surj_pair)
    have out: "g' = os_id_gen st" "fs' = os_fs st" using assms Inr st by (auto simp: do_compaction_def)
    have "writes_new (id_next g) fs st"
    proof (rule then_do_keeps [OF st])
      show "writes_new (id_next g) fs (snd ?loop)" using writes_new_loop [OF _ writes_new_start] by (metis prod.collapse)
      fix x st1
      assume 1: "writes_new (id_next g) fs st1" "(if os_builder st1 \<noteq> None then
          then_do (finish_current st1) (\<lambda>meta st. (Inr (), st\<lparr>os_new_files := os_new_files st @ [meta]\<rparr>))
        else (Inr (), st1)) = (r1, st)"
      obtain r2 st2 where f: "finish_current st1 = (r2, st2)" by force
      show "writes_new (id_next g) fs st"
        using 1 f writes_new_finish [OF f 1(1)] by (cases r2) (auto split: if_splits)
    qed
    then show ?thesis by (simp add: writes_new_def out)
  qed
  then show "new_tables_only (id_next g) fs fs'" "id_next g \<le> id_next g'" by blast+
qed

section \<open>The other calls\<close>

text \<open>The log and the manifest are open under names of their own kind.\<close>

definition named_handles :: "db_inner \<Rightarrow> bool" where
  "named_handles inner \<longleftrightarrow> (\<exists>n. lh_name (db_wal inner) = log_path n) \<and>
     (\<exists>n. lh_name (mw_wal (vs_manifest_writer (db_version_set inner))) = manifest_path n)"

definition inner_kept :: "db_inner \<Rightarrow> db_inner \<Rightarrow> bool" where
  "inner_kept inner inner' \<longleftrightarrow> id_next (db_id_gen inner) \<le> id_next (db_id_gen inner') \<and>
     older_kept (id_next (db_id_gen inner)) (db_fs inner) (db_fs inner') \<and> named_handles inner'"

lemma inner_kept_trans: "inner_kept i i' \<Longrightarrow> inner_kept i' i'' \<Longrightarrow> inner_kept i i''"
  using older_kept_trans by (auto simp: inner_kept_def intro: order_trans)

lemma inner_kept_same:
  assumes "named_handles inner" and "db_fs inner' = db_fs inner" and "db_wal inner' = db_wal inner"
    and "vs_manifest_writer (db_version_set inner') = vs_manifest_writer (db_version_set inner)"
    and "db_id_gen inner' = db_id_gen inner"
  shows "inner_kept inner inner'"
  using assms by (simp add: inner_kept_def named_handles_def)

lemma older_kept_other:
  "(\<And>n. fmlookup fs' (sst_path n) = fmlookup fs (sst_path n)) \<Longrightarrow> older_kept g fs fs'"
  by (simp add: older_kept_def)

lemma log_add_frame:
  assumes "log_add crc h data fs = (h', fs')"
  shows "lh_name h' = lh_name h" "name \<noteq> lh_name h \<Longrightarrow> fmlookup fs' name = fmlookup fs name"
  using assms by (auto simp: log_add_def Let_def split: if_splits)

lemma log_open_frame:
  assumes "log_open path fs = (h, fs')"
  shows "lh_name h = path" "name \<noteq> path \<Longrightarrow> fmlookup fs' name = fmlookup fs name"
  using assms by (auto simp: log_open_def Let_def)

lemma write_new_version_frame:
  assumes "write_new_version crc e vs fs = (r, vs', fs')"
  shows "lh_name (mw_wal (vs_manifest_writer vs')) = lh_name (mw_wal (vs_manifest_writer vs))"
    "name \<noteq> lh_name (mw_wal (vs_manifest_writer vs)) \<Longrightarrow> fmlookup fs' name = fmlookup fs name"
proof -
  obtain h fs1 where h: "log_add crc (mw_wal (vs_manifest_writer vs)) (edit_encode e) fs = (h, fs1)" by force
  have "mw_wal (vs_manifest_writer vs') = h" "fs' = fs1"
    using assms h by (auto simp: write_new_version_def manifest_append_def Let_def split: sum.splits prod.splits)
  then show "lh_name (mw_wal (vs_manifest_writer vs')) = lh_name (mw_wal (vs_manifest_writer vs))"
    "name \<noteq> lh_name (mw_wal (vs_manifest_writer vs)) \<Longrightarrow> fmlookup fs' name = fmlookup fs name"
    using log_add_frame [OF h] by auto
qed

lemma flush_to_level0_older:
  assumes "flush_to_level0 msg opts mt g fs = (r, g', fs')"
  shows "older_kept (id_next g) fs fs'"
  using assms
  by (auto simp: flush_to_level0_def Let_def older_kept_write dest!: new_file_number_less split: sum.splits prod.splits)

lemma flush_memtable_kept:
  assumes f: "flush_memtable crc inner = (r, inner')" and n: "named_handles inner"
  shows "inner_kept inner inner'"
proof (cases "mt_entries (db_memtable inner) = 0")
  case True
  then show ?thesis using f inner_kept_same [OF n] by (simp add: flush_memtable_def)
next
  case False
  obtain r1 g1 fs1 where 1: "flush_to_level0 ''flushed memtable had no entries'' (db_options inner) (db_memtable inner)
      (db_id_gen inner) (db_fs inner) = (r1, g1, fs1)"
    using flush_to_level0_result by blast
  note g1 = flush_to_level0_numbers(1) [OF 1]
  note fs1 = flush_to_level0_older [OF 1]
  show ?thesis
  proof (cases r1)
    case (Inl e)
    then show ?thesis using f False 1 g1 fs1 n by (auto simp: flush_memtable_def inner_kept_def named_handles_def Let_def)
  next
    case (Inr meta)
    show ?thesis
    proof (cases "new_file_number g1")
      case (Inl e)
      then show ?thesis using f False 1 \<open>r1 = Inr meta\<close> g1 fs1 n
        by (auto simp: flush_memtable_def inner_kept_def named_handles_def Let_def)
    next
      case log: (Inr p)
      obtain log g2 where p: "p = (log, g2)" by force
      have g2: "id_next g1 \<le> id_next g2" using new_file_number_less log p by fastforce
      obtain new_wal fs2 where wal: "log_open (log_path log) fs1 = (new_wal, fs2)" by force
      let ?e = "flush_edit meta log g2 (mt_seq (db_memtable inner))"
      obtain r3 vs' fs3 where w: "write_new_version crc ?e (db_version_set inner) fs2 = (r3, vs', fs3)"
        by (rule prod_cases3)
      obtain m where m: "lh_name (mw_wal (vs_manifest_writer (db_version_set inner))) = manifest_path m"
        using n by (auto simp: named_handles_def)
      have "fmlookup fs3 (sst_path k) = fmlookup fs1 (sst_path k)" for k
        using log_open_frame(2) [OF wal] write_new_version_frame(2) [OF w] m by simp
      then have fs3: "older_kept (id_next (db_id_gen inner)) (db_fs inner) fs3" using fs1 by (simp add: older_kept_def)
      have named: "\<exists>n. lh_name new_wal = log_path n" "\<exists>n. lh_name (mw_wal (vs_manifest_writer vs')) = manifest_path n"
        using log_open_frame(1) [OF wal] write_new_version_frame(1) [OF w] m by auto
      have inner': "db_fs inner' = fs3" "db_version_set inner' = vs'" "db_id_gen inner' = g2"
        "db_wal inner' = (case r3 of Inl _ \<Rightarrow> db_wal inner | Inr _ \<Rightarrow> new_wal)"
        using f False 1 Inr log p wal w by (auto simp: flush_memtable_def Let_def split: sum.splits)
      then show ?thesis
        using g1 g2 fs3 named n by (auto simp: inner_kept_def named_handles_def split: sum.splits)
    qed
  qed
qed

lemma maybe_schedule_kept:
  "maybe_schedule_compaction inner = (r, inner') \<Longrightarrow> named_handles inner \<Longrightarrow> inner_kept inner inner'"
  using maybe_schedule_holds [of inner r inner'] by (auto intro: inner_kept_same)

lemma db_write_locked_kept:
  assumes w: "db_write_locked crc draws key v t inner = (r, inner')" and n: "named_handles inner"
  shows "inner_kept inner inner'"
proof (cases "u64_succ (mt_seq (db_memtable inner))")
  case (Inl e)
  then show ?thesis using w inner_kept_same [OF n] by (simp add: db_write_locked_def)
next
  case (Inr s)
  obtain wal fs where log: "log_add crc (db_wal inner) (encode_entry t s key v) (db_fs inner) = (wal, fs)" by force
  have logged: "inner_kept inner inner1" if "db_fs inner1 = fs" "db_wal inner1 = wal" "db_id_gen inner1 = db_id_gen inner"
    "vs_manifest_writer (db_version_set inner1) = vs_manifest_writer (db_version_set inner)" for inner1
    using log_add_frame [OF log] n that by (auto simp: inner_kept_def named_handles_def intro!: older_kept_other)
  show ?thesis
  proof (cases "mt_apply draws t s key v (db_memtable inner)")
    case (Inl e)
    then show ?thesis using w Inr log logged [of inner'] by (auto simp: db_write_locked_def Let_def)
  next
    case mt: (Inr mt)
    let ?inner = "inner\<lparr>db_wal := wal, db_fs := fs, db_memtable := mt, db_version_set := (db_version_set inner)\<lparr>vs_last_sequence := s\<rparr>\<rparr>"
    have 1: "inner_kept inner ?inner" by (rule logged) simp_all
    then have n1: "named_handles ?inner" by (simp add: inner_kept_def)
    have "then_do (flush_memtable crc ?inner) (\<lambda>_ inner. maybe_schedule_compaction inner) = (r, inner') \<or>
        maybe_schedule_compaction ?inner = (r, inner')"
      using w Inr log mt by (auto simp: db_write_locked_def Let_def split: if_splits)
    then show ?thesis
    proof
      assume r: "then_do (flush_memtable crc ?inner) (\<lambda>_ inner. maybe_schedule_compaction inner) = (r, inner')"
      show ?thesis
      proof (rule then_do_keeps [OF r])
        show "inner_kept inner (snd (flush_memtable crc ?inner))"
          using flush_memtable_kept [OF _ n1] inner_kept_trans [OF 1] by (metis prod.collapse)
        show "inner_kept inner inner'" if "inner_kept inner inner2" "maybe_schedule_compaction inner2 = (r, inner')" for inner2
          using inner_kept_trans [OF that(1)] maybe_schedule_kept [OF that(2)] that(1) by (simp add: inner_kept_def)
      qed
    qed (use maybe_schedule_kept n1 inner_kept_trans [OF 1] in blast)
  qed
qed

lemma run_one_compaction_kept:
  assumes run: "run_one_compaction crc db = (r, db')" and n: "named_handles (d_inner db)"
  shows "inner_kept (d_inner db) (d_inner db')"
proof -
  let ?inner = "d_inner db"
  let ?vs = "db_version_set ?inner" and ?n = "id_next (db_id_gen (d_inner db))"
  let ?v = "vs_current ?vs"
  note same = inner_kept_same [OF n]
  show ?thesis
  proof (cases "pick_compaction ?vs")
    case (Inl e)
    then show ?thesis using run same by (simp add: run_one_compaction_def)
  next
    case (Inr choice)
    note pick = this
    show ?thesis
    proof (cases choice)
      case None
      then show ?thesis using run pick same by (simp add: run_one_compaction_def)
    next
      case (Some c)
      obtain r1 g' fs1 where d: "do_compaction c ?v (id_generator_new ?n) (oldest_snapshot_seq ?vs) (opt_block_size (db_options ?inner))
          (bloom_bits_per_key (db_options ?inner)) (db_fs ?inner) = (r1, g', fs1)"
        by (rule prod_cases3)
      have fs1: "older_kept ?n (db_fs ?inner) fs1" and g': "?n \<le> id_next g'"
        using new_tables_only_older [OF do_compaction_new(1) [OF d]] do_compaction_new(2) [OF d]
        by (simp_all add: id_generator_new_def)
      show ?thesis
      proof (cases r1)
        case (Inl e)
        then show ?thesis using run pick Some d fs1 n
          by (auto simp: run_one_compaction_def Let_def inner_kept_def named_handles_def)
      next
        case (Inr out)
        obtain r2 vs' fs2 where w: "write_new_version crc (compaction_edit (co_level c) out g') ?vs fs1 = (r2, vs', fs2)"
          by (rule prod_cases3)
        obtain m where m: "lh_name (mw_wal (vs_manifest_writer ?vs)) = manifest_path m"
          using n by (auto simp: named_handles_def)
        have "fmlookup fs2 (sst_path k) = fmlookup fs1 (sst_path k)" for k
          using write_new_version_frame(2) [OF w] m by simp
        then have fs2: "older_kept ?n (db_fs ?inner) fs2" using fs1 by (simp add: older_kept_def)
        have db': "db_fs (d_inner db') = fs2" "db_version_set (d_inner db') = vs'" "db_wal (d_inner db') = db_wal ?inner"
          "db_id_gen (d_inner db') = (case r2 of Inl _ \<Rightarrow> db_id_gen ?inner | Inr _ \<Rightarrow> bump_to (id_next g') (db_id_gen ?inner))"
          using run pick Some d Inr w by (auto simp: run_one_compaction_def Let_def split: sum.splits)
        have "?n \<le> id_next (bump_to (id_next g') (db_id_gen ?inner))" using g' by (auto simp: bump_to_def)
        then show ?thesis
          using fs2 n m write_new_version_frame(1) [OF w] unfolding inner_kept_def named_handles_def db'
          by (auto split: sum.splits)
      qed
    qed
  qed
qed

section \<open>The cache agrees with the files\<close>

definition cached_below :: "u64 \<Rightarrow> fs \<Rightarrow> cache_inner \<Rightarrow> bool" where
  "cached_below g fs c \<longleftrightarrow> (\<forall>n r. fmlookup (ci_entries c) n = Some r \<longrightarrow> n < g \<and> open_table fs n = Inr r)"

lemma open_table_older: "older_kept g fs fs' \<Longrightarrow> n < g \<Longrightarrow> open_table fs' n = open_table fs n"
  by (simp add: open_table_def fs_read_def older_kept_def)

lemma cached_below_kept:
  "cached_below g fs c \<Longrightarrow> older_kept g fs fs' \<Longrightarrow> g \<le> g' \<Longrightarrow> cached_below g' fs' c"
  unfolding cached_below_def using open_table_older by (metis less_le_trans)

lemma cached_below_touch: "cached_below g fs c \<Longrightarrow> cached_below g fs (cache_touch n c)"
  by (simp add: cached_below_def cache_touch_def)

lemma cached_below_insert:
  "cached_below g fs c \<Longrightarrow> n < g \<Longrightarrow> open_table fs n = Inr r \<Longrightarrow> cached_below g fs (cache_insert n r c)"
  by (auto simp: cached_below_def cache_insert_def Let_def split: list.splits)

lemma cached_below_evict: "cached_below g fs c \<Longrightarrow> cached_below g fs (cache_evict n c)"
  by (auto simp: cached_below_def cache_evict_def split: if_splits)

lemma cached_below_evicts: "cached_below g fs c \<Longrightarrow> cached_below g fs (foldl (\<lambda>c (_, n). cache_evict n c) c ns)"
  by (induction ns arbitrary: c) (auto simp: cached_below_evict)

lemma cached_below_get:
  assumes "cached_below g fs c" and "n < g"
  shows "cached_below g fs (snd (cache_get (open_table fs) c n))"
  using assms
  by (auto simp: cache_get_def cached_below_touch cached_below_insert split: option.splits sum.splits)

lemma cached_below_first_answer:
  "cached_below g fs c \<Longrightarrow> \<forall>n \<in> set ns. n < g \<Longrightarrow>
   cached_below g fs (snd (first_answer (cache_get (open_table fs)) ask ns c))"
proof (induction ns arbitrary: c)
  case (Cons n ns)
  obtain r c' where g: "cache_get (open_table fs) c n = (r, c')" by force
  have c': "cached_below g fs c'" using cached_below_get [OF Cons.prems(1), of n] Cons.prems(2) g by simp
  show ?case
  proof (cases r)
    case (Inr tr)
    then show ?thesis using g c' Cons.IH [OF c'] Cons.prems(2) by (auto split: sum.splits option.splits)
  qed (use g c' in simp)
qed simp

lemma cached_below_sstables:
  assumes c: "cached_below g fs c" and n: "\<And>n. live_number v n \<Longrightarrow> n < g"
  shows "cached_below g fs (snd (get_from_sstables fs key s v c))"
proof -
  let ?ask = "\<lambda>r. table_get_entry r key s" and ?L0 = "map fm_number (rev (files_at v 0))"
  obtain r1 c1 where 1: "first_answer (cache_get (open_table fs)) ?ask ?L0 c = (r1, c1)" by force
  obtain r2 c2 where 2: "first_answer (cache_get (open_table fs)) ?ask (level_files v key) c1 = (r2, c2)" by force
  have "\<forall>n \<in> set ?L0. n < g" using n live_numberI [of 0 _ v] by (auto simp: NUM_LEVELS_def)
  from cached_below_first_answer [OF c this, of ?ask] have c1: "cached_below g fs c1" using 1 by simp
  have "\<forall>n \<in> set (level_files v key). n < g" using n level_files_live by blast
  from cached_below_first_answer [OF c1 this, of ?ask] have c2: "cached_below g fs c2" using 2 by simp
  show ?thesis using 1 2 c1 c2 by (simp add: get_from_sstables_def Let_def)
qed

section \<open>What every call keeps\<close>

definition coherent :: "db \<Rightarrow> bool" where
  "coherent db \<longleftrightarrow> numbers_ok (d_inner db) \<and> named_handles (d_inner db) \<and>
     cached_below (id_next (db_id_gen (d_inner db))) (db_fs (d_inner db)) (d_cache db)"

lemma coherent_kept:
  assumes "coherent db" and "inner_kept (d_inner db) inner" and "numbers_ok inner"
    and "\<And>g fs. cached_below g fs (d_cache db) \<Longrightarrow> cached_below g fs c"
  shows "coherent \<lparr>d_inner = inner, d_cache = c\<rparr>"
  using assms(1-3) assms(4) [OF cached_below_kept] by (auto simp: coherent_def inner_kept_def)

lemma run_one_compaction_cache:
  assumes "run_one_compaction crc db = (r, db')" and "cached_below g fs (d_cache db)"
  shows "cached_below g fs (d_cache db')"
  using assms cached_below_evicts [OF assms(2)]
  by (auto simp: run_one_compaction_def Let_def split: sum.splits option.splits prod.splits)

lemma db_get_at_inner: "db_get_at s key db = (r, db') \<Longrightarrow> d_inner db' = d_inner db"
  by (auto simp: db_get_at_def Let_def split: sum.splits option.splits prod.splits value_type.splits)

lemma db_get_at_coherent:
  assumes g: "db_get_at s key db = (r, db')" and c: "coherent db"
  shows "coherent db'"
proof -
  let ?g = "id_next (db_id_gen (d_inner db))" and ?fs = "db_fs (d_inner db)" and ?v = "vs_current (db_version_set (d_inner db))"
  have "cached_below ?g ?fs (snd (get_from_sstables ?fs key s ?v (d_cache db)))"
    using c by (intro cached_below_sstables) (auto simp: coherent_def numbers_ok_def)
  then have "cached_below ?g ?fs (d_cache db')"
    using g c by (auto simp: db_get_at_def coherent_def Let_def split: sum.splits option.splits prod.splits value_type.splits)
  then show ?thesis using c db_get_at_inner [OF g] by (simp add: coherent_def)
qed

lemma db_step_kept:
  assumes step: "db_step crc db db'" and c: "coherent db"
  shows "inner_kept (d_inner db) (d_inner db') \<and> coherent db'"
proof -
  have n: "named_handles (d_inner db)" using c by (simp add: coherent_def)
  have ok: "numbers_ok (d_inner db')" using db_step_numbers [OF step] c by (simp add: coherent_def)
  have done1: "inner_kept (d_inner db) (d_inner db') \<and> coherent db'"
    if "inner_kept (d_inner db) (d_inner db')" "\<And>g fs. cached_below g fs (d_cache db) \<Longrightarrow> cached_below g fs (d_cache db')"
    using that coherent_kept [OF c that(1) ok that(2)] by (cases db') simp
  have unchanged: "inner_kept (d_inner db) (d_inner db') \<and> coherent db'"
    if "db_fs (d_inner db') = db_fs (d_inner db)" "db_wal (d_inner db') = db_wal (d_inner db)"
      "vs_manifest_writer (db_version_set (d_inner db')) = vs_manifest_writer (db_version_set (d_inner db))"
      "db_id_gen (d_inner db') = db_id_gen (d_inner db)" "d_cache db' = d_cache db"
    using inner_kept_same [OF n that(1-4)] that(5) by (intro done1) simp_all
  show ?thesis
    using step
  proof (cases rule: db_step.cases)
    case (put draws key v r inner)
    have "inner_kept (d_inner db) inner"
      using put(2) db_write_locked_kept [OF _ n] inner_kept_same [OF n]
      by (auto simp: db_put_def db_write_def split: if_splits)
    then show ?thesis using put(1) by (intro done1) simp_all
  next
    case (delete draws key r inner)
    have "inner_kept (d_inner db) inner"
      using delete(2) db_write_locked_kept [OF _ n] inner_kept_same [OF n]
      by (auto simp: db_delete_def db_write_def split: if_splits)
    then show ?thesis using delete(1) by (intro done1) simp_all
  next
    case (wait inner)
    then show ?thesis using maybe_schedule_kept [OF wait(3) n] by (intro done1) simp_all
  next
    case (get snap key r)
    then show ?thesis using db_get_at_coherent [OF get c] db_get_at_inner [OF get] inner_kept_same [OF n] by simp
  next
    case (compact r)
    then have "run_one_compaction crc db = (r, db')" by (simp add: compact_once_def)
    then show ?thesis using run_one_compaction_kept [OF _ n] run_one_compaction_cache by (intro done1) blast+
  next
    case background
    obtain r db1 where run: "run_one_compaction crc db = (r, db1)" by force
    have "inner_kept (d_inner db) (d_inner db')"
      using run_one_compaction_kept [OF run n] run background(1)
      by (auto simp: background_round_def inner_kept_def named_handles_def)
    then show ?thesis
      using run_one_compaction_cache [OF run] run background(1) by (intro done1) (simp_all add: background_round_def)
  next
    case (snapshot s inner)
    then show ?thesis by (intro unchanged) (auto simp: new_snapshot_def acquire_snapshot_def drop_snapshot_def
        release_snapshot_def db_close_def Let_def)
  next
    case (release s)
    then show ?thesis by (intro unchanged) (auto simp: new_snapshot_def acquire_snapshot_def drop_snapshot_def
        release_snapshot_def db_close_def Let_def)
  next
    case close
    then show ?thesis by (intro unchanged) (auto simp: new_snapshot_def acquire_snapshot_def drop_snapshot_def
        release_snapshot_def db_close_def Let_def)
  qed
qed

lemma db_steps_kept:
  assumes "(db_step crc)\<^sup>*\<^sup>* db db'" and "coherent db"
  shows "inner_kept (d_inner db) (d_inner db') \<and> coherent db'"
  using assms
proof (induction rule: rtranclp_induct)
  case base
  then show ?case using inner_kept_same by (simp add: coherent_def)
next
  case (step y z)
  then show ?case using db_step_kept [OF step.hyps(2)] inner_kept_trans by blast
qed

end
