(* ===== verification/Overlapping.thy ===== *)
theory Overlapping
  imports Runs Frames
begin

text \<open>
  Reads that overlap other calls. \<open>get\<close>, \<open>get_at\<close> and \<open>new_iterator_at\<close> hold the lock only while they look at the
  memtable and take the current version; they open and search the tables of that version without it, while other
  threads write, flush, compact and read. The lemmas show that such a read returns what it would have returned
  had it held the lock to the end.
\<close>

section \<open>Readers\<close>

datatype answer = Got "bytes option res" | Built "db_iter res"

text \<open>
  A thread in \<open>get_at\<close>: it has a list of tables left to ask, or it missed in the cache and is opening a table. A
  thread in \<open>new_iterator_at\<close>: the tables left to open and the sources it has.
\<close>

datatype reader =
    Idle
  | Searching bytes u64 "file_number list"
  | Opening bytes u64 file_number "file_number list"
  | Collecting u64 "file_meta list" "lsm_iter list"
  | Returned answer

text \<open>What happens under the lock.\<close>

definition read_begin :: "u64 \<Rightarrow> bytes \<Rightarrow> db_inner \<Rightarrow> reader" where
  "read_begin s key inner =
     (case mt_get_entry (db_memtable inner) key s of
        Inl e \<Rightarrow> Returned (Got (Inl e))
      | Inr (Some (Put, v)) \<Rightarrow> Returned (Got (Inr (Some v)))
      | Inr (Some (Delete, _)) \<Rightarrow> Returned (Got (Inr None))
      | Inr None \<Rightarrow>
          let version = vs_current (db_version_set inner)
          in Searching key s (map fm_number (rev (files_at version 0)) @ level_files version key))"

definition scan_begin :: "u64 \<Rightarrow> db_inner \<Rightarrow> reader" where
  "scan_begin s inner =
     (case snapshot_entries (db_memtable inner) s of
        Inl e \<Rightarrow> Returned (Built (Inl e))
      | Inr mem_items \<Rightarrow>
          Collecting s (concat (map (files_at (vs_current (db_version_set inner))) [0..<NUM_LEVELS]))
            (if mem_items \<noteq> [] then [VecSource (vec_iter_new mem_items)] else []))"

text \<open>The reader of a table is at hand.\<close>

definition ask_table :: "bytes \<Rightarrow> u64 \<Rightarrow> file_number list \<Rightarrow> table_reader \<Rightarrow> reader" where
  "ask_table key s ns tr =
     (case table_get_entry tr key s of
        Inl e \<Rightarrow> Returned (Got (Inl e))
      | Inr (Some (Put, v)) \<Rightarrow> Returned (Got (Inr (Some v)))
      | Inr (Some (Delete, _)) \<Rightarrow> Returned (Got (Inr None))
      | Inr None \<Rightarrow> Searching key s ns)"

definition build_iter :: "u64 \<Rightarrow> lsm_iter list \<Rightarrow> db_iter res" where
  "build_iter s iters = bind_res (merger_new iters) (\<lambda>merger. db_iter_new merger s)"

section \<open>Threads\<close>

text \<open>The database and its reading threads; a thread makes one call.\<close>

record system =
  sy_db :: db
  sy_readers :: "nat \<Rightarrow> reader"

definition set_reader :: "nat \<Rightarrow> reader \<Rightarrow> system \<Rightarrow> system" where
  "set_reader t rd sys = sys\<lparr>sy_readers := (sy_readers sys)(t := rd)\<rparr>"

definition set_cache :: "cache_inner \<Rightarrow> system \<Rightarrow> system" where
  "set_cache c sys = sys\<lparr>sy_db := (sy_db sys)\<lparr>d_cache := c\<rparr>\<rparr>"

definition system_start :: "db \<Rightarrow> system" where
  "system_start db = \<lparr>sy_db = db, sy_readers = (\<lambda>_. Idle)\<rparr>"

definition sy_fs :: "system \<Rightarrow> fs" where
  "sy_fs sys = db_fs (d_inner (sy_db sys))"

inductive system_step :: "(bytes \<Rightarrow> u32) \<Rightarrow> system \<Rightarrow> system \<Rightarrow> bool" for crc :: "bytes \<Rightarrow> u32" where
  call: "db_step crc (sy_db sys) db \<Longrightarrow> system_step crc sys (sys\<lparr>sy_db := db\<rparr>)"
| read: "sy_readers sys t = Idle \<Longrightarrow>
    system_step crc sys (set_reader t (read_begin s key (d_inner (sy_db sys))) sys)"
| hit: "sy_readers sys t = Searching key s (n # ns) \<Longrightarrow> ci_capacity (d_cache (sy_db sys)) \<noteq> 0 \<Longrightarrow>
    fmlookup (ci_entries (d_cache (sy_db sys))) n = Some tr \<Longrightarrow>
    system_step crc sys (set_reader t (ask_table key s ns tr) (set_cache (cache_touch n (d_cache (sy_db sys))) sys))"
| miss: "sy_readers sys t = Searching key s (n # ns) \<Longrightarrow>
    ci_capacity (d_cache (sy_db sys)) = 0 \<or> fmlookup (ci_entries (d_cache (sy_db sys))) n = None \<Longrightarrow>
    system_step crc sys (set_reader t (Opening key s n ns) sys)"
| opened: "sy_readers sys t = Opening key s n ns \<Longrightarrow> open_table (sy_fs sys) n = Inr tr \<Longrightarrow>
    c = (if ci_capacity (d_cache (sy_db sys)) = 0 then d_cache (sy_db sys) else cache_insert n tr (d_cache (sy_db sys))) \<Longrightarrow>
    system_step crc sys (set_reader t (ask_table key s ns tr) (set_cache c sys))"
| open_failed: "sy_readers sys t = Opening key s n ns \<Longrightarrow> open_table (sy_fs sys) n = Inl e \<Longrightarrow>
    system_step crc sys (set_reader t (Returned (Got (Inl e))) sys)"
| not_found: "sy_readers sys t = Searching key s [] \<Longrightarrow> system_step crc sys (set_reader t (Returned (Got (Inr None))) sys)"
| scan: "sy_readers sys t = Idle \<Longrightarrow> system_step crc sys (set_reader t (scan_begin s (d_inner (sy_db sys))) sys)"
| source: "sy_readers sys t = Collecting s (f # files) iters \<Longrightarrow>
    bind_res (open_table (sy_fs sys) (fm_number f)) into_table_iter = Inr it \<Longrightarrow>
    system_step crc sys (set_reader t (Collecting s files (iters @ [TableSource it])) sys)"
| source_failed: "sy_readers sys t = Collecting s (f # files) iters \<Longrightarrow>
    bind_res (open_table (sy_fs sys) (fm_number f)) into_table_iter = Inl e \<Longrightarrow>
    system_step crc sys (set_reader t (Returned (Built (Inl e))) sys)"
| build: "sy_readers sys t = Collecting s [] iters \<Longrightarrow>
    system_step crc sys (set_reader t (Returned (Built (build_iter s iters))) sys)"

inductive_cases system_stepE: "system_step crc sys sys'"

lemma system_simps [simp]:
  "sy_db (set_reader t rd sys) = sy_db sys" "sy_readers (set_reader t rd sys) = (sy_readers sys)(t := rd)"
  "sy_db (set_cache c sys) = (sy_db sys)\<lparr>d_cache := c\<rparr>" "sy_readers (set_cache c sys) = sy_readers sys"
  "sy_db (system_start db) = db" "sy_readers (system_start db) t = Idle"
  by (simp_all add: set_reader_def set_cache_def system_start_def)

section \<open>What a reader will return\<close>

text \<open>The result if the rest of the call ran now, without the cache.\<close>

fun outcome :: "fs \<Rightarrow> reader \<Rightarrow> answer option" where
  "outcome fs Idle = None"
| "outcome fs (Searching key s ns) =
     Some (Got (answer_value (first_in_files (open_table fs) (\<lambda>r. table_get_entry r key s) ns)))"
| "outcome fs (Opening key s n ns) =
     Some (Got (answer_value (first_in_files (open_table fs) (\<lambda>r. table_get_entry r key s) (n # ns))))"
| "outcome fs (Collecting s files iters) = Some (Built (bind_res (open_inputs fs files iters) (build_iter s)))"
| "outcome fs (Returned a) = Some a"

fun pending :: "reader \<Rightarrow> file_number list" where
  "pending (Searching key s ns) = ns"
| "pending (Opening key s n ns) = n # ns"
| "pending (Collecting s files iters) = map fm_number files"
| "pending _ = []"

lemma answer_value_simps [simp]:
  "answer_value (Inl e) = Inl e" "answer_value (Inr None) = Inr None"
  "answer_value (Inr (Some (Put, v))) = Inr (Some v)" "answer_value (Inr (Some (Delete, v))) = Inr None"
  by (simp_all add: answer_value_def)

lemma outcome_ask_table:
  "outcome fs (ask_table key s ns tr) = Some (Got (answer_value (bind_res (table_get_entry tr key s) (\<lambda>a.
     case a of Some a \<Rightarrow> Inr (Some a) | None \<Rightarrow> first_in_files (open_table fs) (\<lambda>r. table_get_entry r key s) ns))))"
  by (auto simp: ask_table_def split: sum.splits option.splits value_type.splits)

lemma pending_ask_table: "set (pending (ask_table key s ns tr)) \<subseteq> set ns"
  by (auto simp: ask_table_def split: sum.splits option.splits prod.splits value_type.splits)

lemma first_in_files_older:
  "older_kept g fs fs' \<Longrightarrow> \<forall>n \<in> set ns. n < g \<Longrightarrow>
   first_in_files (open_table fs') ask ns = first_in_files (open_table fs) ask ns"
  by (induction ns) (auto simp: open_table_older cong: option.case_cong)

lemma open_inputs_older:
  "older_kept g fs fs' \<Longrightarrow> \<forall>f \<in> set files. fm_number f < g \<Longrightarrow> open_inputs fs' files iters = open_inputs fs files iters"
  by (induction files arbitrary: iters) (simp_all add: open_table_older)

lemma outcome_older:
  "older_kept g fs fs' \<Longrightarrow> \<forall>n \<in> set (pending rd). n < g \<Longrightarrow> outcome fs' rd = outcome fs rd"
  by (cases rd) (simp_all add: first_in_files_older open_inputs_older open_table_older)

section \<open>A whole call\<close>

lemma first_in_files_append:
  "first_in_files opens ask (ms @ ns) =
     (if first_in_files opens ask ms = Inr None then first_in_files opens ask ns else first_in_files opens ask ms)"
proof (induction ms)
  case (Cons m ms)
  show ?case
  proof (cases "opens m")
    case (Inr r)
    then show ?thesis using Cons by (cases "ask r") (auto split: option.splits)
  qed simp
qed simp

lemma cached_below_lookup:
  "cached_below g fs c \<Longrightarrow> fst (cache_get (open_table fs) c n) = open_table fs n"
  by (auto simp: cache_get_def cached_below_def split: option.splits sum.splits)

lemma first_answer_below:
  "cached_below g fs c \<Longrightarrow> \<forall>n \<in> set ns. n < g \<Longrightarrow>
   fst (first_answer (cache_get (open_table fs)) ask ns c) = first_in_files (open_table fs) ask ns"
proof (induction ns arbitrary: c)
  case (Cons n ns)
  obtain c' where g: "cache_get (open_table fs) c n = (open_table fs n, c')"
    using cached_below_lookup [OF Cons.prems(1), of n] by (metis fst_conv surj_pair)
  have c': "cached_below g fs c'" using cached_below_get [OF Cons.prems(1), of n] Cons.prems(2) g by simp
  show ?case
  proof (cases "open_table fs n")
    case (Inr r)
    then show ?thesis using g Cons.IH [OF c'] Cons.prems(2) by (cases "ask r") (auto split: option.splits)
  qed (use g in simp)
qed simp

lemma get_from_sstables_below:
  assumes c: "cached_below g fs c" and n: "\<And>n. live_number v n \<Longrightarrow> n < g"
  shows "fst (get_from_sstables fs key s v c) =
    answer_value (first_in_files (open_table fs) (\<lambda>r. table_get_entry r key s) (map fm_number (rev (files_at v 0)) @ level_files v key))"
proof -
  let ?ask = "\<lambda>r. table_get_entry r key s" and ?L0 = "map fm_number (rev (files_at v 0))"
  have L0: "\<forall>n \<in> set ?L0. n < g" using n live_numberI [of 0 _ v] by (auto simp: NUM_LEVELS_def)
  have L: "\<forall>n \<in> set (level_files v key). n < g" using n level_files_live by blast
  obtain r1 c1 where 1: "first_answer (cache_get (open_table fs)) ?ask ?L0 c = (r1, c1)" by force
  obtain r2 c2 where 2: "first_answer (cache_get (open_table fs)) ?ask (level_files v key) c1 = (r2, c2)" by force
  have c1: "cached_below g fs c1" using cached_below_first_answer [OF c L0, of ?ask] 1 by simp
  show ?thesis
    using 1 2 first_answer_below [OF c L0, of ?ask] first_answer_below [OF c1 L, of ?ask]
    by (simp add: get_from_sstables_def Let_def first_in_files_append)
qed

lemma outcome_read_begin:
  assumes "coherent db"
  shows "outcome (db_fs (d_inner db)) (read_begin s key (d_inner db)) = Some (Got (fst (db_get_at s key db)))"
proof -
  have "fst (get_from_sstables (db_fs (d_inner db)) key s (vs_current (db_version_set (d_inner db))) (d_cache db)) =
      answer_value (first_in_files (open_table (db_fs (d_inner db))) (\<lambda>r. table_get_entry r key s)
        (map fm_number (rev (files_at (vs_current (db_version_set (d_inner db))) 0)) @
         level_files (vs_current (db_version_set (d_inner db))) key))"
    using assms by (intro get_from_sstables_below) (auto simp: coherent_def numbers_ok_def)
  then show ?thesis
    by (auto simp: read_begin_def db_get_at_def Let_def split: sum.splits option.splits value_type.splits prod.splits)
qed

lemma outcome_scan_begin:
  "outcome (db_fs inner) (scan_begin s inner) = Some (Built (new_iterator_at s inner))"
  by (auto simp: scan_begin_def new_iterator_at_def scan_sources_def build_iter_def [abs_def] Let_def split: sum.splits)

lemma pending_begin:
  assumes "numbers_ok inner"
  shows "\<forall>n \<in> set (pending (read_begin s key inner)). n < id_next (db_id_gen inner)"
    "\<forall>n \<in> set (pending (scan_begin s inner)). n < id_next (db_id_gen inner)"
  using assms level_files_live live_numberI [of 0 _ "vs_current (db_version_set inner)"]
    live_numberI [of _ _ "vs_current (db_version_set inner)"]
  by (auto simp: read_begin_def scan_begin_def numbers_ok_def Let_def NUM_LEVELS_def
      split: sum.splits option.splits value_type.splits prod.splits)

section \<open>What the steps keep\<close>

abbreviation next_number :: "system \<Rightarrow> u64" where
  "next_number sys \<equiv> id_next (db_id_gen (d_inner (sy_db sys)))"

definition system_ok :: "system \<Rightarrow> bool" where
  "system_ok sys \<longleftrightarrow> coherent (sy_db sys) \<and> (\<forall>t. \<forall>n \<in> set (pending (sy_readers sys t)). n < next_number sys)"

text \<open>Every reader that has begun will still return the same.\<close>

definition outcomes_kept :: "system \<Rightarrow> system \<Rightarrow> bool" where
  "outcomes_kept sys sys' \<longleftrightarrow>
     (\<forall>t. sy_readers sys t \<noteq> Idle \<longrightarrow> outcome (sy_fs sys') (sy_readers sys' t) = outcome (sy_fs sys) (sy_readers sys t))"

lemma system_ok_start: "coherent db \<Longrightarrow> system_ok (system_start db)"
  by (simp add: system_ok_def)

lemma outcome_Idle: "outcome fs rd = None \<longleftrightarrow> rd = Idle"
  by (cases rd) simp_all

lemma outcomes_kept_trans: "outcomes_kept sys sys1 \<Longrightarrow> outcomes_kept sys1 sys' \<Longrightarrow> outcomes_kept sys sys'"
  unfolding outcomes_kept_def by (metis outcome_Idle)

lemma set_cache_same [simp]: "set_cache (d_cache (sy_db sys)) sys = sys"
  by (simp add: set_cache_def)

lemma reader_moves:
  assumes ok: "system_ok sys" and c: "cached_below (next_number sys) (sy_fs sys) c"
    and p: "\<forall>n \<in> set (pending rd). n < next_number sys"
    and same: "sy_readers sys t \<noteq> Idle \<Longrightarrow> outcome (sy_fs sys) rd = outcome (sy_fs sys) (sy_readers sys t)"
  shows "system_ok (set_reader t rd (set_cache c sys)) \<and> outcomes_kept sys (set_reader t rd (set_cache c sys))"
  using ok c p same by (auto simp: system_ok_def coherent_def outcomes_kept_def sy_fs_def)

lemma system_ok_cached: "system_ok sys \<Longrightarrow> cached_below (next_number sys) (sy_fs sys) (d_cache (sy_db sys))"
  by (simp add: system_ok_def coherent_def sy_fs_def)

lemma system_ok_pending: "system_ok sys \<Longrightarrow> sy_readers sys t = rd \<Longrightarrow> \<forall>n \<in> set (pending rd). n < next_number sys"
  by (auto simp: system_ok_def)

lemma call_moves:
  assumes ok: "system_ok sys" and step: "db_step crc (sy_db sys) db"
  shows "system_ok (sys\<lparr>sy_db := db\<rparr>) \<and> outcomes_kept sys (sys\<lparr>sy_db := db\<rparr>)"
proof -
  have kept: "inner_kept (d_inner (sy_db sys)) (d_inner db)" and c: "coherent db"
    using db_step_kept [OF step] ok by (simp_all add: system_ok_def)
  have "outcome (db_fs (d_inner db)) (sy_readers sys t) = outcome (sy_fs sys) (sy_readers sys t)" for t
    using kept system_ok_pending [OF ok refl, of t] unfolding sy_fs_def inner_kept_def by (intro outcome_older) blast+
  moreover have "n < id_next (db_id_gen (d_inner db))" if "n \<in> set (pending (sy_readers sys t))" for t n
    using system_ok_pending [OF ok refl, of t] kept that by (auto simp: inner_kept_def intro: less_le_trans)
  ultimately show ?thesis using c by (simp add: system_ok_def outcomes_kept_def sy_fs_def)
qed

lemma system_step_ok:
  assumes step: "system_step crc sys sys'" and ok: "system_ok sys"
  shows "system_ok sys' \<and> outcomes_kept sys sys'"
proof -
  note below = system_ok_cached [OF ok] and pend = system_ok_pending [OF ok]
  have stays: "system_ok (set_reader t rd sys) \<and> outcomes_kept sys (set_reader t rd sys)"
    if "\<forall>n \<in> set (pending rd). n < next_number sys"
      "sy_readers sys t \<noteq> Idle \<Longrightarrow> outcome (sy_fs sys) rd = outcome (sy_fs sys) (sy_readers sys t)" for t rd
    using reader_moves [OF ok below that] by simp
  have ok_numbers: "numbers_ok (d_inner (sy_db sys))" using ok by (simp add: system_ok_def coherent_def)
  show ?thesis
    using step
  proof (cases rule: system_step.cases)
    case (call db)
    then show ?thesis using call_moves [OF ok] by simp
  next
    case (read t s key)
    show ?thesis unfolding read(1) using pending_begin(1) [OF ok_numbers] read(2) by (intro stays) blast+
  next
    case (hit t key s n ns tr)
    have "open_table (sy_fs sys) n = Inr tr" using below hit(4) by (simp add: cached_below_def)
    then show ?thesis
      unfolding hit(1) using hit pend [OF hit(2)] pending_ask_table [of key s ns tr] below
      by (intro reader_moves [OF ok]) (auto simp: outcome_ask_table cached_below_touch)
  next
    case (miss t key s n ns)
    then show ?thesis using pend [OF miss(2)] by (simp add: stays)
  next
    case (opened t key s n ns tr c)
    have "n < next_number sys" using pend [OF opened(2)] by simp
    then show ?thesis
      unfolding opened(1) using opened pend [OF opened(2)] pending_ask_table [of key s ns tr] below
      by (intro reader_moves [OF ok]) (auto simp: outcome_ask_table cached_below_insert)
  next
    case (open_failed t key s n ns e)
    then show ?thesis by (simp add: stays)
  next
    case (not_found t key s)
    then show ?thesis by (simp add: stays)
  next
    case (scan t s)
    show ?thesis unfolding scan(1) using pending_begin(2) [OF ok_numbers] scan(2) by (intro stays) blast+
  next
    case (source t s f files iters it)
    then show ?thesis using pend [OF source(2)] by (auto intro!: stays simp: bind_res_eq_Inr)
  next
    case (source_failed t s f files iters e)
    have "open_inputs (sy_fs sys) (f # files) iters = Inl e"
      using source_failed(3) by (cases "open_table (sy_fs sys) (fm_number f)") auto
    then show ?thesis using source_failed by (simp add: stays)
  next
    case (build t s iters)
    then show ?thesis by (simp add: stays)
  qed
qed

lemma system_steps_ok:
  "(system_step crc)\<^sup>*\<^sup>* sys sys' \<Longrightarrow> system_ok sys \<Longrightarrow> system_ok sys' \<and> outcomes_kept sys sys'"
proof (induction rule: rtranclp_induct)
  case base
  then show ?case by (simp add: outcomes_kept_def)
next
  case (step sys1 sys2)
  then show ?case using system_step_ok [OF step.hyps(2)] outcomes_kept_trans by blast
qed

lemma reader_result:
  assumes "system_ok sys" and "(system_step crc)\<^sup>*\<^sup>* sys sys'" and "outcome (sy_fs sys) (sy_readers sys t) = Some a"
    and "sy_readers sys' t = Returned a'"
  shows "a' = a"
  using system_steps_ok [OF assms(2,1)] assms(3,4) outcome_Idle [of "sy_fs sys" "sy_readers sys t"] by (auto simp: outcomes_kept_def)

section \<open>Readers finish\<close>

fun reader_size :: "reader \<Rightarrow> nat" where
  "reader_size (Searching key s ns) = 2 * length ns + 1"
| "reader_size (Opening key s n ns) = 2 * length ns + 2"
| "reader_size (Collecting s files iters) = length files + 1"
| "reader_size _ = 0"

lemma reader_size_ask_table: "reader_size (ask_table key s ns tr) < 2 * length ns + 2" "ask_table key s ns tr \<noteq> Idle"
  by (auto simp: ask_table_def split: sum.splits option.splits prod.splits value_type.splits)

lemma reader_progressI:
  assumes "system_step crc sys (set_reader t rd sys1)" and "d_inner (sy_db sys1) = d_inner (sy_db sys)" and "rd \<noteq> Idle"
    and "reader_size rd < k"
  shows "\<exists>sys'. system_step crc sys sys' \<and> d_inner (sy_db sys') = d_inner (sy_db sys) \<and> sy_readers sys' t \<noteq> Idle \<and>
    reader_size (sy_readers sys' t) < k"
  using assms by (intro exI [of _ "set_reader t rd sys1"]) simp

lemma reader_progress:
  assumes "sy_readers sys t = rd" and "reader_size rd \<noteq> 0"
  shows "\<exists>sys'. system_step crc sys sys' \<and> d_inner (sy_db sys') = d_inner (sy_db sys) \<and> sy_readers sys' t \<noteq> Idle \<and>
    reader_size (sy_readers sys' t) < reader_size rd"
proof (cases rd)
  case (Searching key s ns)
  show ?thesis
  proof (cases ns)
    case Nil
    show ?thesis
      by (rule reader_progressI [OF system_step.not_found [of sys t key s crc]]) (use assms(1) Searching Nil in simp_all)
  next
    case (Cons n ns')
    let ?c = "d_cache (sy_db sys)"
    note rd = assms(1) [unfolded Searching Cons]
    show ?thesis
    proof (cases "ci_capacity ?c = 0 \<or> fmlookup (ci_entries ?c) n = None")
      case True
      show ?thesis
        by (rule reader_progressI [OF system_step.miss [OF rd True, of crc]]) (use Searching Cons in simp_all)
    next
      case False
      then obtain tr where tr: "ci_capacity ?c \<noteq> 0" "fmlookup (ci_entries ?c) n = Some tr" by auto
      show ?thesis
        by (rule reader_progressI [OF system_step.hit [OF rd tr, of crc]])
           (use Searching Cons reader_size_ask_table [of key s ns' tr] in simp_all)
    qed
  qed
next
  case (Opening key s n ns)
  note rd = assms(1) [unfolded Opening]
  show ?thesis
  proof (cases "open_table (sy_fs sys) n")
    case (Inl e)
    show ?thesis
      by (rule reader_progressI [OF system_step.open_failed [OF rd Inl, of crc]]) (use Opening in simp_all)
  next
    case (Inr tr)
    show ?thesis
      by (rule reader_progressI [OF system_step.opened [OF rd Inr refl, of crc]])
         (use Opening reader_size_ask_table [of key s ns tr] in simp_all)
  qed
next
  case (Collecting s files iters)
  show ?thesis
  proof (cases files)
    case Nil
    show ?thesis
      by (rule reader_progressI [OF system_step.build [of sys t s iters crc]]) (use assms(1) Collecting Nil in simp_all)
  next
    case (Cons f fs)
    note rd = assms(1) [unfolded Collecting Cons]
    show ?thesis
    proof (cases "bind_res (open_table (sy_fs sys) (fm_number f)) into_table_iter")
      case (Inl e)
      show ?thesis
        by (rule reader_progressI [OF system_step.source_failed [OF rd Inl, of crc]]) (use Collecting Cons in simp_all)
    next
      case (Inr it)
      show ?thesis
        by (rule reader_progressI [OF system_step.source [OF rd Inr, of crc]]) (use Collecting Cons in simp_all)
    qed
  qed
qed (use assms(2) in simp_all)

lemma reader_returns:
  assumes "sy_readers sys t \<noteq> Idle"
  shows "\<exists>sys' a. (system_step crc)\<^sup>*\<^sup>* sys sys' \<and> d_inner (sy_db sys') = d_inner (sy_db sys) \<and> sy_readers sys' t = Returned a"
  using assms
proof (induction "reader_size (sy_readers sys t)" arbitrary: sys rule: less_induct)
  case less
  show ?case
  proof (cases "reader_size (sy_readers sys t) = 0")
    case True
    then obtain a where "sy_readers sys t = Returned a" using less.prems by (cases "sy_readers sys t") auto
    then show ?thesis by blast
  next
    case False
    obtain sys1 where 1: "system_step crc sys sys1" "d_inner (sy_db sys1) = d_inner (sy_db sys)" "sy_readers sys1 t \<noteq> Idle"
      "reader_size (sy_readers sys1 t) < reader_size (sy_readers sys t)"
      using reader_progress [OF refl False] by blast
    from less.hyps [OF 1(4,3)] show ?thesis using 1(1,2) by (metis converse_rtranclp_into_rtranclp)
  qed
qed

text \<open>A call that has begun finishes with the outcome it had then, and it always can finish.\<close>

lemma reader_outcome:
  assumes ok: "system_ok sys" and steps: "(system_step crc)\<^sup>*\<^sup>* sys sys'" and a: "outcome (sy_fs sys) (sy_readers sys t) = Some a"
  shows "(\<forall>a'. sy_readers sys' t = Returned a' \<longrightarrow> a' = a) \<and>
    (\<exists>sys''. (system_step crc)\<^sup>*\<^sup>* sys' sys'' \<and> d_inner (sy_db sys'') = d_inner (sy_db sys') \<and> sy_readers sys'' t = Returned a)"
proof -
  have "outcome (sy_fs sys') (sy_readers sys' t) = Some a"
    using system_steps_ok [OF steps ok] a outcome_Idle [of "sy_fs sys" "sy_readers sys t"] by (simp add: outcomes_kept_def)
  then have "sy_readers sys' t \<noteq> Idle" by auto
  from reader_returns [OF this, of crc] obtain sys'' a' where
    s: "(system_step crc)\<^sup>*\<^sup>* sys' sys''" "d_inner (sy_db sys'') = d_inner (sy_db sys')" "sy_readers sys'' t = Returned a'"
    by blast
  have "(system_step crc)\<^sup>*\<^sup>* sys sys''" using steps s(1) by (rule rtranclp_trans)
  from reader_result [OF ok this a s(3)] s show ?thesis using reader_result [OF ok steps a] by blast
qed

section \<open>Runs are coherent\<close>

lemma db_holds_coherent:
  assumes H: "db_holds crc ops b db"
  shows "coherent db"
proof -
  let ?inner = "d_inner db"
  have I: "inner_holds crc ops b ?inner" and c: "cache_ok (open_table (db_fs ?inner)) (d_cache db)"
    using H by (simp_all add: db_holds_def)
  have "named_handles ?inner"
    using I by (auto simp: inner_holds_def log_matches_def manifest_matches_def vs_written_def named_handles_def)
  moreover have "cached_below (id_next (db_id_gen ?inner)) (db_fs ?inner) (d_cache db)"
    unfolding cached_below_def
  proof (intro allI impI conjI)
    fix n r assume "fmlookup (ci_entries (d_cache db)) n = Some r"
    then show o: "open_table (db_fs ?inner) n = Inr r" using c by (simp add: cache_ok_def)
    show "n < id_next (db_id_gen ?inner)"
      using open_table_exists [OF o] I by (auto simp: inner_holds_def numbers_fresh_def not_le [symmetric])
  qed
  ultimately show ?thesis using inner_holds_numbers [OF I] by (simp add: coherent_def)
qed

lemma db_history_coherent: "db_history crc ops db \<Longrightarrow> coherent db"
  using db_history_holds db_holds_coherent by blast

lemma run_system_ok:
  assumes "db_history crc ops db" and "(system_step crc)\<^sup>*\<^sup>* (system_start db) sys"
  shows "system_ok sys"
  using system_steps_ok [OF assms(2)] system_ok_start [OF db_history_coherent [OF assms(1)]] by blast

section \<open>A sample\<close>

text \<open>A put that comes between the two halves of another thread's call on the empty database.\<close>

lemma sample_overlap:
  "\<exists>db inner. db_history (\<lambda>_. 0) [] db \<and> db_put (\<lambda>_. 0) (\<lambda>_. 0) [1] [7] (d_inner db) = Some (Inr (), inner) \<and>
     fst (db_get_at 0 [1] db) = Inr None \<and>
     (\<forall>rd. (system_step (\<lambda>_. 0))\<^sup>*\<^sup>* (set_reader 0 rd (system_start db)) (set_reader 0 rd (system_start (db\<lparr>d_inner := inner\<rparr>))))"
proof -
  obtain db where db: "db_history (\<lambda>_. 0) [] db" "db_options (d_inner db) = options_default" "numbers_left (d_inner db)"
    "sizes_ok (vs_current (db_version_set (d_inner db)))" "\<not> write_must_wait (d_inner db)"
    using sample_start by blast
  obtain b where b: "db_holds (\<lambda>_. 0) [] b db" using db_history_holds [OF db(1)] by blast
  obtain inner where put: "db_put (\<lambda>_. 0) (\<lambda>_. 0) [1] [7] (d_inner db) = Some (Inr (), inner)"
    using db_put_succeeds [OF b _ _ db(3-5), of "[1]" "[7]" "\<lambda>_. 0"] sample_fits(1) db(2) by auto
  have "system_step (\<lambda>_. 0) (set_reader 0 rd (system_start db)) (set_reader 0 rd (system_start db)\<lparr>sy_db := db\<lparr>d_inner := inner\<rparr>\<rparr>)" for rd
    by (rule system_step.call) (simp add: db_step.put [OF put])
  then have "(system_step (\<lambda>_. 0))\<^sup>*\<^sup>* (set_reader 0 rd (system_start db)) (set_reader 0 rd (system_start (db\<lparr>d_inner := inner\<rparr>)))" for rd
    by (simp add: set_reader_def system_start_def r_into_rtranclp)
  moreover have "fst (db_get_at 0 [1] db) = Inr None"
    using db_holds_reads(2) [OF b, of 0 "[1]"] by (simp add: readable_def last_write_def read_value_def)
  ultimately show ?thesis using db(1) put by blast
qed

section \<open>Properties\<close>

text \<open>C6: A get is atomic. Whatever other threads do between the moment a get holds the lock and its end (writes, flushes,
  compactions, failing calls, other reads and scans, at any of its steps), the get returns what it would have
  returned at that moment without interruption, and it never gets stuck: it can always finish by itself.\<close>

theorem overlapping_get_atomic:
  assumes "db_history crc ops db" and "(system_step crc)\<^sup>*\<^sup>* (system_start db) sys" and "sy_readers sys t = Idle"
    and "(system_step crc)\<^sup>*\<^sup>* (set_reader t (read_begin s key (d_inner (sy_db sys))) sys) sys'"
    and "a = Got (fst (db_get_at s key (sy_db sys)))"
  shows "(\<forall>a'. sy_readers sys' t = Returned a' \<longrightarrow> a' = a) \<and>
    (\<exists>sys''. (system_step crc)\<^sup>*\<^sup>* sys' sys'' \<and> d_inner (sy_db sys'') = d_inner (sy_db sys') \<and> sy_readers sys'' t = Returned a)"
proof -
  let ?sys = "set_reader t (read_begin s key (d_inner (sy_db sys))) sys"
  have ok: "system_ok sys" by (rule run_system_ok [OF assms(1,2)])
  have "system_ok ?sys" using system_step_ok [OF system_step.read [OF assms(3), of crc s key] ok] by blast
  moreover have "outcome (sy_fs ?sys) (sy_readers ?sys t) = Some a"
    using outcome_read_begin [of "sy_db sys" s key] ok assms(5) by (simp add: system_ok_def sy_fs_def)
  ultimately show ?thesis by (rule reader_outcome [OF _ assms(4)])
qed

theorem overlapping_get_atomic_witness:
  "\<exists>db inner sys. db_put (\<lambda>_. 0) (\<lambda>_. 0) [1] [7] (d_inner db) = Some (Inr (), inner) \<and>
     (system_step (\<lambda>_. 0))\<^sup>*\<^sup>* (set_reader 0 (read_begin 0 [1] (d_inner db)) (system_start (db\<lparr>d_inner := inner\<rparr>))) sys \<and>
     d_inner (sy_db sys) = inner \<and> sy_readers sys 0 = Returned (Got (Inr None))"
proof -
  obtain db inner where s: "db_history (\<lambda>_. 0) [] db" "db_put (\<lambda>_. 0) (\<lambda>_. 0) [1] [7] (d_inner db) = Some (Inr (), inner)"
    "fst (db_get_at 0 [1] db) = Inr None"
    "(system_step (\<lambda>_. 0))\<^sup>*\<^sup>* (set_reader 0 (read_begin 0 [1] (d_inner db)) (system_start db))
       (set_reader 0 (read_begin 0 [1] (d_inner db)) (system_start (db\<lparr>d_inner := inner\<rparr>)))"
    using sample_overlap by blast
  let ?sys = "set_reader 0 (read_begin 0 [1] (d_inner db)) (system_start (db\<lparr>d_inner := inner\<rparr>))"
  have "\<exists>sys. (system_step (\<lambda>_. 0))\<^sup>*\<^sup>* ?sys sys \<and> d_inner (sy_db sys) = d_inner (sy_db ?sys) \<and> sy_readers sys 0 = Returned (Got (Inr None))"
    using overlapping_get_atomic [OF s(1) rtranclp.rtrancl_refl, of 0 0 "[1]" ?sys "Got (Inr None)"] s(3,4) by simp
  then show ?thesis using s(2) by auto
qed

text \<open>C15: Building a scan is atomic in the same sense: the iterator that \<open>new_iterator_at\<close> returns, or its error, is the one
  it would have returned had it kept the lock, whatever other threads do while it opens the tables.\<close>

theorem overlapping_scan_atomic:
  assumes "db_history crc ops db" and "(system_step crc)\<^sup>*\<^sup>* (system_start db) sys" and "sy_readers sys t = Idle"
    and "(system_step crc)\<^sup>*\<^sup>* (set_reader t (scan_begin s (d_inner (sy_db sys))) sys) sys'"
    and "a = Built (new_iterator_at s (d_inner (sy_db sys)))"
  shows "(\<forall>a'. sy_readers sys' t = Returned a' \<longrightarrow> a' = a) \<and>
    (\<exists>sys''. (system_step crc)\<^sup>*\<^sup>* sys' sys'' \<and> d_inner (sy_db sys'') = d_inner (sy_db sys') \<and> sy_readers sys'' t = Returned a)"
proof -
  let ?sys = "set_reader t (scan_begin s (d_inner (sy_db sys))) sys"
  have ok: "system_ok sys" by (rule run_system_ok [OF assms(1,2)])
  have "system_ok ?sys" using system_step_ok [OF system_step.scan [OF assms(3), of crc s] ok] by blast
  moreover have "outcome (sy_fs ?sys) (sy_readers ?sys t) = Some a"
    using outcome_scan_begin [of "d_inner (sy_db sys)" s] assms(5) by (simp add: sy_fs_def)
  ultimately show ?thesis by (rule reader_outcome [OF _ assms(4)])
qed

theorem overlapping_scan_atomic_witness:
  "\<exists>db inner sys. db_put (\<lambda>_. 0) (\<lambda>_. 0) [1] [7] (d_inner db) = Some (Inr (), inner) \<and>
     (system_step (\<lambda>_. 0))\<^sup>*\<^sup>* (set_reader 0 (scan_begin 0 (d_inner db)) (system_start (db\<lparr>d_inner := inner\<rparr>))) sys \<and>
     d_inner (sy_db sys) = inner \<and> sy_readers sys 0 = Returned (Built (new_iterator_at 0 (d_inner db)))"
proof -
  obtain db inner where s: "db_history (\<lambda>_. 0) [] db" "db_put (\<lambda>_. 0) (\<lambda>_. 0) [1] [7] (d_inner db) = Some (Inr (), inner)"
    "(system_step (\<lambda>_. 0))\<^sup>*\<^sup>* (set_reader 0 (scan_begin 0 (d_inner db)) (system_start db))
       (set_reader 0 (scan_begin 0 (d_inner db)) (system_start (db\<lparr>d_inner := inner\<rparr>)))"
    using sample_overlap by blast
  let ?sys = "set_reader 0 (scan_begin 0 (d_inner db)) (system_start (db\<lparr>d_inner := inner\<rparr>))"
  let ?a = "Built (new_iterator_at 0 (d_inner db))"
  have "\<exists>sys. (system_step (\<lambda>_. 0))\<^sup>*\<^sup>* ?sys sys \<and> d_inner (sy_db sys) = d_inner (sy_db ?sys) \<and> sy_readers sys 0 = Returned ?a"
    using overlapping_scan_atomic [OF s(1) rtranclp.rtrancl_refl, of 0 0 ?sys ?a] s(3) by simp
  then show ?thesis using s(2) by auto
qed

end
