(* ===== verification/Crashing.thy ===== *)
theory Crashing
  imports Runs Frames
begin

text \<open>
  Crashes in the middle of a call. What a crash leaves of a call that has not committed its edit to the manifest is
  the directory of the state before it with new files beside it, a log that is cut, and perhaps a part of
  a record at the end of the manifest. Reopening it differs from reopening the directory with the whole manifest
  only in the manifest file.
\<close>

section \<open>Two directories that differ in the manifest\<close>

definition beside :: "string \<Rightarrow> fs \<Rightarrow> fs \<Rightarrow> bool" where
  "beside M fs fs' \<longleftrightarrow> (\<forall>name. name \<noteq> M \<longrightarrow> fmlookup fs' name = fmlookup fs name)"

lemma beside_upd: "beside M fs fs' \<Longrightarrow> beside M (fmupd name bs fs) (fmupd name bs fs')"
  by (simp add: beside_def)

lemma beside_write: "beside M fs fs' \<Longrightarrow> beside M (fs_write name bs fs) (fs_write name bs fs')"
  by (simp add: fs_write_def beside_upd)

text \<open>Version sets that differ in the handle of the manifest \<open>M\<close>.\<close>

definition vs_beside :: "string \<Rightarrow> version_set \<Rightarrow> version_set \<Rightarrow> bool" where
  "vs_beside M vs vs' \<longleftrightarrow> (\<exists>w. vs' = vs\<lparr>vs_manifest_writer := w\<rparr> \<and> lh_name (mw_wal w) = M) \<and>
     lh_name (mw_wal (vs_manifest_writer vs)) = M"

lemma vs_beside_fields:
  assumes "vs_beside M vs vs'"
  shows "vs_current vs' = vs_current vs" "vs_log_number vs' = vs_log_number vs"
    "vs_next_file_number vs' = vs_next_file_number vs" "vs_last_sequence vs' = vs_last_sequence vs"
    "vs_manifest_number vs' = vs_manifest_number vs"
  using assms by (auto simp: vs_beside_def)

lemma vs_beside_sequence: "vs_beside M vs vs' \<Longrightarrow> vs_beside M (vs\<lparr>vs_last_sequence := x\<rparr>) (vs'\<lparr>vs_last_sequence := x\<rparr>)"
  unfolding vs_beside_def by (elim conjE exE, intro conjI, rule_tac x = w in exI) simp_all

lemma log_open_beside:
  assumes "log_open name fs = (h, fs1)" and "beside M fs fs'" and "name \<noteq> M"
  shows "\<exists>fs1'. log_open name fs' = (h, fs1') \<and> beside M fs1 fs1'"
  using assms by (auto simp: log_open_def Let_def beside_def)

lemma log_add_beside:
  assumes "beside M fs fs'" and "lh_name h = M" and "lh_name h' = M"
    and "log_add crc h d fs = (h1, fs1)" and "log_add crc h' d fs' = (h1', fs1')"
  shows "beside M fs1 fs1'" "lh_name h1' = M"
  using assms by (auto simp: log_add_def Let_def beside_def split: if_splits)

lemma write_new_version_beside:
  assumes w: "write_new_version crc e vs fs = (Inr v, vs1, fs1)" and vs: "vs_beside M vs vs'" and fs: "beside M fs fs'"
  shows "\<exists>vs1' fs1'. write_new_version crc e vs' fs' = (Inr v, vs1', fs1') \<and> vs_beside M vs1 vs1' \<and> beside M fs1 fs1'"
proof -
  obtain wr where wr: "vs' = vs\<lparr>vs_manifest_writer := wr\<rparr>" "lh_name (mw_wal wr) = M" "lh_name (mw_wal (vs_manifest_writer vs)) = M"
    using vs by (auto simp: vs_beside_def)
  obtain h fs2 where h: "log_add crc (mw_wal (vs_manifest_writer vs)) (edit_encode e) fs = (h, fs2)" by force
  obtain h' fs2' where h': "log_add crc (mw_wal wr) (edit_encode e) fs' = (h', fs2')" by force
  note b = log_add_beside [OF fs wr(3,2) h h']
  have hM: "lh_name h = M" using log_add_frame(1) [OF h] wr(3) by simp
  obtain v1 where a: "apply_edit (vs_current vs) e = Inr v1"
    using w h by (auto simp: write_new_version_def manifest_append_def Let_def split: sum.splits prod.splits)
  obtain cp where cp: "set_pointers (ve_compact_pointers e) (vs_compact_pointer vs) = (cp, Inr ())"
    using w h a by (auto simp: write_new_version_def manifest_append_def Let_def bind_res_eq_Inr split: prod.splits)
  have vs1: "lh_name (mw_wal (vs_manifest_writer vs1)) = M" "fs1 = fs2"
    using w h a cp hM by (auto simp: write_new_version_def manifest_append_def Let_def)
  let ?vs1 = "vs1\<lparr>vs_manifest_writer := wr\<lparr>mw_wal := h'\<rparr>\<rparr>"
  have "write_new_version crc e vs' fs' = (Inr v, ?vs1, fs2')"
    using w h h' a cp by (auto simp: write_new_version_def manifest_append_def Let_def wr(1))
  moreover have "vs_beside M vs1 ?vs1"
    unfolding vs_beside_def using vs1(1) b(2) by (intro conjI exI [of _ "wr\<lparr>mw_wal := h'\<rparr>"]) simp_all
  ultimately show ?thesis using b(1) vs1(2) by blast
qed

lemma flush_to_level0_beside:
  assumes "flush_to_level0 msg opts mt g fs = (r, g1, fs1)" and "beside M fs fs'"
  shows "\<exists>fs1'. flush_to_level0 msg opts mt g fs' = (r, g1, fs1') \<and> beside M fs1 fs1'"
proof -
  have len: "fs_len path (fs_write path bs f) = Inr (of_nat (length bs))" for path bs f
    by (simp add: fs_len_def fs_write_def)
  show ?thesis
  proof (cases "new_file_number g")
    case (Inl e)
    then show ?thesis using assms by (simp add: flush_to_level0_def del: new_file_number_Inr)
  next
    case (Inr p)
    then show ?thesis
      using assms beside_write [OF assms(2)]
      by (cases p; cases "mt_flush (opt_block_size opts) (bloom_bits_per_key opts) mt")
        (auto simp: flush_to_level0_def Let_def len simp del: new_file_number_Inr)
  qed
qed

lemma recover_memtable_beside:
  assumes "recover_memtable crc draws vs fs = Inr (mt, vs1)" and "vs_beside M vs vs'" and "beside M fs fs'"
    and "log_path (vs_log_number vs) \<noteq> M"
  shows "\<exists>vs1'. recover_memtable crc draws vs' fs' = Inr (mt, vs1') \<and> vs_beside M vs1 vs1'"
proof -
  have same: "fs_exists (log_path (vs_log_number vs)) fs' = fs_exists (log_path (vs_log_number vs)) fs"
    "log_read crc (log_path (vs_log_number vs)) fs' = log_read crc (log_path (vs_log_number vs)) fs"
    using assms(3,4) by (simp_all add: fs_exists_def log_read_def fs_read_def beside_def)
  show ?thesis
    using assms(1,2) vs_beside_sequence [OF assms(2)]
    by (auto simp: recover_memtable_def vs_beside_fields [OF assms(2)] same Let_def bind_res_eq_Inr split: if_splits)
qed

lemma recover_commit_beside:
  assumes c: "recover_commit crc opts vs mt fs = (Inr (vs1, mt1, g, n), fs1)" and vs: "vs_beside M vs vs'" and fs: "beside M fs fs'"
    and M: "\<And>n. log_path n \<noteq> M"
  shows "\<exists>vs1' fs1'. recover_commit crc opts vs' mt fs' = (Inr (vs1', mt1, g, n), fs1') \<and> vs_beside M vs1 vs1' \<and> beside M fs1 fs1'"
proof (cases "0 < mt_entries mt")
  case True
  let ?g = "id_generator_new (vs_next_file_number vs)"
  obtain r2 g2 fs2 where f: "flush_to_level0 ''recovered memtable empty'' opts mt ?g fs = (r2, g2, fs2)"
    using flush_to_level0_result by blast
  obtain meta where r2: "r2 = Inr meta" using c True f by (cases r2) (auto simp: recover_commit_def)
  obtain log g3 where n: "new_file_number g2 = Inr (log, g3)"
    using c True f r2 by (cases "new_file_number g2") (auto simp: recover_commit_def then_do_def)
  obtain h fs3 where l: "log_open (log_path log) fs2 = (h, fs3)" by force
  obtain v vs4 fs4 where w: "write_new_version crc (flush_edit meta log g3 (mt_seq mt)) vs fs3 = (Inr v, vs4, fs4)"
    using c True f r2 n l by (auto simp: recover_commit_def Let_def split: sum.splits prod.splits)
  obtain fs2' where f': "flush_to_level0 ''recovered memtable empty'' opts mt ?g fs' = (r2, g2, fs2')" "beside M fs2 fs2'"
    using flush_to_level0_beside [OF f fs] by blast
  obtain fs3' where l': "log_open (log_path log) fs2' = (h, fs3')" "beside M fs3 fs3'"
    using log_open_beside [OF l f'(2) M] by blast
  obtain vs4' fs4' where w': "write_new_version crc (flush_edit meta log g3 (mt_seq mt)) vs' fs3' = (Inr v, vs4', fs4')"
    "vs_beside M vs4 vs4'" "beside M fs4 fs4'"
    using write_new_version_beside [OF w vs l'(2)] by blast
  let ?r = "\<lambda>vs. Inr (vs, memtable_with_initial_sequence (mt_seq mt), g3, log)"
  have "recover_commit crc opts vs mt fs = (?r vs4, fs4)" "recover_commit crc opts vs' mt fs' = (?r vs4', fs4')"
    using True f r2 n l w f'(1) l'(1) w'(1)
    by (simp_all add: recover_commit_def Let_def vs_beside_fields [OF vs] del: new_file_number_Inr)
  then show ?thesis using c w'(2,3) by auto
next
  case False
  let ?g = "id_generator_new (vs_next_file_number vs)"
  obtain log g3 where n: "new_file_number ?g = Inr (log, g3)"
    using c False by (cases "new_file_number ?g") (auto simp: recover_commit_def then_do_def)
  let ?e = "set_next_file_number (id_next g3) (set_log_number log version_edit_new)"
  obtain v vs4 fs4 where w: "write_new_version crc ?e vs fs = (Inr v, vs4, fs4)"
    using c False n by (auto simp: recover_commit_def Let_def split: sum.splits prod.splits)
  obtain vs4' fs4' where w': "write_new_version crc ?e vs' fs' = (Inr v, vs4', fs4')"
    "vs_beside M vs4 vs4'" "beside M fs4 fs4'"
    using write_new_version_beside [OF w vs fs] by blast
  let ?r = "\<lambda>vs. Inr (vs, mt, g3, log)"
  have "recover_commit crc opts vs mt fs = (?r vs4, fs4)" "recover_commit crc opts vs' mt fs' = (?r vs4', fs4')"
    using False n w w'(1) by (simp_all add: recover_commit_def Let_def vs_beside_fields [OF vs] del: new_file_number_Inr)
  then show ?thesis using c w'(2,3) by auto
qed

text \<open>Databases that differ in the manifest.\<close>

definition inner_beside :: "string \<Rightarrow> db_inner \<Rightarrow> db_inner \<Rightarrow> bool" where
  "inner_beside M inner inner' \<longleftrightarrow>
     (\<exists>vs fs. inner' = inner\<lparr>db_version_set := vs, db_fs := fs\<rparr> \<and> vs_beside M (db_version_set inner) vs \<and> beside M (db_fs inner) fs)"

lemma recover_open_beside:
  assumes r: "vs_recover crc fs = Inr (vs, fs)" "vs_recover crc fs' = Inr (vs', fs')"
    and o: "recover_open crc draws opts fs = (Inr inner, fs1)" and vs: "vs_beside M vs vs'" and fs: "beside M fs fs'"
    and M: "\<And>n. log_path n \<noteq> M"
  shows "\<exists>inner' fs1'. recover_open crc draws opts fs' = (Inr inner', db_fs inner') \<and> inner_beside M inner inner'"
proof -
  obtain mt vs2 where m: "recover_memtable crc draws vs fs = Inr (mt, vs2)"
    using o r by (cases "recover_memtable crc draws vs fs") (auto simp: recover_open_def)
  obtain vs2' where m': "recover_memtable crc draws vs' fs' = Inr (mt, vs2')" "vs_beside M vs2 vs2'"
    using recover_memtable_beside [OF m vs fs M] by blast
  obtain vs3 mt3 g n fs3 where c: "recover_commit crc opts vs2 mt fs = (Inr (vs3, mt3, g, n), fs3)"
    using o r m by (cases "recover_commit crc opts vs2 mt fs"; cases "fst (recover_commit crc opts vs2 mt fs)")
      (auto simp: recover_open_def)
  obtain vs3' fs3' where c': "recover_commit crc opts vs2' mt fs' = (Inr (vs3', mt3, g, n), fs3')" "vs_beside M vs3 vs3'"
    "beside M fs3 fs3'"
    using recover_commit_beside [OF c m'(2) fs M] by blast
  obtain wal fs4 where l: "log_open (log_path n) fs3 = (wal, fs4)" by force
  obtain fs4' where l': "log_open (log_path n) fs3' = (wal, fs4')" "beside M fs4 fs4'"
    using log_open_beside [OF l c'(3) M] by blast
  have "is_obsolete vs3' name = is_obsolete vs3 name" for name
    by (simp add: is_obsolete_def vs_beside_fields [OF c'(2)] cong: option.case_cong)
  then have "beside M (remove_obsolete_files vs3 fs4) (remove_obsolete_files vs3' fs4')"
    using l'(2) by (simp add: beside_def remove_obsolete_lookup)
  then show ?thesis
    using o r m m' c c' l l' by (auto simp: recover_open_def inner_beside_def Let_def)
qed

lemma inner_beside_reads:
  assumes i: "inner_beside M inner inner'" and M: "\<And>n. sst_path n \<noteq> M"
  shows "fst (db_get_at s key \<lparr>d_inner = inner', d_cache = c\<rparr>) = fst (db_get_at s key \<lparr>d_inner = inner, d_cache = c\<rparr>)"
    and "new_iterator_at s inner' = new_iterator_at s inner"
proof -
  obtain vs fs where s: "inner' = inner\<lparr>db_version_set := vs, db_fs := fs\<rparr>" "vs_beside M (db_version_set inner) vs"
    "beside M (db_fs inner) fs"
    using i by (auto simp: inner_beside_def)
  have o: "open_table fs = open_table (db_fs inner)"
    using s(3) M by (intro ext) (simp add: open_table_def fs_read_def beside_def)
  have inputs: "open_inputs fs files iters = open_inputs (db_fs inner) files iters" for files iters
    by (induction files arbitrary: iters) (simp_all add: o)
  show "fst (db_get_at s key \<lparr>d_inner = inner', d_cache = c\<rparr>) = fst (db_get_at s key \<lparr>d_inner = inner, d_cache = c\<rparr>)"
    by (simp add: db_get_at_def s(1) get_from_sstables_def o vs_beside_fields [OF s(2)] Let_def
        split: sum.splits option.splits value_type.splits prod.splits)
  show "new_iterator_at s inner' = new_iterator_at s inner"
    by (simp add: new_iterator_at_def scan_sources_def inputs s(1) vs_beside_fields [OF s(2)] Let_def)
qed

section \<open>Reopening with a torn manifest\<close>

text \<open>Like \<open>crash_image\<close>, but the manifest may end in a part of a record that the reader does not see.\<close>

definition torn_image :: "(bytes \<Rightarrow> u32) \<Rightarrow> db_inner \<Rightarrow> nat \<Rightarrow> fs \<Rightarrow> bool" where
  "torn_image crc inner k fs' \<longleftrightarrow>
     (let fs = db_fs inner; vs = db_version_set inner; M = manifest_path (vs_manifest_number vs) in
      fmlookup fs' current_path = fmlookup fs current_path \<and>
      (\<exists>bs bs'. fmlookup fs M = Some bs \<and> fmlookup fs' M = Some bs' \<and> read_records crc bs' = read_records crc bs) \<and>
      (\<forall>n. live_number (vs_current vs) n \<longrightarrow> fmlookup fs' (sst_path n) = fmlookup fs (sst_path n)) \<and>
      (fmlookup fs' (lh_name (db_wal inner)) = map_option (take k) (fmlookup fs (lh_name (db_wal inner))) \<or>
       k = 0 \<and> fmlookup fs' (lh_name (db_wal inner)) = None) \<and>
      (\<forall>n. id_next (db_id_gen inner) \<le> n \<longrightarrow> fmlookup fs' (log_path n) = None \<or> fmlookup fs' (log_path n) = Some []))"

lemma vs_beside_recovered:
  assumes "vs_fields vs = vs_fields vs'" and "vs_manifest_number vs = vs_manifest_number vs'" and "vs_snapshots vs = vs_snapshots vs'"
    and "lh_name (mw_wal (vs_manifest_writer vs)) = M" and "lh_name (mw_wal (vs_manifest_writer vs')) = M"
  shows "vs_beside M vs vs'"
  using assms by (cases vs; cases vs') (auto simp: vs_beside_def vs_fields_def)

lemma torn_image_recovers:
  assumes m: "manifest_matches crc eds x vs fs0" and M: "M = manifest_path (vs_manifest_number vs)"
    and c: "fmlookup fs current_path = fmlookup fs0 current_path"
    and bs: "fmlookup fs0 M = Some bs0" "fmlookup fs M = Some bs" "read_records crc bs = read_records crc bs0"
  shows "\<exists>vs1. vs_recover crc fs = Inr (vs1, fs) \<and> vs_fields vs1 = vs_fields (vs\<lparr>vs_last_sequence := x\<rparr>) \<and>
    vs_manifest_number vs1 = vs_manifest_number vs \<and> vs_snapshots vs1 = [] \<and> lh_name (mw_wal (vs_manifest_writer vs1)) = M"
proof -
  have r: "read_records crc bs0 = map edit_encode eds" "replay_edits eds replay_start = Inr (vs_fields (vs\<lparr>vs_last_sequence := x\<rparr>))"
    "\<forall>e \<in> set eds. edit_ok e" "fmlookup fs current_path = Some (current_content (vs_manifest_number vs))"
    using m bs(1) c holds_records_read
    by (auto simp: manifest_matches_def vs_written_def manifest_holds_def log_holds_def M)
  show ?thesis
    using vs_recover_lookup [OF r(4), of bs crc eds "vs_fields (vs\<lparr>vs_last_sequence := x\<rparr>)"] bs r M by auto
qed

lemma torn_reopen:
  assumes H: "inner_holds crc ops b inner" and torn: "torn_image crc inner k fs'" and fits: "history_fits opts ops"
    and left: "numbers_left inner"
  shows "\<exists>j db'. b \<le> j \<and> j \<le> length ops \<and> db_open crc draws opts fs' = (Inr db', db_fs (d_inner db')) \<and>
    (\<forall>key. fst (db_get key db') = Inr (read_value (last_write (take j ops) key))) \<and> (k = 0 \<longrightarrow> j = b) \<and>
    (\<forall>i \<le> length (drop b ops). length (foldl (log_append crc) [] (take i (log_records b (drop b ops)))) \<le> k \<longrightarrow> b + i \<le> j)"
proof -
  let ?vs = "db_version_set inner" and ?fs = "db_fs inner"
  let ?M = "manifest_path (vs_manifest_number (db_version_set inner))"
  obtain eds where m: "manifest_matches crc eds (of_nat b) ?vs ?fs" using H by (auto simp: inner_holds_def)
  have c: "fmlookup fs' current_path = fmlookup ?fs current_path" using torn by (simp add: torn_image_def Let_def)
  obtain bs bs' where bs: "fmlookup ?fs ?M = Some bs" "fmlookup fs' ?M = Some bs'" "read_records crc bs' = read_records crc bs"
    using torn by (auto simp: torn_image_def Let_def)
  let ?whole = "fmupd ?M bs fs'"
  have wal: "lh_name (db_wal inner) \<noteq> ?M" using H by (auto simp: inner_holds_def log_matches_def)
  have "crash_image inner k ?whole"
    using torn bs(1) wal by (auto simp: torn_image_def crash_image_def Let_def)
  from reopen_holds [OF H this fits left, of draws] obtain j inner' where
    j: "b \<le> j" "j \<le> length ops" "recover_open crc draws opts ?whole = (Inr inner', db_fs inner')"
      "inner_holds crc (take j ops) j inner'" "k = 0 \<longrightarrow> j = b"
      "\<forall>i \<le> length (drop b ops). length (foldl (log_append crc) [] (take i (log_records b (drop b ops)))) \<le> k \<longrightarrow> b + i \<le> j"
    by blast
  obtain vs1 where r1: "vs_recover crc ?whole = Inr (vs1, ?whole)" "vs_fields vs1 = vs_fields (?vs\<lparr>vs_last_sequence := of_nat b\<rparr>)"
    "vs_manifest_number vs1 = vs_manifest_number ?vs" "vs_snapshots vs1 = []" "lh_name (mw_wal (vs_manifest_writer vs1)) = ?M"
    using torn_image_recovers [OF m refl, of ?whole bs bs] c bs by auto
  obtain vs2 where r2: "vs_recover crc fs' = Inr (vs2, fs')" "vs_fields vs2 = vs_fields (?vs\<lparr>vs_last_sequence := of_nat b\<rparr>)"
    "vs_manifest_number vs2 = vs_manifest_number ?vs" "vs_snapshots vs2 = []" "lh_name (mw_wal (vs_manifest_writer vs2)) = ?M"
    using torn_image_recovers [OF m refl c bs] by blast
  have "beside ?M ?whole fs'" by (simp add: beside_def)
  then obtain inner2 where o: "recover_open crc draws opts fs' = (Inr inner2, db_fs inner2)" "inner_beside ?M inner' inner2"
    using recover_open_beside [OF r1(1) r2(1) j(3) vs_beside_recovered [of vs1 vs2 ?M]] r1 r2 by auto
  let ?db = "\<lparr>d_inner = inner', d_cache = cache_with_capacity (table_cache_size opts)\<rparr>"
  let ?db2 = "\<lparr>d_inner = inner2, d_cache = cache_with_capacity (table_cache_size opts)\<rparr>"
  have "fs_exists current_path fs'" using m c by (simp add: fs_exists_def manifest_matches_def)
  then have "db_open crc draws opts fs' = (Inr ?db2, db_fs (d_inner ?db2))" using o(1) by (simp add: db_open_def)
  moreover have "fst (db_get key ?db2) = Inr (read_value (last_write (take j ops) key))" for key
  proof -
    have "vs_last_sequence (db_version_set inner2) = vs_last_sequence (db_version_set inner')"
      using o(2) vs_beside_fields(4) by (auto simp: inner_beside_def)
    then have "fst (db_get key ?db2) = fst (db_get key ?db)"
      using inner_beside_reads(1) [OF o(2)] by (simp add: db_get_def)
    also have "\<dots> = Inr (read_value (last_write (take j ops) key))"
      by (rule db_holds_reads(1) [where b = j and crc = crc]) (simp add: db_holds_def j(4))
    finally show ?thesis .
  qed
  ultimately show ?thesis using j(1,2,5,6) by blast
qed

section \<open>The directories a call goes through\<close>

text \<open>The directory \<open>fs2\<close> with less than the whole last append to the file \<open>name\<close> of the directory \<open>fs1\<close>.\<close>

definition torn_append :: "string \<Rightarrow> fs \<Rightarrow> fs \<Rightarrow> fs \<Rightarrow> bool" where
  "torn_append name fs1 fs2 fs' \<longleftrightarrow>
     (\<exists>old new k. fmlookup fs1 name = Some old \<and> fmlookup fs2 name = Some new \<and> length old \<le> k \<and> k < length new \<and>
        fs' = fmupd name (take k new) fs2)"

text \<open>
  What a crash in \<open>flush_memtable\<close> may leave before the manifest holds the edit: any contents of the new table, then
  the finished table and the new log, then a part of the edit's record.
\<close>

inductive flush_dir :: "(bytes \<Rightarrow> u32) \<Rightarrow> db_inner \<Rightarrow> fs \<Rightarrow> bool" for crc :: "bytes \<Rightarrow> u32" where
  table: "new_file_number (db_id_gen inner) = Inr (n, g) \<Longrightarrow> flush_dir crc inner (fs_write (sst_path n) bs (db_fs inner))"
| new_log: "flush_to_level0 ''flushed memtable had no entries'' (db_options inner) (db_memtable inner) (db_id_gen inner)
      (db_fs inner) = (Inr meta, g1, fs1) \<Longrightarrow>
    new_file_number g1 = Inr (lg, g2) \<Longrightarrow> log_open (log_path lg) fs1 = (wal, fs2) \<Longrightarrow> flush_dir crc inner fs2"
| commit: "flush_to_level0 ''flushed memtable had no entries'' (db_options inner) (db_memtable inner) (db_id_gen inner)
      (db_fs inner) = (Inr meta, g1, fs1) \<Longrightarrow>
    new_file_number g1 = Inr (lg, g2) \<Longrightarrow> log_open (log_path lg) fs1 = (wal, fs2) \<Longrightarrow>
    write_new_version crc (flush_edit meta lg g2 (mt_seq (db_memtable inner))) (db_version_set inner) fs2 = (r, vs', fs3) \<Longrightarrow>
    torn_append (lh_name (mw_wal (vs_manifest_writer (db_version_set inner)))) fs2 fs3 fs' \<Longrightarrow> flush_dir crc inner fs'"

text \<open>The same for \<open>write\<close>: the record is in the log, then the flush if one is due.\<close>

inductive write_dir ::
    "(bytes \<Rightarrow> u32) \<Rightarrow> (nat \<Rightarrow> nat) \<Rightarrow> bytes \<Rightarrow> bytes \<Rightarrow> value_type \<Rightarrow> db_inner \<Rightarrow> fs \<Rightarrow> bool" for crc :: "bytes \<Rightarrow> u32" where
  logging: "u64_succ (mt_seq (db_memtable inner)) = Inr s \<Longrightarrow>
    log_add crc (db_wal inner) (encode_entry t s key v) (db_fs inner) = (wal, fs) \<Longrightarrow> write_dir crc draws key v t inner fs"
| flushing: "u64_succ (mt_seq (db_memtable inner)) = Inr s \<Longrightarrow>
    log_add crc (db_wal inner) (encode_entry t s key v) (db_fs inner) = (wal, fs) \<Longrightarrow>
    mt_apply draws t s key v (db_memtable inner) = Inr mt \<Longrightarrow>
    memtable_flush_entries (db_options inner) \<le> mt_entries mt \<or>
      0 < memtable_max_bytes (db_options inner) \<and> memtable_max_bytes (db_options inner) \<le> mt_approx_bytes mt \<Longrightarrow>
    flush_dir crc (inner\<lparr>db_wal := wal, db_fs := fs, db_memtable := mt,
      db_version_set := (db_version_set inner)\<lparr>vs_last_sequence := s\<rparr>\<rparr>) fs' \<Longrightarrow>
    write_dir crc draws key v t inner fs'"

text \<open>The same for \<open>run_one_compaction\<close>: any contents of tables with new numbers, then a part of the edit's record.\<close>

inductive compaction_dir :: "(bytes \<Rightarrow> u32) \<Rightarrow> db_inner \<Rightarrow> fs \<Rightarrow> bool" for crc :: "bytes \<Rightarrow> u32" where
  tables: "pick_compaction (db_version_set inner) = Inr (Some c) \<Longrightarrow>
    new_tables_only (id_next (db_id_gen inner)) (db_fs inner) fs' \<Longrightarrow> compaction_dir crc inner fs'"
| commit: "pick_compaction (db_version_set inner) = Inr (Some c) \<Longrightarrow>
    do_compaction c (vs_current (db_version_set inner)) (id_generator_new (id_next (db_id_gen inner)))
      (oldest_snapshot_seq (db_version_set inner)) (opt_block_size (db_options inner)) (bloom_bits_per_key (db_options inner))
      (db_fs inner) = (Inr out, g, fs1) \<Longrightarrow>
    write_new_version crc (compaction_edit (co_level c) out g) (db_version_set inner) fs1 = (r, vs', fs2) \<Longrightarrow>
    torn_append (lh_name (mw_wal (vs_manifest_writer (db_version_set inner)))) fs1 fs2 fs' \<Longrightarrow> compaction_dir crc inner fs'"

text \<open>A call in progress with the writes it makes.\<close>

inductive call_dir :: "(bytes \<Rightarrow> u32) \<Rightarrow> db_inner \<Rightarrow> write_op list \<Rightarrow> fs \<Rightarrow> bool" for crc :: "bytes \<Rightarrow> u32" where
  writing: "write_dir crc draws key v t inner fs \<Longrightarrow> call_dir crc inner [(t, key, v)] fs"
| compacting: "compaction_dir crc inner fs \<Longrightarrow> call_dir crc inner [] fs"

definition cut_file :: "string \<Rightarrow> nat \<Rightarrow> fs \<Rightarrow> fs" where
  "cut_file name k fs = (case fmlookup fs name of Some bs \<Rightarrow> fmupd name (take k bs) fs | None \<Rightarrow> fs)"

section \<open>They are all torn images\<close>

lemma cut_file_lookup: "fmlookup (cut_file name k fs) m = (if m = name then map_option (take k) (fmlookup fs name) else fmlookup fs m)"
  by (auto simp: cut_file_def split: option.split)

text \<open>A directory that differs from the state in new tables, a new empty log, and a manifest that reads the same.\<close>

lemma torn_imageI:
  assumes H: "inner_holds crc ops b inner"
    and M: "\<exists>bs bs'. fmlookup (db_fs inner) (manifest_path (vs_manifest_number (db_version_set inner))) = Some bs \<and>
      fmlookup fs' (manifest_path (vs_manifest_number (db_version_set inner))) = Some bs' \<and> read_records crc bs' = read_records crc bs"
    and cur: "fmlookup fs' current_path = fmlookup (db_fs inner) current_path"
    and wal: "fmlookup fs' (lh_name (db_wal inner)) = fmlookup (db_fs inner) (lh_name (db_wal inner))"
    and old: "\<And>n. n < id_next (db_id_gen inner) \<Longrightarrow> fmlookup fs' (sst_path n) = fmlookup (db_fs inner) (sst_path n)"
    and logs: "\<And>n. id_next (db_id_gen inner) \<le> n \<Longrightarrow> fmlookup fs' (log_path n) = None \<or> fmlookup fs' (log_path n) = Some []"
  shows "torn_image crc inner k (cut_file (lh_name (db_wal inner)) k fs')"
proof -
  obtain n where n: "lh_name (db_wal inner) = log_path n" using H by (auto simp: inner_holds_def log_matches_def)
  have live: "m < id_next (db_id_gen inner)" if "live_number (vs_current (db_version_set inner)) m" for m
    using inner_holds_numbers [OF H] that by (simp add: numbers_ok_def)
  have logs': "fmlookup (cut_file (log_path n) k fs') (log_path m) = None \<or> fmlookup (cut_file (log_path n) k fs') (log_path m) = Some []"
    if "id_next (db_id_gen inner) \<le> m" for m
    using logs [OF that] by (auto simp: cut_file_lookup)
  show ?thesis
    unfolding torn_image_def Let_def n
  proof (intro conjI allI impI)
    show "fmlookup (cut_file (log_path n) k fs') (sst_path m) = fmlookup (db_fs inner) (sst_path m)"
      if "live_number (vs_current (db_version_set inner)) m" for m
      using old [OF live [OF that]] by (simp add: cut_file_lookup)
  qed (use M cur wal logs' n in \<open>auto simp: cut_file_lookup\<close>)
qed

lemma inner_holds_manifest:
  assumes "inner_holds crc ops b inner"
  shows "\<exists>bs rs. fmlookup (db_fs inner) (manifest_path (vs_manifest_number (db_version_set inner))) = Some bs \<and> holds_records crc bs rs \<and>
    log_holds crc (mw_wal (vs_manifest_writer (db_version_set inner))) (db_fs inner) rs \<and>
    lh_name (mw_wal (vs_manifest_writer (db_version_set inner))) = manifest_path (vs_manifest_number (db_version_set inner))"
proof -
  obtain eds where "manifest_matches crc eds (of_nat b) (db_version_set inner) (db_fs inner)"
    using assms by (auto simp: inner_holds_def)
  then have "log_holds crc (mw_wal (vs_manifest_writer (db_version_set inner))) (db_fs inner) (map edit_encode eds)"
    "lh_name (mw_wal (vs_manifest_writer (db_version_set inner))) = manifest_path (vs_manifest_number (db_version_set inner))"
    by (simp_all add: manifest_matches_def vs_written_def manifest_holds_def)
  then show ?thesis by (auto simp: log_holds_def)
qed

text \<open>A torn edit at the end of the manifest does not change what is read from it.\<close>

lemma torn_edit_reads:
  assumes h: "log_holds crc (mw_wal (vs_manifest_writer vs)) fs1 rs" and M: "lh_name (mw_wal (vs_manifest_writer vs)) = M"
    and w: "write_new_version crc e vs fs1 = (r, vs', fs2)" and torn: "torn_append M fs1 fs2 fs'"
  shows "\<exists>bs bs'. fmlookup fs1 M = Some bs \<and> fmlookup fs' M = Some bs' \<and> read_records crc bs' = read_records crc bs"
    and "name \<noteq> M \<Longrightarrow> fmlookup fs' name = fmlookup fs1 name"
proof -
  let ?h = "mw_wal (vs_manifest_writer vs)"
  obtain h1 fs3 where a: "log_add crc ?h (edit_encode e) fs1 = (h1, fs3)" by force
  have fs3: "fs3 = fs2"
    using w a by (auto simp: write_new_version_def manifest_append_def Let_def split: sum.splits prod.splits)
  obtain bs where bs: "fmlookup fs1 M = Some bs" "holds_records crc bs rs" and fs2: "fs2 = fmupd M (log_append crc bs (edit_encode e)) fs1"
    using log_add_lookup [OF h a] M fs3 by auto
  obtain k where k: "length bs \<le> k" "k < length (log_append crc bs (edit_encode e))"
    "fs' = fmupd M (take k (log_append crc bs (edit_encode e))) fs2"
    using torn bs(1) by (auto simp: torn_append_def fs2)
  show "\<exists>bs bs'. fmlookup fs1 M = Some bs \<and> fmlookup fs' M = Some bs' \<and> read_records crc bs' = read_records crc bs"
    using bs(1) k(3) holds_records_torn [OF bs(2) k(1,2)] holds_records_read [OF bs(2)] by simp
  show "name \<noteq> M \<Longrightarrow> fmlookup fs' name = fmlookup fs1 name" by (simp add: k(3) fs2)
qed

lemma torn_manifest_reads:
  assumes H: "inner_holds crc ops b inner" and M: "M = manifest_path (vs_manifest_number (db_version_set inner))"
    and same: "fmlookup fs1 M = fmlookup (db_fs inner) M" and w: "write_new_version crc e (db_version_set inner) fs1 = (r, vs', fs2)"
    and torn: "torn_append M fs1 fs2 fs'"
  shows "\<exists>bs bs'. fmlookup (db_fs inner) M = Some bs \<and> fmlookup fs' M = Some bs' \<and> read_records crc bs' = read_records crc bs"
    and "name \<noteq> M \<Longrightarrow> fmlookup fs' name = fmlookup fs1 name"
proof -
  let ?h = "mw_wal (vs_manifest_writer (db_version_set inner))"
  obtain rs where m: "log_holds crc ?h (db_fs inner) rs" "lh_name ?h = M"
    using inner_holds_manifest [OF H] unfolding M by blast
  have "log_holds crc ?h fs1 rs" using log_holds_other [OF m(1)] same m(2) by simp
  note t = torn_edit_reads [OF this m(2) w torn]
  show "\<exists>bs bs'. fmlookup (db_fs inner) M = Some bs \<and> fmlookup fs' M = Some bs' \<and> read_records crc bs' = read_records crc bs"
    using t(1) same by simp
  show "name \<noteq> M \<Longrightarrow> fmlookup fs' name = fmlookup fs1 name" by (rule t(2))
qed

text \<open>A flush adds a table and an empty log with new numbers.\<close>

lemma flush_adds_files:
  assumes f: "flush_to_level0 msg opts mt g fs = (Inr meta, g1, fs1)" and n: "new_file_number g1 = Inr (lg, g2)"
    and l: "log_open (log_path lg) fs1 = (wal, fs2)"
    and fresh: "\<And>n. id_next g \<le> n \<Longrightarrow> fmlookup fs (log_path n) = None \<or> fmlookup fs (log_path n) = Some []"
  shows "(\<forall>n. id_next g \<le> n \<longrightarrow> name \<noteq> sst_path n \<and> name \<noteq> log_path n) \<Longrightarrow> fmlookup fs2 name = fmlookup fs name"
    and "id_next g \<le> n \<Longrightarrow> fmlookup fs2 (log_path n) = None \<or> fmlookup fs2 (log_path n) = Some []"
proof -
  obtain sst g0 where sst: "new_file_number g = Inr (sst, g0)"
    using f by (cases "new_file_number g") (auto simp: flush_to_level0_def simp del: new_file_number_Inr)
  have s: "sst = id_next g" using new_file_number_less [OF sst] by simp
  obtain bs where fs1: "fs1 = fs_write (sst_path sst) bs fs"
    using f sst by (auto simp: flush_to_level0_def Let_def simp del: new_file_number_Inr split: sum.splits)
  have lg: "id_next g \<le> lg" using new_file_number_less [OF n] flush_to_level0_numbers(1) [OF f] by simp
  have "fmlookup fs1 (log_path lg) = None \<or> fmlookup fs1 (log_path lg) = Some []"
    using fresh [OF lg] by (simp add: fs1 fs_write_def)
  from log_open_empty(3) [OF this l] have fs2: "fs2 = fmupd (log_path lg) [] fs1" .
  show "(\<forall>n. id_next g \<le> n \<longrightarrow> name \<noteq> sst_path n \<and> name \<noteq> log_path n) \<Longrightarrow> fmlookup fs2 name = fmlookup fs name"
    using s lg by (auto simp: fs2 fs1 fs_write_def)
  show "id_next g \<le> n \<Longrightarrow> fmlookup fs2 (log_path n) = None \<or> fmlookup fs2 (log_path n) = Some []"
    using fresh by (auto simp: fs2 fs1 fs_write_def)
qed

text \<open>A directory that differs in new tables, new empty logs and the manifest.\<close>

lemma torn_image_new_files:
  assumes H: "inner_holds crc ops b inner" and M: "M = manifest_path (vs_manifest_number (db_version_set inner))"
    and eq: "\<And>name. (\<forall>n. id_next (db_id_gen inner) \<le> n \<longrightarrow> name \<noteq> sst_path n \<and> name \<noteq> log_path n) \<Longrightarrow> name \<noteq> M \<Longrightarrow>
      fmlookup fs name = fmlookup (db_fs inner) name"
    and logs: "\<And>n. id_next (db_id_gen inner) \<le> n \<Longrightarrow> fmlookup fs (log_path n) = None \<or> fmlookup fs (log_path n) = Some []"
    and reads: "\<exists>bs bs'. fmlookup (db_fs inner) M = Some bs \<and> fmlookup fs M = Some bs' \<and> read_records crc bs' = read_records crc bs"
  shows "torn_image crc inner k (cut_file (lh_name (db_wal inner)) k fs)"
proof (rule torn_imageI [OF H reads [unfolded M] _ _ _ logs])
  obtain w where w: "lh_name (db_wal inner) = log_path w" "fmlookup (db_fs inner) (log_path w) \<noteq> None"
    using H by (auto simp: inner_holds_def log_matches_def)
  have wl: "w < id_next (db_id_gen inner)"
    using H w(2) by (auto simp: inner_holds_def numbers_fresh_def not_le [symmetric])
  show "fmlookup fs current_path = fmlookup (db_fs inner) current_path" by (rule eq) (simp_all add: M)
  show "fmlookup fs (lh_name (db_wal inner)) = fmlookup (db_fs inner) (lh_name (db_wal inner))"
    unfolding w(1) using wl by (intro eq) (auto simp: M)
  show "fmlookup fs (sst_path n) = fmlookup (db_fs inner) (sst_path n)" if "n < id_next (db_id_gen inner)" for n
    using that by (intro eq) (auto simp: M)
qed

lemma flush_dir_torn:
  assumes d: "flush_dir crc inner fs" and H: "inner_holds crc ops b inner"
  shows "torn_image crc inner k (cut_file (lh_name (db_wal inner)) k fs)"
proof -
  let ?M = "manifest_path (vs_manifest_number (db_version_set inner))" and ?g = "db_id_gen inner"
  have fresh: "fmlookup (db_fs inner) (log_path n) = None" if "id_next ?g \<le> n" for n
    using H that by (auto simp: inner_holds_def numbers_fresh_def)
  obtain bs0 where bs0: "fmlookup (db_fs inner) ?M = Some bs0" and hM: "lh_name (mw_wal (vs_manifest_writer (db_version_set inner))) = ?M"
    using inner_holds_manifest [OF H] by blast
  have M0: "\<exists>bs bs'. fmlookup (db_fs inner) ?M = Some bs \<and> fmlookup fs1 ?M = Some bs' \<and> read_records crc bs' = read_records crc bs"
    if "fmlookup fs1 ?M = fmlookup (db_fs inner) ?M" for fs1
    using bs0 that by simp
  have fresh': "fmlookup (db_fs inner) (log_path n) = None \<or> fmlookup (db_fs inner) (log_path n) = Some []" if "id_next ?g \<le> n" for n
    using fresh [OF that] by simp
  note image = torn_image_new_files [OF H refl, where k = k]
  show ?thesis
    using d
  proof (cases rule: flush_dir.cases)
    case (table n g bs)
    have n: "n = id_next ?g" using new_file_number_less [OF table(2)] by simp
    show ?thesis by (rule image) (use n fresh bs0 in \<open>auto simp: table(1) fs_write_def\<close>)
  next
    case (new_log meta g1 fs1 log g2 wal)
    note f = flush_adds_files [OF new_log fresh']
    show ?thesis
      by (rule image) (use f M0 in auto)
  next
    case (commit meta g1 fs1 log g2 wal fs2 r vs' fs3)
    note f = flush_adds_files [OF commit(1-3) fresh']
    have same: "fmlookup fs2 ?M = fmlookup (db_fs inner) ?M" using f by simp
    note t = torn_manifest_reads [OF H refl same commit(4) commit(5) [unfolded hM]]
    show ?thesis
      by (rule image) (use f t in auto)
  qed
qed

lemma compaction_dir_torn:
  assumes d: "compaction_dir crc inner fs" and H: "inner_holds crc ops b inner"
  shows "torn_image crc inner k (cut_file (lh_name (db_wal inner)) k fs)"
proof -
  let ?M = "manifest_path (vs_manifest_number (db_version_set inner))" and ?g = "db_id_gen inner"
  have fresh: "fmlookup (db_fs inner) (log_path n) = None" if "id_next ?g \<le> n" for n
    using H that by (auto simp: inner_holds_def numbers_fresh_def)
  obtain bs0 where bs0: "fmlookup (db_fs inner) ?M = Some bs0" and hM: "lh_name (mw_wal (vs_manifest_writer (db_version_set inner))) = ?M"
    using inner_holds_manifest [OF H] by blast
  note image = torn_image_new_files [OF H refl, where k = k]
  show ?thesis
    using d
  proof (cases rule: compaction_dir.cases)
    case (tables c)
    show ?thesis by (rule image) (use tables(2) fresh bs0 in \<open>auto simp: new_tables_only_def\<close>)
  next
    case (commit c out g fs1 r vs' fs2)
    have new: "new_tables_only (id_next ?g) (db_fs inner) fs1"
      using do_compaction_new(1) [OF commit(2)] by (simp add: id_generator_new_def)
    have same: "fmlookup fs1 ?M = fmlookup (db_fs inner) ?M" using new by (simp add: new_tables_only_def)
    note t = torn_manifest_reads [OF H refl same commit(3) commit(4) [unfolded hM]]
    show ?thesis by (rule image) (use t new fresh in \<open>auto simp: new_tables_only_def\<close>)
  qed
qed

text \<open>The state that the directory of a call in progress is an image of.\<close>

lemma write_dir_torn:
  assumes d: "write_dir crc draws key v t inner fs" and H: "inner_holds crc ops b inner"
    and fits: "history_fits (db_options inner) (ops @ [(t, key, v)])"
  shows "\<exists>inner1. inner_holds crc (ops @ [(t, key, v)]) b inner1 \<and> db_id_gen inner1 = db_id_gen inner \<and>
    torn_image crc inner1 k (cut_file (lh_name (db_wal inner)) k fs)"
proof -
  let ?s = "of_nat (Suc (length ops)) :: u64"
  have s: "u64_succ (mt_seq (db_memtable inner)) = Inr s \<Longrightarrow> s = ?s" for s
    using H by (auto simp: inner_holds_def memory_holds_def u64_succ_def add.commute split: if_splits)
  obtain wal fs1 where add: "log_add crc (db_wal inner) (encode_entry t ?s key v) (db_fs inner) = (wal, fs1)" by force
  obtain mt where mt: "mt_apply draws t ?s key v (db_memtable inner) = Inr mt"
    and H1: "inner_holds crc (ops @ [(t, key, v)]) b (inner\<lparr>db_wal := wal, db_fs := fs1, db_memtable := mt,
      db_version_set := (db_version_set inner)\<lparr>vs_last_sequence := ?s\<rparr>\<rparr>)" (is "inner_holds _ _ _ ?inner1")
    using write_logged [OF H fits add, of draws] by blast
  have name: "lh_name (db_wal inner) = lh_name (db_wal ?inner1)" using log_add_frame(1) [OF add] by simp
  have "torn_image crc ?inner1 k (cut_file (lh_name (db_wal ?inner1)) k fs)"
    using d
  proof (cases rule: write_dir.cases)
    case (logging s' wal')
    then have fs: "fs = db_fs ?inner1" using s add by auto
    show ?thesis
      by (rule torn_image_new_files [OF H1 refl])
         (use H1 inner_holds_manifest [OF H1] in \<open>auto simp: fs inner_holds_def numbers_fresh_def\<close>)
  next
    case (flushing s' wal' fs' mt')
    then have "flush_dir crc ?inner1 fs" using s add mt by auto
    then show ?thesis by (rule flush_dir_torn [OF _ H1])
  qed
  then show ?thesis using H1 name by (intro exI [of _ ?inner1]) simp
qed

lemma call_dir_torn:
  assumes d: "call_dir crc inner ws fs" and H: "inner_holds crc ops b inner" and fits: "history_fits (db_options inner) (ops @ ws)"
  shows "\<exists>inner1. inner_holds crc (ops @ ws) b inner1 \<and> db_id_gen inner1 = db_id_gen inner \<and>
    torn_image crc inner1 k (cut_file (lh_name (db_wal inner)) k fs)"
  using d
proof (cases rule: call_dir.cases)
  case (writing draws key v t)
  then show ?thesis using write_dir_torn [OF writing(2) H] fits by simp
next
  case compacting
  then show ?thesis using compaction_dir_torn [OF compacting(2) H] H by auto
qed

section \<open>Properties\<close>

text \<open>C3: A crash in the middle of a call loses nothing that was acknowledged. Whatever a crash during a put, a delete, the
  flush it causes or a compaction leaves of the directory (a part of the log record, of a new table, of
  the manifest's record), the database opens, and reads show a prefix of the history that contains every flushed write and,
  if the log written before the call is whole, every acknowledged one; the write in progress is there or not. The record of the edit is not whole yet:
  once it is, the directory is that of the completed call and C2 applies. The bounds are those of C2.\<close>

theorem db_crash_during_call:
  assumes "db_history crc ops db" and "call_dir crc (d_inner db) ws fs"
    and "history_fits (db_options (d_inner db)) (ops @ ws)" and "history_fits opts (ops @ ws)" and "numbers_left (d_inner db)"
  shows "\<exists>j db'. db_open crc draws opts (cut_file (lh_name (db_wal (d_inner db))) k fs) = (Inr db', db_fs (d_inner db')) \<and>
    j \<le> length (ops @ ws) \<and> length ops - mt_entries (db_memtable (d_inner db)) \<le> j \<and>
    (length (log_bytes (d_inner db)) \<le> k \<longrightarrow> length ops \<le> j) \<and>
    (\<forall>key. fst (db_get key db') = Inr (read_value (last_write (take j (ops @ ws)) key)))"
proof -
  let ?inner = "d_inner db"
  obtain b where b: "inner_holds crc ops b ?inner" using db_history_holds [OF assms(1)] by (auto simp: db_holds_def)
  have le: "b \<le> length ops" by (rule inner_holds_le [OF b])
  obtain inner1 where 1: "inner_holds crc (ops @ ws) b inner1" "db_id_gen inner1 = db_id_gen ?inner"
    "torn_image crc inner1 k (cut_file (lh_name (db_wal ?inner)) k fs)"
    using call_dir_torn [OF assms(2) b assms(3)] by blast
  have "numbers_left inner1" using assms(5) 1(2) by (simp add: numbers_left_def)
  from torn_reopen [OF 1(1,3) assms(4) this, of draws] obtain j db' where
    j: "b \<le> j" "j \<le> length (ops @ ws)" "db_open crc draws opts (cut_file (lh_name (db_wal ?inner)) k fs) = (Inr db', db_fs (d_inner db'))"
      "\<forall>key. fst (db_get key db') = Inr (read_value (last_write (take j (ops @ ws)) key))"
      "\<forall>i \<le> length (drop b (ops @ ws)). length (foldl (log_append crc) [] (take i (log_records b (drop b (ops @ ws))))) \<le> k \<longrightarrow> b + i \<le> j"
    by blast
  have "log_bytes ?inner = foldl (log_append crc) [] (log_records b (drop b ops))"
    using b by (auto simp: inner_holds_def log_matches_def log_bytes_def)
  moreover have "take (length ops - b) (log_records b (drop b (ops @ ws))) = log_records b (drop b ops)"
    using le by (simp add: take_log_records)
  ultimately have "length ops \<le> j" if "length (log_bytes ?inner) \<le> k"
    using j(5) [rule_format, of "length ops - b"] that le by simp
  moreover have "mt_entries (db_memtable ?inner) = length ops - b"
    using b by (simp add: inner_holds_def memory_holds_def mt_rep_def)
  ultimately show ?thesis using j(1-4) by (intro exI [of _ j] exI [of _ db']) auto
qed

theorem db_crash_during_call_witness:
  "\<exists>db fs (j :: nat) db'. db_history (\<lambda>_. 0) [] db \<and> call_dir (\<lambda>_. 0) (d_inner db) [(Put, [1], [7])] fs \<and>
     db_open (\<lambda>_. 0) (\<lambda>_ _. 0) options_default (cut_file (lh_name (db_wal (d_inner db))) 20 fs) = (Inr db', db_fs (d_inner db')) \<and>
     j \<le> 1 \<and> fst (db_get [1] db') = Inr (if j = 1 then Some [7] else None)"
proof -
  let ?crc = "\<lambda>_. 0" and ?w = "(Put, [1], [7]) :: write_op"
  obtain db where db: "db_history ?crc [] db" "db_options (d_inner db) = options_default" "numbers_left (d_inner db)"
    using sample_start by blast
  obtain b where b: "db_holds ?crc [] b db" using db_history_holds [OF db(1)] by blast
  have s: "u64_succ (mt_seq (db_memtable (d_inner db))) = Inr 1"
    using b by (simp add: db_holds_def inner_holds_def memory_holds_def u64_succ_def)
  obtain wal fs where log: "log_add ?crc (db_wal (d_inner db)) (encode_entry Put 1 [1] [7]) (db_fs (d_inner db)) = (wal, fs)" by force
  have d: "call_dir ?crc (d_inner db) [?w] fs" by (rule call_dir.writing [OF write_dir.logging [OF s log]])
  have fits: "history_fits options_default ([] @ [?w])" using sample_fits(1) by simp
  have fits': "history_fits (db_options (d_inner db)) ([] @ [?w])" using sample_fits(1) db(2) by simp
  obtain j db' where j: "db_open ?crc (\<lambda>_ _. 0) options_default (cut_file (lh_name (db_wal (d_inner db))) 20 fs) = (Inr db', db_fs (d_inner db'))"
    "j \<le> 1" "\<forall>key. fst (db_get key db') = Inr (read_value (last_write (take j ([] @ [?w])) key))"
    using db_crash_during_call [OF db(1) d fits' fits db(3), of "\<lambda>_ _. 0" 20] by auto
  have "fst (db_get [1] db') = Inr (if j = 1 then Some [7] else None)"
    using j(2) by (cases j) (auto simp: j(3) last_write_def read_value_def)
  then show ?thesis using db(1) d j(1,2) by blast
qed

end
