(* ===== verification/Opening.thy ===== *)
theory Opening
  imports Crashing
begin

text \<open>
  Crashes in the middle of opening. Until the edit of the recovery is in the manifest, the directory is still an image
  of the database that crashed first, with new files beside it; from then on it is an image of the database that
  the opening was about to return, perhaps with files that were not removed yet.
\<close>

section \<open>The directories an opening goes through\<close>

text \<open>The first part of \<open>recover_open\<close>, which only reads.\<close>

definition recovered ::
    "(bytes \<Rightarrow> u32) \<Rightarrow> (nat \<Rightarrow> nat \<Rightarrow> nat) \<Rightarrow> fs \<Rightarrow> version_set \<Rightarrow> memtable \<Rightarrow> fs \<Rightarrow> bool" where
  "recovered crc draws fs vs mt fs1 \<longleftrightarrow>
     (\<exists>vs1. vs_recover crc fs = Inr (vs1, fs1) \<and> recover_memtable crc draws vs1 fs1 = Inr (mt, vs))"

text \<open>
  What a crash in \<open>recover_open\<close> may leave, step by step: nothing new; any contents of the table the recovered memtable
  is written to; the finished table and the new log; a part of the record of the edit, in both branches; the edit; and
  the log opened and some of the obsolete files gone.
\<close>

inductive open_dir :: "(bytes \<Rightarrow> u32) \<Rightarrow> (nat \<Rightarrow> nat \<Rightarrow> nat) \<Rightarrow> options \<Rightarrow> fs \<Rightarrow> fs \<Rightarrow> bool"
  for crc :: "bytes \<Rightarrow> u32" and draws :: "nat \<Rightarrow> nat \<Rightarrow> nat" and opts :: options and fs :: fs where
  reading: "open_dir crc draws opts fs fs"
| table: "recovered crc draws fs vs mt fs1 \<Longrightarrow> 0 < mt_entries mt \<Longrightarrow>
    new_file_number (id_generator_new (vs_next_file_number vs)) = Inr (n, g) \<Longrightarrow>
    open_dir crc draws opts fs (fs_write (sst_path n) bs fs1)"
| new_log: "recovered crc draws fs vs mt fs1 \<Longrightarrow> 0 < mt_entries mt \<Longrightarrow>
    flush_to_level0 ''recovered memtable empty'' opts mt (id_generator_new (vs_next_file_number vs)) fs1 = (Inr meta, g1, fs2) \<Longrightarrow>
    new_file_number g1 = Inr (lg, g2) \<Longrightarrow> log_open (log_path lg) fs2 = (wal, fs3) \<Longrightarrow> open_dir crc draws opts fs fs3"
| commit_table: "recovered crc draws fs vs mt fs1 \<Longrightarrow> 0 < mt_entries mt \<Longrightarrow>
    flush_to_level0 ''recovered memtable empty'' opts mt (id_generator_new (vs_next_file_number vs)) fs1 = (Inr meta, g1, fs2) \<Longrightarrow>
    new_file_number g1 = Inr (lg, g2) \<Longrightarrow> log_open (log_path lg) fs2 = (wal, fs3) \<Longrightarrow>
    write_new_version crc (flush_edit meta lg g2 (mt_seq mt)) vs fs3 = (r, vs', fs4) \<Longrightarrow>
    torn_append (lh_name (mw_wal (vs_manifest_writer vs))) fs3 fs4 fs' \<Longrightarrow> open_dir crc draws opts fs fs'"
| commit_number: "recovered crc draws fs vs mt fs1 \<Longrightarrow> mt_entries mt = 0 \<Longrightarrow>
    new_file_number (id_generator_new (vs_next_file_number vs)) = Inr (n, g) \<Longrightarrow>
    write_new_version crc (set_next_file_number (id_next g) (set_log_number n version_edit_new)) vs fs1 = (r, vs', fs2) \<Longrightarrow>
    torn_append (lh_name (mw_wal (vs_manifest_writer vs))) fs1 fs2 fs' \<Longrightarrow> open_dir crc draws opts fs fs'"
| committed: "recovered crc draws fs vs mt fs1 \<Longrightarrow> recover_commit crc opts vs mt fs1 = (Inr (vs', mt', g, n), fs2) \<Longrightarrow>
    open_dir crc draws opts fs fs2"
| cleaning: "recovered crc draws fs vs mt fs1 \<Longrightarrow> recover_commit crc opts vs mt fs1 = (Inr (vs', mt', g, n), fs2) \<Longrightarrow>
    log_open (log_path n) fs2 = (wal, fs3) \<Longrightarrow>
    (\<forall>name. fmlookup fs' name = fmlookup fs3 name \<or> is_obsolete vs' name \<and> fmlookup fs' name = None) \<Longrightarrow>
    open_dir crc draws opts fs fs'"

section \<open>Before the edit is in the manifest\<close>

lemma crash_image_recovered:
  assumes H: "inner_holds crc ops b inner" and crash: "crash_image inner k fs" and r: "recovered crc draws fs vs mt fs1"
  shows "fs1 = fs" "vs_next_file_number vs = id_next (db_id_gen inner)" "vs_manifest_number vs = vs_manifest_number (db_version_set inner)"
    "\<exists>rs. log_holds crc (mw_wal (vs_manifest_writer vs)) fs rs"
    "lh_name (mw_wal (vs_manifest_writer vs)) = manifest_path (vs_manifest_number (db_version_set inner))"
proof -
  let ?vs = "db_version_set inner"
  obtain eds where m: "manifest_matches crc eds (of_nat b) ?vs (db_fs inner)" "numbers_fresh inner"
    using H by (auto simp: inner_holds_def)
  have "manifest_matches crc eds (of_nat b) ?vs fs"
    by (rule manifest_matches_other [OF m(1)]) (use crash in \<open>simp_all add: crash_image_def Let_def\<close>)
  then obtain vs1 where 1: "vs_recover crc fs = Inr (vs1, fs)" "vs_written crc eds vs1 fs"
    "vs_fields vs1 = vs_fields (?vs\<lparr>vs_last_sequence := of_nat b\<rparr>)" "vs_manifest_number vs1 = vs_manifest_number ?vs"
    using vs_written_recover [of crc eds "?vs\<lparr>vs_last_sequence := of_nat b\<rparr>" fs] by (auto simp: manifest_matches_def)
  have "recover_memtable crc draws vs1 fs = Inr (mt, vs)" and fs1: "fs1 = fs" using r 1(1) by (auto simp: recovered_def)
  then have "vs = vs1 \<or> (\<exists>x. vs = vs1\<lparr>vs_last_sequence := x\<rparr>)"
    by (auto simp: recover_memtable_def Let_def bind_res_eq_Inr split: if_splits)
  moreover have "vs1 = vs1\<lparr>vs_last_sequence := vs_last_sequence vs1\<rparr>" by simp
  ultimately obtain x where vs: "vs = vs1\<lparr>vs_last_sequence := x\<rparr>" by metis
  show "fs1 = fs" by (rule fs1)
  show "vs_next_file_number vs = id_next (db_id_gen inner)" "vs_manifest_number vs = vs_manifest_number ?vs"
    using 1(3,4) m(2) by (auto simp: vs vs_fields_def numbers_fresh_def)
  show "\<exists>rs. log_holds crc (mw_wal (vs_manifest_writer vs)) fs rs" "lh_name (mw_wal (vs_manifest_writer vs)) = manifest_path (vs_manifest_number ?vs)"
    using 1(2,4) by (auto simp: vs vs_written_def manifest_holds_def)
qed

text \<open>An image with new tables, new empty logs and a torn manifest is an image still.\<close>

lemma torn_image_more:
  assumes H: "inner_holds crc ops b inner" and crash: "crash_image inner k fs"
    and M: "M = manifest_path (vs_manifest_number (db_version_set inner))"
    and eq: "\<And>name. (\<forall>n. id_next (db_id_gen inner) \<le> n \<longrightarrow> name \<noteq> sst_path n \<and> name \<noteq> log_path n) \<Longrightarrow> name \<noteq> M \<Longrightarrow>
      fmlookup fs' name = fmlookup fs name"
    and logs: "\<And>n. id_next (db_id_gen inner) \<le> n \<Longrightarrow> fmlookup fs' (log_path n) = None \<or> fmlookup fs' (log_path n) = Some []"
    and reads: "\<exists>bs bs'. fmlookup fs M = Some bs \<and> fmlookup fs' M = Some bs' \<and> read_records crc bs' = read_records crc bs"
  shows "torn_image crc inner k fs'"
proof -
  obtain w where w: "lh_name (db_wal inner) = log_path w" "fmlookup (db_fs inner) (log_path w) \<noteq> None"
    using H by (auto simp: inner_holds_def log_matches_def)
  have "w < id_next (db_id_gen inner)"
    using H w(2) by (auto simp: inner_holds_def numbers_fresh_def not_le [symmetric])
  then have wal: "fmlookup fs' (lh_name (db_wal inner)) = fmlookup fs (lh_name (db_wal inner))"
    unfolding w(1) by (intro eq) (auto simp: M)
  have live: "fmlookup fs' (sst_path n) = fmlookup fs (sst_path n)" if "live_number (vs_current (db_version_set inner)) n" for n
    using inner_holds_numbers [OF H] that by (intro eq) (auto simp: M numbers_ok_def)
  have cur: "fmlookup fs' current_path = fmlookup fs current_path" by (rule eq) (simp_all add: M)
  show ?thesis
    using crash cur wal live logs reads unfolding torn_image_def crash_image_def Let_def M by auto
qed

lemma open_dir_cases:
  assumes d: "open_dir crc draws opts fs fs'" and H: "inner_holds crc ops b inner" and crash: "crash_image inner k fs"
  shows "torn_image crc inner k fs' \<or>
    (\<exists>vs mt vs' mt' g n fs2 wal fs3. recovered crc draws fs vs mt fs \<and> recover_commit crc opts vs mt fs = (Inr (vs', mt', g, n), fs2) \<and>
       log_open (log_path n) fs2 = (wal, fs3) \<and>
       (\<forall>name. fmlookup fs' name = fmlookup fs3 name \<or> is_obsolete vs' name \<and> fmlookup fs' name = None \<or>
          name = log_path n \<and> fmlookup fs2 name = None \<and> fmlookup fs' name = None))"
proof -
  let ?M = "manifest_path (vs_manifest_number (db_version_set inner))" and ?n = "id_next (db_id_gen inner)"
  have fresh: "fmlookup fs (log_path n) = None \<or> fmlookup fs (log_path n) = Some []" if "?n \<le> n" for n
    using crash that by (simp add: crash_image_def Let_def)
  obtain bs0 where bs0: "fmlookup fs ?M = Some bs0"
    using inner_holds_manifest [OF H] crash by (auto simp: crash_image_def Let_def)
  note image = torn_image_more [OF H crash refl]
  note rec = crash_image_recovered [OF H crash]
  show ?thesis
    using d
  proof (cases rule: open_dir.cases)
    case reading
    show ?thesis by (rule disjI1, rule image) (use fresh bs0 in \<open>auto simp: reading\<close>)
  next
    case (table vs mt fs1 n g bs)
    note r = rec [OF table(2)]
    have n: "n = ?n" using new_file_number_less [OF table(4)] r(2) by (simp add: id_generator_new_def)
    show ?thesis by (rule disjI1, rule image) (use n fresh bs0 r(1) in \<open>auto simp: table(1) fs_write_def\<close>)
  next
    case (new_log vs mt fs1 meta g1 fs2 lg g2 wal)
    note r = rec [OF new_log(1)]
    have g: "id_next (id_generator_new (vs_next_file_number vs)) = ?n" using r(2) by (simp add: id_generator_new_def)
    note f = flush_adds_files [OF new_log(3-5), unfolded g r(1), OF fresh]
    show ?thesis by (rule disjI1, rule image) (use f bs0 in auto)
  next
    case (commit_table vs mt fs1 meta g1 fs2 lg g2 wal fs3 x vs' fs4)
    note r = rec [OF commit_table(1)]
    have g: "id_next (id_generator_new (vs_next_file_number vs)) = ?n" using r(2) by (simp add: id_generator_new_def)
    note f = flush_adds_files [OF commit_table(3-5), unfolded g r(1), OF fresh]
    have same: "fmlookup fs3 ?M = fmlookup fs ?M" by (rule f(1)) auto
    obtain rs where "log_holds crc (mw_wal (vs_manifest_writer vs)) fs rs" using r(4) by blast
    then have h: "log_holds crc (mw_wal (vs_manifest_writer vs)) fs3 rs" by (rule log_holds_other) (simp add: r(5) same)
    note t = torn_edit_reads [OF h r(5) commit_table(6) commit_table(7) [unfolded r(5)]]
    show ?thesis by (rule disjI1, rule image) (use f t same in auto)
  next
    case (commit_number vs mt fs1 n g x vs' fs2)
    note r = rec [OF commit_number(1)]
    obtain rs where h: "log_holds crc (mw_wal (vs_manifest_writer vs)) fs1 rs" using r(1,4) by blast
    note t = torn_edit_reads [OF h r(5) commit_number(4) commit_number(5) [unfolded r(5)]]
    show ?thesis by (rule disjI1, rule image) (use fresh t r(1) in auto)
  next
    case (committed vs mt fs1 vs' mt' g n)
    note r = rec(1) [OF committed(1)]
    obtain wal fs3 where l: "log_open (log_path n) fs' = (wal, fs3)" by force
    then have "fmlookup fs' name = fmlookup fs3 name \<or> name = log_path n \<and> fmlookup fs' name = None" for name
      by (auto simp: log_open_def Let_def split: option.splits if_splits)
    then show ?thesis using committed l unfolding r by blast
  next
    case (cleaning vs mt fs1 vs' mt' g n fs2 wal fs3)
    show ?thesis using cleaning rec(1) [OF cleaning(1)] by blast
  qed
qed

section \<open>Once the edit is in the manifest\<close>

text \<open>
  Both branches at the end of the recovery: new files with new numbers, then an edit that deletes nothing and names
  the new log.
\<close>

lemma recover_commit_cases:
  assumes c: "recover_commit crc opts vs mt fs = (Inr (vs', mt', g, n), fs2)"
    and fresh: "\<And>i. vs_next_file_number vs \<le> i \<Longrightarrow> fmlookup fs (log_path i) = None \<or> fmlookup fs (log_path i) = Some []"
  shows "\<exists>e v fs1. write_new_version crc e vs fs1 = (Inr v, vs', fs2) \<and> ve_deleted_files e = [] \<and> ve_log_number e = Some n \<and>
    vs_next_file_number vs \<le> n \<and> n < id_next g \<and> unat (id_next g) \<le> unat (vs_next_file_number vs) + 2 \<and>
    (\<forall>name. (\<forall>i. vs_next_file_number vs \<le> i \<longrightarrow> name \<noteq> sst_path i \<and> name \<noteq> log_path i) \<longrightarrow> fmlookup fs1 name = fmlookup fs name) \<and>
    (\<forall>i. vs_next_file_number vs \<le> i \<longrightarrow> fmlookup fs1 (log_path i) = None \<or> fmlookup fs1 (log_path i) = Some [])"
proof -
  let ?g = "id_generator_new (vs_next_file_number vs)"
  have g0: "id_next ?g = vs_next_file_number vs" by (simp add: id_generator_new_def)
  show ?thesis
  proof (cases "0 < mt_entries mt")
    case True
    obtain r1 g1 fs1 where f: "flush_to_level0 ''recovered memtable empty'' opts mt ?g fs = (r1, g1, fs1)"
      using flush_to_level0_result by blast
    obtain meta where r1: "r1 = Inr meta" using c True f by (cases r1) (auto simp: recover_commit_def)
    obtain lg g2 where n2: "new_file_number g1 = Inr (lg, g2)"
      using c True f r1 by (cases "new_file_number g1") (auto simp: recover_commit_def then_do_def)
    obtain h fs3 where l: "log_open (log_path lg) fs1 = (h, fs3)" by force
    let ?e = "flush_edit meta lg g2 (mt_seq mt)"
    obtain v where w: "write_new_version crc ?e vs fs3 = (Inr v, vs', fs2)" and eq: "g = g2" "n = lg"
      using c True f r1 n2 l by (auto simp: recover_commit_def Let_def simp del: new_file_number_Inr split: sum.splits prod.splits)
    have "ve_deleted_files ?e = []" "ve_log_number ?e = Some n"
      by (simp_all add: eq flush_edit_def edit_setter_defs version_edit_new_def)
    moreover have "vs_next_file_number vs \<le> n \<and> n < id_next g \<and> unat (id_next g) \<le> unat (vs_next_file_number vs) + 2"
      using new_file_number_less [OF n2] flush_to_level0_drawn [OF f] flush_to_level0_numbers(1) [OF f] g0 eq by auto
    ultimately show ?thesis
      using w flush_adds_files [OF f [unfolded r1] n2 l, unfolded g0, OF fresh] by blast
  next
    case False
    obtain lg g2 where n2: "new_file_number ?g = Inr (lg, g2)"
      using c False by (cases "new_file_number ?g") (auto simp: recover_commit_def then_do_def)
    let ?e = "set_next_file_number (id_next g2) (set_log_number lg version_edit_new)"
    obtain v where w: "write_new_version crc ?e vs fs = (Inr v, vs', fs2)" and eq: "g = g2" "n = lg"
      using c False n2 by (auto simp: recover_commit_def Let_def simp del: new_file_number_Inr split: sum.splits prod.splits)
    have "ve_deleted_files ?e = []" "ve_log_number ?e = Some n"
      by (simp_all add: eq edit_setter_defs version_edit_new_def)
    then show ?thesis using w new_file_number_less [OF n2] fresh g0 eq by fastforce
  qed
qed

lemma recover_commit_numbers:
  assumes c: "recover_commit crc opts vs mt fs = (Inr (vs', mt', g, n), fs2)"
    and M: "lh_name (mw_wal (vs_manifest_writer vs)) = manifest_path m"
    and fresh: "\<And>i. vs_next_file_number vs \<le> i \<Longrightarrow> fmlookup fs (log_path i) = None \<or> fmlookup fs (log_path i) = Some []"
  shows "unat (id_next g) \<le> unat (vs_next_file_number vs) + 2" "vs_next_file_number vs \<le> id_next g"
    "vs_next_file_number vs \<le> i \<Longrightarrow> fmlookup fs2 (log_path i) = None \<or> fmlookup fs2 (log_path i) = Some []"
proof -
  obtain e v fs1 where w: "write_new_version crc e vs fs1 = (Inr v, vs', fs2)"
    and r: "vs_next_file_number vs \<le> n" "n < id_next g" "unat (id_next g) \<le> unat (vs_next_file_number vs) + 2"
      "\<forall>i. vs_next_file_number vs \<le> i \<longrightarrow> fmlookup fs1 (log_path i) = None \<or> fmlookup fs1 (log_path i) = Some []"
    using recover_commit_cases [OF c fresh] by blast
  show "unat (id_next g) \<le> unat (vs_next_file_number vs) + 2" "vs_next_file_number vs \<le> id_next g" using r by simp_all
  show "vs_next_file_number vs \<le> i \<Longrightarrow> fmlookup fs2 (log_path i) = None \<or> fmlookup fs2 (log_path i) = Some []"
    using r(4) write_new_version_frame(2) [OF w, of "log_path i"] by (simp add: M)
qed

text \<open>The directory is an image of the database that was about to be returned.\<close>

lemma committed_image:
  assumes H: "inner_holds crc ops b inner" and crash: "crash_image inner k fs"
    and r: "recovered crc draws fs vs mt fs" and c: "recover_commit crc opts vs mt fs = (Inr (vs', mt', g, n), fs2)"
    and l: "log_open (log_path n) fs2 = (wal, fs3)"
    and fs': "\<forall>name. fmlookup fs' name = fmlookup fs3 name \<or> is_obsolete vs' name \<and> fmlookup fs' name = None \<or>
      name = log_path n \<and> fmlookup fs2 name = None \<and> fmlookup fs' name = None"
    and o: "recover_open crc draws opts fs = (Inr inner', fs4)" and H': "inner_holds crc ops' (length ops') inner'"
  shows "crash_image inner' 0 fs'" "unat (id_next (db_id_gen inner')) \<le> unat (id_next (db_id_gen inner)) + 2"
proof -
  have "recover_open crc draws opts fs = (Inr \<lparr>db_fs = remove_obsolete_files vs' fs3, db_version_set = vs', db_memtable = mt',
      db_wal = wal, db_id_gen = g, db_wal_number = n, db_options = opts, db_bg_scheduled = False, db_shutting_down = False\<rparr>,
      remove_obsolete_files vs' fs3)"
    using r c l by (auto simp: recovered_def recover_open_def Let_def)
  then have inner': "db_fs inner' = remove_obsolete_files vs' fs3" "db_version_set inner' = vs'" "db_wal inner' = wal" "db_id_gen inner' = g"
    using o by auto
  note rec = crash_image_recovered [OF H crash r]
  have fresh: "fmlookup fs (log_path i) = None \<or> fmlookup fs (log_path i) = Some []" if "vs_next_file_number vs \<le> i" for i
    using crash that rec(2) by (simp add: crash_image_def Let_def)
  note num = recover_commit_numbers [OF c rec(5) fresh]
  show "unat (id_next (db_id_gen inner')) \<le> unat (id_next (db_id_gen inner)) + 2" using num(1) rec(2) inner'(4) by simp
  have name: "lh_name wal = log_path n" by (rule log_open_frame(1) [OF l])
  have wal: "lh_name wal = log_path (vs_log_number vs')" "fmlookup (db_fs inner') (lh_name wal) = Some []"
    using H' by (auto simp: inner_holds_def log_matches_def inner')
  have n: "n = vs_log_number vs'" using name wal(1) by simp
  have wal3: "fmlookup fs3 (log_path n) = Some []"
    using wal(2) name n by (simp add: inner'(1) remove_obsolete_lookup split: if_splits)
  have kept: "fmlookup fs' name = fmlookup (db_fs inner') name" if "\<not> is_obsolete vs' name" "name \<noteq> log_path n" for name
    using fs' that by (auto simp: inner'(1) remove_obsolete_lookup)
  have logs: "fmlookup fs' (log_path i) = None \<or> fmlookup fs' (log_path i) = Some []" if "id_next g \<le> i" for i
  proof -
    have "fmlookup fs2 (log_path i) = None \<or> fmlookup fs2 (log_path i) = Some []" using num(2,3) that order_trans by blast
    moreover have "fmlookup fs3 (log_path i) = fmlookup fs2 (log_path i) \<or> fmlookup fs3 (log_path i) = Some []"
      using wal(2) name log_open_frame(2) [OF l, of "log_path i"] n
      by (cases "i = n") (auto simp: inner'(1) remove_obsolete_lookup)
    ultimately show ?thesis using fs' by metis
  qed
  have log: "fmlookup fs' (log_path n) = Some [] \<or> fmlookup fs' (log_path n) = None"
    using fs' wal3 by metis
  show "crash_image inner' 0 fs'"
    unfolding crash_image_def Let_def inner'(2,3,4)
    using kept logs log wal name n by (auto simp: live_ssts_iff)
qed

section \<open>Opening again\<close>

lemma open_dir_reopens:
  assumes H: "inner_holds crc ops b inner" and crash: "crash_image inner k fs" and d: "open_dir crc draws opts fs fs'"
    and fits: "history_fits opts ops" "history_fits opts' ops" and left: "unat (id_next (db_id_gen inner)) + 4 < 2 ^ 64"
  shows "\<exists>j db'. b \<le> j \<and> j \<le> length ops \<and> db_open crc draws' opts' fs' = (Inr db', db_fs (d_inner db')) \<and>
    (\<forall>key. fst (db_get key db') = Inr (read_value (last_write (take j ops) key))) \<and>
    (\<forall>i \<le> length (drop b ops). length (foldl (log_append crc) [] (take i (log_records b (drop b ops)))) \<le> k \<longrightarrow> b + i \<le> j)"
proof -
  have left': "numbers_left inner" using left by (simp add: numbers_left_def)
  from open_dir_cases [OF d H crash] show ?thesis
  proof (elim disjE exE conjE)
    assume "torn_image crc inner k fs'"
    from torn_reopen [OF H this fits(2) left'] show ?thesis by blast
  next
    fix vs mt vs' mt' g n fs2 wal fs3
    assume r: "recovered crc draws fs vs mt fs" and c: "recover_commit crc opts vs mt fs = (Inr (vs', mt', g, n), fs2)"
      and l: "log_open (log_path n) fs2 = (wal, fs3)"
      and fs': "\<forall>name. fmlookup fs' name = fmlookup fs3 name \<or> is_obsolete vs' name \<and> fmlookup fs' name = None \<or>
        name = log_path n \<and> fmlookup fs2 name = None \<and> fmlookup fs' name = None"
    obtain j inner' where j: "b \<le> j" "j \<le> length ops" "recover_open crc draws opts fs = (Inr inner', db_fs inner')"
      "inner_holds crc (take j ops) j inner'"
      "\<forall>i \<le> length (drop b ops). length (foldl (log_append crc) [] (take i (log_records b (drop b ops)))) \<le> k \<longrightarrow> b + i \<le> j"
      using reopen_holds [OF H crash fits(1) left', of draws] by blast
    have "inner_holds crc (take j ops) (length (take j ops)) inner'" using j(2,4) by (simp add: min_absorb2)
    note image = committed_image [OF H crash r c l fs' j(3) this]
    let ?db = "\<lparr>d_inner = inner', d_cache = cache_with_capacity (table_cache_size opts)\<rparr>"
    have "db_holds crc (take j ops) j ?db" using j(4) by (simp add: db_holds_def)
    moreover have "numbers_left (d_inner ?db)" using image(2) left by (simp add: numbers_left_def)
    ultimately obtain i db' where i: "j \<le> i" "i \<le> length (take j ops)" "db_open crc draws' opts' fs' = (Inr db', db_fs (d_inner db'))"
      "db_holds crc (take i (take j ops)) i db'"
      using db_reopen_holds [of crc "take j ops" j ?db 0 fs' opts' draws'] image(1) history_fits_take [OF fits(2)] by auto
    then have "db_holds crc (take j ops) j db'" by simp
    from db_holds_reads(1) [OF this] show ?thesis using i(3) j(1,2,5) by blast
  qed
qed

lemma recover_open_parts:
  assumes "recover_open crc draws opts fs = (Inr inner, fs4)"
  shows "\<exists>vs mt fs1 vs' mt' g n fs2 wal fs3. recovered crc draws fs vs mt fs1 \<and>
    recover_commit crc opts vs mt fs1 = (Inr (vs', mt', g, n), fs2) \<and> log_open (log_path n) fs2 = (wal, fs3) \<and>
    fs4 = remove_obsolete_files vs' fs3"
proof -
  obtain vs1 fs1 where 1: "vs_recover crc fs = Inr (vs1, fs1)"
    using assms by (cases "vs_recover crc fs") (auto simp: recover_open_def)
  obtain mt vs where 2: "recover_memtable crc draws vs1 fs1 = Inr (mt, vs)"
    using assms 1 by (cases "recover_memtable crc draws vs1 fs1") (auto simp: recover_open_def)
  obtain r fs2 where 3: "recover_commit crc opts vs mt fs1 = (r, fs2)" by force
  obtain vs' mt' g n where r: "r = Inr (vs', mt', g, n)"
    using assms 1 2 3 by (cases r) (auto simp: recover_open_def)
  obtain wal fs3 where 4: "log_open (log_path n) fs2 = (wal, fs3)" by force
  show ?thesis using assms 1 2 3 4 by (auto simp: recover_open_def recovered_def r Let_def)
qed

section \<open>Properties\<close>

text \<open>C4: A crash while the database is being opened loses nothing the first crash had left, provided that the first crash left
  the manifest whole and cut only the log, perhaps with new tables and empty logs beside them (\<open>crash_image\<close>).
  Whatever the crash at any point of the recovery then leaves of the directory (a part of the new table, of the
  manifest's record, the old files or only some of them), the database opens when it is tried again, and reads show
  a prefix of the history that contains every flushed write and, if the log was whole before, every acknowledged
  one. If the first crash tore the manifest, this can fail: see C13.\<close>

theorem db_crash_during_open:
  assumes "db_history crc ops db" and "crash_image (d_inner db) k fs" and "open_dir crc draws opts fs fs'"
    and "history_fits opts ops" and "history_fits opts' ops" and "unat (id_next (db_id_gen (d_inner db))) + 4 < 2 ^ 64"
  shows "\<exists>j db'. db_open crc draws' opts' fs' = (Inr db', db_fs (d_inner db')) \<and>
    j \<le> length ops \<and> length ops - mt_entries (db_memtable (d_inner db)) \<le> j \<and>
    (length (log_bytes (d_inner db)) \<le> k \<longrightarrow> j = length ops) \<and>
    (\<forall>key. fst (db_get key db') = Inr (read_value (last_write (take j ops) key)))"
proof -
  obtain b where b: "inner_holds crc ops b (d_inner db)" using db_history_holds [OF assms(1)] by (auto simp: db_holds_def)
  have le: "b \<le> length ops" by (rule inner_holds_le [OF b])
  obtain j db' where j: "b \<le> j" "j \<le> length ops" "db_open crc draws' opts' fs' = (Inr db', db_fs (d_inner db'))"
    "\<forall>key. fst (db_get key db') = Inr (read_value (last_write (take j ops) key))"
    "\<forall>i \<le> length (drop b ops). length (foldl (log_append crc) [] (take i (log_records b (drop b ops)))) \<le> k \<longrightarrow> b + i \<le> j"
    using open_dir_reopens [OF b assms(2-6), of draws'] by blast
  have log: "log_bytes (d_inner db) = foldl (log_append crc) [] (log_records b (drop b ops))"
    using b by (auto simp: inner_holds_def log_matches_def log_bytes_def)
  have whole: "take (length (drop b ops)) (log_records b (drop b ops)) = log_records b (drop b ops)" by simp
  have "length (log_bytes (d_inner db)) \<le> k \<longrightarrow> b + length (drop b ops) \<le> j"
    using j(5) unfolding log by (metis order_refl whole)
  then have "length (log_bytes (d_inner db)) \<le> k \<longrightarrow> j = length ops" using j(2) le by auto
  moreover have "mt_entries (db_memtable (d_inner db)) = length ops - b"
    using b by (simp add: inner_holds_def memory_holds_def mt_rep_def)
  ultimately show ?thesis using j(1-4) by (intro exI [of _ j] exI [of _ db']) auto
qed

theorem db_crash_during_open_witness:
  "\<exists>(db :: db) vs mt r fs' db'. db_history (\<lambda>_. 0) [(Put, [1], [7])] db \<and>
     recovered (\<lambda>_. 0) (\<lambda>_ _. 0) (db_fs (d_inner db)) vs mt (db_fs (d_inner db)) \<and>
     recover_commit (\<lambda>_. 0) options_default vs mt (db_fs (d_inner db)) = (Inr r, fs') \<and>
     db_open (\<lambda>_. 0) (\<lambda>_ _. 0) options_default fs' = (Inr db', db_fs (d_inner db')) \<and> fst (db_get [1] db') = Inr (Some [7])"
proof -
  let ?crc = "\<lambda>_. 0" and ?ops = "[(Put, [1], [7])] :: write_op list"
  obtain db where db: "db_history ?crc ?ops db" "numbers_left (d_inner db)" "unat (id_next (db_id_gen (d_inner db))) \<le> 5"
    using sample_run by blast
  obtain b where b: "db_holds ?crc ?ops b db" using db_history_holds [OF db(1)] by blast
  then have H: "inner_holds ?crc ?ops b (d_inner db)" by (simp add: db_holds_def)
  note image = crash_image_whole [OF b order_refl]
  obtain inner' fs2 where "recover_open ?crc (\<lambda>_ _. 0) options_default (db_fs (d_inner db)) = (Inr inner', fs2)"
    using reopen_holds [OF H image sample_fits(1) db(2), of "\<lambda>_ _. 0"] by auto
  then obtain vs mt fs1 r fs' where r: "recovered ?crc (\<lambda>_ _. 0) (db_fs (d_inner db)) vs mt fs1"
    "recover_commit ?crc options_default vs mt fs1 = (Inr r, fs')"
    using recover_open_parts by blast
  note fs1 = crash_image_recovered(1) [OF H image r(1)]
  have d: "open_dir ?crc (\<lambda>_ _. 0) options_default (db_fs (d_inner db)) fs'"
    using open_dir.committed [OF r(1)] r(2) by (cases r) auto
  obtain j db' where j: "db_open ?crc (\<lambda>_ _. 0) options_default fs' = (Inr db', db_fs (d_inner db'))" "j = length ?ops"
    "\<forall>key. fst (db_get key db') = Inr (read_value (last_write (take j ?ops) key))"
    using db_crash_during_open [OF db(1) image d sample_fits(1) sample_fits(1), of "\<lambda>_ _. 0"] db(3) by auto
  have "fst (db_get [1] db') = Inr (Some [7])" by (simp add: j(2,3) last_write_def read_value_def)
  then show ?thesis using db(1) r j(1) unfolding fs1 by blast
qed

end
