(* ===== verification/Creating.thy ===== *)
theory Creating
  imports Runs
begin

text \<open>
  Crashes while a database is created (\<open>create_new\<close> in \<^verbatim>\<open>db.rs\<close>). Until CURRENT has its name the directory holds a
  manifest that nothing names, and opening refuses it; from then on it is an image of the empty database.
\<close>

section \<open>The operations of creating\<close>

text \<open>The file-system calls of \<open>create_new\<close> in an empty directory, in their order: the manifest with its first edit, synced;
  CURRENT; the log.\<close>

definition first_record :: "(bytes \<Rightarrow> u32) \<Rightarrow> bytes" where
  "first_record crc = log_append crc [] (edit_encode (initial_edit 2 \<lparr>id_next = 3\<rparr>))"

definition create_ops :: "(bytes \<Rightarrow> u32) \<Rightarrow> fs_op list" where
  "create_ops crc =
     [Create_File (manifest_path 1), Write_All (manifest_path 1) (first_record crc), Sync_All (manifest_path 1)] @
     write_current_ops 1 @ [Create_File (log_path 2)]"

lemma length_create_ops: "length (create_ops crc) = 9"
  by (simp add: create_ops_def write_current_ops_def Let_def)

lemma create_new_files:
  assumes c: "create_new crc opts fmempty = (Inr inner, fs)"
  shows "fs = fmupd (log_path 2) [] (fmupd current_path (current_content 1) (fmupd (manifest_path 1) (first_record crc) fmempty))"
    and "lh_name (db_wal inner) = log_path 2" "vs_manifest_number (db_version_set inner) = 1"
proof -
  let ?e = "initial_edit 2 \<lparr>id_next = 3\<rparr>"
  obtain vs0 fs0 where p: "new_pending 1 fmempty = (vs0, fs0)" by force
  have "fmlookup fmempty (manifest_path 1) = None" by simp
  note new = vs_written_new [OF this p]
  obtain r vs1 fs1 where w: "write_new_version crc ?e vs0 fs0 = (r, vs1, fs1)" by (metis prod_cases3)
  obtain fs2 where cur: "write_current 1 fs1 = Inr fs2" "fmlookup fs2 current_path = Some (current_content 1)"
    "\<forall>name. name \<noteq> current_path \<longrightarrow> fmlookup fs2 name = (if name = current_tmp_path then None else fmlookup fs1 name)"
    using write_current_Inr by blast
  obtain wal fs3 where l: "log_open (log_path 2) fs2 = (wal, fs3)" by force
  have n: "new_file_number (id_generator_new 1) = Inr (1, \<lparr>id_next = 2\<rparr>)" "new_file_number \<lparr>id_next = 2\<rparr> = Inr (2, \<lparr>id_next = 3\<rparr>)"
    by (simp_all add: id_generator_new_def)
  obtain v where v: "r = Inr v" using c n p w by (cases r) (auto simp: create_new_def simp del: new_file_number_Inr)
  have i: "fs = fs3" "db_version_set inner = vs1" "db_wal inner = wal"
    using c n p w v cur(1) l by (auto simp: create_new_def simp del: new_file_number_Inr)
  note a = vs_written_append [OF new(1) [where crc = crc] w [unfolded v]]
  have m: "fmlookup fs1 (manifest_path 1) = Some (first_record crc)"
    using write_new_version_file [OF new(1) [where crc = crc] w [unfolded v], of "[]"] new(2,3) by (simp add: first_record_def)
  have other: "name \<noteq> manifest_path 1 \<Longrightarrow> fmlookup fs1 name = None" for name using a(3) new(2,3) by simp
  have "fmlookup fs2 (log_path 2) = None" using cur(3) other by simp
  then have fs3: "fs3 = fmupd (log_path 2) [] fs2" "lh_name wal = log_path 2"
    using log_holds_new(2,3) [OF l] by simp_all
  show "fs = fmupd (log_path 2) [] (fmupd current_path (current_content 1) (fmupd (manifest_path 1) (first_record crc) fmempty))"
    using cur(2,3) m other by (intro fmap_ext) (auto simp: i fs3)
  show "lh_name (db_wal inner) = log_path 2" "vs_manifest_number (db_version_set inner) = 1"
    using fs3(2) a(2) new(2) by (simp_all add: i)
qed

section \<open>What a crash leaves\<close>

lemmas create_run = create_ops_def write_current_ops_def on_disk_def fs_rename_def fs_write_def Let_def current_content_def
  string_bytes_def

lemma create_ops_run:
  "\<exists>d. disk_run (create_ops crc) (on_disk fmempty) = Inr d \<and> (\<forall>name. fmlookup (dk_synced d) name = (if name = log_path 2 then Some 0 else None)) \<and>
     dk_files d = fmupd (log_path 2) [] (fmupd current_path (current_content 1) (fmupd (manifest_path 1) (first_record crc) fmempty))"
  by (simp add: create_run) (intro fmap_ext, simp)

text \<open>Before the renaming there is a manifest and no CURRENT.\<close>

lemma create_crash_early:
  assumes "disk_run (take i (create_ops crc)) (on_disk fmempty) = Inr d" and "0 < i" and "i < 8"
  shows "fmlookup (disk_crash part d) current_path = None" "fmlookup (disk_crash part d) (manifest_path 1) \<noteq> None"
proof -
  have "i = 1 \<or> i = 2 \<or> i = 3 \<or> i = 4 \<or> i = 5 \<or> i = 6 \<or> i = 7" using assms(2,3) by arith
  then show "fmlookup (disk_crash part d) current_path = None" "fmlookup (disk_crash part d) (manifest_path 1) \<noteq> None"
    using assms(1) by (elim disjE; auto simp: create_run)+
qed

text \<open>Afterwards CURRENT and the manifest are whole, and the log is empty or not there yet.\<close>

lemma create_crash_late:
  assumes "disk_run (take i (create_ops crc)) (on_disk fmempty) = Inr d" and "8 \<le> i"
  shows "fmlookup (disk_crash part d) current_path = Some (current_content 1)"
    "fmlookup (disk_crash part d) (manifest_path 1) = Some (first_record crc)"
    "fmlookup (disk_crash part d) (log_path 2) = None \<or> fmlookup (disk_crash part d) (log_path 2) = Some []"
    "n \<noteq> 2 \<Longrightarrow> fmlookup (disk_crash part d) (log_path n) = None"
proof -
  have "take i (create_ops crc) = take 8 (create_ops crc) \<or> take i (create_ops crc) = create_ops crc"
  proof (cases "i = 8")
    case False
    then show ?thesis using assms(2) length_create_ops [of crc] by (intro disjI2 take_all) simp
  qed simp
  then show "fmlookup (disk_crash part d) current_path = Some (current_content 1)"
    "fmlookup (disk_crash part d) (manifest_path 1) = Some (first_record crc)"
    "fmlookup (disk_crash part d) (log_path 2) = None \<or> fmlookup (disk_crash part d) (log_path 2) = Some []"
    "n \<noteq> 2 \<Longrightarrow> fmlookup (disk_crash part d) (log_path n) = None"
    using assms(1) by (elim disjE; auto simp: create_run)+
qed

lemma create_crash_image:
  assumes c: "create_new crc opts fmempty = (Inr inner, db_fs inner)" and H: "inner_holds crc [] 0 inner"
    and v: "vs_current (db_version_set inner) = version_empty" "id_next (db_id_gen inner) = 3"
    and run: "disk_run (take i (create_ops crc)) (on_disk fmempty) = Inr d" and i: "8 \<le> i"
  shows "crash_image inner 0 (disk_crash part d)"
proof -
  note f = create_new_files [OF c]
  note l = create_crash_late [OF run i, where part = part]
  have dead: "\<not> live_number version_empty n" for n
    by (auto simp: live_number_def level_numbers_def files_at_def version_empty_def)
  have "fmlookup (db_fs inner) current_path = Some (current_content 1)" "fmlookup (db_fs inner) (manifest_path 1) = Some (first_record crc)"
    "fmlookup (db_fs inner) (log_path 2) = Some []"
    unfolding f(1) by simp_all
  moreover have "fmlookup (disk_crash part d) (log_path n) = None" if "3 \<le> n" for n :: u64
    using l(4) that by (cases "n = 2") auto
  ultimately show ?thesis
    using l(1-3) dead by (auto simp: crash_image_def Let_def f(2,3) v simp del: disk_crash_lookup)
qed

section \<open>Properties\<close>

text \<open>C31: A crash while a database is created either leaves a directory that opens as the empty database or one that is
  refused ever after. \<open>create_new\<close> makes the calls \<open>create_ops\<close>; after a crash before the first of them the directory
  is empty; up to the renaming of CURRENT (the eighth call), whatever part of the unsynced bytes is on the disk, opening answers that the
  directory is not empty and leaves it as it is; from the renaming on it succeeds, and every key
  reads as absent. The options of both openings ask for filters below 512 MiB.\<close>

theorem db_crash_during_create:
  assumes "history_fits opts []" and "history_fits opts' []"
  shows "(\<exists>inner d. create_new crc opts fmempty = (Inr inner, dk_files d) \<and> disk_run (create_ops crc) (on_disk fmempty) = Inr d) \<and>
    (\<exists>d fs. disk_run (take i (create_ops crc)) (on_disk fmempty) = Inr d \<and> fs = disk_crash part d \<and>
       (if i = 0 then fs = fmempty
        else if i < 8 then fs \<noteq> fmempty \<and> db_open crc draws opts' fs =
          (Inl (InvalidArgument ''directory is not empty and has no CURRENT; refusing to initialize''), fs)
        else (\<exists>db. db_open crc draws opts' fs = (Inr db, db_fs (d_inner db)) \<and> (\<forall>key. fst (db_get key db) = Inr None))))"
proof -
  obtain inner where c: "create_new crc opts fmempty = (Inr inner, db_fs inner)" and H: "inner_holds crc [] 0 inner"
    and o: "id_next (db_id_gen inner) = 3" "vs_current (db_version_set inner) = version_empty"
    using create_new_holds [OF assms(1)] by blast
  obtain d0 where d0: "disk_run (create_ops crc) (on_disk fmempty) = Inr d0" "dk_files d0 = db_fs inner"
    using create_ops_run [of crc] create_new_files(1) [OF c] by auto
  obtain d where d: "disk_run (take i (create_ops crc)) (on_disk fmempty) = Inr d" using disk_run_prefix [OF d0(1)] by blast
  let ?fs = "disk_crash part d"
  have "?fs = fmempty" if "i = 0" using d that disk_crash_on_disk [of part fmempty] by simp
  moreover have "?fs \<noteq> fmempty \<and> db_open crc draws opts' ?fs =
      (Inl (InvalidArgument ''directory is not empty and has no CURRENT; refusing to initialize''), ?fs)" if "i \<noteq> 0" "i < 8"
    using create_crash_early [OF d, of part] that by (auto simp: db_open_def fs_exists_def simp del: disk_crash_lookup)
  moreover have "\<exists>db. db_open crc draws opts' ?fs = (Inr db, db_fs (d_inner db)) \<and> (\<forall>key. fst (db_get key db) = Inr None)"
    if i: "8 \<le> i"
  proof -
    let ?db = "\<lparr>d_inner = inner, d_cache = cache_with_capacity (table_cache_size opts')\<rparr>"
    have "db_holds crc [] 0 ?db" "crash_image (d_inner ?db) 0 ?fs" "numbers_left (d_inner ?db)"
      using H create_crash_image [OF c H o(2,1) d i] o(1) by (simp_all add: db_holds_def numbers_left_def)
    from db_reopen_holds [OF this(1,2) assms(2) this(3), of draws] obtain db' where
      "db_open crc draws opts' ?fs = (Inr db', db_fs (d_inner db'))" "db_holds crc [] 0 db'" by auto
    then show ?thesis using db_holds_reads(1) by (fastforce simp: last_write_def read_value_def)
  qed
  ultimately show ?thesis
    using c d d0 by (intro conjI exI [of _ inner] exI [of _ d0] exI [of _ d] exI [of _ ?fs]) (auto simp del: disk_crash_lookup)
qed

theorem db_crash_during_create_witness:
  "\<exists>d. disk_run (take 6 (create_ops (\<lambda>_. 0))) (on_disk fmempty) = Inr d \<and> disk_crash (\<lambda>_. 5) d \<noteq> fmempty \<and>
     db_open (\<lambda>_. 0) (\<lambda>_ _. 0) options_default (disk_crash (\<lambda>_. 5) d) =
       (Inl (InvalidArgument ''directory is not empty and has no CURRENT; refusing to initialize''), disk_crash (\<lambda>_. 5) d)"
proof -
  have "history_fits options_default []"
    by (simp add: history_fits_def options_default_def filter_size_def div_ceil_def)
  from db_crash_during_create [OF this this, of "\<lambda>_. 0" 6 "\<lambda>_. 5" "\<lambda>_ _. 0"] show ?thesis by auto
qed

end
