(* ===== verification/Torn_Manifest.thy ===== *)
theory Torn_Manifest
  imports Opening
begin

text \<open>
  What the first opening does to a manifest that a crash has torn: its edit goes behind the torn record, where no later
  opening reads it, while the log the old edits name is removed.
\<close>

lemma torn_image_recovered:
  assumes H: "inner_holds crc ops b inner" and torn: "torn_image crc inner k fs" and r: "recovered crc draws fs vs mt fs1"
    and M: "M = manifest_path (vs_manifest_number (db_version_set inner))" "fmlookup fs M = Some bs"
  shows "fs1 = fs" "vs_next_file_number vs = id_next (db_id_gen inner)" "vs_current vs = vs_current (db_version_set inner)"
    "vs_manifest_number vs = vs_manifest_number (db_version_set inner)"
    "mw_wal (vs_manifest_writer vs) = \<lparr>lh_name = M, lh_offset = block_offset (wal_create bs)\<rparr>"
proof -
  let ?vs = "db_version_set inner"
  obtain eds where m: "manifest_matches crc eds (of_nat b) ?vs (db_fs inner)" "numbers_fresh inner"
    using H by (auto simp: inner_holds_def)
  have c: "fmlookup fs current_path = fmlookup (db_fs inner) current_path" using torn by (simp add: torn_image_def Let_def)
  obtain bs0 where bs0: "fmlookup (db_fs inner) M = Some bs0" "read_records crc bs = read_records crc bs0"
    using torn M by (auto simp: torn_image_def Let_def)
  have e: "read_records crc bs0 = map edit_encode eds" "replay_edits eds replay_start = Inr (vs_fields (?vs\<lparr>vs_last_sequence := of_nat b\<rparr>))"
    "\<forall>e \<in> set eds. edit_ok e" "fmlookup fs current_path = Some (current_content (vs_manifest_number ?vs))"
    using m(1) bs0(1) c holds_records_read
    by (auto simp: manifest_matches_def vs_written_def manifest_holds_def log_holds_def M(1))
  obtain vs1 where 1: "vs_recover crc fs = Inr (vs1, fs)" "vs_fields vs1 = vs_fields (?vs\<lparr>vs_last_sequence := of_nat b\<rparr>)"
    "vs_manifest_number vs1 = vs_manifest_number ?vs" "manifest_create (vs_manifest_number ?vs) fs = (vs_manifest_writer vs1, fs)"
    using vs_recover_lookup [OF e(4) M(2) [unfolded M(1)], of crc eds] bs0(2) e(1-3) by auto
  have "recover_memtable crc draws vs1 fs = Inr (mt, vs)" and fs1: "fs1 = fs" using r 1(1) by (auto simp: recovered_def)
  then have "vs = vs1 \<or> (\<exists>x. vs = vs1\<lparr>vs_last_sequence := x\<rparr>)"
    by (auto simp: recover_memtable_def Let_def bind_res_eq_Inr split: if_splits)
  moreover have "vs1 = vs1\<lparr>vs_last_sequence := vs_last_sequence vs1\<rparr>" by simp
  ultimately obtain x where vs: "vs = vs1\<lparr>vs_last_sequence := x\<rparr>" by metis
  show "fs1 = fs" by (rule fs1)
  show "vs_next_file_number vs = id_next (db_id_gen inner)" "vs_current vs = vs_current ?vs"
    "vs_manifest_number vs = vs_manifest_number ?vs"
    using 1(2,3) m(2) by (auto simp: vs vs_fields_def numbers_fresh_def)
  show "mw_wal (vs_manifest_writer vs) = \<lparr>lh_name = M, lh_offset = block_offset (wal_create bs)\<rparr>"
    using 1(4) [symmetric] M by (simp add: vs manifest_create_def log_open_def Let_def)
qed

lemma log_add_at_end:
  assumes "log_add crc \<lparr>lh_name = M, lh_offset = block_offset (wal_create bs)\<rparr> d fs = (h, fs')" and "fmlookup fs M = Some bs"
  shows "fs' = fmupd M (log_append crc bs d) fs"
  using assms by (auto simp: log_add_def log_append_def Let_def fs_exists_def wal_create_def)

text \<open>
  When the reader stops at the torn record also after the edit was added, what the opening leaves is an image
  of the old database whose log is gone.
\<close>

lemma torn_then_lost:
  assumes H: "inner_holds crc ops b inner" and torn: "torn_image crc inner k fs"
    and M: "M = manifest_path (vs_manifest_number (db_version_set inner))" "fmlookup fs M = Some bs"
    and o: "recover_open crc draws opts fs = (Inr inner1, fs')"
  shows "\<exists>d. fmlookup fs' M = Some (log_append crc bs d) \<and>
    (read_records crc (log_append crc bs d) = read_records crc bs \<longrightarrow> torn_image crc inner 0 fs')"
proof -
  let ?vs = "db_version_set inner" and ?n = "id_next (db_id_gen inner)"
  obtain vs mt fs1 vs' mt' g n fs2 wal fs3 where 1: "recovered crc draws fs vs mt fs1"
    "recover_commit crc opts vs mt fs1 = (Inr (vs', mt', g, n), fs2)" "log_open (log_path n) fs2 = (wal, fs3)"
    "fs' = remove_obsolete_files vs' fs3"
    using recover_open_parts [OF o] by blast
  note r = torn_image_recovered [OF H torn 1(1) M]
  have fresh: "fmlookup fs (log_path i) = None \<or> fmlookup fs (log_path i) = Some []" if "vs_next_file_number vs \<le> i" for i
    using torn that r(2) by (simp add: torn_image_def Let_def)
  obtain e v fs5 where w: "write_new_version crc e vs fs5 = (Inr v, vs', fs2)" and e: "ve_deleted_files e = []" "ve_log_number e = Some n"
    and n: "?n \<le> n" and same: "\<And>name. (\<forall>i. ?n \<le> i \<longrightarrow> name \<noteq> sst_path i \<and> name \<noteq> log_path i) \<Longrightarrow> fmlookup fs5 name = fmlookup fs name"
    and logs: "\<And>i. ?n \<le> i \<Longrightarrow> fmlookup fs5 (log_path i) = None \<or> fmlookup fs5 (log_path i) = Some []"
    using recover_commit_cases [OF 1(2) [unfolded r(1)] fresh] unfolding r(2) by blast
  note w' = write_new_version_result [OF w]
  have vs': "vs_log_number vs' = n" "vs_manifest_number vs' = vs_manifest_number ?vs" using w'(2,5) e(2) r(4) by simp_all
  obtain h fs6 where a: "log_add crc (mw_wal (vs_manifest_writer vs)) (edit_encode e) fs5 = (h, fs6)" by force
  have "fs6 = fs2"
    using w a by (auto simp: write_new_version_def manifest_append_def Let_def split: sum.splits prod.splits)
  moreover have M5: "fmlookup fs5 M = Some bs" using same [of M] M by simp
  ultimately have fs2: "fs2 = fmupd M (log_append crc bs (edit_encode e)) fs5"
    using log_add_at_end [OF a [unfolded r(5)]] by simp
  have fs': "fmlookup fs' name = (if is_obsolete vs' name then None else fmlookup fs5 name)"
    if "name \<noteq> M" "name \<noteq> log_path n" for name
    using log_open_frame(2) [OF 1(3) that(2)] that(1) by (simp add: 1(4) remove_obsolete_lookup fs2)
  have old: "fmlookup fs' name = (if is_obsolete vs' name then None else fmlookup fs name)"
    if "\<forall>i. ?n \<le> i \<longrightarrow> name \<noteq> sst_path i \<and> name \<noteq> log_path i" "name \<noteq> M" for name
    using fs' [of name] same [of name] that n by auto
  have manifest: "fmlookup fs' M = Some (log_append crc bs (edit_encode e))"
    using log_open_frame(2) [OF 1(3), of M] by (simp add: 1(4) remove_obsolete_lookup fs2 M(1) vs'(2))
  have wf: "version_wf (vs_current ?vs)" using inner_holds_numbers [OF H] by (simp add: numbers_ok_def)
  have live: "live_number (vs_current vs') i" if "live_number (vs_current ?vs) i" for i
    using apply_edit_files(2) [OF w'(1)] wf that
    by (fastforce simp: r(3) e(1) deleted_at_def version_wf_def live_number_def level_numbers_def)
  have T: "fmlookup fs current_path = fmlookup (db_fs inner) current_path"
    "\<exists>bs0. fmlookup (db_fs inner) M = Some bs0 \<and> read_records crc bs = read_records crc bs0"
    "\<And>i. live_number (vs_current ?vs) i \<Longrightarrow> fmlookup fs (sst_path i) = fmlookup (db_fs inner) (sst_path i)"
    using torn M by (auto simp: torn_image_def Let_def)
  have "torn_image crc inner 0 fs'" if stops: "read_records crc (log_append crc bs (edit_encode e)) = read_records crc bs"
    unfolding torn_image_def Let_def M(1) [symmetric]
  proof (intro conjI allI impI)
    show "fmlookup fs' current_path = fmlookup (db_fs inner) current_path" using old [of current_path] T(1) M(1) by simp
    show "\<exists>bs bs'. fmlookup (db_fs inner) M = Some bs \<and> fmlookup fs' M = Some bs' \<and> read_records crc bs' = read_records crc bs"
      using T(2) manifest stops by auto
    show "fmlookup fs' (sst_path i) = fmlookup (db_fs inner) (sst_path i)" if "live_number (vs_current ?vs) i" for i
    proof -
      have "i < ?n" using inner_holds_numbers [OF H] that by (simp add: numbers_ok_def)
      then have "\<forall>j. ?n \<le> j \<longrightarrow> i \<noteq> j" by auto
      then show ?thesis using old [of "sst_path i"] T(3) [OF that] live [OF that] M(1) by auto
    qed
    obtain w where w: "lh_name (db_wal inner) = log_path w" "fmlookup (db_fs inner) (log_path w) \<noteq> None"
      using H by (auto simp: inner_holds_def log_matches_def)
    then have "w < ?n" using H by (auto simp: inner_holds_def numbers_fresh_def not_le [symmetric])
    then have "\<forall>i. ?n \<le> i \<longrightarrow> w \<noteq> i" "n \<noteq> w" using n by auto
    then show "fmlookup fs' (lh_name (db_wal inner)) = map_option (take 0) (fmlookup (db_fs inner) (lh_name (db_wal inner))) \<or>
        0 = (0 :: nat) \<and> fmlookup fs' (lh_name (db_wal inner)) = None"
      using old [of "log_path w"] n M(1) vs'(1) w(1) by auto
    show "fmlookup fs' (log_path i) = None \<or> fmlookup fs' (log_path i) = Some []" if i: "?n \<le> i" for i
    proof (cases "i = n")
      case True
      have "fmlookup fs2 (log_path n) = None \<or> fmlookup fs2 (log_path n) = Some []" using logs [OF n] by (simp add: fs2 M(1))
      then show ?thesis using log_open_empty(3) [OF _ 1(3)] True by (simp add: 1(4) remove_obsolete_lookup)
    qed (use fs' [of "log_path i"] logs [OF i] M(1) vs'(1) in simp)
  qed
  then show ?thesis using manifest by blast
qed

text \<open>The record of an edit of which only the header and a part of the data reached the manifest.\<close>

lemma torn_edit_image:
  assumes H: "inner_holds crc ops b inner" and crash: "crash_image inner k fs"
    and M: "M = manifest_path (vs_manifest_number (db_version_set inner))" "fmlookup fs M = Some bs"
    and fits: "length bs mod BLOCK_SIZE + HEADER_SIZE + length d \<le> BLOCK_SIZE"
    and n: "length bs + HEADER_SIZE \<le> n" "n < length bs + HEADER_SIZE + length d"
  shows "\<exists>rs. holds_records crc bs rs \<and> read_records crc (take n (bs @ encode_piece crc [] Full d)) = rs" "torn_image crc inner k (fmupd M (take n (bs @ encode_piece crc [] Full d)) fs)"
proof -
  have bs: "fmlookup (db_fs inner) M = Some bs" using crash M by (simp add: crash_image_def Let_def)
  obtain rs where rs: "holds_records crc bs rs" using inner_holds_manifest [OF H] bs by (auto simp: M(1))
  have torn: "read_records crc (take n (log_append crc bs d)) = rs"
    using n by (intro holds_records_torn [OF rs]) (simp_all add: log_append_fits [OF fits] encode_piece_header HEADER_SIZE_def)
  then show "\<exists>rs. holds_records crc bs rs \<and> read_records crc (take n (bs @ encode_piece crc [] Full d)) = rs"
    using rs by (auto simp: log_append_fits [OF fits])
  have reads: "read_records crc (take n (bs @ encode_piece crc [] Full d)) = read_records crc bs"
    using torn holds_records_read [OF rs] by (simp add: log_append_fits [OF fits])
  have wal: "lh_name (db_wal inner) \<noteq> M" using H by (auto simp: inner_holds_def log_matches_def M(1))
  show "torn_image crc inner k (fmupd M (take n (bs @ encode_piece crc [] Full d)) fs)"
    using crash wal reads bs unfolding torn_image_def crash_image_def Let_def M(1) [symmetric] by (auto simp: M(1))
qed

section \<open>A sample\<close>

text \<open>With a checksum of zeros and ones the first byte of what is appended is one of them.\<close>

lemma log_append_first:
  assumes "\<And>bs. crc bs = 0 \<or> crc bs = 1"
  shows "\<exists>c e. log_append crc f d = f @ c # e \<and> (c = 0 \<or> c = 1)"
proof -
  let ?w = "wal_create f"
  obtain e where e: "log_append crc f d = wal_file (after_piece crc ?w True d) @ e"
    using add_record_loop_extends [of ?w crc True d] by (auto simp: log_append_def add_record_def)
  have "ucast (crc bs) = (0 :: byte) \<or> ucast (crc bs) = (1 :: byte)" for bs using assms [of bs] by auto
  then obtain c e' where c: "encode_piece crc [] (next_type ?w True d) (take (next_piece_len ?w d) d) = c # e'" "c = 0 \<or> c = 1"
    by (simp add: encode_piece_def numeral_eq_Suc)
  have "log_append crc f d = f @ trailer_of ?w @ (c # e') @ e"
    unfolding e after_piece_extends [OF wal_ok_create] c(1) by (simp add: wal_create_def)
  moreover have "\<forall>x \<in> set (trailer_of ?w). x = 0" by (simp add: trailer_of_def)
  ultimately show ?thesis using c(2) by (cases "trailer_of ?w") auto
qed

lemma create_new_manifest:
  assumes "create_new crc opts fmempty = (Inr inner, fs)"
  shows "fmlookup (db_fs inner) (manifest_path 1) = Some (log_append crc [] (edit_encode (initial_edit 2 \<lparr>id_next = 3\<rparr>)))"
    "vs_manifest_number (db_version_set inner) = 1" "db_memtable inner = memtable_new" "lh_name (db_wal inner) = log_path 2"
proof -
  let ?e = "initial_edit 2 \<lparr>id_next = 3\<rparr>"
  have n: "new_file_number (id_generator_new 1) = Inr (1, \<lparr>id_next = 2\<rparr>)" "new_file_number \<lparr>id_next = 2\<rparr> = Inr (2, \<lparr>id_next = 3\<rparr>)"
    by (simp_all add: id_generator_new_def)
  obtain vs0 fs0 where p: "new_pending 1 fmempty = (vs0, fs0)" by force
  then have vs0: "mw_wal (vs_manifest_writer vs0) = \<lparr>lh_name = manifest_path 1, lh_offset = block_offset (wal_create [])\<rparr>"
    "fs0 = fmupd (manifest_path 1) [] fmempty" "vs_manifest_number vs0 = 1"
    by (auto simp: new_pending_def manifest_create_def log_open_def Let_def)
  obtain v vs1 fs1 where w: "write_new_version crc ?e vs0 fs0 = (Inr v, vs1, fs1)"
    using write_new_version_total [of ?e crc vs0 fs0]
    by (auto simp: levels_ok_def initial_edit_def edit_setter_defs version_edit_new_def)
  obtain h fs2 where a: "log_add crc (mw_wal (vs_manifest_writer vs0)) (edit_encode ?e) fs0 = (h, fs2)" by force
  have "fs2 = fs1"
    using w a by (auto simp: write_new_version_def manifest_append_def Let_def split: sum.splits prod.splits)
  then have fs1: "fs1 = fmupd (manifest_path 1) (log_append crc [] (edit_encode ?e)) fs0"
    using log_add_at_end [OF a [unfolded vs0(1)]] vs0(2) by simp
  obtain fs3 where c: "write_current 1 fs1 = Inr fs3" "fmlookup fs3 (manifest_path 1) = fmlookup fs1 (manifest_path 1)"
    using write_current_Inr [of 1 fs1] by auto
  obtain wal fs4 where l: "log_open (log_path 2) fs3 = (wal, fs4)" by force
  have "inner = \<lparr>db_fs = fs4, db_version_set = vs1, db_memtable = memtable_new, db_wal = wal, db_id_gen = \<lparr>id_next = 3\<rparr>,
      db_wal_number = 2, db_options = opts, db_bg_scheduled = False, db_shutting_down = False\<rparr>"
    using assms n p w c(1) l by (auto simp: create_new_def Let_def simp del: new_file_number_Inr)
  then show "fmlookup (db_fs inner) (manifest_path 1) = Some (log_append crc [] (edit_encode ?e))"
    "vs_manifest_number (db_version_set inner) = 1" "db_memtable inner = memtable_new" "lh_name (db_wal inner) = log_path 2"
    using c(2) fs1 log_open_frame [OF l] write_new_version_result(5) [OF w] vs0(3) by simp_all
qed

lemma initial_edit_short: "length (edit_encode (initial_edit a g)) \<le> 100"
proof -
  have "length (slice_bytes c) \<le> 10 + length c" for c
    using length_varint32_bytes [of "of_nat (length c)"] by (simp add: slice_bytes_def)
  from this [of "string_bytes ''mulan.BytewiseComparator''"]
  have "length (slice_bytes (string_bytes ''mulan.BytewiseComparator'')) \<le> 36" by (simp add: string_bytes_def)
  then show ?thesis
    using length_varint64_bytes [of a] length_varint64_bytes [of "id_next g"] length_varint64_bytes [of 0]
    by (simp add: edit_encode_bytes initial_edit_def edit_setter_defs version_edit_new_def comparator_bytes_def number_bytes_def)
qed

text \<open>A small put into a new database leaves everything but the log as it was.\<close>

lemma put_unflushed:
  assumes "db_put crc draws [1] [7] inner = Some (Inr (), inner')" and "db_memtable inner = memtable_new"
    and "db_options inner = options_default"
  shows "name \<noteq> lh_name (db_wal inner) \<Longrightarrow> fmlookup (db_fs inner') name = fmlookup (db_fs inner) name"
    "vs_manifest_number (db_version_set inner') = vs_manifest_number (db_version_set inner)"
    "mt_entries (db_memtable inner') = 1"
proof -
  obtain wal fs where log: "log_add crc (db_wal inner) (encode_entry Put 1 [1] [7]) (db_fs inner) = (wal, fs)" by force
  obtain mt where mt: "mt_apply draws Put 1 [1] [7] memtable_new = Inr mt" "mt_entries mt = 1" "mt_approx_bytes mt = 2"
    and m: "maybe_schedule_compaction (inner\<lparr>db_wal := wal, db_fs := fs, db_memtable := mt,
      db_version_set := (db_version_set inner)\<lparr>vs_last_sequence := 1\<rparr>\<rparr>) = (Inr (), inner')"
    using assms log
    by (auto simp: db_put_def db_write_def db_write_locked_def then_do_eq_Inr Let_def memtable_new_def u64_succ_def mt_apply_def
        bind_res_eq_Inr options_default_def split: if_splits)
  show "name \<noteq> lh_name (db_wal inner) \<Longrightarrow> fmlookup (db_fs inner') name = fmlookup (db_fs inner) name"
    "vs_manifest_number (db_version_set inner') = vs_manifest_number (db_version_set inner)"
    "mt_entries (db_memtable inner') = 1"
    using maybe_schedule_holds [OF m] log_add_frame(2) [OF log, of name] mt(2) by auto
qed

text \<open>A database with one write in the memtable and a short manifest.\<close>

lemma sample_short_manifest:
  "\<exists>db bs. db_history crc [(Put, [1], [7])] db \<and> crash_image (d_inner db) (length (log_bytes (d_inner db))) (db_fs (d_inner db)) \<and>
     vs_manifest_number (db_version_set (d_inner db)) = 1 \<and> fmlookup (db_fs (d_inner db)) (manifest_path 1) = Some bs \<and>
     length bs \<le> 107 \<and> numbers_left (d_inner db) \<and> mt_entries (db_memtable (d_inner db)) = 1"
proof -
  let ?ops = "[(Put, [1], [7])] :: write_op list" and ?opts = options_default and ?draws = "\<lambda>_ _. 0"
  obtain db0 where db0: "db_open crc ?draws ?opts fmempty = (Inr db0, db_fs (d_inner db0))" "db_holds crc [] 0 db0"
    "db_options (d_inner db0) = ?opts" "id_next (db_id_gen (d_inner db0)) = 3" "vs_current (db_version_set (d_inner db0)) = version_empty"
    using db_open_empty [OF sample_fits(2), of crc ?draws] by blast
  have "create_new crc ?opts fmempty = (Inr (d_inner db0), db_fs (d_inner db0))"
    using db0(1) by (auto simp: db_open_def fs_exists_def then_do_eq_Inr)
  note new = create_new_manifest [OF this]
  have ok: "numbers_left (d_inner db0)" "sizes_ok (vs_current (db_version_set (d_inner db0)))" "\<not> write_must_wait (d_inner db0)"
    using db0(4,5) by (simp_all add: numbers_left_def sizes_ok_def total_size_def files_at_def version_empty_def write_must_wait_def
        level0_needs_slowdown_def num_files_def NUM_LEVELS_def LEVEL0_STOP_WRITES_TRIGGER_def)
  obtain inner where put: "db_put crc (\<lambda>_. 0) [1] [7] (d_inner db0) = Some (Inr (), inner)"
    using db_put_succeeds [OF db0(2) _ _ ok, of "[1]" "[7]" "\<lambda>_. 0"] sample_fits(1) db0(3) by auto
  note p = put_unflushed [OF put new(3) db0(3)]
  have "db_history crc ([] @ ?ops) (db0\<lparr>d_inner := inner\<rparr>)"
    by (rule db_history.put [OF db_history.created [OF db0(1) sample_fits(2)] put]) (use sample_fits(1) db0(3) in simp)
  then have h: "db_history crc ?ops (db0\<lparr>d_inner := inner\<rparr>)" by simp
  obtain b where b: "db_holds crc ?ops b (db0\<lparr>d_inner := inner\<rparr>)" using db_history_holds [OF h] by blast
  let ?bs = "log_append crc [] (edit_encode (initial_edit 2 \<lparr>id_next = 3\<rparr>))"
  have "fmlookup (db_fs inner) (manifest_path 1) = Some ?bs" using p(1) [of "manifest_path 1"] new by simp
  moreover have "length ?bs \<le> 107"
    using initial_edit_short [of 2 "\<lparr>id_next = 3\<rparr>"]
    by (simp add: log_append_small encode_piece_header HEADER_SIZE_def BLOCK_SIZE_def)
  moreover have "numbers_left inner" using db_put_drawn [OF put] db0(4) by (simp add: numbers_left_def)
  ultimately show ?thesis
    using h crash_image_whole [OF b order_refl] p(2,3) new(2)
    by (intro exI [of _ "db0\<lparr>d_inner := inner\<rparr>"] exI [of _ ?bs]) simp
qed

section \<open>Properties\<close>

text \<open>C13: A crash that tears the manifest costs the log at the second opening. When a crash cuts the record of an edit behind its
  header, the first opening reads every acknowledged write, but it appends its own edit behind the torn record
  and removes the old log; unless the checksum of the torn record happens to fit what now follows
  it, the next opening succeeds and shows only the flushed writes: synced writes are gone.\<close>

theorem torn_manifest_loses_log:
  assumes "db_history crc ops db" and "crash_image (d_inner db) k fs" and "length (log_bytes (d_inner db)) \<le> k"
    and "M = manifest_path (vs_manifest_number (db_version_set (d_inner db)))" and "fmlookup fs M = Some bs"
    and "length bs mod BLOCK_SIZE + HEADER_SIZE + length d \<le> BLOCK_SIZE"
    and "length bs + HEADER_SIZE \<le> n" and "n < length bs + HEADER_SIZE + length d"
    and "db_open crc draws opts (fmupd M (take n (bs @ encode_piece crc [] Full d)) fs) = (Inr db1, fs1)"
    and "fmlookup fs1 M = Some f"
    and "crc (rtype_as_u8 Full # take (length d) (drop (length bs + HEADER_SIZE) f)) \<noteq> crc (rtype_as_u8 Full # d)"
    and "history_fits opts ops" and "history_fits opts' ops" and "numbers_left (d_inner db)"
  shows "(\<forall>key. fst (db_get key db1) = Inr (read_value (last_write ops key))) \<and>
    (\<exists>db2. db_open crc draws' opts' fs1 = (Inr db2, db_fs (d_inner db2)) \<and>
       (\<forall>key. fst (db_get key db2) =
          Inr (read_value (last_write (take (length ops - mt_entries (db_memtable (d_inner db))) ops) key))))"
proof -
  let ?inner = "d_inner db" and ?torn = "take n (bs @ encode_piece crc [] Full d)"
  let ?fs = "fmupd M ?torn fs"
  obtain b where H: "inner_holds crc ops b ?inner" using db_history_holds [OF assms(1)] by (auto simp: db_holds_def)
  note image = torn_edit_image [OF H assms(2,4,5-8)]
  obtain rs where rs: "holds_records crc bs rs" "read_records crc ?torn = rs" using image(1) by blast
  have log: "log_bytes ?inner = foldl (log_append crc) [] (log_records b (drop b ops))"
    using H by (auto simp: inner_holds_def log_matches_def log_bytes_def)
  have whole: "take (length (drop b ops)) (log_records b (drop b ops)) = log_records b (drop b ops)" by simp
  obtain j db' where j: "b \<le> j" "j \<le> length ops" "db_open crc draws opts ?fs = (Inr db', db_fs (d_inner db'))"
    "\<forall>key. fst (db_get key db') = Inr (read_value (last_write (take j ops) key))"
    "\<forall>i \<le> length (drop b ops). length (foldl (log_append crc) [] (take i (log_records b (drop b ops)))) \<le> k \<longrightarrow> b + i \<le> j"
    using torn_reopen [OF H image(2) assms(12,14), of draws] by blast
  have "b + length (drop b ops) \<le> j" using j(5) assms(3) unfolding log by (metis order_refl whole)
  then have j': "j = length ops" using j(2) inner_holds_le [OF H] by simp
  have 1: "db1 = db'" "fs1 = db_fs (d_inner db')" using assms(9) j(3) by simp_all
  have "fs_exists current_path ?fs"
    using H assms(2) by (auto simp: fs_exists_def crash_image_def Let_def inner_holds_def manifest_matches_def)
  then obtain inner1 where o: "recover_open crc draws opts ?fs = (Inr inner1, fs1)"
    using assms(9) by (auto simp: db_open_def then_do_eq_Inr)
  have "torn_image crc ?inner 0 fs1"
  proof -
    have "fmlookup ?fs M = Some ?torn" by simp
    from torn_then_lost [OF H image(2) assms(4) this o] obtain x where x: "fmlookup fs1 M = Some (log_append crc ?torn x)"
      "read_records crc (log_append crc ?torn x) = read_records crc ?torn \<longrightarrow> torn_image crc ?inner 0 fs1" by blast
    obtain e where "log_append crc ?torn x = ?torn @ e" using log_append_extends by blast
    then have "read_records crc (log_append crc ?torn x) = rs"
      using x(1) assms(10,11) by (intro read_after_torn [OF rs(1) assms(6-8)]) auto
    then show ?thesis using x(2) rs(2) by simp
  qed
  from torn_reopen [OF H this assms(13,14), of draws'] obtain db2 where
    2: "db_open crc draws' opts' fs1 = (Inr db2, db_fs (d_inner db2))"
    "\<forall>key. fst (db_get key db2) = Inr (read_value (last_write (take b ops) key))" by blast
  have "length ops - mt_entries (db_memtable ?inner) = b"
    using H inner_holds_le [OF H] by (simp add: inner_holds_def memory_holds_def mt_rep_def)
  then show ?thesis using 1(1) 2 j(4) j' by auto
qed

theorem torn_manifest_loses_log_witness:
  "\<exists>crc (db :: db) fs db1 fs1 db2. db_history crc [(Put, [1], [7])] db \<and>
     db_open crc (\<lambda>_ _. 0) options_default fs = (Inr db1, fs1) \<and> fst (db_get [1] db1) = Inr (Some [7]) \<and>
     db_open crc (\<lambda>_ _. 0) options_default fs1 = (Inr db2, db_fs (d_inner db2)) \<and> fst (db_get [1] db2) = Inr None"
proof -
  define crc :: "bytes \<Rightarrow> u32" where crc: "crc bs = (if bs = [1, 5] then 1 else 0)" for bs
  let ?ops = "[(Put, [1], [7])] :: write_op list" and ?opts = options_default and ?draws = "\<lambda>_ _. 0" and ?M = "manifest_path 1"
  obtain db bs where db: "db_history crc ?ops db" "crash_image (d_inner db) (length (log_bytes (d_inner db))) (db_fs (d_inner db))"
    "vs_manifest_number (db_version_set (d_inner db)) = 1" "fmlookup (db_fs (d_inner db)) ?M = Some bs" "length bs \<le> 107"
    "numbers_left (d_inner db)" "mt_entries (db_memtable (d_inner db)) = 1"
    using sample_short_manifest by blast
  let ?inner = "d_inner db"
  obtain b where H: "inner_holds crc ?ops b ?inner" using db_history_holds [OF db(1)] by (auto simp: db_holds_def)
  have M: "?M = manifest_path (vs_manifest_number (db_version_set ?inner))" by (simp add: db(3))
  have fits: "length bs mod BLOCK_SIZE + HEADER_SIZE + length [5 :: byte] \<le> BLOCK_SIZE"
    using db(5) by (simp add: HEADER_SIZE_def BLOCK_SIZE_def)
  define torn where torn: "torn = take (length bs + HEADER_SIZE) (bs @ encode_piece crc [] Full [5])"
  let ?fs = "fmupd ?M torn (db_fs ?inner)"
  have T: "torn_image crc ?inner (length (log_bytes ?inner)) ?fs"
    unfolding torn by (rule torn_edit_image(2) [OF H db(2) M db(4) fits]) simp_all
  obtain db1 where 1: "db_open crc ?draws ?opts ?fs = (Inr db1, db_fs (d_inner db1))"
    using torn_reopen [OF H T sample_fits(1) db(6), of ?draws] by auto
  have "fs_exists current_path ?fs"
    using H by (auto simp: fs_exists_def inner_holds_def manifest_matches_def)
  then obtain inner1 where o: "recover_open crc ?draws ?opts ?fs = (Inr inner1, db_fs (d_inner db1))"
    using 1 by (auto simp: db_open_def then_do_eq_Inr)
  have "fmlookup ?fs ?M = Some torn" by simp
  from torn_then_lost [OF H T M this o] obtain x where x: "fmlookup (db_fs (d_inner db1)) ?M = Some (log_append crc torn x)"
    by blast
  have "crc d = 0 \<or> crc d = 1" for d by (simp add: crc)
  from log_append_first [of crc, OF this] obtain c e where c: "log_append crc torn x = torn @ c # e" "c = 0 \<or> c = 1"
    by blast
  have "length torn = length bs + HEADER_SIZE" by (simp add: torn encode_piece_header HEADER_SIZE_def)
  then have "take (length [5 :: byte]) (drop (length bs + HEADER_SIZE) (log_append crc torn x)) = [c]" by (simp add: c(1))
  then have bad: "crc (rtype_as_u8 Full # take (length [5 :: byte]) (drop (length bs + HEADER_SIZE) (log_append crc torn x))) \<noteq>
      crc (rtype_as_u8 Full # [5])"
    using c(2) by (auto simp: crc)
  have "(\<forall>key. fst (db_get key db1) = Inr (read_value (last_write ?ops key))) \<and>
      (\<exists>db2. db_open crc ?draws ?opts (db_fs (d_inner db1)) = (Inr db2, db_fs (d_inner db2)) \<and>
         (\<forall>key. fst (db_get key db2) =
            Inr (read_value (last_write (take (length ?ops - mt_entries (db_memtable ?inner)) ?ops) key))))"
    by (rule torn_manifest_loses_log [OF db(1,2) order_refl M db(4) fits _ _ 1 [unfolded torn] x bad])
       (use db(6) sample_fits(1) in simp_all)
  then obtain db2 where 2: "\<forall>key. fst (db_get key db1) = Inr (read_value (last_write ?ops key))"
    "db_open crc ?draws ?opts (db_fs (d_inner db1)) = (Inr db2, db_fs (d_inner db2))"
    "\<forall>key. fst (db_get key db2) = Inr (read_value (last_write [] key))"
    using db(7) by auto
  have "fst (db_get [1] db1) = Inr (Some [7])" "fst (db_get [1] db2) = Inr None"
    using 2(1,3) by (simp_all add: last_write_def read_value_def)
  then show ?thesis using db(1) 1 2(2) by blast
qed

end
