(* ===== verification/Stalls.thy ===== *)
theory Stalls
  imports Runs
begin

text \<open>
  Backpressure: as long as automatic compaction is on, a write waits while level 0 has its limit of tables, and no other
  call adds one, so level 0 never grows past the limit. A round of the background thread that compacts level 0
  empties it, so the writers it blocked go on.
\<close>

lemma flush_memtable_options:
  "flush_memtable crc inner = (r, inner') \<Longrightarrow> db_options inner' = db_options inner \<and> db_shutting_down inner' = db_shutting_down inner"
  by (auto simp: flush_memtable_def Let_def split: if_splits sum.splits prod.splits)

lemma maybe_schedule_options:
  "maybe_schedule_compaction inner = (r, inner') \<Longrightarrow> db_options inner' = db_options inner \<and> db_shutting_down inner' = db_shutting_down inner"
  using maybe_schedule_holds [of inner r inner'] by auto

lemma db_write_locked_options:
  "db_write_locked crc draws key v t inner = (r, inner') \<Longrightarrow>
     db_options inner' = db_options inner \<and> db_shutting_down inner' = db_shutting_down inner"
  by (auto simp: db_write_locked_def then_do_def Let_def dest!: flush_memtable_options maybe_schedule_options
      split: if_splits sum.splits prod.splits)

lemma flush_memtable_level0:
  assumes f: "flush_memtable crc inner = (r, inner')" and ok: "numbers_ok inner"
  shows "num_files (vs_current (db_version_set inner')) 0 \<le> num_files (vs_current (db_version_set inner)) 0 + 1"
proof (cases "mt_entries (db_memtable inner) = 0")
  case True
  then show ?thesis using f by (simp add: flush_memtable_def)
next
  case False
  let ?vs = "db_version_set inner" and ?g = "db_id_gen inner"
  obtain r1 g1 fs1 where 1: "flush_to_level0 ''flushed memtable had no entries'' (db_options inner) (db_memtable inner) ?g
      (db_fs inner) = (r1, g1, fs1)"
    using flush_to_level0_result by blast
  from flush_memtable_cases [OF f False 1] show ?thesis
  proof (elim disjE exE conjE)
    fix meta log g2 fs2 v vs' fs3
    assume r1: "r1 = Inr meta"
      and w: "write_new_version crc (flush_edit meta log g2 (mt_seq (db_memtable inner))) ?vs fs2 = (Inr v, vs', fs3)"
      and inner': "db_version_set inner' = vs'"
    have "\<not> live_number (vs_current ?vs) (fm_number meta)" "version_wf (vs_current ?vs)"
      using ok flush_to_level0_numbers(2) [OF 1 r1] by (auto simp: numbers_ok_def)
    from flush_edit_applied(2) [OF this(2) write_new_version_result(1) [OF w] this(1)]
    show ?thesis by (simp add: num_files_def inner')
  qed simp
qed

text \<open>A round leaves the version alone or applies the edit of the compaction it picked.\<close>

lemma run_one_compaction_version:
  assumes run: "run_one_compaction crc db = (r, db')"
  shows "db_options (d_inner db') = db_options (d_inner db)"
    "vs_current (db_version_set (d_inner db')) = vs_current (db_version_set (d_inner db)) \<and> r \<noteq> Inr True \<or>
     (\<exists>c out g. pick_compaction (db_version_set (d_inner db)) = Inr (Some c) \<and> cp_deleted_files out = input_file_numbers c \<and>
        apply_edit (vs_current (db_version_set (d_inner db))) (compaction_edit (co_level c) out g) =
          Inr (vs_current (db_version_set (d_inner db'))))" (is "?same \<or> ?applied")
proof -
  let ?inner = "d_inner db"
  let ?vs = "db_version_set ?inner" and ?n = "id_next (db_id_gen (d_inner db))"
  let ?v = "vs_current ?vs"
  show "db_options (d_inner db') = db_options (d_inner db)"
    using run by (auto simp: run_one_compaction_def Let_def split: sum.splits option.splits prod.splits)
  show "?same \<or> ?applied"
  proof (cases "\<exists>c. pick_compaction ?vs = Inr (Some c)")
    case False
    then have "(\<exists>e. pick_compaction ?vs = Inl e) \<or> pick_compaction ?vs = Inr None" by (metis not_None_eq sum.exhaust)
    then show ?thesis using run by (auto simp: run_one_compaction_def)
  next
    case True
    then obtain c where pick: "pick_compaction ?vs = Inr (Some c)" by blast
    obtain r1 g' fs1 where d: "do_compaction c ?v (id_generator_new ?n) (oldest_snapshot_seq ?vs) (opt_block_size (db_options ?inner))
        (bloom_bits_per_key (db_options ?inner)) (db_fs ?inner) = (r1, g', fs1)"
      by (rule prod_cases3)
    show ?thesis
    proof (cases r1)
      case (Inl e)
      then show ?thesis using run pick d by (auto simp: run_one_compaction_def Let_def)
    next
      case (Inr out)
      have L: "co_level c + 1 < NUM_LEVELS" using pick_compaction_result(2) [OF pick] .
      have dels: "cp_deleted_files out = input_file_numbers c" using do_compaction_numbers [OF d [unfolded Inr]] by blast
      obtain v2 vs' fs2 where w: "write_new_version crc (compaction_edit (co_level c) out g') ?vs fs1 = (Inr v2, vs', fs2)"
        using write_new_version_total [OF compaction_edit_levels [OF L dels]] by blast
      have "db_version_set (d_inner db') = vs'"
        using run pick d Inr w by (auto simp: run_one_compaction_def Let_def)
      then show ?thesis using pick dels write_new_version_result(1) [OF w] by blast
    qed
  qed
qed

lemma compaction_edit_level0:
  assumes a: "apply_edit v (compaction_edit (co_level c) out g) = Inr v'" and wf: "version_wf v"
    and L: "co_level c + 1 < NUM_LEVELS"
  shows "files_at v' 0 = filter (\<lambda>f. \<not> deleted_at (ve_deleted_files (compaction_edit (co_level c) out g)) 0 f) (files_at v 0)"
proof -
  have "filter (\<lambda>f. unat (nf_level f) = 0) (ve_new_files (compaction_edit (co_level c) out g)) = []"
    using unat_level [OF L] by (auto simp: filter_empty_conv)
  moreover have "0 < length (v_files v)" using wf by (simp add: version_wf_def NUM_LEVELS_def)
  ultimately show ?thesis using apply_edit_files(2) [OF a, of 0] by simp
qed

lemma run_one_compaction_level0:
  assumes run: "run_one_compaction crc db = (r, db')" and ok: "numbers_ok (d_inner db)"
  shows "num_files (vs_current (db_version_set (d_inner db'))) 0 \<le> num_files (vs_current (db_version_set (d_inner db))) 0"
  using run_one_compaction_version(2) [OF run]
proof (elim disjE exE conjE)
  fix c out g
  assume "pick_compaction (db_version_set (d_inner db)) = Inr (Some c)"
    and a: "apply_edit (vs_current (db_version_set (d_inner db))) (compaction_edit (co_level c) out g) =
      Inr (vs_current (db_version_set (d_inner db')))"
  then show ?thesis
    using compaction_edit_level0 [OF a] pick_compaction_result(2) ok by (simp add: num_files_def numbers_ok_def)
qed simp

text \<open>The state of a database that compacts automatically.\<close>

definition level0_bounded :: "db_inner \<Rightarrow> bool" where
  "level0_bounded inner \<longleftrightarrow> numbers_ok inner \<and> \<not> disable_auto_compaction (db_options inner) \<and>
     num_files (vs_current (db_version_set inner)) 0 \<le> LEVEL0_STOP_WRITES_TRIGGER"

lemma db_write_level0:
  assumes w: "db_write crc draws key v t inner = Some (r, inner')" and b: "level0_bounded inner"
  shows "level0_bounded inner'"
proof -
  have lock: "\<not> write_must_wait inner" "db_write_locked crc draws key v t inner = (r, inner')"
    using w by (auto simp: db_write_def split: if_splits)
  have less: "num_files (vs_current (db_version_set inner)) 0 < LEVEL0_STOP_WRITES_TRIGGER"
    using lock(1) b by (simp add: write_must_wait_def level0_bounded_def level0_needs_slowdown_def)
  obtain inner1 inner2 where 1: "db_id_gen inner1 = db_id_gen inner" "vs_current (db_version_set inner1) = vs_current (db_version_set inner)"
    and 2: "inner2 = inner1 \<or> (\<exists>r2. flush_memtable crc inner1 = (r2, inner2))"
    and 3: "inner' = inner2 \<or> inner' = inner2\<lparr>db_bg_scheduled := True\<rparr>"
    using db_write_locked_cases [OF lock(2)] by blast
  have ok1: "numbers_ok inner1" using 1 b numbers_ok_same [of inner inner1] by (simp add: level0_bounded_def)
  have "num_files (vs_current (db_version_set inner2)) 0 \<le> num_files (vs_current (db_version_set inner)) 0 + 1"
    using 2 flush_memtable_level0 [OF _ ok1] 1(2) by auto
  moreover have "db_options inner' = db_options inner" using db_write_locked_options [OF lock(2)] by blast
  ultimately show ?thesis using less b write_numbers [OF lock(2)] 3 by (auto simp: level0_bounded_def)
qed

lemma db_step_level0:
  assumes step: "db_step crc db db'" and b: "level0_bounded (d_inner db)"
  shows "level0_bounded (d_inner db')"
proof -
  have compacts: "level0_bounded (d_inner db1)" if "run_one_compaction crc db = (r, db1)" for r db1
    using run_one_compaction_level0 [OF that] run_one_compaction_version(1) [OF that] run_one_compaction_numbers [OF that] b
    by (simp add: level0_bounded_def)
  show ?thesis
    using step
  proof (cases rule: db_step.cases)
    case (put draws key v r inner)
    then show ?thesis using db_write_level0 b by (auto simp: db_put_def split: if_splits)
  next
    case (delete draws key r inner)
    then show ?thesis using db_write_level0 b by (auto simp: db_delete_def split: if_splits)
  next
    case (wait inner)
    then show ?thesis using maybe_schedule_holds [OF wait(3)] b by (auto simp: level0_bounded_def numbers_ok_def)
  next
    case (get snap key r)
    then have "d_inner db' = d_inner db"
      by (auto simp: db_get_at_def Let_def split: sum.splits option.splits prod.splits value_type.splits)
    then show ?thesis using b by simp
  next
    case (compact r)
    then show ?thesis using compacts by (simp add: compact_once_def)
  next
    case background
    obtain r db1 where run: "run_one_compaction crc db = (r, db1)" by force
    from compacts [OF this] show ?thesis
      using run background(1) by (simp add: background_round_def level0_bounded_def numbers_ok_def)
  qed (use b in \<open>auto simp: level0_bounded_def numbers_ok_def new_snapshot_def acquire_snapshot_def drop_snapshot_def
        release_snapshot_def db_close_def Let_def\<close>)
qed

text \<open>C11: Writers cannot flood level 0. With automatic compaction on, whatever calls are made in whatever order, failing ones
  included, level 0 never holds more than its limit of 12 tables if it did not when the calls began: a write that would
  add one waits while the limit is reached, and no other call adds one. Opening is not among the calls; the
  recovery may add one table too.\<close>

theorem db_level0_bounded:
  assumes "(db_step crc)\<^sup>*\<^sup>* db db'" and "numbers_ok (d_inner db)" and "\<not> disable_auto_compaction (db_options (d_inner db))"
    and "num_files (vs_current (db_version_set (d_inner db))) 0 \<le> 12"
  shows "num_files (vs_current (db_version_set (d_inner db'))) 0 \<le> 12"
proof -
  have "level0_bounded (d_inner db)" using assms(2-4) by (simp add: level0_bounded_def LEVEL0_STOP_WRITES_TRIGGER_def)
  with assms(1) have "level0_bounded (d_inner db')" by (induction rule: rtranclp_induct) (auto intro: db_step_level0)
  then show ?thesis by (simp add: level0_bounded_def LEVEL0_STOP_WRITES_TRIGGER_def)
qed

theorem db_level0_bounded_witness:
  "\<exists>(db :: db) inner. db_put (\<lambda>_. 0) (\<lambda>_. 0) [1] [7] (d_inner db) = Some (Inr (), inner) \<and>
     num_files (vs_current (db_version_set inner)) 0 \<le> 12"
proof -
  obtain db where db: "db_history (\<lambda>_. 0) [] db" "db_options (d_inner db) = options_default" "numbers_left (d_inner db)"
    "sizes_ok (vs_current (db_version_set (d_inner db)))" "\<not> write_must_wait (d_inner db)"
    using sample_start by blast
  obtain b where b: "db_holds (\<lambda>_. 0) [] b db" using db_history_holds [OF db(1)] by blast
  obtain inner where put: "db_put (\<lambda>_. 0) (\<lambda>_. 0) [1] [7] (d_inner db) = Some (Inr (), inner)"
    using db_put_succeeds [OF b _ _ db(3-5), of "[1]" "[7]" "\<lambda>_. 0"] sample_fits(1) db(2) by auto
  have step: "(db_step (\<lambda>_. 0))\<^sup>*\<^sup>* db (db\<lparr>d_inner := inner\<rparr>)" using db_step.put [OF put] by blast
  have auto_on: "\<not> disable_auto_compaction (db_options (d_inner db))" by (simp add: db(2) options_default_def)
  have "num_files (vs_current (db_version_set (d_inner db))) 0 \<le> 12"
    using db(5) auto_on by (simp add: write_must_wait_def level0_needs_slowdown_def LEVEL0_STOP_WRITES_TRIGGER_def)
  moreover have "numbers_ok (d_inner db)" using b inner_holds_numbers by (auto simp: db_holds_def)
  ultimately have "num_files (vs_current (db_version_set inner)) 0 \<le> 12"
    using db_level0_bounded [OF step _ auto_on] by simp
  then show ?thesis using put by blast
qed

section \<open>A blocked writer is let in\<close>

text \<open>A round for level 0 takes all its tables.\<close>

lemma level0_edit_empties:
  assumes p: "picked v c" and wf: "version_wf v" and c: "co_level c = 0" and dels: "cp_deleted_files out = input_file_numbers c"
    and a: "apply_edit v (compaction_edit (co_level c) out g) = Inr v'"
  shows "files_at v' 0 = []"
proof -
  have "fst (co_inputs c) = files_at v 0" and L: "co_level c + 1 < NUM_LEVELS" using p c by (simp_all add: picked_def)
  then have "deleted_at (ve_deleted_files (compaction_edit (co_level c) out g)) 0 f" if "f \<in> set (files_at v 0)" for f
    using compaction_deleted_at [OF p wf _ that] that by (simp add: dels c)
  then show ?thesis using compaction_edit_level0 [OF a wf L] by (simp add: filter_empty_conv)
qed

lemma pick_compaction_level0:
  assumes "compaction_score (vs_current vs) = Inr (Some (0, best))"
  shows "\<exists>c. pick_compaction vs = Inr (Some c) \<and> co_level c = 0"
  using assms by (auto simp: pick_compaction_def Let_def pick_level_inputs_def NUM_LEVELS_def)

lemma background_round_level0:
  assumes H: "db_holds crc ops b db" and score: "compaction_score (vs_current (db_version_set (d_inner db))) = Inr (Some (0, best))"
    and room: "unat (id_next (db_id_gen (d_inner db))) + length ops < 2 ^ 64"
  shows "num_files (vs_current (db_version_set (d_inner (background_round crc db)))) 0 = 0"
proof -
  let ?vs = "db_version_set (d_inner db)"
  obtain c where pick: "pick_compaction ?vs = Inr (Some c)" "co_level c = 0" using pick_compaction_level0 [OF score] by blast
  obtain db' where run: "run_one_compaction crc db = (Inr True, db')"
    using compaction_step [OF _ _ pick(1) room] H by (auto simp: db_holds_def)
  have wf: "version_wf (vs_current ?vs)" using H inner_holds_numbers by (auto simp: db_holds_def numbers_ok_def)
  obtain out g where "cp_deleted_files out = input_file_numbers c"
    "apply_edit (vs_current ?vs) (compaction_edit (co_level c) out g) = Inr (vs_current (db_version_set (d_inner db')))"
    using run_one_compaction_version(2) [OF run] pick(1) by auto
  from level0_edit_empties [OF pick_compaction_picked [OF pick(1) wf] wf pick(2) this]
  show ?thesis using run by (simp add: background_round_def num_files_def)
qed

lemma flush_memtable_applied:
  assumes "flush_memtable crc inner = (Inr (), inner')" and "mt_entries (db_memtable inner) \<noteq> 0" and "numbers_ok inner"
  shows "\<exists>meta. files_at (vs_current (db_version_set inner')) 0 = files_at (vs_current (db_version_set inner)) 0 @ [meta]"
proof -
  let ?vs = "db_version_set inner"
  obtain meta g1 fs1 log g2 fs2 v fs3 where
    1: "flush_to_level0 ''flushed memtable had no entries'' (db_options inner) (db_memtable inner) (db_id_gen inner) (db_fs inner) =
      (Inr meta, g1, fs1)"
    and w: "write_new_version crc (flush_edit meta log g2 (mt_seq (db_memtable inner))) ?vs fs2 = (Inr v, db_version_set inner', fs3)"
    using assms(1,2) by (auto simp: flush_memtable_def Let_def split: sum.splits prod.splits)
  have "\<not> live_number (vs_current ?vs) (fm_number meta)" "version_wf (vs_current ?vs)"
    using assms(3) flush_to_level0_numbers(2) [OF 1] by (auto simp: numbers_ok_def)
  from flush_edit_applied(2) [OF this(2) write_new_version_result(1) [OF w] this(1)] show ?thesis by blast
qed

text \<open>A put that fills the memtable adds one table to level 0.\<close>

lemma db_put_flushes:
  assumes H: "db_holds crc ops b db" and key: "key \<noteq> []" and fits: "history_fits (db_options (d_inner db)) (ops @ [(Put, key, v)])"
    and ok: "numbers_left (d_inner db)" "sizes_ok (vs_current (db_version_set (d_inner db)))" "\<not> write_must_wait (d_inner db)"
    and full: "memtable_flush_entries (db_options (d_inner db)) \<le> 1"
  shows "\<exists>inner. db_put crc draws key v (d_inner db) = Some (Inr (), inner) \<and> same_below (d_inner db) inner \<and>
    num_files (vs_current (db_version_set inner)) 0 = num_files (vs_current (db_version_set (d_inner db))) 0 + 1"
proof -
  let ?opts = "db_options (d_inner db)"
  have I: "inner_holds crc ops b (d_inner db)" using H by (simp add: db_holds_def)
  obtain inner where put: "db_put crc draws key v (d_inner db) = Some (Inr (), inner)"
    using db_put_succeeds [OF H key fits ok] by blast
  obtain inner1 where 1: "inner_holds crc (ops @ [(Put, key, v)]) b inner1"
    "vs_current (db_version_set inner1) = vs_current (db_version_set (d_inner db))" "db_id_gen inner1 = db_id_gen (d_inner db)"
    "db_write_locked crc draws key v Put (d_inner db) =
      then_do (if flush_due ?opts (db_memtable inner1) then flush_memtable crc inner1 else (Inr (), inner1))
        (\<lambda>_ inner. maybe_schedule_compaction inner)"
    using write_splits [OF I fits, of draws] by blast
  have "mt_entries (db_memtable inner1) = length (ops @ [(Put, key, v)]) - b"
    using 1(1) by (simp add: inner_holds_def memory_holds_def mt_rep_def)
  then have e: "1 \<le> mt_entries (db_memtable inner1)" using inner_holds_le [OF I] by simp
  obtain inner2 where 2: "flush_memtable crc inner1 = (Inr (), inner2)" "maybe_schedule_compaction inner2 = (Inr (), inner)"
    using put key ok(3) e full by (auto simp: db_put_def db_write_def 1(4) then_do_eq_Inr flush_due_def)
  have g: "id_next (db_id_gen inner1) \<noteq> - 1" "id_next (db_id_gen inner1) + 1 \<noteq> - 1"
    using numbers_left_ne [OF ok(1)] by (simp_all add: 1(3))
  have same: "db_version_set inner = db_version_set inner2" using maybe_schedule_holds [OF 2(2)] by auto
  have "same_below inner1 inner2" using flush_memtable_step [OF 1(1) _ g] e 2(1) by auto
  then show ?thesis
    using flush_memtable_applied [OF 2(1) _ inner_holds_numbers [OF 1(1)]] e put
    by (auto simp: same same_below_def 1(2) num_files_def)
qed

lemma db_open_empty_running: "db_open crc draws opts fmempty = (Inr db, fs) \<Longrightarrow> \<not> db_shutting_down (d_inner db)"
  by (auto simp: db_open_def fs_exists_def then_do_eq_Inr create_new_def Let_def split: sum.splits prod.splits)

text \<open>Twelve puts into a database that flushes after every write.\<close>

lemma sample_stalled:
  assumes opts: "opts = options_default\<lparr>memtable_flush_entries := 1\<rparr>"
  shows "n \<le> 12 \<Longrightarrow> \<exists>db. db_history (\<lambda>_. 0) (replicate n (Put, [1], [7])) db \<and> db_options (d_inner db) = opts \<and>
    num_files (vs_current (db_version_set (d_inner db))) 0 = n \<and> \<not> db_shutting_down (d_inner db) \<and>
    (\<forall>l. 1 \<le> l \<longrightarrow> l < NUM_LEVELS \<longrightarrow> files_at (vs_current (db_version_set (d_inner db))) l = []) \<and>
    unat (id_next (db_id_gen (d_inner db))) \<le> 3 + 2 * n"
proof (induction n)
  case 0
  have "history_fits opts []" by (simp add: opts history_fits_def options_default_def filter_size_def div_ceil_def)
  from db_open_empty [OF this, of "\<lambda>_. 0" "\<lambda>_ _. 0"] obtain db where
    db: "db_open (\<lambda>_. 0) (\<lambda>_ _. 0) opts fmempty = (Inr db, db_fs (d_inner db))" "db_options (d_inner db) = opts"
      "id_next (db_id_gen (d_inner db)) = 3" "vs_current (db_version_set (d_inner db)) = version_empty" by blast
  show ?case
    using db db_open_empty_running [OF db(1)] db_history.created [OF db(1) \<open>history_fits opts []\<close>] by (auto simp: num_files_def files_at_def version_empty_def NUM_LEVELS_def)
next
  case (Suc n)
  then obtain db where db: "db_history (\<lambda>_. 0) (replicate n (Put, [1], [7])) db" "db_options (d_inner db) = opts"
    "num_files (vs_current (db_version_set (d_inner db))) 0 = n" "\<not> db_shutting_down (d_inner db)"
    "\<forall>l. 1 \<le> l \<longrightarrow> l < NUM_LEVELS \<longrightarrow> files_at (vs_current (db_version_set (d_inner db))) l = []"
    "unat (id_next (db_id_gen (d_inner db))) \<le> 3 + 2 * n" by auto
  obtain b where b: "db_holds (\<lambda>_. 0) (replicate n (Put, [1], [7])) b db" using db_history_holds [OF db(1)] by blast
  have fits: "history_fits (db_options (d_inner db)) (replicate n (Put, [1], [7]) @ [(Put, [1], [7])])"
    using Suc.prems by (simp add: db(2) opts history_fits_def options_default_def filter_size_def div_ceil_def op_size_def
        sum_list_replicate)
  have left: "numbers_left (d_inner db)" using db(6) Suc.prems by (simp add: numbers_left_def)
  have sizes: "sizes_ok (vs_current (db_version_set (d_inner db)))" using db(5) by (simp add: sizes_ok_def total_size_def)
  have room: "\<not> write_must_wait (d_inner db)"
    using db(3) Suc.prems by (simp add: write_must_wait_def level0_needs_slowdown_def LEVEL0_STOP_WRITES_TRIGGER_def)
  obtain inner where put: "db_put (\<lambda>_. 0) (\<lambda>_. 0) [1] [7] (d_inner db) = Some (Inr (), inner)" "same_below (d_inner db) inner"
    "num_files (vs_current (db_version_set inner)) 0 = n + 1"
    using db_put_flushes [OF b _ fits left sizes room, of "\<lambda>_. 0"] db(2,3) by (auto simp: opts options_default_def)
  have "db_write_locked (\<lambda>_. 0) (\<lambda>_. 0) [1] [7] Put (d_inner db) = (Inr (), inner)"
    using put(1) room by (simp add: db_put_def db_write_def)
  note same = db_write_locked_options [OF this]
  have "db_history (\<lambda>_. 0) (replicate (Suc n) (Put, [1], [7])) (db\<lparr>d_inner := inner\<rparr>)"
    using db_history.put [OF db(1) put(1) fits] by (simp add: replicate_append_same)
  then show ?case
    using put(2,3) db(2,4-6) same db_put_drawn [OF put(1)]
    by (intro exI [of _ "db\<lparr>d_inner := inner\<rparr>"]) (auto simp: same_below_def)
qed

lemma level0_score_best:
  assumes 0: "num_files v 0 \<noteq> 0" and others: "\<forall>l. 1 \<le> l \<longrightarrow> l < NUM_LEVELS \<longrightarrow> files_at v l = []"
  shows "\<exists>s. compaction_score v = Inr (Some (0, s))"
proof -
  have size: "total_size v l = Inr 0" if "0 < l" "l < NUM_LEVELS" for l using others that by (simp add: total_size_def)
  obtain best where best: "compaction_score v = Inr best" "best \<noteq> None"
    "\<forall>l s. best = Some (l, s) \<longrightarrow> l < NUM_LEVELS \<and> level_score v l = Inr (Some s)"
    using compaction_score_result [of v] size 0 by auto
  then obtain l s where ls: "best = Some (l, s)" by auto
  have "l = 0"
  proof (rule ccontr)
    assume "l \<noteq> 0"
    then show False using best(3) size [of l] ls by (simp add: level_score_def)
  qed
  then show ?thesis using best(1) ls by blast
qed

text \<open>C12: A blocked writer is let in. While a write waits because level 0 is full, the background thread has work, and when
  no other level is more urgent its next round succeeds, empties level 0 and leaves the writer free to go
  on, as long as the file numbers do not run out.\<close>

theorem db_blocked_writer_resumes:
  assumes "db_history crc ops db" and "write_must_wait (d_inner db)" and "\<not> db_shutting_down (d_inner db)"
    and "compaction_score (vs_current (db_version_set (d_inner db))) = Inr (Some (0, best))"
    and "unat (id_next (db_id_gen (d_inner db))) + length ops < 2 ^ 64"
  shows "background_ready (d_inner db) \<and>
    num_files (vs_current (db_version_set (d_inner (background_round crc db)))) 0 = 0 \<and>
    \<not> write_must_wait (d_inner (background_round crc db))"
proof -
  obtain b where "db_holds crc ops b db" using db_history_holds [OF assms(1)] by blast
  from background_round_level0 [OF this assms(4,5)] show ?thesis
    using assms(3,4) by (simp add: background_ready_def write_must_wait_def level0_needs_slowdown_def LEVEL0_STOP_WRITES_TRIGGER_def)
qed


theorem db_blocked_writer_resumes_witness:
  "\<exists>(db :: db) ops. db_history (\<lambda>_. 0) ops db \<and> write_must_wait (d_inner db) \<and> background_ready (d_inner db) \<and>
     \<not> write_must_wait (d_inner (background_round (\<lambda>_. 0) db))"
proof -
  obtain db where db: "db_history (\<lambda>_. 0) (replicate 12 (Put, [1], [7])) db"
    "db_options (d_inner db) = options_default\<lparr>memtable_flush_entries := 1\<rparr>"
    "num_files (vs_current (db_version_set (d_inner db))) 0 = 12" "\<not> db_shutting_down (d_inner db)"
    "\<forall>l. 1 \<le> l \<longrightarrow> l < NUM_LEVELS \<longrightarrow> files_at (vs_current (db_version_set (d_inner db))) l = []"
    "unat (id_next (db_id_gen (d_inner db))) \<le> 27"
    using sample_stalled [OF refl, of 12] by auto
  have wait: "write_must_wait (d_inner db)"
    using db(2,3) by (simp add: write_must_wait_def level0_needs_slowdown_def LEVEL0_STOP_WRITES_TRIGGER_def options_default_def)
  obtain s where "compaction_score (vs_current (db_version_set (d_inner db))) = Inr (Some (0, s))"
    using level0_score_best [OF _ db(5)] db(3) by auto
  from db_blocked_writer_resumes [OF db(1) wait db(4) this] show ?thesis using db(1,6) wait by auto
qed

text \<open>A background thread that finds a level due but picks nothing goes round without waiting.\<close>

lemma background_spins:
  assumes "compaction_score (vs_current (db_version_set (d_inner db))) \<noteq> Inr None"
    and "pick_compaction (db_version_set (d_inner db)) = Inr None"
  shows "\<exists>b. (background_round crc ^^ n) db = db\<lparr>d_inner := (d_inner db)\<lparr>db_bg_scheduled := b\<rparr>\<rparr>"
    and "background_ready (d_inner ((background_round crc ^^ n) db)) \<longleftrightarrow> \<not> db_shutting_down (d_inner db)"
proof -
  show 1: "\<exists>b. (background_round crc ^^ n) db = db\<lparr>d_inner := (d_inner db)\<lparr>db_bg_scheduled := b\<rparr>\<rparr>" for n
  proof (induction n)
    case 0
    show ?case by (intro exI [of _ "db_bg_scheduled (d_inner db)"]) simp
  next
    case (Suc n)
    then show ?case using assms(2) by (auto simp: background_round_def run_one_compaction_def)
  qed
  then obtain b where "(background_round crc ^^ n) db = db\<lparr>d_inner := (d_inner db)\<lparr>db_bg_scheduled := b\<rparr>\<rparr>" by blast
  then show "background_ready (d_inner ((background_round crc ^^ n) db)) \<longleftrightarrow> \<not> db_shutting_down (d_inner db)"
    using assms(1) by (simp add: background_ready_def)
qed

text \<open>C40: The background thread can spin on a compaction that is never chosen: when the only level with data lies entirely at
  or before its compaction pointer, the score calls for a compaction while picking one returns nothing, because the
  pointer does not wrap around. After any number of rounds the database is unchanged but for the
  scheduling flag, and unless it is shutting down the thread is ready for the next round at once.\<close>

theorem pick_compaction_stalls:
  assumes "vs = db_version_set (d_inner db)"
    and "\<forall>l. 0 < l \<and> l < NUM_LEVELS \<longrightarrow> (\<exists>size. total_size (vs_current vs) l = Inr size)"
    and "num_files (vs_current vs) 0 = 0"
    and "\<forall>l. 0 < l \<and> l < NUM_LEVELS \<and> l \<noteq> level \<longrightarrow> total_size (vs_current vs) l = Inr 0"
    and "0 < level" and "level < NUM_LEVELS" and "total_size (vs_current vs) level \<noteq> Inr 0"
    and "compact_pointer vs level \<noteq> []"
    and "\<forall>f \<in> set (files_at (vs_current vs) level). user_key (fm_largest f) \<le> compact_pointer vs level"
  shows "compaction_score (vs_current vs) \<noteq> Inr None \<and> pick_compaction vs = Inr None \<and>
    (\<exists>b. (background_round crc ^^ n) db = db\<lparr>d_inner := (d_inner db)\<lparr>db_bg_scheduled := b\<rparr>\<rparr>) \<and>
    background_ready (d_inner ((background_round crc ^^ n) db)) = (\<not> db_shutting_down (d_inner db))"
proof -
  have "compaction_score (vs_current vs) \<noteq> Inr None" "pick_compaction vs = Inr None"
    using pick_compaction_none_behind_pointer [OF assms(2-9)] by auto
  then show ?thesis using background_spins [of db, where crc = crc and n = n] by (simp add: assms(1))
qed

theorem pick_compaction_stalls_witness:
  "\<exists>db :: db. num_files (vs_current (db_version_set (d_inner db))) 2 = 1 \<and>
     pick_compaction (db_version_set (d_inner db)) = Inr None \<and>
     background_ready (d_inner ((background_round (\<lambda>_. 0) ^^ 5) db))"
proof -
  let ?f = "file_meta_new 3 100 (InternalKey [1] 1 Put) (InternalKey [9] 1 Put)"
  let ?vs = "(fst (new_pending 1 fmempty))\<lparr>vs_current := \<lparr>v_files = [[], [], [?f], [], [], [], []]\<rparr>,
      vs_compact_pointer := (replicate NUM_LEVELS [])[2 := [9]]\<rparr>"
  let ?db = "\<lparr>d_inner = \<lparr>db_fs = fmempty, db_version_set = ?vs, db_memtable = memtable_new,
      db_wal = fst (log_open (log_path 2) fmempty), db_id_gen = id_generator_new 4, db_wal_number = 2,
      db_options = options_default, db_bg_scheduled = True, db_shutting_down = False\<rparr>, d_cache = cache_with_capacity 0\<rparr>"
  have "total_size (vs_current ?vs) l = Inr (if l = 2 then 100 else 0)" if "0 < l" "l < NUM_LEVELS" for l
    using level_cases [OF that(2)] that(1)
    by (elim disjE) (simp_all add: total_size_def files_at_def file_meta_new_def)
  moreover have "compact_pointer ?vs 2 = [9]" by (simp add: compact_pointer_def NUM_LEVELS_def)
  moreover have "files_at (vs_current ?vs) 2 = [?f]" "files_at (vs_current ?vs) 0 = []" by (simp_all add: files_at_def)
  ultimately have "pick_compaction ?vs = Inr None \<and> background_ready (d_inner ((background_round (\<lambda>_. 0) ^^ 5) ?db))"
    using pick_compaction_stalls [of ?vs ?db 2, where crc = "\<lambda>_. 0" and n = 5] by (auto simp: num_files_def NUM_LEVELS_def file_meta_new_def)
  then show ?thesis by (intro exI [of _ ?db]) (simp add: num_files_def files_at_def)
qed

end
