(* ===== verification/Spec2Isabelle.thy ===== *)
theory Spec2Isabelle
  imports Varint Internal_Key Bloom Skip_List Wal Block Table Mem_Table Iterators File_Meta File_System Disk Manifest Version Table_Cache Compaction Db Store History Compacting Compact_Step Scanning Numbers Runs Frames Overlapping Crashing Opening Creating Torn_Manifest Stalls
begin

text \<open>
  A model of \<^verbatim>\<open>mulan-lsm\<close>, a key-value store that is a log-structured merge tree in one directory, with the
  theorems that make it correct. Paths below are relative to \<^verbatim>\<open>src/src\<close>.

  \<^bold>\<open>The program.\<close> A write gets the next sequence number, is appended to the write-ahead log and goes into the
  memtable, a skip list of versions. A full memtable is flushed into a sorted table on level 0 and the log starts
  anew. A background thread merges tables of one level into the next and drops the versions no snapshot can see.
  Which tables make up the database is a chain of edits in the manifest; the file CURRENT names the manifest. A read
  at a sequence number asks the memtable, the tables of level 0 from new to old, and one table of every deeper
  level; a scan merges all of them. Opening replays manifest and log.

  \<^bold>\<open>Theories of the code\<close>, from the bottom up. Every definition carries the name it has in the code, with a
  prefix where the name is taken; \<^verbatim>\<open>self\<close> is an argument and, when the method changes it, part of the result.

  \<^item> \<open>Lsm_Prelude\<close>: the machine types, \<^verbatim>\<open>error.rs\<close> as the type \<open>mulan_error\<close>, results \<open>'a res\<close> with \<open>bind_res\<close>
    for the question mark and \<open>then_do\<close> for code that also changes a state, slices with their panics, little-endian
    integers, the contract \<open>key_comparator\<close> of a comparison.
  \<^item> \<open>Varint\<close> (\<^verbatim>\<open>varint.rs\<close>), \<open>Internal_Key\<close> (\<^verbatim>\<open>internal_key.rs\<close>), \<open>Bloom\<close> (\<^verbatim>\<open>bloom.rs\<close>), \<open>Skip_List\<close>
    (\<^verbatim>\<open>skiplist.rs\<close>, an arena of nodes with links as indices), \<open>Wal\<close> (\<^verbatim>\<open>wal.rs\<close>: pieces, blocks, writer, reader,
    log entries).
  \<^item> \<open>Block\<close> (\<^verbatim>\<open>sstable/block.rs\<close>) and \<open>Table\<close> (\<^verbatim>\<open>sstable/table.rs\<close>): builders and readers over the bytes.
  \<^item> \<open>Mem_Table\<close> (\<^verbatim>\<open>memtable.rs\<close>), \<open>Iterators\<close> (\<^verbatim>\<open>iterator.rs\<close>: the sources, the merge through a heap, the user
    iterator).
  \<^item> \<open>File_Meta\<close> (\<^verbatim>\<open>file_meta.rs\<close>: names and numbers of files), \<open>File_System\<close> (the directory as a finite map and
    open logs), \<open>Disk\<close> (lists of file-system calls, what is synced, and what a crash leaves after each), \<open>Manifest\<close> (\<^verbatim>\<open>manifest.rs\<close>), \<open>Version\<close> (\<^verbatim>\<open>version.rs\<close>), \<open>Table_Cache\<close> (\<^verbatim>\<open>table_cache.rs\<close>).
  \<^item> \<open>Compaction\<close> (\<^verbatim>\<open>compaction.rs\<close>: scores, choice of the inputs, the merge into new tables).
  \<^item> \<open>Db\<close> (\<^verbatim>\<open>db.rs\<close>): \<open>db_inner\<close> is what the mutex guards together with the directory, \<open>db\<close> adds the cache.
    \<open>create_new\<close>, \<open>recover_open\<close>, \<open>db_put\<close>, \<open>db_delete\<close>, \<open>flush_memtable\<close>, \<open>db_get_at\<close>, \<open>new_iterator_at\<close>,
    \<open>run_one_compaction\<close> and the rest are one definition each; an operation returns the state it leaves also when
    it fails. \<open>db_step\<close> is the step relation of the calls, one step per section that holds the lock.
  \<^item> \<open>Overlapping\<close>: \<open>system_step\<close>, in which any number of threads are inside \<open>get_at\<close> or \<open>new_iterator_at\<close> and
    proceed table by table, without the lock, between the calls of \<open>db_step\<close>.

  \<^bold>\<open>Interfaces.\<close> \<open>key_comparator\<close> (block lookups; interpreted by the byte order and by the order of encoded
  keys), \<open>ordered_index\<close> (what the memtable asks of the skip list; interpreted by it), \<open>record_log\<close> (an
  append-only log; interpreted by the write-ahead log), \<open>min_heap\<close> (the contract of the standard library's heap;
  interpreted by a sorted list), \<open>table_source\<close> (where reads get tables from; interpreted by the cache).

  \<^bold>\<open>What the lemmas show\<close>, layer by layer.

  \<^item> Bytes: encoders and decoders are inverse; decoding an edit never panics; a log cut anywhere reads back as a
    prefix of its records; a block and a table contain exactly the entries that were added and a lookup finds the
    newest version a snapshot sees; a filter has no false negatives.
  \<^item> Memory: the skip list refines a sorted association list; the memtable answers as the list of its writes;
    the merge is the ordered union of its sources; the user iterator shows every visible key once and stops.
  \<^item> Metadata: an edit keeps a version well formed; the version set is recovered from its manifest, also after a
    crash that cuts the manifest, up to the last edit that is whole; a crash at any call of the switch of CURRENT leaves
    the old or the new name; the cache never changes what a read sees.
  \<^item> Compaction: what \<open>do_compaction\<close> writes keeps every read at a registered snapshot, but not that of a handle whose
    twin at the same sequence number was released (\<open>release_snapshot_drops_twins\<close>).
  \<^item> \<open>Store\<close>, \<open>History\<close>, \<open>Compacting\<close>, \<open>Compact_Step\<close>, \<open>Scanning\<close> and \<open>Runs\<close>: the refinement of the whole
    database. \<open>store_holds\<close> relates the tables of a version to the writes they came from, \<open>inner_holds\<close> adds the
    memtable, the log and the manifest, and every operation keeps it. \<open>db_history\<close> are the runs from an empty
    directory through writes, reads, snapshots, flushes, compactions, closings, crashes and reopenings. In a run a
    read returns the last write, a scan shows what reads would return, and a reopening loses no synced write. The rule
    for reopening in \<open>db_history\<close> goes on with the writes that were recovered, as many as the last sequence number says;
    that these are enough is not part of the rule but the theorem \<open>db_reopen_durable\<close>.
  \<^item> \<open>Numbers\<close> and \<open>Frames\<close>: what holds in every sequence of calls, failing ones included: file numbers are never
    reused for a live table, no call changes a table with a number the generator has passed, and cached readers
    agree with the files. Therefore (\<open>Overlapping\<close>) a read that gave up the lock returns what it would have
    returned in one piece.
  \<^item> \<open>Crashing\<close>: a crash in the middle of a put, a delete, a flush or a compaction, at any write to the directory and
    with the last append to log or manifest cut anywhere, loses no acknowledged write whose log record survives. These
    directories end before the record of the call's edit is whole; with the whole record the directory is the one the
    call leaves, to which \<open>db_reopen_durable\<close> applies.
    \<open>Opening\<close>: neither does a crash in the middle of the recovery that follows a crash which left the manifest whole.
    \<open>Torn_Manifest\<close>: but the second opening after a crash that tore the manifest loses the log, because the first one
    appends behind the torn record. \<open>Creating\<close>: a crash while a database is created leaves an empty directory, one that
    opens as an empty database, or, before CURRENT has its name, one that is refused ever after.
  \<^item> \<open>Stalls\<close>: level 0 never outgrows its limit, and a round of the background thread that compacts level 0 succeeds
    and lets the blocked writers in; but a level that lies behind its compaction pointer makes the thread spin.

  \<^bold>\<open>Integers, panics, bounds.\<close> \<^verbatim>\<open>u8\<close> to \<^verbatim>\<open>u64\<close> are words of their width. Additions the code leaves unchecked
  panic on overflow, as in a debug build; a panic, also of an index or slice, is the error \<open>Panicked\<close>. In the
  program a panic under the lock poisons the mutex, and every later call panics as well; in the model the state goes on
  being used, so \<open>db_step\<close> has more runs than the program. \<^verbatim>\<open>usize\<close>
  values that count bytes or objects in memory are natural numbers, checked against \<open>usize_max\<close> where the code
  computes them from file contents. Scores are rationals rounded as doubles. Loops are total functions; the walks
  of the skip list, which could run forever in a malformed arena, are partial and shown to return under the
  invariant. No fuel is used. Theorems about whole runs assume \<open>history_fits\<close> (all the bytes ever written are
  below 4 GiB, so that no offset overflows 32 bits, and the filter options below 512 MiB), \<open>numbers_left\<close> or a like
  bound where file numbers are drawn, and for a put to return \<open>sizes_ok\<close>, that the sizes of a level can be added.

  \<^bold>\<open>Assumptions about the levels.\<close> Compactions belong to a run of \<open>db_history\<close> only if they leave the levels from
  1 on sorted and disjoint (\<open>levels_sorted\<close>). The code does not see to this: \<open>apply_edit\<close> appends new tables, and an
  output can be split between two versions of a key. \<open>compaction_hides_table\<close> shows what happens otherwise.
  \<open>Overlapping\<close> and \<open>Numbers\<close> do not need the assumption.

  \<^bold>\<open>Parameters.\<close> The checksum \<^verbatim>\<open>crc\<close> is an arbitrary function; the random heights of the skip list are the argument
  \<open>draws\<close>. Nothing is assumed of either, except that \<open>torn_manifest_loses_log\<close> supposes a checksum that does not match
  by chance.

  \<^bold>\<open>Not modelled.\<close> Failing writes, renames and deletions of the operating system: they succeed and take effect at
  once and in order. A table that is not finished because its entries cannot be added is left as an empty file. Outside
  \<open>Disk\<close>, \<open>write_current\<close> and \<open>Creating\<close> syncing has no effect of its own; a crash is a directory in which the log or the
  manifest is cut short, in the middle of a call also one in which the later writes of the call are missing.
  Starting, joining and waking threads; a waiting writer is a call that has not begun (\<open>write_must_wait\<close>), and the
  condition variable is not modelled. Creating the directory. Getters that only read a field, which is the record's
  field in the model. \<^verbatim>\<open>lib.rs\<close> and \<^verbatim>\<open>sstable/mod.rs\<close>, which only name the modules, and the tests.
\<close>

end
